(* ===== verification/Prelude.thy ===== *)
theory Prelude
  imports Main "HOL-Library.Word"
begin

text \<open>
  Shared vocabulary of the development: the machine types of the C sources, the outcome type
  of a kernel routine, the search loop that the kernel's table scans have in common, and
  generic lemmas on lists and words used by several components.

  \<^item> C's \<open>uint8_t\<close>, \<open>uint16_t\<close>, \<open>uint32_t\<close>, \<open>uint64_t\<close> are words of that width, so that
    \<open>+\<close> and \<open>-\<close> wrap. A pointer is a 64-bit word, and 0 is \<open>NULL\<close>.
  \<^item> C's \<open>int\<close> is HOL's \<open>int\<close>; where a 64-bit value is passed as an \<open>int\<close> parameter the
    narrowing conversion \<open>to_int\<close> is written out.
\<close>

section \<open>Machine types\<close>

type_synonym u8 = "8 word"
type_synonym u16 = "16 word"
type_synonym u32 = "32 word"
type_synonym u64 = "64 word"
type_synonym ptr = "64 word"

abbreviation NULL :: ptr where "NULL \<equiv> 0"

text \<open>The conversion of a \<open>uint64_t\<close> argument to an \<open>int\<close> parameter: the low 32 bits, signed.\<close>

definition to_int :: "u64 \<Rightarrow> int" where
  "to_int w = sint (ucast w :: u32)"

lemma to_int_numeral [simp]: "to_int 0 = 0" "to_int 1 = 1" "to_int (- 1) = - 1" "to_int (- 2) = - 2"
  by (simp_all add: to_int_def) code_simp+

lemma to_int_of_nat: "n < 128 \<Longrightarrow> to_int (of_nat n) = int n"
  unfolding to_int_def by transfer (simp add: take_bit_int_eq_self signed_take_bit_int_eq_self)

section \<open>Outcomes of kernel routines\<close>

text \<open>
  A routine runs to completion (\<open>Ret\<close>), gives up the processor by \<open>int 70h\<close> and continues
  later from whatever state the kernel is in by then (\<open>Yld\<close>), or does something that has no
  defined result (\<open>Fault\<close>): it follows a bad pointer, overruns an array, shifts by more bits than the type has, reads a variable that was never set, calls a library routine
  that has no result (\<open>No_Result\<close>), or its chain of nested calls is longer than the fuel of the model.
\<close>

datatype fault = Null_Deref | Bad_Pointer | Array_Bounds | Buffer_Overflow | Bad_Shift | Uninitialised | No_Result | Out_Of_Fuel

datatype (dead 's, 'a) res =
    Ret 'a 's
  | Yld 's "'s \<Rightarrow> ('s, 'a) res"
  | Fault fault

primrec bnd :: "('s, 'a) res \<Rightarrow> ('a \<Rightarrow> 's \<Rightarrow> ('s, 'b) res) \<Rightarrow> ('s, 'b) res" where
  "bnd (Ret x s) f = f x s"
| "bnd (Yld s k) f = Yld s (\<lambda>t. bnd (k t) f)"
| "bnd (Fault e) f = Fault e"

lemma bnd_assoc: "bnd (bnd m f) g = bnd m (\<lambda>x s. bnd (f x s) g)"
  by (induction m) auto

lemma bnd_Ret_right [simp]: "bnd m Ret = m"
  by (induction m) auto

text \<open>What is left of a call once it has returned: its state, when it neither yields nor faults.\<close>

fun final :: "('s, 'a) res \<Rightarrow> 's option" where
  "final (Ret x s) = Some s"
| "final (Yld s k) = None"
| "final (Fault e) = None"

text \<open>The state in which control leaves the calling process, by a return or by a yield.\<close>

fun left_at :: "('s, 'a) res \<Rightarrow> 's option" where
  "left_at (Ret x s) = Some s"
| "left_at (Yld s k) = Some s"
| "left_at (Fault e) = None"

text \<open>
  Running a resumption with a handler for its yields: \<open>h\<close> is everything that happens from the
  moment the process gives up the processor until it gets it back.
\<close>

primrec run_with :: "('s \<Rightarrow> 's) \<Rightarrow> ('s, 'a) res \<Rightarrow> ('a \<times> 's) option" where
  "run_with h (Ret x s) = Some (x, s)"
| "run_with h (Yld s k) = run_with h (k (h s))"
| "run_with h (Fault e) = None"

lemma run_with_bnd:
  "run_with h (bnd m f) = Option.bind (run_with h m) (\<lambda>(x, s). run_with h (f x s))"
  by (induction m) auto

section \<open>Search loops\<close>

text \<open>
  \<open>for (i = i0; i < i0 + k && !p(i); i++);\<close>: the index at which such a loop stops. The table
  scans of the kernel (free slots, names, end of a list of pages) all have this shape.
\<close>

primrec scan :: "nat \<Rightarrow> (nat \<Rightarrow> bool) \<Rightarrow> nat \<Rightarrow> nat" where
  "scan 0 p i = i"
| "scan (Suc k) p i = (if p i then i else scan k p (Suc i))"

lemma scan_ge: "i \<le> scan k p i"
  by (induction k arbitrary: i) (auto intro: order_trans [OF le_SucI])

lemma scan_le: "scan k p i \<le> i + k"
proof (induction k arbitrary: i)
  case (Suc k)
  from Suc.IH [of "Suc i"] show ?case by auto
qed simp

lemma scan_stops: "scan k p i < i + k \<Longrightarrow> p (scan k p i)"
proof (induction k arbitrary: i)
  case (Suc k)
  from Suc.IH [of "Suc i"] Suc.prems show ?case by (auto split: if_splits)
qed simp

lemma scan_before: "i \<le> j \<Longrightarrow> j < scan k p i \<Longrightarrow> \<not> p j"
proof (induction k arbitrary: i)
  case (Suc k)
  show ?case
  proof (cases "i = j")
    case True
    with Suc.prems show ?thesis by (auto split: if_splits)
  next
    case False
    with Suc.prems have "Suc i \<le> j" "j < scan k p (Suc i)" by (auto split: if_splits)
    then show ?thesis by (rule Suc.IH)
  qed
qed simp

lemma scan_full_iff: "scan k p i = i + k \<longleftrightarrow> (\<forall>j. i \<le> j \<and> j < i + k \<longrightarrow> \<not> p j)"
proof
  assume full: "scan k p i = i + k"
  show "\<forall>j. i \<le> j \<and> j < i + k \<longrightarrow> \<not> p j"
    using scan_before [of i _ k p] full by auto
next
  assume none: "\<forall>j. i \<le> j \<and> j < i + k \<longrightarrow> \<not> p j"
  show "scan k p i = i + k"
  proof (rule ccontr)
    assume "scan k p i \<noteq> i + k"
    with scan_le [of k p i] have lt: "scan k p i < i + k" by simp
    with scan_stops [OF lt] scan_ge [of i k p] none show False by auto
  qed
qed

lemma scan_0_full_iff: "scan k p 0 = k \<longleftrightarrow> (\<forall>j<k. \<not> p j)"
  using scan_full_iff [of k p 0] by simp

lemma scan_0_eqI: "n < k \<Longrightarrow> p n \<Longrightarrow> (\<And>j. j < n \<Longrightarrow> \<not> p j) \<Longrightarrow> scan k p 0 = n"
proof -
  assume n: "n < k" "p n" and before: "\<And>j. j < n \<Longrightarrow> \<not> p j"
  have "\<not> scan k p 0 < n"
  proof
    assume lt: "scan k p 0 < n"
    with n have "scan k p 0 < 0 + k" by simp
    from scan_stops [OF this] before [OF lt] show False by simp
  qed
  moreover have "\<not> n < scan k p 0" using n scan_before [of 0 n k p] by auto
  ultimately show ?thesis by simp
qed

section \<open>Lists\<close>

lemma distinct_list_update_free:
  "distinct (drop (Suc i) xs) \<Longrightarrow> x \<notin> set (drop (Suc i) xs) \<Longrightarrow> i < length xs \<Longrightarrow>
   distinct (drop i (xs[i := x]))"
  by (metis Cons_nth_drop_Suc distinct.simps(2) drop_update_cancel length_list_update lessI
      nth_list_update_eq)

lemma set_drop_nth: "i < length xs \<Longrightarrow> set (drop i xs) = insert (xs ! i) (set (drop (Suc i) xs))"
  by (simp add: Cons_nth_drop_Suc [symmetric])

lemma butlast_take_Suc: "n < length xs \<Longrightarrow> take (Suc n) xs = take n xs @ [xs ! n]"
  by (rule take_Suc_conv_app_nth)

section \<open>Words\<close>

lemma unat_Suc_word: "w \<noteq> - 1 \<Longrightarrow> unat (w + 1) = Suc (unat (w :: 'a::len word))"
  by (metis Suc_eq_plus1 add.commute eq_neg_iff_add_eq_0 unatSuc)

lemma unat_pred_word: "w \<noteq> 0 \<Longrightarrow> unat (w - 1) = unat (w :: 'a::len word) - 1"
  by (metis unat_minus_one)

lemma unat_u8: "unat (i :: u8) < 256"
  using unsigned_less [of i, where ?'a = nat] by simp

lemma unat_u16: "unat (i :: u16) < 65536"
  using unsigned_less [of i, where ?'a = nat] by simp

lemma unat_of_nat_u64: "n < 2 ^ 64 \<Longrightarrow> unat (of_nat n :: u64) = n"
  by (simp add: unat_of_nat)

lemma ucast_eqI: "unat (w :: u64) = unat (i :: u8) \<Longrightarrow> ucast w = i"
proof -
  assume "unat w = unat i"
  then have "unat (ucast w :: u8) = take_bit 8 (unat i)" by (simp add: unsigned_ucast_eq)
  also have "\<dots> = unat i" using unat_u8 [of i] by (simp add: take_bit_nat_eq_self)
  finally show ?thesis by (simp add: unsigned_word_eqI)
qed

section \<open>Little-endian numbers\<close>

primrec le_bytes :: "nat \<Rightarrow> u64 \<Rightarrow> u8 list" where
  "le_bytes 0 w = []"
| "le_bytes (Suc n) w = ucast w # le_bytes n (drop_bit 8 w)"

primrec of_le_bytes :: "u8 list \<Rightarrow> u64" where
  "of_le_bytes [] = 0"
| "of_le_bytes (b # bs) = or (ucast b) (push_bit 8 (of_le_bytes bs))"

lemma of_le_bytes_le_bytes: "of_le_bytes (le_bytes n w) = take_bit (8 * n) w"
proof (induction n arbitrary: w)
  case (Suc n)
  have "or (take_bit 8 w) (push_bit 8 (take_bit (8 * n) (drop_bit 8 w))) = take_bit (8 + 8 * n) w"
    by (rule bit_eqI) (auto simp: bit_simps)
  moreover have "ucast (ucast w :: u8) = take_bit 8 w" by (rule bit_eqI) (auto simp: bit_simps)
  ultimately show ?case using Suc by simp
qed simp

lemma le_bytes_8: "of_le_bytes (le_bytes 8 w) = w"
  by (simp add: of_le_bytes_le_bytes take_bit_word_eq_self)

lemma length_le_bytes [simp]: "length (le_bytes n w) = n"
  by (induction n arbitrary: w) simp_all

end
