(* ===== verification/Ring_Buffer.thy ===== *)
theory Ring_Buffer
  imports Prelude
begin

text \<open>
  Ring buffers. The keyboard driver's scancode buffer (\<open>Kernel/keyboardDriver.c\<close>) and the
  FIFOs' circular buffer (\<open>Kernel/fifo.c\<close>) are arrays read from one index and written at
  another, both modulo the array's size. \<open>ring\<close> is the sequence such an array holds, with the
  lemmas about writing past its end and reading from its front. The locale \<open>stream_buffer\<close> is
  the contract both promise to their clients: what is read is what was written, in order.
\<close>

section \<open>The contents of a ring\<close>

definition ring :: "'a list \<Rightarrow> nat \<Rightarrow> nat \<Rightarrow> 'a list" where
  "ring xs a n = map (\<lambda>i. xs ! ((a + i) mod length xs)) [0..<n]"

lemma length_ring [simp]: "length (ring xs a n) = n"
  by (simp add: ring_def)

lemma ring_0 [simp]: "ring xs a 0 = []"
  by (simp add: ring_def)

lemma nth_ring [simp]: "i < n \<Longrightarrow> ring xs a n ! i = xs ! ((a + i) mod length xs)"
  by (simp add: ring_def)

lemma ring_mod [simp]: "ring xs (a mod length xs) n = ring xs a n"
  by (simp add: ring_def mod_add_left_eq)

lemma drop_ring: "drop k (ring xs a n) = ring xs (a + k) (n - k)"
  by (rule nth_equalityI) (auto simp: add.assoc)

lemma take_ring: "take k (ring xs a n) = ring xs a (min k n)"
  by (rule nth_equalityI) auto

lemma ring_add: "ring xs a (m + n) = ring xs a m @ ring xs (a + m) n"
  by (rule nth_equalityI) (auto simp: nth_append)

text \<open>Two arrays agree on a ring when they agree on its positions.\<close>

lemma ring_cong:
  assumes "length ys = length xs"
    and "\<And>i. i < n \<Longrightarrow> ys ! ((a + i) mod length xs) = xs ! ((a + i) mod length xs)"
  shows "ring ys a n = ring xs a n"
  using assms by (intro nth_equalityI) auto

text \<open>Positions of a ring that is not longer than its array are distinct.\<close>

lemma ring_pos_inj:
  fixes i j N :: nat
  assumes "i < N" "j < N" "(a + i) mod N = (a + j) mod N"
  shows "i = j"
proof (rule ccontr)
  assume "i \<noteq> j"
  then consider "i < j" | "j < i" by linarith
  then show False
  proof cases
    case 1
    from assms(3) have "N dvd (a + j) - (a + i)" by (metis mod_eq_dvd_iff_nat 1 add_le_cancel_left less_imp_le)
    with 1 assms show ?thesis by (auto dest: dvd_imp_le)
  next
    case 2
    from assms(3) have "N dvd (a + i) - (a + j)" by (metis mod_eq_dvd_iff_nat 2 add_le_cancel_left less_imp_le)
    with 2 assms show ?thesis by (auto dest: dvd_imp_le)
  qed
qed

text \<open>Writing one element just past a ring that is not full appends it.\<close>

lemma ring_snoc:
  assumes "n < length xs"
  shows "ring (xs[(a + n) mod length xs := x]) a (Suc n) = ring xs a n @ [x]"
proof (rule nth_equalityI)
  fix i
  assume i: "i < length (ring (xs[(a + n) mod length xs := x]) a (Suc n))"
  show "ring (xs[(a + n) mod length xs := x]) a (Suc n) ! i = (ring xs a n @ [x]) ! i"
  proof (cases "i = n")
    case True
    have "(a + n) mod length xs < length xs" using assms by (intro mod_less_divisor) auto
    with True show ?thesis by (simp add: nth_append)
  next
    case False
    with i have "i < n" by simp
    with assms have "(a + n) mod length xs \<noteq> (a + i) mod length xs"
      using ring_pos_inj [of n "length xs" i a] by auto
    with \<open>i < n\<close> show ?thesis by (simp add: nth_append)
  qed
qed simp

text \<open>An array that holds \<open>ds\<close> from position \<open>a + n\<close> on, and is unchanged elsewhere, is longer by \<open>ds\<close>.\<close>

lemma ring_extend:
  assumes len: "length ys = length xs" and fits: "n + length ds \<le> length xs"
    and new: "\<And>j. j < length ds \<Longrightarrow> ys ! ((a + n + j) mod length xs) = ds ! j"
    and old: "\<And>i. i < n \<Longrightarrow> ys ! ((a + i) mod length xs) = xs ! ((a + i) mod length xs)"
  shows "ring ys a (n + length ds) = ring xs a n @ ds"
proof (rule nth_equalityI)
  fix i
  assume i: "i < length (ring ys a (n + length ds))"
  show "ring ys a (n + length ds) ! i = (ring xs a n @ ds) ! i"
  proof (cases "i < n")
    case True
    with old len show ?thesis by (simp add: nth_append)
  next
    case False
    with i obtain j where "i = n + j" "j < length ds" by (metis add_diff_inverse_nat length_ring nat_add_left_cancel_less)
    with new len show ?thesis by (simp add: nth_append add.assoc)
  qed
qed simp

section \<open>The contract of a stream buffer\<close>

text \<open>
  A buffer is written in blocks, of which a prefix is accepted, and read in blocks. The
  providers say when a block may be written (\<open>can_put\<close>) and read (\<open>can_get\<close>).
\<close>

datatype 'a buf_op = Put "'a list" | Get nat

locale stream_buffer =
  fixes inv :: "'q \<Rightarrow> bool"
    and contents :: "'q \<Rightarrow> 'a list"
    and can_put :: "'q \<Rightarrow> 'a list \<Rightarrow> bool"
    and can_get :: "'q \<Rightarrow> nat \<Rightarrow> bool"
    and put :: "'a list \<Rightarrow> 'q \<Rightarrow> nat \<times> 'q"
    and get :: "nat \<Rightarrow> 'q \<Rightarrow> 'a list \<times> 'q"
  assumes put_inv: "inv q \<Longrightarrow> can_put q xs \<Longrightarrow> inv (snd (put xs q))"
    and put_contents: "inv q \<Longrightarrow> can_put q xs \<Longrightarrow>
      contents (snd (put xs q)) = contents q @ take (fst (put xs q)) xs"
    and get_inv: "inv q \<Longrightarrow> can_get q n \<Longrightarrow> inv (snd (get n q))"
    and get_contents: "inv q \<Longrightarrow> can_get q n \<Longrightarrow>
      contents q = fst (get n q) @ contents (snd (get n q))"
begin

text \<open>A run: the operations applied in order, with the data accepted and the data delivered.\<close>

primrec run :: "'a buf_op list \<Rightarrow> 'q \<Rightarrow> 'a list \<times> 'a list \<times> 'q" where
  "run [] q = ([], [], q)"
| "run (p # ps) q =
     (case p of
        Put xs \<Rightarrow> let (n, q') = put xs q; (w, r, q'') = run ps q' in (take n xs @ w, r, q'')
      | Get n \<Rightarrow> let (ys, q') = get n q; (w, r, q'') = run ps q' in (w, ys @ r, q''))"

primrec allowed :: "'a buf_op list \<Rightarrow> 'q \<Rightarrow> bool" where
  "allowed [] q \<longleftrightarrow> True"
| "allowed (p # ps) q \<longleftrightarrow>
     (case p of
        Put xs \<Rightarrow> can_put q xs \<and> allowed ps (snd (put xs q))
      | Get n \<Rightarrow> can_get q n \<and> allowed ps (snd (get n q)))"

text \<open>Over any run nothing is lost, duplicated or reordered.\<close>

lemma run_stream:
  "inv q \<Longrightarrow> allowed ps q \<Longrightarrow> run ps q = (w, r, q') \<Longrightarrow>
   inv q' \<and> contents q @ w = r @ contents q'"
proof (induction ps arbitrary: q w r q')
  case Nil
  then show ?case by simp
next
  case (Cons p ps)
  show ?case
  proof (cases p)
    case (Put xs)
    obtain n q1 where p1: "put xs q = (n, q1)" by fastforce
    obtain w' r' q2 where rest: "run ps q1 = (w', r', q2)" by (metis prod_cases3)
    from Cons.prems Put p1 have ok: "can_put q xs" "allowed ps q1" by auto
    from put_inv [OF Cons.prems(1) ok(1)] p1 have "inv q1" by simp
    from Cons.IH [OF this ok(2) rest] put_contents [OF Cons.prems(1) ok(1)] Cons.prems(3) Put p1 rest
    show ?thesis by auto
  next
    case (Get n)
    obtain ys q1 where g1: "get n q = (ys, q1)" by fastforce
    obtain w' r' q2 where rest: "run ps q1 = (w', r', q2)" by (metis prod_cases3)
    from Cons.prems Get g1 have ok: "can_get q n" "allowed ps q1" by auto
    from get_inv [OF Cons.prems(1) ok(1)] g1 have "inv q1" by simp
    from Cons.IH [OF this ok(2) rest] get_contents [OF Cons.prems(1) ok(1)] Cons.prems(3) Get g1 rest
    show ?thesis by auto
  qed
qed

text \<open>From an empty buffer, the data delivered is a prefix of the data accepted.\<close>

lemma run_from_empty:
  assumes "inv q" "contents q = []" "allowed ps q" "run ps q = (w, r, q')"
  shows "\<exists>rest. w = r @ rest"
  using run_stream [OF assms(1,3,4)] assms(2) by auto

end

end
