(* ===== verification/Keyboard_Driver.thy ===== *)
theory Keyboard_Driver
  imports Ring_Buffer
begin

text \<open>
  The keyboard driver (\<open>Kernel/keyboardDriver.c\<close>, tables of \<open>Kernel/include/keyboardmap.h\<close>):
  the scancode ring buffer, the shift and caps-lock flags, and the choice of the character for
  a scancode. The part of \<open>store_scancode\<close> that touches the driver's own state is
  \<open>scancode_event\<close>; what it asks of the process table is its effect, carried out by
  \<open>store_scancode\<close> of theory \<open>Input_Output\<close>.

  A key event is the byte read from port 60h; C receives it as a signed \<open>char\<close>, so that the
  codes from 128 on (a key released) are negative.
\<close>

abbreviation BUFFSIZE :: nat where "BUFFSIZE \<equiv> 128"
abbreviation ESCAPE :: int where "ESCAPE \<equiv> 1"
abbreviation TOPCHARCODE :: int where "TOPCHARCODE \<equiv> 128"
abbreviation RSHIFTCODE :: int where "RSHIFTCODE \<equiv> 42"
abbreviation LSHIFTCODE :: int where "LSHIFTCODE \<equiv> 54"
abbreviation CAPSLOCK :: int where "CAPSLOCK \<equiv> 58"

record kbd =
  k_buffer :: "u8 list"
  ret_index :: nat
  store_index :: nat
  buff_size :: int
  shiftPressed :: bool
  capsLockPressed :: bool
  capsLockPressedCount :: int
  capsLockActivated :: bool

definition kbd_init :: kbd where
  "kbd_init = \<lparr>k_buffer = replicate BUFFSIZE 0, ret_index = 0, store_index = 0, buff_size = 0,
     shiftPressed = False, capsLockPressed = False, capsLockPressedCount = 0,
     capsLockActivated = False\<rparr>"

definition kbdus :: "u8 list" where
  "kbdus =
    [0, 27, 49, 50, 51, 52, 53, 54, 55, 56, 57, 48, 45, 61, 8, 9,
     113, 119, 101, 114, 116, 121, 117, 105, 111, 112, 91, 93, 10, 0, 97, 115,
     100, 102, 103, 104, 106, 107, 108, 59, 39, 96, 0, 92, 122, 120, 99, 118,
     98, 110, 109, 44, 46, 47, 0, 42, 0, 32, 0, 0, 0, 0, 0, 0,
     0, 0, 0, 0, 0, 0, 0, 0, 0, 0, 45, 0, 0, 0, 43, 0,
     0, 0, 0, 0, 0, 0, 0, 0, 0, 0] @ replicate 38 0"

definition shiftkbdus :: "u8 list" where
  "shiftkbdus =
    [0, 27, 33, 64, 35, 36, 37, 94, 38, 42, 40, 41, 95, 43, 8, 9,
     81, 87, 69, 82, 84, 89, 85, 73, 79, 80, 123, 125, 10, 0, 65, 83,
     68, 70, 71, 72, 74, 75, 76, 58, 34, 124, 0, 62, 90, 88, 67, 86,
     66, 78, 77, 60, 62, 63, 0, 42, 0, 32, 0, 0, 0, 0, 0, 0,
     0, 0, 0, 0, 0, 0, 0, 0, 0, 0, 45, 0, 0, 0, 43, 0,
     0, 0, 0, 0, 0, 0, 0, 0, 0, 0] @ replicate 38 0"

definition capskbdus :: "u8 list" where
  "capskbdus =
    [0, 27, 49, 50, 51, 52, 53, 54, 55, 56, 57, 48, 45, 61, 8, 9,
     81, 87, 69, 82, 84, 89, 85, 73, 79, 80, 91, 93, 10, 0, 65, 83,
     68, 70, 71, 72, 74, 75, 76, 59, 39, 92, 0, 60, 90, 88, 67, 86,
     66, 78, 77, 44, 46, 47, 0, 42, 0, 32, 0, 0, 0, 0, 0, 0,
     0, 0, 0, 0, 0, 0, 0, 0, 0, 0, 45, 0, 0, 0, 43, 0,
     0, 0, 0, 0, 0, 0, 0, 0, 0, 0] @ replicate 38 0"

text \<open>The three tables as functions of a scancode.\<close>

definition key_of :: "u8 list \<Rightarrow> int \<Rightarrow> int" where
  "key_of table k = uint (table ! nat k)"

definition isShiftKey :: "int \<Rightarrow> bool" where
  "isShiftKey k \<longleftrightarrow> k = LSHIFTCODE \<or> k = RSHIFTCODE"

definition processKeyScanCode :: "int \<Rightarrow> kbd \<Rightarrow> bool \<times> kbd" where
  "processKeyScanCode k kb =
     (if k = RSHIFTCODE then (True, kb\<lparr>shiftPressed := \<not> shiftPressed kb\<rparr>)
      else if k = LSHIFTCODE then (True, kb\<lparr>shiftPressed := \<not> shiftPressed kb\<rparr>)
      else if k = CAPSLOCK then
        let kb = kb\<lparr>capsLockPressed := \<not> capsLockPressed kb,
                    capsLockPressedCount := capsLockPressedCount kb + 1\<rparr>
        in (True,
            if capsLockPressedCount kb mod 2 = 0
            then kb\<lparr>capsLockActivated := \<not> capsLockActivated kb, capsLockPressedCount := 0\<rparr>
            else kb)
      else (False, kb))"

definition isAlpha :: "int \<Rightarrow> bool" where
  "isAlpha k \<longleftrightarrow> (k \<ge> 16 \<and> k \<le> 25) \<or> (k \<ge> 30 \<and> k \<le> 38) \<or> (k \<ge> 44 \<and> k \<le> 50)"

definition chooseKeyboard :: "int \<Rightarrow> kbd \<Rightarrow> int" where
  "chooseKeyboard k kb =
     (if key_of kbdus k = 0 then - 1
      else if capsLockActivated kb \<and> \<not> shiftPressed kb then key_of capskbdus k
      else if \<not> capsLockActivated kb \<and> shiftPressed kb then key_of shiftkbdus k
      else if capsLockActivated kb \<and> shiftPressed kb then
        (if isAlpha k then key_of kbdus k else key_of shiftkbdus k)
      else key_of kbdus k)"

text \<open>The oldest scancode of the buffer, removed from it.\<close>

definition take_scancode :: "kbd \<Rightarrow> u8 \<times> kbd" where
  "take_scancode kb =
     (let k = k_buffer kb ! ret_index kb;
          r = ret_index kb + 1
      in (k, kb\<lparr>ret_index := (if r = BUFFSIZE then 0 else r), buff_size := buff_size kb - 1\<rparr>))"

definition get_char :: "kbd \<Rightarrow> int \<times> kbd" where
  "get_char kb =
     (if buff_size kb = 0 then (- 1, kb)
      else let (k, kb') = take_scancode kb in (chooseKeyboard (uint k) kb', kb'))"

definition wrap_store_index :: "kbd \<Rightarrow> kbd" where
  "wrap_store_index kb = (if store_index kb = BUFFSIZE then kb\<lparr>store_index := 0\<rparr> else kb)"

definition push_scancode :: "u8 \<Rightarrow> kbd \<Rightarrow> kbd" where
  "push_scancode key kb =
     kb\<lparr>buff_size := buff_size kb + 1, k_buffer := (k_buffer kb)[store_index kb := key],
        store_index := store_index kb + 1\<rparr>"

datatype kbd_effect = No_Effect | Escape_Pressed | Key_Stored

definition scancode_event :: "u8 \<Rightarrow> kbd \<Rightarrow> kbd_effect \<times> kbd" where
  "scancode_event key kb =
     (if buff_size kb = int BUFFSIZE then (No_Effect, kb)
      else
        let k = sint key in
        if k = ESCAPE then (Escape_Pressed, kb)
        else if k > 0 \<and> k < TOPCHARCODE then
          (let (special, kb') = processKeyScanCode k kb
           in if \<not> special then (Key_Stored, wrap_store_index (push_scancode key kb'))
              else (No_Effect, wrap_store_index kb'))
        else if k < 0 then
          (No_Effect, wrap_store_index (snd (processKeyScanCode (k + TOPCHARCODE) kb)))
        else (No_Effect, wrap_store_index kb))"

section \<open>Invariant\<close>

definition kbd_inv :: "kbd \<Rightarrow> bool" where
  "kbd_inv kb \<longleftrightarrow>
     length (k_buffer kb) = BUFFSIZE \<and> ret_index kb < BUFFSIZE \<and>
     0 \<le> buff_size kb \<and> buff_size kb \<le> int BUFFSIZE \<and>
     store_index kb = (ret_index kb + nat (buff_size kb)) mod BUFFSIZE"

definition kbd_contents :: "kbd \<Rightarrow> u8 list" where
  "kbd_contents kb = ring (k_buffer kb) (ret_index kb) (nat (buff_size kb))"

lemma kbd_inv_init: "kbd_inv kbd_init"
  by (simp add: kbd_inv_def kbd_init_def)

lemma processKeyScanCode_frame:
  "processKeyScanCode k kb = (b, kb') \<Longrightarrow>
   k_buffer kb' = k_buffer kb \<and> ret_index kb' = ret_index kb \<and> store_index kb' = store_index kb \<and>
   buff_size kb' = buff_size kb"
  by (auto simp: processKeyScanCode_def Let_def split: if_splits)

lemma processKeyScanCode_contents:
  assumes "processKeyScanCode k kb = (b, kb')"
  shows "kbd_inv kb' = kbd_inv kb" "kbd_contents kb' = kbd_contents kb"
  using processKeyScanCode_frame [OF assms] by (auto simp: kbd_inv_def kbd_contents_def)

lemma wrap_store_index_inv [simp]: "kbd_inv kb \<Longrightarrow> wrap_store_index kb = kb"
  by (auto simp: kbd_inv_def wrap_store_index_def)

lemma Suc_mod_wrap: "(if Suc (a mod n) = n then 0 else Suc (a mod n)) = Suc a mod (n::nat)"
  by (simp add: mod_Suc)

text \<open>Storing a scancode in a buffer with room appends it.\<close>

lemma push_scancode_ok:
  assumes inv: "kbd_inv kb" and room: "buff_size kb < int BUFFSIZE"
  shows "kbd_inv (wrap_store_index (push_scancode k kb))"
    and "kbd_contents (wrap_store_index (push_scancode k kb)) = kbd_contents kb @ [k]"
proof -
  from inv room obtain n where n: "buff_size kb = int n" "n < BUFFSIZE"
    by (metis kbd_inv_def nonneg_int_cases of_nat_less_iff)
  let ?kb = "wrap_store_index (push_scancode k kb)"
  have st: "store_index kb = (ret_index kb + n) mod BUFFSIZE" using inv n by (simp add: kbd_inv_def)
  have f: "store_index ?kb = Suc (ret_index kb + n) mod BUFFSIZE" "ret_index ?kb = ret_index kb"
    "buff_size ?kb = int (Suc n)" "k_buffer ?kb = (k_buffer kb)[store_index kb := k]"
    using st n Suc_mod_wrap [of "ret_index kb + n" BUFFSIZE]
    by (auto simp: wrap_store_index_def push_scancode_def)
  then show "kbd_inv ?kb" using inv n by (simp add: kbd_inv_def del: of_nat_Suc)
  show "kbd_contents ?kb = kbd_contents kb @ [k]"
    using ring_snoc [of n "k_buffer kb" "ret_index kb" k] inv n st
    by (simp add: kbd_contents_def f kbd_inv_def del: of_nat_Suc)
qed

lemma take_scancode_ok:
  assumes inv: "kbd_inv kb" and some: "0 < buff_size kb"
  shows "kbd_inv (snd (take_scancode kb))"
    and "kbd_contents kb = fst (take_scancode kb) # kbd_contents (snd (take_scancode kb))"
proof -
  from inv some obtain n where n: "buff_size kb = int (Suc n)" "Suc n \<le> BUFFSIZE"
    by (metis gr0_implies_Suc kbd_inv_def nonneg_int_cases of_nat_0_less_iff of_nat_le_iff)
  let ?kb = "snd (take_scancode kb)"
  have "ret_index kb < 128" using inv by (simp add: kbd_inv_def)
  then have r: "ret_index ?kb = Suc (ret_index kb) mod BUFFSIZE" "buff_size ?kb = int n"
    "k_buffer ?kb = k_buffer kb" "store_index ?kb = store_index kb"
    "fst (take_scancode kb) = k_buffer kb ! ret_index kb"
    using n by (auto simp: take_scancode_def Let_def)
  have len: "length (k_buffer kb) = 128" using inv by (simp add: kbd_inv_def)
  have st: "store_index kb = (Suc (ret_index kb) mod BUFFSIZE + n) mod BUFFSIZE"
    using inv n by (simp add: kbd_inv_def mod_add_left_eq nat_add_distrib)
  show "kbd_inv ?kb" using inv n by (simp add: kbd_inv_def r st)
  have "ring (k_buffer kb) (ret_index kb) (1 + n) =
      ring (k_buffer kb) (ret_index kb) 1 @ ring (k_buffer kb) (ret_index kb + 1) n"
    by (rule ring_add)
  moreover have "ring (k_buffer kb) (Suc (ret_index kb) mod 128) n = ring (k_buffer kb) (ret_index kb + 1) n"
    using ring_mod [of "k_buffer kb" "ret_index kb + 1" n] len by simp
  moreover have "ring (k_buffer kb) (ret_index kb) 1 = [k_buffer kb ! ret_index kb]"
    using len \<open>ret_index kb < 128\<close> by (intro nth_equalityI) auto
  ultimately show "kbd_contents kb = fst (take_scancode kb) # kbd_contents ?kb"
    by (simp add: kbd_contents_def r n nat_add_distrib)
qed

section \<open>Key events\<close>

text \<open>The three shapes of an event: nothing, a key to be stored, a change of the flags only.\<close>

lemma scancode_event_shape:
  assumes ev: "scancode_event key kb = (e, kb')"
  shows "(e \<noteq> Key_Stored \<and> (kb' = kb \<or> kb' = wrap_store_index kb \<or>
            (\<exists>c. kb' = wrap_store_index (snd (processKeyScanCode c kb))))) \<or>
         (e = Key_Stored \<and> buff_size kb \<noteq> int BUFFSIZE \<and>
            kb' = wrap_store_index (push_scancode key (snd (processKeyScanCode (sint key) kb))))"
  using ev by (simp add: scancode_event_def Let_def split: if_splits prod.splits)
    (metis snd_conv)+

lemma scancode_event_ok:
  assumes inv: "kbd_inv kb" and ev: "scancode_event key kb = (e, kb')"
  shows "kbd_inv kb' \<and>
    kbd_contents kb' = (if e = Key_Stored then kbd_contents kb @ [key] else kbd_contents kb)"
proof -
  have p: "kbd_inv (snd (processKeyScanCode c kb))"
    "kbd_contents (snd (processKeyScanCode c kb)) = kbd_contents kb"
    "buff_size (snd (processKeyScanCode c kb)) = buff_size kb" for c
    using processKeyScanCode_contents [of c kb] processKeyScanCode_frame [of c kb] inv
    by (metis prod.collapse)+
  have "buff_size kb \<le> int BUFFSIZE" using inv by (simp add: kbd_inv_def)
  then show ?thesis
    using scancode_event_shape [OF ev] inv p push_scancode_ok [OF p(1), of "sint key" key]
    by (auto simp: p)
qed

section \<open>The buffer as a stream\<close>

definition kbd_put :: "u8 list \<Rightarrow> kbd \<Rightarrow> nat \<times> kbd" where
  "kbd_put ks kb = (case ks of [] \<Rightarrow> (0, kb) | k # _ \<Rightarrow> (1, wrap_store_index (push_scancode k kb)))"

definition kbd_get :: "nat \<Rightarrow> kbd \<Rightarrow> u8 list \<times> kbd" where
  "kbd_get n kb = (if n = 0 then ([], kb) else let (k, kb') = take_scancode kb in ([k], kb'))"

interpretation keys: stream_buffer kbd_inv kbd_contents
  "\<lambda>kb ks. buff_size kb < int BUFFSIZE" "\<lambda>kb n. 0 < buff_size kb" kbd_put kbd_get
proof
  fix kb ks
  assume "kbd_inv kb" "buff_size kb < int BUFFSIZE"
  note push_scancode_ok [OF this]
  then show "kbd_inv (snd (kbd_put ks kb))"
    and "kbd_contents (snd (kbd_put ks kb)) = kbd_contents kb @ take (fst (kbd_put ks kb)) ks"
    using \<open>kbd_inv kb\<close> by (auto simp: kbd_put_def split: list.split)
next
  fix kb n
  assume "kbd_inv kb" "0 < buff_size kb"
  note take_scancode_ok [OF this]
  then show "kbd_inv (snd (kbd_get n kb))"
    and "kbd_contents kb = fst (kbd_get n kb) @ kbd_contents (snd (kbd_get n kb))"
    using \<open>kbd_inv kb\<close> by (auto simp: kbd_get_def split: prod.split)
qed

section \<open>Properties\<close>

text \<open>
  C9. The scancode buffer is a bounded queue. A key event keeps the buffer well formed and
  either leaves its contents alone or appends exactly the key that was pressed; \<open>get_char\<close> on an
  empty buffer returns -1 and changes nothing, and otherwise removes the oldest scancode and
  returns its character under the current flags.\<close>

theorem keyboard_queue:
  assumes "kbd_inv kb" and "scancode_event key kb = (e, kb')"
  shows "kbd_inv kb' \<and>
      kbd_contents kb' = (if e = Key_Stored then kbd_contents kb @ [key] else kbd_contents kb) \<and>
      (kbd_contents kb' = [] \<and> get_char kb' = (- 1, kb') \<or>
       (\<exists>k ks kb''. kbd_contents kb' = k # ks \<and> get_char kb' = (chooseKeyboard (uint k) kb'', kb'') \<and>
          kbd_inv kb'' \<and> kbd_contents kb'' = ks))"
proof -
  note ok = scancode_event_ok [OF assms]
  show ?thesis
  proof (cases "buff_size kb' = 0")
    case True
    then show ?thesis using ok by (simp add: get_char_def kbd_contents_def)
  next
    case False
    with ok have "kbd_inv kb'" "0 < buff_size kb'" by (auto simp: kbd_inv_def)
    from take_scancode_ok [OF this] False ok show ?thesis
      by (auto simp: get_char_def split: prod.splits)
  qed
qed

theorem keyboard_queue_witness:
  "kbd_inv kbd_init \<and>
   kbd_contents (snd (scancode_event 30 kbd_init)) = [30]"
proof -
  have ev: "scancode_event 30 kbd_init = (Key_Stored, snd (scancode_event 30 kbd_init))"
    by (simp add: scancode_event_def kbd_init_def processKeyScanCode_def)
  have "kbd_contents kbd_init = []" by (simp add: kbd_contents_def kbd_init_def)
  with keyboard_queue [OF kbd_inv_init ev] kbd_inv_init show ?thesis by simp
qed

lemma isAlpha_cases:
  "isAlpha k \<Longrightarrow> k \<in> {16, 17, 18, 19, 20, 21, 22, 23, 24, 25, 30, 31, 32, 33, 34, 35, 36, 37, 38,
     44, 45, 46, 47, 48, 49, 50}"
  by (simp add: isAlpha_def) presburger

lemma letter_tables:
  assumes "isAlpha k"
  shows "97 \<le> key_of kbdus k \<and> key_of kbdus k \<le> 122 \<and>
    key_of shiftkbdus k = key_of kbdus k - 32 \<and> key_of capskbdus k = key_of kbdus k - 32"
  using isAlpha_cases [OF assms]
  by (elim insertE emptyE; hypsubst; simp add: key_of_def kbdus_def shiftkbdus_def capskbdus_def)

text \<open>
  For the scancode of a letter the driver returns the lower-case letter, unless exactly one
  of caps lock and shift is active, when it returns the upper-case one (32 below it).\<close>

theorem letter_case:
  assumes "isAlpha k"
  shows "97 \<le> key_of kbdus k \<and> key_of kbdus k \<le> 122 \<and>
    chooseKeyboard k kb =
      (if capsLockActivated kb \<noteq> shiftPressed kb then key_of kbdus k - 32 else key_of kbdus k)"
  using letter_tables [OF assms] assms by (auto simp: chooseKeyboard_def)

theorem letter_case_witness:
  "isAlpha 30 \<and> chooseKeyboard 30 (kbd_init\<lparr>shiftPressed := True\<rparr>) = 65"
proof -
  have "isAlpha 30" by (simp add: isAlpha_def)
  from letter_case [OF this, of "kbd_init\<lparr>shiftPressed := True\<rparr>"] show ?thesis
    by (simp add: kbd_init_def isAlpha_def key_of_def kbdus_def)
qed

text \<open>
  Pressing and releasing caps lock on a buffer that is not full inverts the caps-lock flag
  and nothing else; on a full buffer every event, the release of a shift key included, is lost.\<close>

theorem modifier_keys:
  "kbd_inv kb \<Longrightarrow> capsLockPressedCount kb = 0 \<Longrightarrow>
   (if buff_size kb < int BUFFSIZE
    then snd (scancode_event 186 (snd (scancode_event 58 kb))) =
           kb\<lparr>capsLockActivated := \<not> capsLockActivated kb\<rparr>
    else snd (scancode_event key kb) = kb)"
proof -
  assume inv: "kbd_inv kb" and count: "capsLockPressedCount kb = 0"
  show ?thesis
  proof (cases "buff_size kb < int BUFFSIZE")
    case True
    let ?p = "kb\<lparr>capsLockPressed := \<not> capsLockPressed kb, capsLockPressedCount := 1\<rparr>"
    have "kbd_inv ?p" "kbd_inv (kb\<lparr>capsLockActivated := \<not> capsLockActivated kb\<rparr>)"
      using inv by (simp_all add: kbd_inv_def)
    moreover have "scancode_event 58 kb = (No_Effect, wrap_store_index ?p)"
      using True count by (simp add: scancode_event_def processKeyScanCode_def)
    moreover have "scancode_event 186 ?p =
        (No_Effect, wrap_store_index (kb\<lparr>capsLockActivated := \<not> capsLockActivated kb\<rparr>))"
      using True count by (cases kb) (simp add: scancode_event_def processKeyScanCode_def)
    ultimately show ?thesis using True by simp
  next
    case False
    with inv show ?thesis by (simp add: scancode_event_def kbd_inv_def)
  qed
qed

theorem modifier_keys_witness:
  "snd (scancode_event 186 (snd (scancode_event 58 kbd_init))) = kbd_init\<lparr>capsLockActivated := True\<rparr>"
  using modifier_keys [OF kbd_inv_init] by (simp add: kbd_init_def)

end
