(* ===== verification/Circular_Buffer.thy ===== *)
theory Circular_Buffer
  imports Ring_Buffer
begin

text \<open>
  The circular buffer behind every FIFO (\<open>circular_buffer\<close>, \<open>create_circular_buffer\<close>,
  \<open>write_circular_buffer\<close> and \<open>read_circular_buffer\<close> of \<open>Kernel/fifo.c\<close>).

  The two copying routines call \<open>memcpy\<close> with lengths of type \<open>int\<close> that become
  \<open>uint64_t\<close>. A copy with a negative length, or past the end of the array, overruns memory:
  the model returns \<open>None\<close> for it, and also where \<open>buf_fill + bytes\<close> exceeds \<open>INT_MAX\<close>.
  The source of a write is the function from an offset to the byte there; the destination of a
  read is the list of the bytes stored from its start on.
\<close>

definition BUF_SIZE :: int where "BUF_SIZE = 1024"

definition INT_MAX :: int where "INT_MAX = 2147483647"

record circular_buffer =
  cb_buffer :: "u8 list"
  free_slot :: int
  cb_current :: int
  buf_fill :: int

text \<open>
  \<open>memcpy\<close> into the array at \<open>off\<close> from the bytes \<open>src k, src (k + 1), \<dots>\<close>, and out of it.
\<close>

definition blit_in :: "u8 list \<Rightarrow> int \<Rightarrow> (nat \<Rightarrow> u8) \<Rightarrow> nat \<Rightarrow> int \<Rightarrow> u8 list option" where
  "blit_in arr off src k len =
     (if 0 \<le> off \<and> 0 \<le> len \<and> off + len \<le> int (length arr)
      then Some (take (nat off) arr @ map (\<lambda>j. src (k + j)) [0..<nat len] @ drop (nat off + nat len) arr)
      else None)"

definition blit_out :: "u8 list \<Rightarrow> int \<Rightarrow> int \<Rightarrow> u8 list option" where
  "blit_out arr off len =
     (if 0 \<le> off \<and> 0 \<le> len \<and> off + len \<le> int (length arr)
      then Some (take (nat len) (drop (nat off) arr)) else None)"

text \<open>The array of a new buffer is uninitialised: \<open>junk\<close> is what the stack held.\<close>

definition create_circular_buffer :: "u8 list \<Rightarrow> circular_buffer" where
  "create_circular_buffer junk =
     \<lparr>cb_buffer = junk, free_slot = 0, cb_current = 0, buf_fill = 0\<rparr>"

text \<open>The copying of \<open>w\<close> bytes from slot \<open>aux\<close> on, in one piece or in two.\<close>

definition store_slots :: "u8 list \<Rightarrow> int \<Rightarrow> int \<Rightarrow> (nat \<Rightarrow> u8) \<Rightarrow> int \<Rightarrow> u8 list option" where
  "store_slots arr aux fs src w =
     (if aux < fs then blit_in arr aux src 0 w
      else
        let first_bytes = BUF_SIZE - aux; second_bytes = w - first_bytes
        in Option.bind (blit_in arr aux src 0 first_bytes)
             (\<lambda>b. blit_in b 0 src (nat first_bytes) second_bytes))"

definition load_slots :: "u8 list \<Rightarrow> int \<Rightarrow> int \<Rightarrow> int \<Rightarrow> u8 list option" where
  "load_slots arr aux cur r =
     (if aux < cur then blit_out arr aux r
      else
        let first_bytes = BUF_SIZE - aux; second_bytes = r - first_bytes
        in Option.bind (blit_out arr aux first_bytes)
             (\<lambda>u. map_option (\<lambda>v. u @ v) (blit_out arr 0 second_bytes)))"

definition write_circular_buffer ::
  "circular_buffer \<Rightarrow> (nat \<Rightarrow> u8) \<Rightarrow> int \<Rightarrow> (int \<times> circular_buffer) option" where
  "write_circular_buffer c src bytes =
     (if buf_fill c + bytes > INT_MAX then None
      else
        let write_bytes = (if buf_fill c + bytes > BUF_SIZE then BUF_SIZE - buf_fill c else bytes);
            aux = free_slot c;
            fs = (free_slot c + write_bytes) mod BUF_SIZE
        in map_option (\<lambda>b. (write_bytes,
             c\<lparr>cb_buffer := b, free_slot := fs, buf_fill := buf_fill c + write_bytes\<rparr>))
             (store_slots (cb_buffer c) aux fs src write_bytes))"

definition read_circular_buffer ::
  "circular_buffer \<Rightarrow> int \<Rightarrow> (int \<times> u8 list \<times> circular_buffer) option" where
  "read_circular_buffer c bytes =
     (let read_bytes = (if buf_fill c < bytes then buf_fill c else bytes);
          aux = cb_current c;
          cur = (cb_current c + read_bytes) mod BUF_SIZE
      in map_option (\<lambda>d. (read_bytes, d,
           c\<lparr>cb_current := cur, buf_fill := buf_fill c - read_bytes\<rparr>))
           (load_slots (cb_buffer c) aux cur read_bytes))"

section \<open>Invariant and contents\<close>

definition circ_inv :: "circular_buffer \<Rightarrow> bool" where
  "circ_inv c \<longleftrightarrow>
     length (cb_buffer c) = 1024 \<and> 0 \<le> cb_current c \<and> cb_current c < BUF_SIZE \<and>
     0 \<le> buf_fill c \<and> buf_fill c \<le> BUF_SIZE \<and>
     free_slot c = (cb_current c + buf_fill c) mod BUF_SIZE"

definition circ_contents :: "circular_buffer \<Rightarrow> u8 list" where
  "circ_contents c = ring (cb_buffer c) (nat (cb_current c)) (nat (buf_fill c))"

lemma circ_inv_create: "length junk = 1024 \<Longrightarrow> circ_inv (create_circular_buffer junk)"
  by (simp add: circ_inv_def create_circular_buffer_def BUF_SIZE_def)

lemma circ_contents_create [simp]: "circ_contents (create_circular_buffer junk) = []"
  by (simp add: circ_contents_def create_circular_buffer_def)

lemma nth_blit_in:
  assumes "blit_in arr off src k len = Some b"
  shows "length b = length arr"
    and "nat off \<le> i \<Longrightarrow> i < nat off + nat len \<Longrightarrow> b ! i = src (k + (i - nat off))"
    and "i < nat off \<or> nat off + nat len \<le> i \<Longrightarrow> i < length arr \<Longrightarrow> b ! i = arr ! i"
  using assms by (auto simp: blit_in_def nth_append split: if_splits)

text \<open>
  What a write does to the array: the bytes land at consecutive positions modulo the size,
  starting at the free slot, and nothing else changes.
\<close>

definition written :: "u8 list \<Rightarrow> nat \<Rightarrow> (nat \<Rightarrow> u8) \<Rightarrow> nat \<Rightarrow> u8 list \<Rightarrow> bool" where
  "written arr a src w b \<longleftrightarrow>
     length b = length arr \<and>
     (\<forall>j<w. b ! ((a + j) mod length arr) = src j) \<and>
     (\<forall>p<length arr. (\<forall>j<w. p \<noteq> (a + j) mod length arr) \<longrightarrow> b ! p = arr ! p)"

lemma blit_in_Some:
  "off + len \<le> length arr \<Longrightarrow> \<exists>b. blit_in arr (int off) src k (int len) = Some b"
  by (simp add: blit_in_def)

text \<open>The write that does not wrap.\<close>

lemma written_straight:
  assumes b: "blit_in arr (int a) src 0 (int w) = Some b" and fits: "a + w \<le> length arr"
  shows "written arr a src w b"
proof -
  have pos: "(a + j) mod length arr = a + j" if "j < w" for j using that fits by simp
  have "b ! p = arr ! p" if p: "p < length arr" "\<forall>j<w. p \<noteq> (a + j) mod length arr" for p
  proof -
    have "p < a \<or> a + w \<le> p"
    proof (rule ccontr)
      assume "\<not> (p < a \<or> a + w \<le> p)"
      then have "p - a < w" "p = a + (p - a)" by auto
      with p(2) pos show False by metis
    qed
    with nth_blit_in(3) [OF b, of p] p(1) show ?thesis by simp
  qed
  moreover have "b ! ((a + j) mod length arr) = src j" if "j < w" for j
    using nth_blit_in(2) [OF b, of "a + j"] that pos by simp
  ultimately show ?thesis using nth_blit_in(1) [OF b] by (simp add: written_def)
qed

text \<open>The write that wraps: \<open>f\<close> bytes up to the end of the array, the rest from its start.\<close>

lemma written_wrap:
  assumes N: "length arr = a + f" and f: "0 < f" "f \<le> w" "w \<le> a + f"
    and b1: "blit_in arr (int a) src 0 (int f) = Some b1"
    and b: "blit_in b1 0 src f (int (w - f)) = Some b"
  shows "written arr a src w b"
proof -
  have l1: "length b1 = a + f" using nth_blit_in(1) [OF b1] N by simp
  have low: "(a + j) mod (a + f) = a + j" if "j < f" for j using that by simp
  have high: "(a + j) mod (a + f) = j - f" if "f \<le> j" "j < w" for j
    using that f by (subst mod_if) auto
  have "b ! ((a + j) mod (a + f)) = src j" if j: "j < w" for j
  proof (cases "j < f")
    case True
    then show ?thesis
      using nth_blit_in(3) [OF b, of "a + j"] nth_blit_in(2) [OF b1, of "a + j"] f l1 low by auto
  next
    case False
    then show ?thesis using nth_blit_in(2) [OF b, of "j - f"] high j by auto
  qed
  moreover have "b ! p = arr ! p" if p: "p < a + f" "\<forall>j<w. p \<noteq> (a + j) mod (a + f)" for p
  proof -
    have "\<not> a \<le> p"
    proof
      assume "a \<le> p"
      with p(1) f have "p - a < w" "p = (a + (p - a)) mod (a + f)" by auto
      with p(2) show False by blast
    qed
    moreover have "\<not> p < w - f"
    proof
      assume "p < w - f"
      then have "p + f < w" "p = (a + (p + f)) mod (a + f)" using high [of "p + f"] by auto
      with p(2) show False by blast
    qed
    ultimately show ?thesis
      using nth_blit_in(3) [OF b, of p] nth_blit_in(3) [OF b1, of p] l1 N p(1) by auto
  qed
  ultimately show ?thesis using nth_blit_in(1) [OF b] l1 N by (simp add: written_def)
qed

lemma written_ring:
  assumes wr: "written arr ((a + n) mod length arr) src w b" and fits: "n + w \<le> length arr"
  shows "ring b a (n + w) = ring arr a n @ map src [0..<w]"
proof -
  have "ring b a (n + length (map src [0..<w])) = ring arr a n @ map src [0..<w]"
  proof (rule ring_extend)
    show "length b = length arr" using wr by (simp add: written_def)
    show "b ! ((a + n + j) mod length arr) = map src [0..<w] ! j" if "j < length (map src [0..<w])" for j
      using wr that by (simp add: written_def mod_add_left_eq)
    show "b ! ((a + i) mod length arr) = arr ! ((a + i) mod length arr)" if i: "i < n" for i
    proof -
      have "(a + i) mod length arr \<noteq> (a + n + j) mod length arr" if "j < w" for j
        using ring_pos_inj [of i "length arr" "n + j" a] that i fits by (auto simp: add.assoc)
      moreover have "(a + i) mod length arr < length arr" using fits i by (intro mod_less_divisor) auto
      ultimately show ?thesis using wr by (simp add: written_def mod_add_left_eq)
    qed
  qed (use fits in simp)
  then show ?thesis by simp
qed

section \<open>Writing and reading\<close>

lemma wrap_mod:
  fixes a w :: nat
  assumes "a < 1024" "w \<le> 1024" "0 < w"
  shows "int a < (int a + int w) mod 1024 \<longleftrightarrow> a + w < 1024"
proof (cases "a + w < 1024")
  case False
  have "(int a + int w) mod 1024 = (int a + int w - 1024) mod 1024" by simp
  also have "\<dots> = int a + int w - 1024"
    using False assms by (intro mod_pos_pos_trivial) auto
  finally show ?thesis using False assms by simp
qed (use assms in simp)

lemma store_slots_written:
  fixes a w :: nat
  assumes len: "length arr = 1024" and a: "a < 1024" and w: "0 < w" "w \<le> 1024"
  shows "\<exists>b. store_slots arr (int a) ((int a + int w) mod 1024) src (int w) = Some b \<and>
    written arr a src w b"
proof (cases "a + w < 1024")
  case True
  obtain b where b: "blit_in arr (int a) src 0 (int w) = Some b"
    using blit_in_Some [of a w arr] True len by auto
  with written_straight [OF b] True len show ?thesis
    by (simp add: store_slots_def wrap_mod a w)
next
  case False
  let ?f = "1024 - a"
  have f: "1024 - int a = int ?f" "int w - int ?f = int (w - ?f)" using False a w by auto
  obtain b1 where b1: "blit_in arr (int a) src 0 (int ?f) = Some b1"
    using blit_in_Some [of a ?f arr] a len by auto
  obtain b where b: "blit_in b1 0 src ?f (int (w - ?f)) = Some b"
  proof -
    have "0 + (w - ?f) \<le> length b1" using nth_blit_in(1) [OF b1] len w(2) by simp
    from blit_in_Some [OF this] that show ?thesis by auto
  qed
  have "written arr a src w b" by (rule written_wrap [OF _ _ _ _ b1 b]) (use False a w len in auto)
  with False b1 b show ?thesis 
    by (simp add: store_slots_def wrap_mod a w BUF_SIZE_def Let_def f del: of_nat_diff)
qed

lemma load_slots_ring:
  fixes a r :: nat
  assumes len: "length arr = 1024" and a: "a < 1024" and r: "0 < r" "r \<le> 1024"
  shows "load_slots arr (int a) ((int a + int r) mod 1024) (int r) = Some (ring arr a r)"
proof (cases "a + r < 1024")
  case True
  then have "take r (drop a arr) = ring arr a r"
    using len by (intro nth_equalityI) auto
  with True len show ?thesis by (simp add: load_slots_def wrap_mod a r blit_out_def)
next
  case False
  let ?f = "1024 - a"
  have f: "1024 - int a = int ?f" "int r - int ?f = int (r - ?f)" using False a r by auto
  have "ring arr a r = ring arr a (?f + (r - ?f))" using False a by simp
  also have "\<dots> = ring arr a ?f @ ring arr (a + ?f) (r - ?f)" by (rule ring_add)
  also have "ring arr a ?f = take ?f (drop a arr)"
    using len a by (intro nth_equalityI) auto
  also have "ring arr (a + ?f) (r - ?f) = ring arr 0 (r - ?f)"
    using ring_mod [of arr "a + ?f" "r - ?f"] len a by simp
  also have "\<dots> = take (r - ?f) arr"
    using len r by (intro nth_equalityI) auto
  finally have "ring arr a r = take ?f (drop a arr) @ take (r - ?f) arr" .
  moreover have "int a + int ?f \<le> 1024" "r + a - 1024 \<le> 1024" using a r by auto
  ultimately show ?thesis using False len r a
    by (simp add: load_slots_def wrap_mod BUF_SIZE_def Let_def f blit_out_def del: of_nat_diff)
qed

text \<open>The fields of a well-formed buffer as natural numbers.\<close>

lemma circ_invE:
  assumes "circ_inv c"
  obtains cur n where "cb_current c = int cur" "cur < 1024" "buf_fill c = int n" "n \<le> 1024"
    "free_slot c = int ((cur + n) mod 1024)" "length (cb_buffer c) = 1024"
    "circ_contents c = ring (cb_buffer c) cur n"
proof -
  from assms have "cb_current c = int (nat (cb_current c))" "nat (cb_current c) < 1024"
    "buf_fill c = int (nat (buf_fill c))" "nat (buf_fill c) \<le> 1024" "length (cb_buffer c) = 1024"
    by (auto simp: circ_inv_def BUF_SIZE_def)
  moreover from this assms have
    "free_slot c = int ((nat (cb_current c) + nat (buf_fill c)) mod 1024)"
    by (simp add: circ_inv_def BUF_SIZE_def zmod_int)
  ultimately show ?thesis
    by (intro that [of "nat (cb_current c)" "nat (buf_fill c)"]) (simp_all only: circ_contents_def)
qed

text \<open>A write to a buffer with room accepts as many bytes as fit and appends them.\<close>

lemma write_circular_buffer_ok:
  assumes inv: "circ_inv c" and room: "buf_fill c < BUF_SIZE" and bytes: "0 < bytes"
    and max: "buf_fill c + bytes \<le> INT_MAX"
  shows "\<exists>c'. write_circular_buffer c src bytes = Some (min bytes (BUF_SIZE - buf_fill c), c') \<and>
     circ_inv c' \<and>
     circ_contents c' = circ_contents c @ map src [0..<nat (min bytes (BUF_SIZE - buf_fill c))]"
proof -
  obtain cur n where c: "cb_current c = int cur" "cur < 1024" "buf_fill c = int n" "n \<le> 1024"
    "free_slot c = int ((cur + n) mod 1024)" "length (cb_buffer c) = 1024"
    "circ_contents c = ring (cb_buffer c) cur n"
    using circ_invE [OF inv] by blast
  define a where "a = (cur + n) mod 1024"
  define w where "w = nat (min bytes (BUF_SIZE - buf_fill c))"
  have w: "0 < w" "n + w \<le> 1024" "min bytes (BUF_SIZE - buf_fill c) = int w"
    "(if buf_fill c + bytes > BUF_SIZE then BUF_SIZE - buf_fill c else bytes) = int w"
    using bytes room c by (auto simp: w_def BUF_SIZE_def)
  obtain b where b: "store_slots (cb_buffer c) (int a) ((int a + int w) mod 1024) src (int w) = Some b"
    and wr: "written (cb_buffer c) a src w b"
    using store_slots_written [of "cb_buffer c" a w src] c w by (auto simp: a_def)
  have fs: "(int a + int w) mod 1024 = int ((cur + (n + w)) mod 1024)"
    by (simp add: a_def zmod_int mod_add_left_eq add.assoc)
  have "write_circular_buffer c src bytes = Some (int w, c\<lparr>cb_buffer := b,
      free_slot := (int a + int w) mod 1024, buf_fill := int n + int w\<rparr>)"
    using max b unfolding write_circular_buffer_def Let_def w(4)
    by (simp add: c(3,5) a_def [symmetric] BUF_SIZE_def)
  moreover have "ring b cur (n + w) = ring (cb_buffer c) cur n @ map src [0..<w]"
    using written_ring [of "cb_buffer c" cur n src w b] wr w c by (simp add: a_def)
  moreover have "length b = 1024" using wr c by (simp add: written_def)
  ultimately show ?thesis
    using w c fs by (auto simp: circ_inv_def circ_contents_def BUF_SIZE_def nat_add_distrib zmod_int)
qed

text \<open>
  A write to a full buffer does not return: both copies are made with the length of the rest of
  the array, the second one with its negation.
\<close>

lemma write_circular_buffer_full:
  assumes inv: "circ_inv c" and full: "buf_fill c = BUF_SIZE" and bytes: "0 < bytes"
  shows "write_circular_buffer c src bytes = None"
proof -
  obtain cur n where c: "cb_current c = int cur" "cur < 1024" "buf_fill c = int n" "n \<le> 1024"
    "free_slot c = int ((cur + n) mod 1024)" "length (cb_buffer c) = 1024"
    using circ_invE [OF inv] by metis
  have "free_slot c = int cur" using c full by (simp add: BUF_SIZE_def)
  then show ?thesis
    using c full bytes
    by (auto simp: write_circular_buffer_def store_slots_def blit_in_def Let_def BUF_SIZE_def
        bind_eq_None_conv)
qed

text \<open>A read delivers the oldest bytes, as many as asked for and present.\<close>

lemma read_circular_buffer_ok:
  assumes inv: "circ_inv c" and some: "0 < buf_fill c" and bytes: "0 < bytes"
  shows "\<exists>c'. read_circular_buffer c bytes =
       Some (min bytes (buf_fill c), take (nat bytes) (circ_contents c), c') \<and>
     circ_inv c' \<and> circ_contents c' = drop (nat bytes) (circ_contents c)"
proof -
  obtain cur n where c: "cb_current c = int cur" "cur < 1024" "buf_fill c = int n" "n \<le> 1024"
    "free_slot c = int ((cur + n) mod 1024)" "length (cb_buffer c) = 1024"
    "circ_contents c = ring (cb_buffer c) cur n"
    using circ_invE [OF inv] by blast
  define r where "r = nat (min bytes (buf_fill c))"
  have r: "0 < r" "r \<le> n" "min bytes (buf_fill c) = int r" "r = min (nat bytes) n"
    "(if buf_fill c < bytes then buf_fill c else bytes) = int r"
    using bytes some c by (auto simp: r_def)
  have cur': "(int cur + int r) mod 1024 = int ((cur + r) mod 1024)" by (simp add: zmod_int)
  have "read_circular_buffer c bytes = Some (int r, ring (cb_buffer c) cur r,
      c\<lparr>cb_current := int ((cur + r) mod 1024), buf_fill := int n - int r\<rparr>)"
    using load_slots_ring [of "cb_buffer c" cur r] c(2,4,6) r(1,2)
    unfolding read_circular_buffer_def Let_def r(5) by (simp add: BUF_SIZE_def cur' c(1,3))
  moreover have "ring (cb_buffer c) cur r = take (nat bytes) (circ_contents c)"
    using r(4) c(7) by (simp add: take_ring)
  moreover have "ring (cb_buffer c) ((cur + r) mod 1024) (n - r) = drop (nat bytes) (circ_contents c)"
  proof -
    have "ring (cb_buffer c) ((cur + r) mod 1024) (n - r) = drop r (ring (cb_buffer c) cur n)"
      using c(6) ring_mod [of "cb_buffer c" "cur + r" "n - r"] by (simp add: drop_ring)
    also have "\<dots> = drop (nat bytes) (ring (cb_buffer c) cur n)"
      using r(4) by (cases "nat bytes \<le> n") auto
    finally show ?thesis using c(7) by simp
  qed
  moreover have "(int ((cur + r) mod 1024) + (int n - int r)) mod 1024 = int ((cur + n) mod 1024)"
    using r(2) by (simp add: zmod_int mod_add_left_eq)
  moreover have "nat (int n - int r) = n - r" using r(2) by simp
  ultimately show ?thesis using c r(1-3)
    by (intro exI [of _ "c\<lparr>cb_current := int ((cur + r) mod 1024), buf_fill := int n - int r\<rparr>"])
      (simp add: circ_inv_def circ_contents_def BUF_SIZE_def)
qed

section \<open>The stream contract\<close>

text \<open>The two routines as a block interface, for the laws of \<open>stream_buffer\<close>.\<close>

definition circ_put :: "u8 list \<Rightarrow> circular_buffer \<Rightarrow> nat \<times> circular_buffer" where
  "circ_put xs c =
     (case write_circular_buffer c (\<lambda>i. xs ! i) (int (length xs)) of
        None \<Rightarrow> (0, c) | Some (n, c') \<Rightarrow> (nat n, c'))"

definition circ_get :: "nat \<Rightarrow> circular_buffer \<Rightarrow> u8 list \<times> circular_buffer" where
  "circ_get n c =
     (case read_circular_buffer c (int n) of None \<Rightarrow> ([], c) | Some (_, d, c') \<Rightarrow> (d, c'))"

definition circ_can_put :: "circular_buffer \<Rightarrow> u8 list \<Rightarrow> bool" where
  "circ_can_put c xs \<longleftrightarrow>
     xs \<noteq> [] \<and> buf_fill c < BUF_SIZE \<and> buf_fill c + int (length xs) \<le> INT_MAX"

definition circ_can_get :: "circular_buffer \<Rightarrow> nat \<Rightarrow> bool" where
  "circ_can_get c n \<longleftrightarrow> 0 < n \<and> 0 < buf_fill c"

lemma map_nth_prefix: "n \<le> length xs \<Longrightarrow> map (\<lambda>i. xs ! i) [0..<n] = take n xs"
  by (intro nth_equalityI) auto

interpretation circ: stream_buffer circ_inv circ_contents circ_can_put circ_can_get circ_put circ_get
proof
  fix c xs
  assume c: "circ_inv c" "circ_can_put c xs"
  obtain c' where w: "write_circular_buffer c (\<lambda>i. xs ! i) (int (length xs)) =
      Some (min (int (length xs)) (BUF_SIZE - buf_fill c), c')" "circ_inv c'"
    "circ_contents c' = circ_contents c @
      map (\<lambda>i. xs ! i) [0..<nat (min (int (length xs)) (BUF_SIZE - buf_fill c))]"
    using write_circular_buffer_ok [OF c(1), of "int (length xs)" "\<lambda>i. xs ! i"] c(2)
    by (auto simp: circ_can_put_def)
  show "circ_inv (snd (circ_put xs c))" using w by (simp add: circ_put_def)
  show "circ_contents (snd (circ_put xs c)) = circ_contents c @ take (fst (circ_put xs c)) xs"
    using w map_nth_prefix [of "nat (min (int (length xs)) (BUF_SIZE - buf_fill c))" xs]
    by (simp add: circ_put_def)
next
  fix c n
  assume c: "circ_inv c" "circ_can_get c n"
  obtain c' where r: "read_circular_buffer c (int n) =
      Some (min (int n) (buf_fill c), take (nat (int n)) (circ_contents c), c')" "circ_inv c'"
    "circ_contents c' = drop (nat (int n)) (circ_contents c)"
    using read_circular_buffer_ok [OF c(1), of "int n"] c(2) by (auto simp: circ_can_get_def)
  show "circ_inv (snd (circ_get n c))" using r by (simp add: circ_get_def)
  show "circ_contents c = fst (circ_get n c) @ circ_contents (snd (circ_get n c))"
    using r by (simp add: circ_get_def)
qed

section \<open>Properties\<close>



text \<open>
  Writing to a full FIFO is not refused: \<open>write_circular_buffer\<close> computes 0 bytes to write,
  finds that the free slot has not moved, takes that for a wrap-around and copies a whole
  buffer's worth, the second piece with a negative length, that is, beyond the end of the array.
\<close>

theorem write_full_overruns:
  assumes "circ_inv c" "buf_fill c = BUF_SIZE" "0 < bytes"
  shows "write_circular_buffer c src bytes = None"
  using write_circular_buffer_full [OF assms] .

theorem write_full_overruns_witness:
  "write_circular_buffer \<lparr>cb_buffer = replicate 1024 0, free_slot = 0, cb_current = 0, buf_fill = 1024\<rparr> (\<lambda>_. 7) 1 = None"
  using write_full_overruns [of "\<lparr>cb_buffer = replicate 1024 0, free_slot = 0, cb_current = 0, buf_fill = 1024\<rparr>" 1 "\<lambda>_. 7"]
  by (simp add: circ_inv_def BUF_SIZE_def)

end
