(* ===== verification/Font.thy ===== *)
theory Font
  imports Prelude
begin

text \<open>
  The bitmap font (\<open>Kernel/font.c\<close>, macros of \<open>Kernel/include/font.h\<close>): 193 glyphs of 16
  rows, one byte a row, the leftmost pixel in the top bit. Each \<open>font_nn\<close> holds eight glyphs in
  the order of the array \<open>__font_bitmap__\<close>; \<open>font_codes\<close> is the character code that the source
  gives for each glyph in the comment above it. \<open>pixel_map\<close> finds the rows of a character.
\<close>

abbreviation CHAR_WIDTH :: int where "CHAR_WIDTH \<equiv> 8"
abbreviation CHAR_HEIGHT :: int where "CHAR_HEIGHT \<equiv> 16"

definition font_00 :: "u8 list list" where
  "font_00 =
    [[0, 0, 218, 2, 128, 130, 2, 128, 130, 2, 128, 182, 0, 0, 0, 0],
     [0, 0, 0, 0, 0, 0, 0, 0, 0, 0, 0, 0, 0, 0, 0, 0],
     [0, 0, 24, 60, 60, 60, 24, 24, 24, 0, 24, 24, 0, 0, 0, 0],
     [0, 102, 102, 102, 36, 0, 0, 0, 0, 0, 0, 0, 0, 0, 0, 0],
     [0, 0, 0, 108, 108, 254, 108, 108, 108, 254, 108, 108, 0, 0, 0, 0],
     [24, 24, 124, 198, 194, 192, 124, 6, 6, 134, 198, 124, 24, 24, 0, 0],
     [0, 0, 0, 0, 194, 198, 12, 24, 48, 96, 198, 134, 0, 0, 0, 0],
     [0, 0, 56, 108, 108, 56, 118, 220, 204, 204, 204, 118, 0, 0, 0, 0]]"

definition font_01 :: "u8 list list" where
  "font_01 =
    [[0, 48, 48, 48, 32, 0, 0, 0, 0, 0, 0, 0, 0, 0, 0, 0],
     [0, 0, 12, 24, 48, 48, 48, 48, 48, 48, 24, 12, 0, 0, 0, 0],
     [0, 0, 48, 24, 12, 12, 12, 12, 12, 12, 24, 48, 0, 0, 0, 0],
     [0, 0, 0, 0, 0, 102, 60, 255, 60, 102, 0, 0, 0, 0, 0, 0],
     [0, 0, 0, 0, 0, 24, 24, 126, 24, 24, 0, 0, 0, 0, 0, 0],
     [0, 0, 0, 0, 0, 0, 0, 0, 0, 24, 24, 24, 48, 0, 0, 0],
     [0, 0, 0, 0, 0, 0, 0, 254, 0, 0, 0, 0, 0, 0, 0, 0],
     [0, 0, 0, 0, 0, 0, 0, 0, 0, 0, 24, 24, 0, 0, 0, 0]]"

definition font_02 :: "u8 list list" where
  "font_02 =
    [[0, 0, 0, 0, 2, 6, 12, 24, 48, 96, 192, 128, 0, 0, 0, 0],
     [0, 0, 56, 108, 198, 198, 214, 214, 198, 198, 108, 56, 0, 0, 0, 0],
     [0, 0, 24, 56, 120, 24, 24, 24, 24, 24, 24, 126, 0, 0, 0, 0],
     [0, 0, 124, 198, 6, 12, 24, 48, 96, 192, 198, 254, 0, 0, 0, 0],
     [0, 0, 124, 198, 6, 6, 60, 6, 6, 6, 198, 124, 0, 0, 0, 0],
     [0, 0, 12, 28, 60, 108, 204, 254, 12, 12, 12, 30, 0, 0, 0, 0],
     [0, 0, 254, 192, 192, 192, 252, 6, 6, 6, 198, 124, 0, 0, 0, 0],
     [0, 0, 56, 96, 192, 192, 252, 198, 198, 198, 198, 124, 0, 0, 0, 0]]"

definition font_03 :: "u8 list list" where
  "font_03 =
    [[0, 0, 254, 198, 6, 6, 12, 24, 48, 48, 48, 48, 0, 0, 0, 0],
     [0, 0, 124, 198, 198, 198, 124, 198, 198, 198, 198, 124, 0, 0, 0, 0],
     [0, 0, 124, 198, 198, 198, 126, 6, 6, 6, 12, 120, 0, 0, 0, 0],
     [0, 0, 0, 0, 24, 24, 0, 0, 0, 24, 24, 0, 0, 0, 0, 0],
     [0, 0, 0, 0, 24, 24, 0, 0, 0, 24, 24, 48, 0, 0, 0, 0],
     [0, 0, 0, 6, 12, 24, 48, 96, 48, 24, 12, 6, 0, 0, 0, 0],
     [0, 0, 0, 0, 0, 126, 0, 0, 126, 0, 0, 0, 0, 0, 0, 0],
     [0, 0, 0, 96, 48, 24, 12, 6, 12, 24, 48, 96, 0, 0, 0, 0]]"

definition font_04 :: "u8 list list" where
  "font_04 =
    [[0, 0, 124, 198, 198, 12, 24, 24, 24, 0, 24, 24, 0, 0, 0, 0],
     [0, 0, 0, 124, 198, 198, 222, 222, 222, 220, 192, 124, 0, 0, 0, 0],
     [0, 0, 16, 56, 108, 198, 198, 254, 198, 198, 198, 198, 0, 0, 0, 0],
     [0, 0, 252, 102, 102, 102, 124, 102, 102, 102, 102, 252, 0, 0, 0, 0],
     [0, 0, 60, 102, 194, 192, 192, 192, 192, 194, 102, 60, 0, 0, 0, 0],
     [0, 0, 248, 108, 102, 102, 102, 102, 102, 102, 108, 248, 0, 0, 0, 0],
     [0, 0, 254, 102, 98, 104, 120, 104, 96, 98, 102, 254, 0, 0, 0, 0],
     [0, 0, 254, 102, 98, 104, 120, 104, 96, 96, 96, 240, 0, 0, 0, 0]]"

definition font_05 :: "u8 list list" where
  "font_05 =
    [[0, 0, 60, 102, 194, 192, 192, 222, 198, 198, 102, 58, 0, 0, 0, 0],
     [0, 0, 198, 198, 198, 198, 254, 198, 198, 198, 198, 198, 0, 0, 0, 0],
     [0, 0, 60, 24, 24, 24, 24, 24, 24, 24, 24, 60, 0, 0, 0, 0],
     [0, 0, 30, 12, 12, 12, 12, 12, 204, 204, 204, 120, 0, 0, 0, 0],
     [0, 0, 230, 102, 102, 108, 120, 120, 108, 102, 102, 230, 0, 0, 0, 0],
     [0, 0, 240, 96, 96, 96, 96, 96, 96, 98, 102, 254, 0, 0, 0, 0],
     [0, 0, 198, 238, 254, 254, 214, 198, 198, 198, 198, 198, 0, 0, 0, 0],
     [0, 0, 198, 230, 246, 254, 222, 206, 198, 198, 198, 198, 0, 0, 0, 0]]"

definition font_06 :: "u8 list list" where
  "font_06 =
    [[0, 0, 124, 198, 198, 198, 198, 198, 198, 198, 198, 124, 0, 0, 0, 0],
     [0, 0, 252, 102, 102, 102, 124, 96, 96, 96, 96, 240, 0, 0, 0, 0],
     [0, 0, 124, 198, 198, 198, 198, 198, 198, 214, 222, 124, 12, 14, 0, 0],
     [0, 0, 252, 102, 102, 102, 124, 108, 102, 102, 102, 230, 0, 0, 0, 0],
     [0, 0, 124, 198, 198, 96, 56, 12, 6, 198, 198, 124, 0, 0, 0, 0],
     [0, 0, 126, 126, 90, 24, 24, 24, 24, 24, 24, 60, 0, 0, 0, 0],
     [0, 0, 198, 198, 198, 198, 198, 198, 198, 198, 198, 124, 0, 0, 0, 0],
     [0, 0, 198, 198, 198, 198, 198, 198, 198, 108, 56, 16, 0, 0, 0, 0]]"

definition font_07 :: "u8 list list" where
  "font_07 =
    [[0, 0, 198, 198, 198, 198, 214, 214, 214, 254, 238, 108, 0, 0, 0, 0],
     [0, 0, 198, 198, 108, 124, 56, 56, 124, 108, 198, 198, 0, 0, 0, 0],
     [0, 0, 102, 102, 102, 102, 60, 24, 24, 24, 24, 60, 0, 0, 0, 0],
     [0, 0, 254, 198, 134, 12, 24, 48, 96, 194, 198, 254, 0, 0, 0, 0],
     [0, 0, 60, 48, 48, 48, 48, 48, 48, 48, 48, 60, 0, 0, 0, 0],
     [0, 0, 0, 128, 192, 224, 112, 56, 28, 14, 6, 2, 0, 0, 0, 0],
     [0, 0, 60, 12, 12, 12, 12, 12, 12, 12, 12, 60, 0, 0, 0, 0],
     [16, 56, 108, 198, 0, 0, 0, 0, 0, 0, 0, 0, 0, 0, 0, 0]]"

definition font_08 :: "u8 list list" where
  "font_08 =
    [[0, 0, 0, 0, 0, 0, 0, 0, 0, 0, 0, 0, 0, 255, 0, 0],
     [48, 48, 24, 0, 0, 0, 0, 0, 0, 0, 0, 0, 0, 0, 0, 0],
     [0, 0, 0, 0, 0, 120, 12, 124, 204, 204, 204, 118, 0, 0, 0, 0],
     [0, 0, 224, 96, 96, 120, 108, 102, 102, 102, 102, 124, 0, 0, 0, 0],
     [0, 0, 0, 0, 0, 124, 198, 192, 192, 192, 198, 124, 0, 0, 0, 0],
     [0, 0, 28, 12, 12, 60, 108, 204, 204, 204, 204, 118, 0, 0, 0, 0],
     [0, 0, 0, 0, 0, 124, 198, 254, 192, 192, 198, 124, 0, 0, 0, 0],
     [0, 0, 56, 108, 100, 96, 240, 96, 96, 96, 96, 240, 0, 0, 0, 0]]"

definition font_09 :: "u8 list list" where
  "font_09 =
    [[0, 0, 0, 0, 0, 118, 204, 204, 204, 204, 204, 124, 12, 204, 120, 0],
     [0, 0, 224, 96, 96, 108, 118, 102, 102, 102, 102, 230, 0, 0, 0, 0],
     [0, 0, 24, 24, 0, 56, 24, 24, 24, 24, 24, 60, 0, 0, 0, 0],
     [0, 0, 6, 6, 0, 14, 6, 6, 6, 6, 6, 6, 102, 102, 60, 0],
     [0, 0, 224, 96, 96, 102, 108, 120, 120, 108, 102, 230, 0, 0, 0, 0],
     [0, 0, 56, 24, 24, 24, 24, 24, 24, 24, 24, 60, 0, 0, 0, 0],
     [0, 0, 0, 0, 0, 236, 254, 214, 214, 214, 214, 198, 0, 0, 0, 0],
     [0, 0, 0, 0, 0, 220, 102, 102, 102, 102, 102, 102, 0, 0, 0, 0]]"

definition font_10 :: "u8 list list" where
  "font_10 =
    [[0, 0, 0, 0, 0, 124, 198, 198, 198, 198, 198, 124, 0, 0, 0, 0],
     [0, 0, 0, 0, 0, 220, 102, 102, 102, 102, 102, 124, 96, 96, 240, 0],
     [0, 0, 0, 0, 0, 118, 204, 204, 204, 204, 204, 124, 12, 12, 30, 0],
     [0, 0, 0, 0, 0, 220, 118, 102, 96, 96, 96, 240, 0, 0, 0, 0],
     [0, 0, 0, 0, 0, 124, 198, 96, 56, 12, 198, 124, 0, 0, 0, 0],
     [0, 0, 16, 48, 48, 252, 48, 48, 48, 48, 54, 28, 0, 0, 0, 0],
     [0, 0, 0, 0, 0, 204, 204, 204, 204, 204, 204, 118, 0, 0, 0, 0],
     [0, 0, 0, 0, 0, 102, 102, 102, 102, 102, 60, 24, 0, 0, 0, 0]]"

definition font_11 :: "u8 list list" where
  "font_11 =
    [[0, 0, 0, 0, 0, 198, 198, 214, 214, 214, 254, 108, 0, 0, 0, 0],
     [0, 0, 0, 0, 0, 198, 108, 56, 56, 56, 108, 198, 0, 0, 0, 0],
     [0, 0, 0, 0, 0, 198, 198, 198, 198, 198, 198, 126, 6, 12, 248, 0],
     [0, 0, 0, 0, 0, 254, 204, 24, 48, 96, 198, 254, 0, 0, 0, 0],
     [0, 0, 14, 24, 24, 24, 112, 24, 24, 24, 24, 14, 0, 0, 0, 0],
     [0, 0, 24, 24, 24, 24, 0, 24, 24, 24, 24, 24, 0, 0, 0, 0],
     [0, 0, 112, 24, 24, 24, 14, 24, 24, 24, 24, 112, 0, 0, 0, 0],
     [0, 0, 118, 220, 0, 0, 0, 0, 0, 0, 0, 0, 0, 0, 0, 0]]"

definition font_12 :: "u8 list list" where
  "font_12 =
    [[0, 0, 0, 0, 16, 56, 108, 198, 198, 198, 254, 0, 0, 0, 0, 0],
     [0, 0, 0, 0, 0, 0, 0, 0, 0, 0, 0, 0, 0, 0, 0, 0],
     [0, 0, 24, 24, 0, 24, 24, 24, 60, 60, 60, 24, 0, 0, 0, 0],
     [0, 24, 24, 60, 102, 96, 96, 96, 102, 60, 24, 24, 0, 0, 0, 0],
     [0, 56, 108, 100, 96, 240, 96, 96, 96, 96, 230, 252, 0, 0, 0, 0],
     [0, 0, 0, 0, 102, 60, 102, 102, 102, 60, 102, 0, 0, 0, 0, 0],
     [0, 0, 102, 102, 60, 24, 126, 24, 126, 24, 24, 24, 0, 0, 0, 0],
     [0, 0, 24, 24, 24, 24, 0, 24, 24, 24, 24, 24, 0, 0, 0, 0]]"

definition font_13 :: "u8 list list" where
  "font_13 =
    [[0, 124, 198, 96, 56, 108, 198, 198, 108, 56, 12, 198, 124, 0, 0, 0],
     [0, 0, 108, 108, 0, 0, 0, 0, 0, 0, 0, 0, 0, 0, 0, 0],
     [0, 0, 60, 66, 153, 165, 161, 161, 165, 153, 66, 60, 0, 0, 0, 0],
     [0, 60, 108, 108, 62, 0, 126, 0, 0, 0, 0, 0, 0, 0, 0, 0],
     [0, 0, 0, 0, 0, 54, 108, 216, 108, 54, 0, 0, 0, 0, 0, 0],
     [0, 0, 0, 0, 0, 0, 254, 6, 6, 6, 6, 0, 0, 0, 0, 0],
     [0, 0, 0, 0, 0, 0, 0, 60, 0, 0, 0, 0, 0, 0, 0, 0],
     [0, 0, 56, 68, 186, 178, 170, 68, 56, 0, 0, 0, 0, 0, 0, 0]]"

definition font_14 :: "u8 list list" where
  "font_14 =
    [[0, 0, 0, 124, 0, 0, 0, 0, 0, 0, 0, 0, 0, 0, 0, 0],
     [0, 56, 108, 108, 56, 0, 0, 0, 0, 0, 0, 0, 0, 0, 0, 0],
     [0, 0, 0, 0, 24, 24, 126, 24, 24, 0, 126, 0, 0, 0, 0, 0],
     [0, 112, 216, 48, 96, 200, 248, 0, 0, 0, 0, 0, 0, 0, 0, 0],
     [0, 112, 216, 48, 24, 216, 112, 0, 0, 0, 0, 0, 0, 0, 0, 0],
     [0, 0, 12, 24, 0, 0, 0, 0, 0, 0, 0, 0, 0, 0, 0, 0],
     [0, 0, 0, 0, 0, 204, 204, 204, 204, 204, 204, 246, 192, 192, 192, 0],
     [0, 0, 127, 219, 219, 219, 123, 27, 27, 27, 27, 27, 0, 0, 0, 0]]"

definition font_15 :: "u8 list list" where
  "font_15 =
    [[0, 0, 0, 0, 0, 0, 0, 0, 24, 0, 0, 0, 0, 0, 0, 0],
     [0, 0, 0, 0, 0, 0, 0, 0, 0, 0, 0, 0, 24, 12, 56, 0],
     [0, 48, 112, 48, 48, 48, 120, 0, 0, 0, 0, 0, 0, 0, 0, 0],
     [0, 56, 108, 108, 56, 0, 124, 0, 0, 0, 0, 0, 0, 0, 0, 0],
     [0, 0, 0, 0, 0, 216, 108, 54, 108, 216, 0, 0, 0, 0, 0, 0],
     [0, 192, 192, 194, 198, 204, 24, 48, 102, 206, 158, 62, 6, 6, 0, 0],
     [0, 192, 192, 194, 198, 204, 24, 48, 96, 220, 134, 12, 24, 62, 0, 0],
     [0, 224, 48, 98, 54, 236, 24, 48, 102, 206, 158, 62, 6, 6, 0, 0]]"

definition font_16 :: "u8 list list" where
  "font_16 =
    [[0, 0, 48, 48, 0, 48, 48, 96, 192, 198, 198, 124, 0, 0, 0, 0],
     [96, 48, 0, 16, 56, 108, 198, 198, 254, 198, 198, 198, 0, 0, 0, 0],
     [12, 24, 0, 16, 56, 108, 198, 198, 254, 198, 198, 198, 0, 0, 0, 0],
     [16, 56, 108, 16, 56, 108, 198, 198, 254, 198, 198, 198, 0, 0, 0, 0],
     [118, 220, 0, 16, 56, 108, 198, 198, 254, 198, 198, 198, 0, 0, 0, 0],
     [108, 108, 0, 16, 56, 108, 198, 198, 254, 198, 198, 198, 0, 0, 0, 0],
     [56, 108, 56, 16, 56, 108, 198, 198, 254, 198, 198, 198, 0, 0, 0, 0],
     [0, 0, 62, 108, 204, 204, 254, 204, 204, 204, 204, 206, 0, 0, 0, 0]]"

definition font_17 :: "u8 list list" where
  "font_17 =
    [[0, 0, 60, 102, 194, 192, 192, 192, 192, 194, 102, 60, 24, 12, 56, 0],
     [48, 24, 0, 254, 102, 98, 104, 120, 104, 98, 102, 254, 0, 0, 0, 0],
     [12, 24, 0, 254, 102, 98, 104, 120, 104, 98, 102, 254, 0, 0, 0, 0],
     [16, 56, 68, 254, 102, 98, 104, 120, 104, 98, 102, 254, 0, 0, 0, 0],
     [108, 108, 0, 254, 102, 98, 104, 120, 104, 98, 102, 254, 0, 0, 0, 0],
     [48, 24, 0, 60, 24, 24, 24, 24, 24, 24, 24, 60, 0, 0, 0, 0],
     [12, 24, 0, 60, 24, 24, 24, 24, 24, 24, 24, 60, 0, 0, 0, 0],
     [24, 60, 66, 60, 24, 24, 24, 24, 24, 24, 24, 60, 0, 0, 0, 0]]"

definition font_18 :: "u8 list list" where
  "font_18 =
    [[102, 102, 0, 60, 24, 24, 24, 24, 24, 24, 24, 60, 0, 0, 0, 0],
     [0, 0, 248, 108, 102, 102, 246, 102, 102, 102, 108, 248, 0, 0, 0, 0],
     [118, 220, 0, 198, 230, 246, 254, 222, 206, 198, 198, 198, 0, 0, 0, 0],
     [96, 48, 0, 124, 198, 198, 198, 198, 198, 198, 198, 124, 0, 0, 0, 0],
     [12, 24, 0, 124, 198, 198, 198, 198, 198, 198, 198, 124, 0, 0, 0, 0],
     [16, 56, 68, 124, 198, 198, 198, 198, 198, 198, 198, 124, 0, 0, 0, 0],
     [118, 220, 0, 124, 198, 198, 198, 198, 198, 198, 198, 124, 0, 0, 0, 0],
     [108, 108, 0, 124, 198, 198, 198, 198, 198, 198, 198, 124, 0, 0, 0, 0]]"

definition font_19 :: "u8 list list" where
  "font_19 =
    [[0, 0, 0, 0, 0, 102, 60, 24, 60, 102, 0, 0, 0, 0, 0, 0],
     [0, 0, 122, 196, 206, 206, 214, 214, 230, 230, 70, 188, 0, 0, 0, 0],
     [96, 48, 0, 198, 198, 198, 198, 198, 198, 198, 198, 124, 0, 0, 0, 0],
     [12, 24, 0, 198, 198, 198, 198, 198, 198, 198, 198, 124, 0, 0, 0, 0],
     [16, 56, 68, 198, 198, 198, 198, 198, 198, 198, 198, 124, 0, 0, 0, 0],
     [108, 108, 0, 198, 198, 198, 198, 198, 198, 198, 198, 124, 0, 0, 0, 0],
     [12, 24, 0, 102, 102, 102, 60, 24, 24, 24, 24, 60, 0, 0, 0, 0],
     [0, 0, 240, 96, 124, 102, 102, 102, 102, 124, 96, 240, 0, 0, 0, 0]]"

definition font_20 :: "u8 list list" where
  "font_20 =
    [[0, 0, 60, 102, 102, 102, 108, 102, 102, 102, 102, 236, 0, 0, 0, 0],
     [0, 0, 96, 48, 0, 120, 12, 124, 204, 204, 204, 118, 0, 0, 0, 0],
     [0, 0, 24, 48, 0, 120, 12, 124, 204, 204, 204, 118, 0, 0, 0, 0],
     [0, 16, 56, 108, 0, 120, 12, 124, 204, 204, 204, 118, 0, 0, 0, 0],
     [0, 0, 118, 220, 0, 120, 12, 124, 204, 204, 204, 118, 0, 0, 0, 0],
     [0, 0, 108, 108, 0, 120, 12, 124, 204, 204, 204, 118, 0, 0, 0, 0],
     [0, 56, 108, 56, 0, 120, 12, 124, 204, 204, 204, 118, 0, 0, 0, 0],
     [0, 0, 0, 0, 0, 204, 118, 54, 126, 216, 216, 110, 0, 0, 0, 0]]"

definition font_21 :: "u8 list list" where
  "font_21 =
    [[0, 0, 0, 0, 0, 124, 198, 192, 192, 192, 198, 124, 24, 12, 56, 0],
     [0, 0, 96, 48, 0, 124, 198, 254, 192, 192, 198, 124, 0, 0, 0, 0],
     [0, 0, 12, 24, 0, 124, 198, 254, 192, 192, 198, 124, 0, 0, 0, 0],
     [0, 16, 56, 108, 0, 124, 198, 254, 192, 192, 198, 124, 0, 0, 0, 0],
     [0, 0, 108, 108, 0, 124, 198, 254, 192, 192, 198, 124, 0, 0, 0, 0],
     [0, 0, 48, 24, 0, 56, 24, 24, 24, 24, 24, 60, 0, 0, 0, 0],
     [0, 0, 12, 24, 0, 56, 24, 24, 24, 24, 24, 60, 0, 0, 0, 0],
     [0, 16, 56, 108, 0, 56, 24, 24, 24, 24, 24, 60, 0, 0, 0, 0]]"

definition font_22 :: "u8 list list" where
  "font_22 =
    [[0, 0, 102, 102, 0, 56, 24, 24, 24, 24, 24, 60, 0, 0, 0, 0],
     [0, 0, 118, 28, 60, 6, 126, 198, 198, 198, 198, 124, 0, 0, 0, 0],
     [0, 0, 118, 220, 0, 220, 102, 102, 102, 102, 102, 102, 0, 0, 0, 0],
     [0, 0, 96, 48, 0, 124, 198, 198, 198, 198, 198, 124, 0, 0, 0, 0],
     [0, 0, 12, 24, 0, 124, 198, 198, 198, 198, 198, 124, 0, 0, 0, 0],
     [0, 16, 56, 108, 0, 124, 198, 198, 198, 198, 198, 124, 0, 0, 0, 0],
     [0, 0, 118, 220, 0, 124, 198, 198, 198, 198, 198, 124, 0, 0, 0, 0],
     [0, 0, 108, 108, 0, 124, 198, 198, 198, 198, 198, 124, 0, 0, 0, 0]]"

definition font_23 :: "u8 list list" where
  "font_23 =
    [[0, 0, 0, 0, 24, 24, 0, 126, 0, 24, 24, 0, 0, 0, 0, 0],
     [0, 0, 0, 0, 0, 122, 196, 206, 214, 230, 70, 188, 0, 0, 0, 0],
     [0, 0, 96, 48, 0, 204, 204, 204, 204, 204, 204, 118, 0, 0, 0, 0],
     [0, 0, 24, 48, 0, 204, 204, 204, 204, 204, 204, 118, 0, 0, 0, 0],
     [0, 16, 56, 108, 0, 204, 204, 204, 204, 204, 204, 118, 0, 0, 0, 0],
     [0, 0, 204, 204, 0, 204, 204, 204, 204, 204, 204, 118, 0, 0, 0, 0],
     [0, 0, 12, 24, 0, 198, 198, 198, 198, 198, 198, 126, 6, 12, 248, 0],
     [0, 0, 224, 96, 96, 124, 102, 102, 102, 102, 102, 124, 96, 96, 240, 0]]"

definition font_24 :: "u8 list list" where
  "font_24 =
    [[0, 0, 108, 108, 0, 198, 198, 198, 198, 198, 198, 126, 6, 12, 248, 0]]"

definition font_glyphs :: "u8 list list" where
  "font_glyphs = concat [font_00, font_01, font_02, font_03, font_04, font_05, font_06, font_07, font_08, font_09, font_10, font_11, font_12, font_13, font_14, font_15, font_16, font_17, font_18, font_19, font_20, font_21, font_22, font_23, font_24]"

definition font_codes :: "nat list" where
  "font_codes = [0..<1] @ [32..<128] @ [160..<256]"

text \<open>\<open>__font_bitmap__\<close>: the glyphs one after the other.\<close>

definition font_bitmap :: "u8 list" where
  "font_bitmap = concat font_glyphs"

text \<open>The offset into the array at which the rows of character \<open>c\<close> start.\<close>

definition pixel_map :: "int \<Rightarrow> int" where
  "pixel_map c = CHAR_HEIGHT * (c - 31)"

lemma font_00_shape: "map length font_00 = replicate 8 16"
  unfolding font_00_def by code_simp

lemma font_01_shape: "map length font_01 = replicate 8 16"
  unfolding font_01_def by code_simp

lemma font_02_shape: "map length font_02 = replicate 8 16"
  unfolding font_02_def by code_simp

lemma font_03_shape: "map length font_03 = replicate 8 16"
  unfolding font_03_def by code_simp

lemma font_04_shape: "map length font_04 = replicate 8 16"
  unfolding font_04_def by code_simp

lemma font_05_shape: "map length font_05 = replicate 8 16"
  unfolding font_05_def by code_simp

lemma font_06_shape: "map length font_06 = replicate 8 16"
  unfolding font_06_def by code_simp

lemma font_07_shape: "map length font_07 = replicate 8 16"
  unfolding font_07_def by code_simp

lemma font_08_shape: "map length font_08 = replicate 8 16"
  unfolding font_08_def by code_simp

lemma font_09_shape: "map length font_09 = replicate 8 16"
  unfolding font_09_def by code_simp

lemma font_10_shape: "map length font_10 = replicate 8 16"
  unfolding font_10_def by code_simp

lemma font_11_shape: "map length font_11 = replicate 8 16"
  unfolding font_11_def by code_simp

lemma font_12_shape: "map length font_12 = replicate 8 16"
  unfolding font_12_def by code_simp

lemma font_13_shape: "map length font_13 = replicate 8 16"
  unfolding font_13_def by code_simp

lemma font_14_shape: "map length font_14 = replicate 8 16"
  unfolding font_14_def by code_simp

lemma font_15_shape: "map length font_15 = replicate 8 16"
  unfolding font_15_def by code_simp

lemma font_16_shape: "map length font_16 = replicate 8 16"
  unfolding font_16_def by code_simp

lemma font_17_shape: "map length font_17 = replicate 8 16"
  unfolding font_17_def by code_simp

lemma font_18_shape: "map length font_18 = replicate 8 16"
  unfolding font_18_def by code_simp

lemma font_19_shape: "map length font_19 = replicate 8 16"
  unfolding font_19_def by code_simp

lemma font_20_shape: "map length font_20 = replicate 8 16"
  unfolding font_20_def by code_simp

lemma font_21_shape: "map length font_21 = replicate 8 16"
  unfolding font_21_def by code_simp

lemma font_22_shape: "map length font_22 = replicate 8 16"
  unfolding font_22_def by code_simp

lemma font_23_shape: "map length font_23 = replicate 8 16"
  unfolding font_23_def by code_simp

lemma font_24_shape: "map length font_24 = replicate 1 16"
  unfolding font_24_def by code_simp

lemmas font_shapes = font_00_shape font_01_shape font_02_shape font_03_shape font_04_shape font_05_shape font_06_shape font_07_shape font_08_shape font_09_shape font_10_shape font_11_shape font_12_shape font_13_shape font_14_shape font_15_shape font_16_shape font_17_shape font_18_shape font_19_shape font_20_shape font_21_shape font_22_shape font_23_shape font_24_shape

lemma font_glyphs_shape: "map length font_glyphs = replicate 193 16"
  by (simp only: font_glyphs_def concat.simps map_append font_shapes append_Nil2 replicate_add [symmetric])
    simp

lemma concat_nth_blocks:
  "map length gs = replicate m n \<Longrightarrow> i < length gs \<Longrightarrow> j < n \<Longrightarrow>
   concat gs ! (n * i + j) = gs ! i ! j"
proof (induction gs arbitrary: i m)
  case (Cons g gs)
  then show ?case by (cases i; cases m) (auto simp: nth_append)
qed simp

lemma length_concat_blocks:
  "map length gs = replicate m n \<Longrightarrow> length (concat gs) = m * n"
  by (simp add: length_concat sum_list_replicate)

lemma length_font_bitmap: "length font_bitmap = 3088"
  using length_concat_blocks [OF font_glyphs_shape] by (simp add: font_bitmap_def)

lemma length_font_glyphs: "length font_glyphs = 193"
  using arg_cong [OF font_glyphs_shape, of length] by simp

text \<open>
  For every printable ASCII character (and 127) the rows that \<open>pixel_map\<close> points at lie
  inside the array and are the sixteen rows of the glyph that the table lists for that very
  character code.\<close>

theorem pixel_map_ascii:
  assumes "32 \<le> c" and "c \<le> 127" and "0 \<le> i" and "i < CHAR_HEIGHT"
  shows "0 \<le> pixel_map c \<and> pixel_map c + i < int (length font_bitmap) \<and>
    font_codes ! nat (c - 31) = nat c \<and>
    font_bitmap ! nat (pixel_map c + i) = font_glyphs ! nat (c - 31) ! nat i"
proof -
  have "font_bitmap ! (16 * nat (c - 31) + nat i) = font_glyphs ! nat (c - 31) ! nat i"
    unfolding font_bitmap_def
    using assms length_font_glyphs by (intro concat_nth_blocks [OF font_glyphs_shape]) auto
  moreover have "nat (pixel_map c + i) = 16 * nat (c - 31) + nat i"
    using assms by (simp add: pixel_map_def)
  moreover have "font_codes ! nat (c - 31) = nat c"
  proof -
    have "nat (c - 31) - Suc 0 < 96" "31 + nat (c - 31) = nat c" using assms by auto
    then show ?thesis
      using assms by (simp add: font_codes_def nth_append nth_Cons' del: upt_rec_numeral)
  qed
  ultimately show ?thesis using assms by (simp add: pixel_map_def length_font_bitmap)
qed

theorem pixel_map_ascii_witness:
  "font_codes ! nat (65 - 31) = 65 \<and>
   font_bitmap ! nat (pixel_map 65 + 2) = font_glyphs ! 34 ! 2"
  using pixel_map_ascii [of 65 2] by simp

end
