(* ===== verification/Video_Driver.thy ===== *)
theory Video_Driver
  imports Font "HOL-Library.Signed_Division"
begin

unbundle bit_operations_syntax

text \<open>
  The video driver (\<open>Kernel/videoDriver.c\<close>): a linear frame buffer of three bytes a pixel, a
  text cursor, character printing from the bitmap font, scrolling and the colour settings.

  The frame buffer is the function from the offset to the VESA base address to the byte there,
  so that a store beyond the visible part of the screen is still a store. Characters are
  C's signed \<open>char\<close>, as integers. \<open>v_around\<close> gives the bytes that the linker put before and
  behind the font array, which \<open>print_char\<close> reads for characters that have no glyph.
  C's \<open>/\<close> and \<open>%\<close> truncate towards zero (\<open>sdiv\<close>, \<open>smod\<close>). A screen without a resolution
  (before \<open>load_vDriver\<close>) would divide by zero; the theorems are about screens of at least one
  text cell.
\<close>

type_synonym color = "u8 \<times> u8 \<times> u8"

record video =
  cursor :: int
  x_res :: int
  y_res :: int
  char_color :: color
  bg_color :: color
  fb :: "int \<Rightarrow> u8"
  v_around :: "int \<Rightarrow> u8"

abbreviation V_HEIGHT :: "video \<Rightarrow> int" where "V_HEIGHT v \<equiv> y_res v sdiv CHAR_HEIGHT"
abbreviation V_WIDTH :: "video \<Rightarrow> int" where "V_WIDTH v \<equiv> x_res v sdiv CHAR_WIDTH"
abbreviation ROW :: "video \<Rightarrow> int \<Rightarrow> int" where "ROW v p \<equiv> p sdiv V_WIDTH v"
abbreviation COL :: "video \<Rightarrow> int \<Rightarrow> int" where "COL v p \<equiv> p smod V_WIDTH v"
abbreviation CURSOR_LIMIT :: "video \<Rightarrow> int" where "CURSOR_LIMIT v \<equiv> V_HEIGHT v * V_WIDTH v"

definition scr_x_res :: "video \<Rightarrow> int" where "scr_x_res v = x_res v"
definition scr_y_res :: "video \<Rightarrow> int" where "scr_y_res v = y_res v"
definition text_rows :: "video \<Rightarrow> int" where "text_rows v = V_HEIGHT v"
definition text_cols :: "video \<Rightarrow> int" where "text_cols v = V_WIDTH v"

text \<open>The two little-endian bytes of a resolution in the VESA information block.\<close>

definition get_res :: "(nat \<Rightarrow> u8) \<Rightarrow> int" where
  "get_res mem = push_bit 8 (uint (mem 1)) + uint (mem 0)"

definition load_vDriver :: "(nat \<Rightarrow> u8) \<Rightarrow> video \<Rightarrow> video" where
  "load_vDriver mem v =
     v\<lparr>x_res := get_res (\<lambda>i. mem (0x5C12 + i)), y_res := get_res (\<lambda>i. mem (0x5C14 + i))\<rparr>"

definition current_char_color :: "video \<Rightarrow> color" where "current_char_color v = char_color v"
definition current_bg_color :: "video \<Rightarrow> color" where "current_bg_color v = bg_color v"

definition valid_colors :: "u64 \<Rightarrow> u64 \<Rightarrow> u64 \<Rightarrow> bool" where
  "valid_colors r g b \<longleftrightarrow> 0 \<le> r \<and> r \<le> 255 \<and> 0 \<le> g \<and> g \<le> 255 \<and> 0 \<le> b \<and> b \<le> 255"

definition set_color :: "u64 \<Rightarrow> u64 \<Rightarrow> u64 \<Rightarrow> color \<Rightarrow> int \<times> color" where
  "set_color r g b c =
     (if \<not> valid_colors r g b then (0, c) else (1, (ucast r, ucast g, ucast b)))"

definition set_bg_color :: "u64 \<Rightarrow> u64 \<Rightarrow> u64 \<Rightarrow> video \<Rightarrow> int \<times> video" where
  "set_bg_color r g b v = (let (ret, c) = set_color r g b (bg_color v) in (ret, v\<lparr>bg_color := c\<rparr>))"

definition set_char_color :: "u64 \<Rightarrow> u64 \<Rightarrow> u64 \<Rightarrow> video \<Rightarrow> int \<times> video" where
  "set_char_color r g b v = (let (ret, c) = set_color r g b (char_color v) in (ret, v\<lparr>char_color := c\<rparr>))"

definition valid_pixel :: "int \<Rightarrow> int \<Rightarrow> video \<Rightarrow> bool" where
  "valid_pixel x y v \<longleftrightarrow> x \<ge> 0 \<and> x \<le> x_res v \<and> y \<ge> 0 \<and> y \<le> y_res v"

definition fill :: "u8 \<Rightarrow> u8 \<Rightarrow> u8 \<Rightarrow> int \<Rightarrow> int \<Rightarrow> video \<Rightarrow> int \<times> video" where
  "fill red green blue x y v =
     (if \<not> valid_pixel x y v then (0, v)
      else let a = 3 * (x + y * x_res v)
           in (1, v\<lparr>fb := (fb v)(a := blue, a + 1 := green, a + 2 := red)\<rparr>))"

definition fillChar :: "int \<Rightarrow> int \<Rightarrow> video \<Rightarrow> video" where
  "fillChar x y v = (case char_color v of (r, g, b) \<Rightarrow> snd (fill r g b x y v))"

definition fillBackground :: "int \<Rightarrow> int \<Rightarrow> video \<Rightarrow> video" where
  "fillBackground x y v = (case bg_color v of (r, g, b) \<Rightarrow> snd (fill r g b x y v))"

definition valid_pos :: "int \<Rightarrow> int \<Rightarrow> video \<Rightarrow> bool" where
  "valid_pos row col v \<longleftrightarrow> row < V_HEIGHT v \<and> col < V_WIDTH v \<and> row \<ge> 0 \<and> col \<ge> 0"

text \<open>The loop of \<open>print_char_line\<close> from column \<open>j\<close> on, with \<open>n\<close> columns to go.\<close>

primrec line_loop :: "nat \<Rightarrow> nat \<Rightarrow> u8 \<Rightarrow> int \<Rightarrow> int \<Rightarrow> video \<Rightarrow> video" where
  "line_loop 0 j line x y v = v"
| "line_loop (Suc n) j line x y v =
     line_loop n (Suc j) line x y
       (if line AND ([128, 64, 32, 16, 8, 4, 2, 1] ! j) \<noteq> 0 then fillChar (x + int j) y v
        else fillBackground (x + int j) y v)"

definition print_char_line :: "u8 \<Rightarrow> int \<Rightarrow> int \<Rightarrow> video \<Rightarrow> video" where
  "print_char_line line x y v = line_loop 8 0 line x y v"

definition font_byte :: "video \<Rightarrow> int \<Rightarrow> u8" where
  "font_byte v off =
     (if 0 \<le> off \<and> off < int (length font_bitmap) then font_bitmap ! nat off else v_around v off)"

primrec char_loop :: "nat \<Rightarrow> nat \<Rightarrow> int \<Rightarrow> int \<Rightarrow> int \<Rightarrow> video \<Rightarrow> video" where
  "char_loop 0 i char_map x y v = v"
| "char_loop (Suc n) i char_map x y v =
     char_loop n (Suc i) char_map x y
       (print_char_line (font_byte v (char_map + int i)) x (y + int i) v)"

definition print_char :: "int \<Rightarrow> int \<Rightarrow> int \<Rightarrow> video \<Rightarrow> video" where
  "print_char c row col v =
     (if valid_pos row col v
      then char_loop 16 0 (pixel_map c) (col * CHAR_WIDTH) (row * CHAR_HEIGHT) v
      else v)"

primrec clear_line_loop :: "nat \<Rightarrow> nat \<Rightarrow> int \<Rightarrow> video \<Rightarrow> video" where
  "clear_line_loop 0 i line v = v"
| "clear_line_loop (Suc n) i line v = clear_line_loop n (Suc i) line (print_char 32 line (int i) v)"

definition clear_line :: "int \<Rightarrow> video \<Rightarrow> video" where
  "clear_line line v =
     (if line \<ge> 0 \<and> line < V_HEIGHT v then clear_line_loop (nat (V_WIDTH v)) 0 line v else v)"

text \<open>
  The copy towards lower addresses is made forwards, so that every byte is read before it is
  overwritten. A negative length is a huge \<open>uint64_t\<close>.
\<close>

definition scroll :: "video \<Rightarrow> video" where
  "scroll v =
     (let shift = 3 * x_res v * CHAR_HEIGHT;
          len = y_res v * x_res v * 3 - CHAR_HEIGHT * x_res v * 3
      in clear_line (V_HEIGHT v - 1)
           (v\<lparr>fb := (\<lambda>a. if 0 \<le> a \<and> (len < 0 \<or> a < len) then fb v (a + shift) else fb v a)\<rparr>))"

text \<open>The second half of \<open>put_char\<close>: the cursor is brought back onto the screen.\<close>

definition settle_cursor :: "video \<Rightarrow> video" where
  "settle_cursor v =
     (let v = (if cursor v < 0 then v\<lparr>cursor := 0\<rparr> else v)
      in if cursor v \<ge> CURSOR_LIMIT v
         then (scroll v)\<lparr>cursor := CURSOR_LIMIT v - V_WIDTH v\<rparr>
         else v)"

definition put_char :: "int \<Rightarrow> video \<Rightarrow> video" where
  "put_char c v =
     settle_cursor
      (if c = 8 then
         let v = v\<lparr>cursor := cursor v - 1\<rparr>
         in print_char 32 (ROW v (cursor v)) (COL v (cursor v)) v
       else if c = 10 then v\<lparr>cursor := cursor v + (V_WIDTH v - COL v (cursor v))\<rparr>
       else if c = 13 then v\<lparr>cursor := 0\<rparr>
       else if c \<noteq> 9 then
         (let v = print_char c (ROW v (cursor v)) (COL v (cursor v)) v
          in v\<lparr>cursor := cursor v + 1\<rparr>)
       else v)"

text \<open>\<open>put_str\<close> and \<open>put\<close>: the characters of a string, one after the other.\<close>

primrec put_str :: "int list \<Rightarrow> video \<Rightarrow> video" where
  "put_str [] v = v"
| "put_str (c # cs) v = put_str cs (put_char c v)"

definition put :: "int list \<Rightarrow> int \<Rightarrow> video \<Rightarrow> video" where
  "put str len v = put_str (take (nat len) str) v"

definition print_str :: "int list \<Rightarrow> int \<Rightarrow> int \<Rightarrow> video \<Rightarrow> video" where
  "print_str str row col v =
     (let backup = cursor v
      in (put_str str (v\<lparr>cursor := row * V_WIDTH v + col\<rparr>))\<lparr>cursor := backup\<rparr>)"

primrec print_loop :: "int list \<Rightarrow> int \<Rightarrow> video \<Rightarrow> video" where
  "print_loop [] pos v = v"
| "print_loop (c # cs) pos v =
     (if valid_pos (ROW v pos) (COL v pos) v
      then print_loop cs (pos + 1) (print_char c (ROW v pos) (COL v pos) v)
      else v)"

definition print :: "int list \<Rightarrow> int \<Rightarrow> int \<Rightarrow> int \<Rightarrow> video \<Rightarrow> video" where
  "print str len row col v =
     (if valid_pos row col v then print_loop (take (nat len) str) (row * V_WIDTH v + col) v else v)"

primrec clear_loop :: "nat \<Rightarrow> nat \<Rightarrow> video \<Rightarrow> video" where
  "clear_loop 0 i v = v"
| "clear_loop (Suc n) i v =
     clear_loop n (Suc i) (print_char 32 (ROW v (int i)) (COL v (int i)) v)"

definition clear :: "video \<Rightarrow> video" where
  "clear v = (clear_loop (nat (V_WIDTH v * V_HEIGHT v)) 0 v)\<lparr>cursor := 0\<rparr>"

text \<open>
  \<open>count_digits\<close> and \<open>print_num\<close>; the arguments are \<open>int\<close>s whose negation is an \<open>int\<close> too.
\<close>

function digits_loop :: "int \<Rightarrow> int \<Rightarrow> int" where
  "digits_loop num digits =
     (if num sdiv 10 > 0 then digits_loop (num sdiv 10) (digits + 1) else digits)"
  by pat_completeness auto
termination
  by (relation "measure (\<lambda>(n, d). nat n)") (auto simp: signed_divide_int_def sgn_if split: if_splits)

declare digits_loop.simps [simp del]

definition count_digits :: "int \<Rightarrow> int" where
  "count_digits num = digits_loop (if num < 0 then num * - 1 else num) 1"

text \<open>The digits written from the last one down, \<open>n\<close> of them, in front of \<open>acc\<close>.\<close>

primrec num_loop :: "nat \<Rightarrow> int \<Rightarrow> int list \<Rightarrow> int list" where
  "num_loop 0 num acc = acc"
| "num_loop (Suc n) num acc = num_loop n (num sdiv 10) ((num smod 10 + 48) # acc)"

definition print_num :: "int \<Rightarrow> int \<Rightarrow> int \<Rightarrow> video \<Rightarrow> video" where
  "print_num num row col v =
     (let digits = count_digits num
      in if num < 0
         then print (45 # num_loop (nat digits) (num * - 1) []) (digits + 1) row col v
         else print (num_loop (nat digits) num []) digits row col v)"

section \<open>Frames: what painting leaves alone\<close>

definition same_settings :: "video \<Rightarrow> video \<Rightarrow> bool" where
  "same_settings v w \<longleftrightarrow>
     x_res w = x_res v \<and> y_res w = y_res v \<and> char_color w = char_color v \<and>
     bg_color w = bg_color v \<and> v_around w = v_around v"

lemma same_settings_refl [simp]: "same_settings v v"
  by (simp add: same_settings_def)

lemma same_settings_trans [trans]: "same_settings u v \<Longrightarrow> same_settings v w \<Longrightarrow> same_settings u w"
  by (simp add: same_settings_def)

lemma fill_frame: "same_settings v (snd (fill r g b x y v)) \<and> cursor (snd (fill r g b x y v)) = cursor v"
  by (simp add: fill_def Let_def same_settings_def)

lemma fillChar_frame [simp]: "same_settings v (fillChar x y v)" "cursor (fillChar x y v) = cursor v"
  by (simp_all add: fillChar_def fill_frame split: prod.split)

lemma fillBackground_frame [simp]:
  "same_settings v (fillBackground x y v)" "cursor (fillBackground x y v) = cursor v"
  by (simp_all add: fillBackground_def fill_frame split: prod.split)

lemma line_loop_frame:
  "same_settings v (line_loop n j line x y v) \<and> cursor (line_loop n j line x y v) = cursor v"
proof (induction n arbitrary: j v)
  case (Suc n)
  let ?w = "if line AND ([128, 64, 32, 16, 8, 4, 2, 1] ! j) \<noteq> 0 then fillChar (x + int j) y v
    else fillBackground (x + int j) y v"
  have "same_settings v ?w" "cursor ?w = cursor v" by simp_all
  note w = this and ih = Suc.IH [where j = "Suc j" and v = ?w]
  from same_settings_trans [OF w(1) conjunct1 [OF ih]] ih w(2) show ?case
    by (simp only: line_loop.simps)
qed simp

lemma char_loop_frame:
  "same_settings v (char_loop n i m x y v) \<and> cursor (char_loop n i m x y v) = cursor v"
proof (induction n arbitrary: i v)
  case (Suc n)
  let ?w = "print_char_line (font_byte v (m + int i)) x (y + int i) v"
  have "same_settings v ?w" "cursor ?w = cursor v"
    unfolding print_char_line_def using line_loop_frame by blast+
  note w = this and ih = Suc.IH [where i = "Suc i" and v = ?w]
  from same_settings_trans [OF w(1) conjunct1 [OF ih]] ih w(2) show ?case
    by (simp only: char_loop.simps)
qed simp

lemma print_char_frame [simp]:
  "same_settings v (print_char c row col v)" "cursor (print_char c row col v) = cursor v"
  using char_loop_frame by (auto simp: print_char_def)

lemma clear_line_loop_frame: "same_settings v (clear_line_loop n i line v)"
proof (induction n arbitrary: i v)
  case (Suc n)
  from same_settings_trans [OF print_char_frame(1) Suc.IH] show ?case by simp
qed simp

lemma scroll_frame: "same_settings v (scroll v)"
proof -
  have "same_settings v (v\<lparr>fb := f\<rparr>)" for f by (simp add: same_settings_def)
  moreover have "same_settings w (clear_line l w)" for l w
    using clear_line_loop_frame by (simp add: clear_line_def)
  ultimately show ?thesis unfolding scroll_def Let_def by (rule same_settings_trans)
qed

lemma settle_cursor_frame: "same_settings v (settle_cursor v)"
  using scroll_frame [of v] scroll_frame [of "v\<lparr>cursor := 0\<rparr>"]
  by (auto simp: settle_cursor_def same_settings_def Let_def)

lemma put_char_frame: "same_settings v (put_char c v)"
proof -
  have c: "same_settings v (v\<lparr>cursor := k\<rparr>)" for k v by (simp add: same_settings_def)
  show ?thesis
    unfolding put_char_def Let_def
    by (auto intro: same_settings_trans [OF _ settle_cursor_frame] same_settings_trans [OF c]
        same_settings_trans [OF print_char_frame(1)] c settle_cursor_frame)
qed

section \<open>The cursor\<close>

definition screen_ok :: "video \<Rightarrow> bool" where
  "screen_ok v \<longleftrightarrow> 0 < V_WIDTH v \<and> 0 < V_HEIGHT v \<and> 0 \<le> cursor v \<and> cursor v < CURSOR_LIMIT v"

lemma settle_cursor_ok:
  assumes "0 < V_WIDTH v" "0 < V_HEIGHT v"
  shows "screen_ok (settle_cursor v)"
proof -
  note f = settle_cursor_frame [of v]
  have "V_WIDTH v \<le> CURSOR_LIMIT v" using assms by (simp add: mult_le_cancel_right1)
  moreover from this have "cursor (settle_cursor v) < CURSOR_LIMIT v" "0 \<le> cursor (settle_cursor v)"
    using assms by (auto simp: settle_cursor_def Let_def)
  ultimately show ?thesis using f assms by (simp add: screen_ok_def same_settings_def)
qed

lemma put_char_ok: "screen_ok v \<Longrightarrow> screen_ok (put_char c v)"
  unfolding put_char_def
  by (rule settle_cursor_ok)
    (use print_char_frame(1) in \<open>auto simp: screen_ok_def same_settings_def Let_def\<close>)

lemma put_str_ok: "screen_ok v \<Longrightarrow> screen_ok (put_str cs v) \<and> same_settings v (put_str cs v)"
proof (induction cs arbitrary: v)
  case (Cons c cs)
  from Cons.IH [OF put_char_ok [OF Cons.prems]] put_char_frame [of v c] show ?case
    by (auto intro: same_settings_trans)
qed simp

section \<open>Pixels\<close>

definition pixel :: "video \<Rightarrow> int \<Rightarrow> int \<Rightarrow> color" where
  "pixel v x y =
     (let a = 3 * (x + y * x_res v) in (fb v (a + 2), fb v (a + 1), fb v a))"

lemma pixel_addr_inj:
  fixes w :: int
  assumes "0 \<le> x" "x < w" "0 \<le> x'" "x' < w" "x + y * w = x' + y' * w"
  shows "x = x' \<and> y = y'"
proof -
  have "(x + y * w) mod w = x" "(x' + y' * w) mod w = x'"
    using assms(1-4) by simp_all
  with assms(5) have "x = x'" by metis
  with assms show ?thesis by auto
qed

lemma fill_pixel:
  assumes "valid_pixel x y v" "0 \<le> x" "x < x_res v" "0 \<le> x'" "x' < x_res v"
  shows "pixel (snd (fill r g b x y v)) x' y' = (if x' = x \<and> y' = y then (r, g, b) else pixel v x' y')"
proof (cases "x' + y' * x_res v = x + y * x_res v")
  case True
  with pixel_addr_inj [OF assms(4,5,2,3)] have "x' = x \<and> y' = y" by blast
  with assms show ?thesis by (simp add: fill_def pixel_def Let_def)
next
  case False
  then have neq: "(x' = x \<and> y' = y) = False" by auto
  moreover have "3 * (x' + y' * x_res v) + k \<noteq> 3 * (x + y * x_res v) + l" if "k < 3" "l < 3" "0 \<le> k" "0 \<le> l" for k l
    using False that by presburger
  note this [of 0 0, simplified] this [of 0 1, simplified] this [of 0 2, simplified]
    this [of 1 0, simplified] this [of 1 1, simplified] this [of 1 2, simplified]
    this [of 2 0, simplified] this [of 2 1, simplified] this [of 2 2, simplified]
  ultimately show ?thesis using assms(1) unfolding neq by (simp add: fill_def pixel_def Let_def)
qed

lemma settings_pixel:
  assumes "same_settings v w"
  shows "valid_pixel x y w = valid_pixel x y v" "x_res w = x_res v"
    "char_color w = char_color v" "bg_color w = bg_color v" "font_byte w off = font_byte v off"
  using assms by (auto simp: same_settings_def valid_pixel_def font_byte_def)

definition lit :: "u8 \<Rightarrow> nat \<Rightarrow> bool" where
  "lit line j \<longleftrightarrow> line AND ([128, 64, 32, 16, 8, 4, 2, 1] ! j) \<noteq> 0"

lemma line_loop_pixel:
  assumes "0 \<le> x" "x + int j + int n \<le> x_res v" "0 \<le> y" "y \<le> y_res v" "0 \<le> x'" "x' < x_res v"
  shows "pixel (line_loop n j line x y v) x' y' =
    (if y' = y \<and> x + int j \<le> x' \<and> x' < x + int j + int n
     then (if lit line (nat (x' - x)) then char_color v else bg_color v) else pixel v x' y')"
  using assms
proof (induction n arbitrary: j v)
  case (Suc n)
  let ?w = "if lit line j then fillChar (x + int j) y v else fillBackground (x + int j) y v"
  have w: "same_settings v ?w" by simp
  have "pixel ?w x' y' = (if x' = x + int j \<and> y' = y
      then (if lit line j then char_color v else bg_color v) else pixel v x' y')"
    using Suc.prems by (simp add: fillChar_def fillBackground_def fill_pixel valid_pixel_def split: prod.split)
  moreover have "pixel (line_loop n (Suc j) line x y ?w) x' y' =
    (if y' = y \<and> x + int (Suc j) \<le> x' \<and> x' < x + int (Suc j) + int n
     then (if lit line (nat (x' - x)) then char_color v else bg_color v) else pixel ?w x' y')"
    using Suc.IH [of "Suc j" ?w] Suc.prems w by (simp add: same_settings_def)
  moreover have "line_loop (Suc n) j line x y v = line_loop n (Suc j) line x y ?w"
    by (simp add: lit_def)
  ultimately show ?case by auto
qed auto

lemma char_loop_pixel:
  assumes "0 \<le> x" "x + CHAR_WIDTH \<le> x_res v" "0 \<le> y" "y + int i + int n \<le> y_res v"
    "0 \<le> x'" "x' < x_res v"
  shows "pixel (char_loop n i m x y v) x' y' =
    (if y + int i \<le> y' \<and> y' < y + int i + int n \<and> x \<le> x' \<and> x' < x + CHAR_WIDTH
     then (if lit (font_byte v (m + (y' - y))) (nat (x' - x)) then char_color v else bg_color v)
     else pixel v x' y')"
  using assms
proof (induction n arbitrary: i v)
  case (Suc n)
  let ?w = "print_char_line (font_byte v (m + int i)) x (y + int i) v"
  have w: "same_settings v ?w" unfolding print_char_line_def using line_loop_frame by blast
  have "pixel ?w x' y' = (if y' = y + int i \<and> x \<le> x' \<and> x' < x + CHAR_WIDTH
      then (if lit (font_byte v (m + int i)) (nat (x' - x)) then char_color v else bg_color v)
      else pixel v x' y')"
    unfolding print_char_line_def using Suc.prems line_loop_pixel [of x 0 8 v "y + int i" x'] by simp
  moreover have "pixel (char_loop n (Suc i) m x y ?w) x' y' =
    (if y + int (Suc i) \<le> y' \<and> y' < y + int (Suc i) + int n \<and> x \<le> x' \<and> x' < x + CHAR_WIDTH
     then (if lit (font_byte v (m + (y' - y))) (nat (x' - x)) then char_color v else bg_color v)
     else pixel ?w x' y')"
    using Suc.IH [of ?w "Suc i"] Suc.prems w settings_pixel [OF w] by (simp add: same_settings_def)
  moreover have "char_loop (Suc n) i m x y v = char_loop n (Suc i) m x y ?w" by simp
  ultimately show ?case by auto
qed auto

lemma sdiv_pos: "0 \<le> (r::int) \<Longrightarrow> 0 < k \<Longrightarrow> r sdiv k = r div k"
  by (cases "r = 0") (simp_all add: signed_divide_int_def)

lemma sdiv_cell:
  assumes a: "0 \<le> a" "a < r sdiv k" and k: "0 < (k :: int)"
  shows "a * k + k \<le> r"
proof (cases "0 \<le> r")
  case True
  have "(a + 1) * k \<le> (r div k) * k" using a k True by (intro mult_right_mono) (auto simp: sdiv_pos)
  moreover have "(r div k) * k = r - r mod k" by (simp add: minus_mod_eq_div_mult)
  moreover have "0 \<le> r mod k" using k by simp
  ultimately have "(a + 1) * k \<le> r" by linarith
  then show ?thesis by (simp add: algebra_simps)
next
  case False
  then have "0 \<le> \<bar>r\<bar> div k" using k by (simp add: pos_imp_zdiv_nonneg_iff)
  with False a k show ?thesis by (simp add: signed_divide_int_def)
qed

section \<open>Properties\<close>

text \<open>
  C16. Printing any sequence of characters keeps the text cursor inside the screen (at least one
  text row and column) and leaves the resolution and the colours alone.\<close>

theorem put_str_cursor:
  assumes "screen_ok v"
  shows "screen_ok (put_str cs v) \<and> same_settings v (put_str cs v)"
  using put_str_ok [OF assms] .

theorem put_str_cursor_witness:
  "screen_ok (put_str [8, 65, 10, 10, 13] \<lparr>cursor = 0, x_res = 16, y_res = 32, char_color = (255, 255, 255),
     bg_color = (0, 0, 0), fb = (\<lambda>_. 0), v_around = (\<lambda>_. 0)\<rparr>)"
  by (rule conjunct1 [OF put_str_cursor]) (simp add: screen_ok_def signed_divide_int_def)

text \<open>
  \<open>print_char\<close> at a valid text position paints exactly the 8 by 16 pixels of that cell:
  a pixel gets the character colour where the glyph's row has its bit set and the background
  colour elsewhere, and every pixel outside the cell keeps its colour.\<close>

theorem print_char_paints_glyph:
  assumes "valid_pos row col v" and "0 \<le> x" and "x < x_res v"
  shows "pixel (print_char c row col v) x y =
    (if row * CHAR_HEIGHT \<le> y \<and> y < row * CHAR_HEIGHT + CHAR_HEIGHT \<and>
        col * CHAR_WIDTH \<le> x \<and> x < col * CHAR_WIDTH + CHAR_WIDTH
     then (if lit (font_byte v (pixel_map c + (y - row * CHAR_HEIGHT))) (nat (x - col * CHAR_WIDTH))
           then char_color v else bg_color v)
     else pixel v x y)"
  using assms char_loop_pixel [of "col * CHAR_WIDTH" v "row * CHAR_HEIGHT" 0 16 x "pixel_map c" y]
    sdiv_cell [of col "x_res v" CHAR_WIDTH] sdiv_cell [of row "y_res v" CHAR_HEIGHT]
  by (simp add: print_char_def valid_pos_def)

theorem print_char_paints_glyph_witness:
  "pixel (print_char 33 0 1 \<lparr>cursor = 0, x_res = 16, y_res = 16, char_color = (255, 255, 255),
     bg_color = (0, 0, 0), fb = (\<lambda>_. 7), v_around = (\<lambda>_. 0)\<rparr>) 3 5 = (7, 7, 7)"
  by (subst print_char_paints_glyph) (simp_all add: valid_pos_def signed_divide_int_def pixel_def)

text \<open>
  \<open>valid_pixel\<close> admits one column and one row too many: on every screen a \<open>fill\<close> at
  \<open>(x_res, y_res)\<close> reports success and stores beyond the last byte of the frame buffer.\<close>

theorem fill_beyond_screen:
  assumes "0 < x_res v" and "0 < y_res v"
  shows "\<exists>v'. fill r g b (x_res v) (y_res v) v = (1, v') \<and>
    fb v' (3 * (x_res v + y_res v * x_res v)) = b \<and>
    3 * (x_res v + y_res v * x_res v) \<ge> 3 * x_res v * y_res v"
  using assms by (simp add: fill_def valid_pixel_def Let_def algebra_simps)

theorem fill_beyond_screen_witness:
  "\<exists>v'. fill 1 2 3 1024 768 \<lparr>cursor = 0, x_res = 1024, y_res = 768, char_color = (255, 255, 255),
     bg_color = (0, 0, 0), fb = (\<lambda>_. 0), v_around = (\<lambda>_. 0)\<rparr> = (1, v')"
  using fill_beyond_screen [of "\<lparr>cursor = 0, x_res = 1024, y_res = 768, char_color = (255, 255, 255),
     bg_color = (0, 0, 0), fb = (\<lambda>_. 0), v_around = (\<lambda>_. 0)\<rparr>" 1 2 3] by auto

end
