(* ===== verification/Kernel_State.thy ===== *)
theory Kernel_State
  imports Keyboard_Driver Circular_Buffer Video_Driver
begin

text \<open>
  The state of the kernel: every static variable of the C files under \<open>Kernel/\<close> that the model
  covers, and the objects that the kernel keeps in pages of its allocator.

  Memory obtained from \<open>get_page\<close> is a heap with one map per structure type, from the address
  of the page to the structure stored there (\<open>h_proc\<close>, \<open>h_queue\<close>, \<open>h_qnode\<close>, \<open>h_snode\<close>,
  \<open>h_rreq\<close>, \<open>h_sleep\<close>, \<open>h_frame\<close>). A page that is given back keeps its contents, as in the
  code; following a pointer to a page that never held the structure is a fault. What the
  fields of a structure read as before the code writes them is given by \<open>junk_proc\<close> and
  \<open>junk_bytes_read\<close>. User buffers are bytes (\<open>bytes\<close>).
\<close>

section \<open>Structures\<close>

text \<open>The values of \<open>status\<close> (\<open>process.h\<close>).\<close>

datatype status = RUNNING | READY | BLOCKED | BLOCKED_READ | DELETE | BLOCKED_FOREGROUND

abbreviation MAX_FDS :: int where "MAX_FDS \<equiv> 64"
abbreviation MAX_DATA_PAGES :: nat where "MAX_DATA_PAGES \<equiv> 64"
abbreviation MAX_PROCESS_NAME :: nat where "MAX_PROCESS_NAME \<equiv> 64"
abbreviation MAX_PROCESSES :: nat where "MAX_PROCESSES \<equiv> 128"

record process =
  p_st :: status
  p_name :: string
  entry_point :: u64
  p_rsp :: u64
  stack_page :: u64
  n_data_page :: u64
  data_page :: "ptr list"
  p_pid :: u64
  p_ppid :: u64
  open_fds :: u64

text \<open>The frame that \<open>fill_stack\<close> lays out for \<open>popState\<close> and \<open>iretq\<close>.\<close>

record StackFrame =
  sf_gs :: u64
  sf_fs :: u64
  sf_r15 :: u64
  sf_r14 :: u64
  sf_r13 :: u64
  sf_r12 :: u64
  sf_r11 :: u64
  sf_r10 :: u64
  sf_r9 :: u64
  sf_r8 :: u64
  sf_rsi :: u64
  sf_rdi :: u64
  sf_rbp :: u64
  sf_rdx :: u64
  sf_rcx :: u64
  sf_rbx :: u64
  sf_rax :: u64
  sf_rip :: u64
  sf_cs :: u64
  sf_eflags :: u64
  sf_rsp :: u64
  sf_ss :: u64
  sf_base :: u64

text \<open>\<open>struct queue\<close> and its nodes (\<open>queueADT.c\<close>).\<close>

record queue =
  q_first :: ptr
  q_last :: ptr

record qnode =
  q_elem :: ptr
  q_next :: ptr

text \<open>A node of the scheduler's ring (\<open>processManager.c\<close>).\<close>

record list_node =
  quantum :: int
  sn_p :: ptr
  sn_next :: ptr

abbreviation LOCKED :: int where "LOCKED \<equiv> 0"
abbreviation UNLOCKED :: int where "UNLOCKED \<equiv> 1"
abbreviation OPEN :: int where "OPEN \<equiv> 1"
abbreviation CLOSED :: int where "CLOSED \<equiv> 0"
abbreviation NOT_OPEN_ERROR :: int where "NOT_OPEN_ERROR \<equiv> - 1"

abbreviation MAX_MUTEXES :: nat where "MAX_MUTEXES \<equiv> 128"
abbreviation MUTEX_NAME_LEN :: nat where "MUTEX_NAME_LEN \<equiv> 64"
abbreviation MAX_MUTEX_OPEN_ERROR :: int where "MAX_MUTEX_OPEN_ERROR \<equiv> - 2"

record mutex =
  m_name :: string
  m_locked :: int
  m_state :: int
  m_queue :: ptr

abbreviation MAX_COND_VAR :: nat where "MAX_COND_VAR \<equiv> 128"
abbreviation COND_NAME_LEN :: nat where "COND_NAME_LEN \<equiv> 64"
abbreviation MAX_COND_OPEN_ERROR :: int where "MAX_COND_OPEN_ERROR \<equiv> - 2"

record cond_variable =
  c_name :: string
  c_state :: int
  lock_queue :: u64
  c_queue :: ptr

abbreviation MAX_FIFOS :: nat where "MAX_FIFOS \<equiv> 128"
abbreviation FIFO_NAME_LEN :: nat where "FIFO_NAME_LEN \<equiv> 64"
abbreviation FIFO_NOT_OPEN_ERROR :: int where "FIFO_NOT_OPEN_ERROR \<equiv> - 1"
abbreviation MAX_FIFOS_OPEN_ERROR :: int where "MAX_FIFOS_OPEN_ERROR \<equiv> - 2"
abbreviation FILE_DESCRIPTORS :: int where "FILE_DESCRIPTORS \<equiv> 3"

record fifo =
  f_name :: string
  c_buffer :: circular_buffer
  f_state :: int
  fifo_mutex_key :: int
  read_queue :: ptr

text \<open>The field \<open>f\<close> of a request is a pointer into \<open>open_fifos\<close>: the index there.\<close>

record read_request =
  rr_bytes :: int
  bytes_read :: int
  rr_buffer :: ptr
  rr_f :: int
  reader_p :: ptr

record sleep_process =
  sp_p :: ptr
  ticks :: u64
  sp_next :: ptr

section \<open>The kernel's variables\<close>

record kstate =
  pages_stack :: "u8 list"
  current_index :: u8
  memory_mutex_key :: u64
  stack_pages_stack :: "u64 list"
  current_stack_index :: u16
  stack_memory_mutex_key :: u64
  h_proc :: "ptr \<Rightarrow> process option"
  h_queue :: "ptr \<Rightarrow> queue option"
  h_qnode :: "ptr \<Rightarrow> qnode option"
  h_snode :: "ptr \<Rightarrow> list_node option"
  h_rreq :: "ptr \<Rightarrow> read_request option"
  h_sleep :: "ptr \<Rightarrow> sleep_process option"
  h_frame :: "ptr \<Rightarrow> StackFrame option"
  junk_proc :: "ptr \<Rightarrow> process"
  junk_bytes_read :: "ptr \<Rightarrow> int"
  junk_array :: "u8 list"
  bytes :: "u64 \<Rightarrow> u8"
  open_mutexes :: "mutex list"
  array_mutex :: int
  open_conds :: "cond_variable list"
  array_lock :: int
  open_fifos :: "fifo list"
  fifo_array_lock :: int
  process_table :: "ptr list"
  foreground :: ptr
  n_processes :: u64
  table_mutex_key :: u64
  cur_node :: ptr
  prev_node :: ptr
  superlock :: int
  sleeping_processes :: ptr
  keyboard :: kbd
  screen :: video

type_synonym 'a kres = "(kstate, 'a) res"

section \<open>Following pointers\<close>

definition rd :: "(kstate \<Rightarrow> ptr \<Rightarrow> 'o option) \<Rightarrow> ptr \<Rightarrow> kstate \<Rightarrow> ('o \<Rightarrow> 'b kres) \<Rightarrow> 'b kres" where
  "rd h p s f =
     (if p = NULL then Fault Null_Deref
      else case h s p of None \<Rightarrow> Fault Bad_Pointer | Some x \<Rightarrow> f x)"

lemma rd_Some [simp]: "p \<noteq> NULL \<Longrightarrow> h s p = Some x \<Longrightarrow> rd h p s f = f x"
  by (simp add: rd_def)

definition put_proc :: "ptr \<Rightarrow> process \<Rightarrow> kstate \<Rightarrow> kstate" where
  "put_proc p x s = s\<lparr>h_proc := (h_proc s)(p := Some x)\<rparr>"

definition put_queue :: "ptr \<Rightarrow> queue \<Rightarrow> kstate \<Rightarrow> kstate" where
  "put_queue q x s = s\<lparr>h_queue := (h_queue s)(q := Some x)\<rparr>"

definition put_qnode :: "ptr \<Rightarrow> qnode \<Rightarrow> kstate \<Rightarrow> kstate" where
  "put_qnode q x s = s\<lparr>h_qnode := (h_qnode s)(q := Some x)\<rparr>"

definition put_snode :: "ptr \<Rightarrow> list_node \<Rightarrow> kstate \<Rightarrow> kstate" where
  "put_snode q x s = s\<lparr>h_snode := (h_snode s)(q := Some x)\<rparr>"

lemmas put_defs = put_proc_def put_queue_def put_qnode_def put_snode_def

section \<open>The state of a process\<close>

text \<open>
  The one-field operations of \<open>process.c\<close>. Each takes a pointer that may be \<open>NULL\<close> and does what
  the code does with it.
\<close>

definition kill_process :: "ptr \<Rightarrow> kstate \<Rightarrow> int kres" where
  "kill_process p s =
     (if p \<noteq> NULL
      then rd h_proc p s (\<lambda>x.
             Ret 1 (if p_pid x \<noteq> 1 \<and> p_pid x \<noteq> 0 then put_proc p (x\<lparr>p_st := DELETE\<rparr>) s else s))
      else Ret 0 s)"

definition is_delete_process :: "ptr \<Rightarrow> kstate \<Rightarrow> bool kres" where
  "is_delete_process p s = (if p \<noteq> NULL then rd h_proc p s (\<lambda>x. Ret (p_st x = DELETE) s) else Ret False s)"

definition set_rsp_process :: "ptr \<Rightarrow> u64 \<Rightarrow> kstate \<Rightarrow> unit kres" where
  "set_rsp_process p rsp s =
     (if p \<noteq> NULL then rd h_proc p s (\<lambda>x. Ret () (put_proc p (x\<lparr>p_rsp := rsp\<rparr>) s)) else Ret () s)"

definition get_rsp_process :: "ptr \<Rightarrow> kstate \<Rightarrow> u64 kres" where
  "get_rsp_process p s = (if p \<noteq> NULL then rd h_proc p s (\<lambda>x. Ret (p_rsp x) s) else Ret (- 1) s)"

definition pid_process :: "ptr \<Rightarrow> kstate \<Rightarrow> u64 kres" where
  "pid_process p s = (if p \<noteq> NULL then rd h_proc p s (\<lambda>x. Ret (p_pid x) s) else Ret (- 1) s)"

definition ppid_process :: "ptr \<Rightarrow> kstate \<Rightarrow> u64 kres" where
  "ppid_process p s = (if p \<noteq> NULL then rd h_proc p s (\<lambda>x. Ret (p_ppid x) s) else Ret (- 1) s)"

definition block_process :: "ptr \<Rightarrow> kstate \<Rightarrow> unit kres" where
  "block_process p s =
     (if p \<noteq> NULL
      then rd h_proc p s (\<lambda>x.
             Ret () (if p_st x \<noteq> DELETE then put_proc p (x\<lparr>p_st := BLOCKED\<rparr>) s else s))
      else Ret () s)"

definition unblock_process :: "ptr \<Rightarrow> kstate \<Rightarrow> unit kres" where
  "unblock_process p s =
     (if p \<noteq> NULL
      then rd h_proc p s (\<lambda>x.
             Ret () (if p_st x \<noteq> DELETE then put_proc p (x\<lparr>p_st := READY\<rparr>) s else s))
      else Ret () s)"

definition is_blocked_process :: "ptr \<Rightarrow> kstate \<Rightarrow> bool kres" where
  "is_blocked_process p s =
     (if p \<noteq> NULL
      then rd h_proc p s (\<lambda>x.
             Ret (p_st x = BLOCKED \<or> p_st x = BLOCKED_READ \<or> p_st x = BLOCKED_FOREGROUND) s)
      else Ret True s)"

definition unblock_read_process :: "ptr \<Rightarrow> kstate \<Rightarrow> unit kres" where
  "unblock_read_process p s =
     rd h_proc p s (\<lambda>x. if p_st x = BLOCKED_READ then unblock_process p s else Ret () s)"

definition block_read_process :: "ptr \<Rightarrow> kstate \<Rightarrow> unit kres" where
  "block_read_process p s = rd h_proc p s (\<lambda>x. Ret () (put_proc p (x\<lparr>p_st := BLOCKED_READ\<rparr>) s))"

definition unblock_foreground_process :: "ptr \<Rightarrow> kstate \<Rightarrow> unit kres" where
  "unblock_foreground_process p s =
     (if p \<noteq> NULL
      then rd h_proc p s (\<lambda>x.
             Ret () (if p_st x = BLOCKED_FOREGROUND then put_proc p (x\<lparr>p_st := READY\<rparr>) s else s))
      else Ret () s)"

definition block_foreground_process :: "ptr \<Rightarrow> kstate \<Rightarrow> unit kres" where
  "block_foreground_process p s =
     (if p \<noteq> NULL
      then rd h_proc p s (\<lambda>x. Ret () (put_proc p (x\<lparr>p_st := BLOCKED_FOREGROUND\<rparr>) s))
      else Ret () s)"

definition set_foreground_force_process :: "ptr \<Rightarrow> kstate \<Rightarrow> unit kres" where
  "set_foreground_force_process p s =
     (if p \<noteq> NULL
      then rd h_proc p s (\<lambda>x.
             if p_pid x \<noteq> 0 then unblock_foreground_process p (s\<lparr>foreground := p\<rparr>) else Ret () s)
      else Ret () s)"

definition get_foreground_process :: "kstate \<Rightarrow> ptr" where
  "get_foreground_process s = foreground s"

lemmas process_state_defs = kill_process_def is_delete_process_def set_rsp_process_def
  get_rsp_process_def pid_process_def ppid_process_def block_process_def unblock_process_def
  is_blocked_process_def unblock_read_process_def block_read_process_def
  unblock_foreground_process_def block_foreground_process_def set_foreground_force_process_def

section \<open>The processor\<close>

text \<open>\<open>_unlocked\<close> (\<open>test_lock.asm\<close>) exchanges the lock word with 0 and returns the old value.\<close>

definition set_superlock :: "kstate \<Rightarrow> kstate" where
  "set_superlock s = s\<lparr>superlock := LOCKED\<rparr>"

definition unset_superlock :: "kstate \<Rightarrow> kstate" where
  "unset_superlock s = s\<lparr>superlock := UNLOCKED\<rparr>"

definition get_current_process :: "kstate \<Rightarrow> ptr kres" where
  "get_current_process s = rd h_snode (cur_node s) s (\<lambda>n. Ret (sn_p n) s)"

text \<open>
  \<open>yield_process\<close>: the next process of the ring gets a quantum, the current one loses its own,
  and control leaves by \<open>int 70h\<close>.
\<close>

definition yield_process :: "kstate \<Rightarrow> unit kres" where
  "yield_process s =
     rd h_snode (cur_node s) s (\<lambda>c.
     rd h_snode (sn_next c) s (\<lambda>n.
       let s = put_snode (sn_next c) (n\<lparr>quantum := quantum n + 1\<rparr>) s
       in rd h_snode (cur_node s) s (\<lambda>c.
            Yld (put_snode (cur_node s) (c\<lparr>quantum := 0\<rparr>) s) (\<lambda>s'. Ret () s'))))"

definition assign_quantum :: "kstate \<Rightarrow> unit kres" where
  "assign_quantum s =
     rd h_snode (cur_node s) s (\<lambda>c. Ret () (put_snode (cur_node s) (c\<lparr>quantum := quantum c + 1\<rparr>) s))"

definition unassign_quantum :: "kstate \<Rightarrow> unit kres" where
  "unassign_quantum s =
     rd h_snode (cur_node s) s (\<lambda>c. Ret () (put_snode (cur_node s) (c\<lparr>quantum := quantum c - 1\<rparr>) s))"

section \<open>The state at power on\<close>

text \<open>
  The static initialisers, and zero for everything in the \<open>.bss\<close> section (\<open>clearBSS\<close>). The
  contents of memory that is not initialised are parameters.
\<close>

definition zero_mutex :: mutex where
  "zero_mutex = \<lparr>m_name = [], m_locked = 0, m_state = CLOSED, m_queue = NULL\<rparr>"

definition zero_cond :: cond_variable where
  "zero_cond = \<lparr>c_name = [], c_state = CLOSED, lock_queue = 0, c_queue = NULL\<rparr>"

definition zero_fifo :: fifo where
  "zero_fifo = \<lparr>f_name = [], c_buffer = \<lparr>cb_buffer = replicate 1024 0, free_slot = 0, cb_current = 0,
     buf_fill = 0\<rparr>, f_state = CLOSED, fifo_mutex_key = 0, read_queue = NULL\<rparr>"

definition screen_init :: "(int \<Rightarrow> u8) \<Rightarrow> (int \<Rightarrow> u8) \<Rightarrow> video" where
  "screen_init m around = \<lparr>cursor = 0, x_res = 0, y_res = 0, char_color = (255, 255, 255),
     bg_color = (0, 0, 0), fb = m, v_around = around\<rparr>"

definition power_on ::
  "(ptr \<Rightarrow> process) \<Rightarrow> (ptr \<Rightarrow> int) \<Rightarrow> u8 list \<Rightarrow> (u64 \<Rightarrow> u8) \<Rightarrow> video \<Rightarrow> kstate" where
  "power_on jp jb ja mem v =
     \<lparr>pages_stack = replicate 255 0, current_index = 0, memory_mutex_key = - 1,
      stack_pages_stack = replicate MAX_PROCESSES 0, current_stack_index = 0,
      stack_memory_mutex_key = - 1,
      h_proc = (\<lambda>_. None), h_queue = (\<lambda>_. None), h_qnode = (\<lambda>_. None), h_snode = (\<lambda>_. None),
      h_rreq = (\<lambda>_. None), h_sleep = (\<lambda>_. None), h_frame = (\<lambda>_. None),
      junk_proc = jp, junk_bytes_read = jb, junk_array = ja, bytes = mem,
      open_mutexes = replicate MAX_MUTEXES zero_mutex, array_mutex = UNLOCKED,
      open_conds = replicate MAX_COND_VAR zero_cond, array_lock = 0,
      open_fifos = replicate MAX_FIFOS zero_fifo, fifo_array_lock = 0,
      process_table = replicate MAX_PROCESSES NULL, foreground = NULL, n_processes = 0,
      table_mutex_key = - 1, cur_node = NULL, prev_node = NULL, superlock = UNLOCKED,
      sleeping_processes = NULL, keyboard = kbd_init, screen = v\<rparr>"

text \<open>Concrete contents for the parameters, used where a closed state is evaluated.\<close>

definition zero_process :: process where
  "zero_process = \<lparr>p_st = RUNNING, p_name = [], entry_point = 0, p_rsp = 0, stack_page = 0,
     n_data_page = 0, data_page = replicate MAX_DATA_PAGES NULL, p_pid = 0, p_ppid = 0, open_fds = 0\<rparr>"

definition power_on_zero :: kstate where
  "power_on_zero = power_on (\<lambda>_. zero_process) (\<lambda>_. 0) (replicate 1024 0) (\<lambda>_. 0)
     (screen_init (\<lambda>_. 0) (\<lambda>_. 0))"

end
