(* ===== verification/Sync_Core.thy ===== *)
theory Sync_Core
  imports Kernel_State
begin

text \<open>
  The heart of the kernel, whose routines call each other: the page allocator
  (\<open>get_page\<close>, \<open>store_page\<close> of \<open>memoryAllocator.c\<close>) takes a mutex; a mutex (\<open>mutex_lock\<close>,
  \<open>mutex_unlock\<close> of \<open>kernelMutex.c\<close>) keeps its waiting processes in a queue; a queue
  (\<open>enqueue\<close>, \<open>dequeue\<close> of \<open>queueADT.c\<close>) allocates and frees its nodes with the page allocator.

  Each routine is written as a definition whose parameters are the routines it calls
  (\<open>mutex_lock_with\<close> and so on), and \<open>sync\<close> ties the knot. The recursion is bounded by fuel: the
  number of times a mutex operation may be entered while another one is running (and the number
  of dead processes that \<open>mutex_unlock\<close> skips). A call without fuel is the fault \<open>Out_Of_Fuel\<close>.
  Theory \<open>Page_Allocator\<close> shows that very little fuel is enough while the memory mutex is free, and
  that no fuel is enough when it is taken.

  Static arrays have their C length throughout: \<open>pages_stack\<close> 255, \<open>open_mutexes\<close> 128.
\<close>

section \<open>Page numbers and addresses\<close>

abbreviation PAGE_SIZE :: nat where "PAGE_SIZE \<equiv> 0x1000"
abbreviation STACK_PAGE_SIZE :: nat where "STACK_PAGE_SIZE \<equiv> 0x100000"
abbreviation DATA_ADDRESS :: nat where "DATA_ADDRESS \<equiv> 0x500000"
abbreviation STACK_SIZE :: nat where "STACK_SIZE \<equiv> 255"
abbreviation MEMORY_PAGES_END :: nat where
  "MEMORY_PAGES_END \<equiv> (STACK_SIZE + 1) * PAGE_SIZE + DATA_ADDRESS"
abbreviation STACK_ADDRESS :: nat where "STACK_ADDRESS \<equiv> MEMORY_PAGES_END + PAGE_SIZE"

definition page_address :: "u8 \<Rightarrow> u64" where
  "page_address i = of_nat (unat i * PAGE_SIZE + DATA_ADDRESS)"

definition page_number :: "u64 \<Rightarrow> u8" where
  "page_number a = ucast ((a - of_nat DATA_ADDRESS) div of_nat PAGE_SIZE)"

section \<open>The routines\<close>

definition mutex_is_open :: "int \<Rightarrow> kstate \<Rightarrow> bool" where
  "mutex_is_open key s \<longleftrightarrow>
     key \<ge> 0 \<and> key < int MAX_MUTEXES \<and> m_state (open_mutexes s ! nat key) = OPEN"

definition the_mutex :: "int \<Rightarrow> kstate \<Rightarrow> mutex" where
  "the_mutex key s = open_mutexes s ! nat key"

definition set_locked :: "int \<Rightarrow> int \<Rightarrow> kstate \<Rightarrow> kstate" where
  "set_locked key l s =
     s\<lparr>open_mutexes := (open_mutexes s)[nat key := (the_mutex key s)\<lparr>m_locked := l\<rparr>]\<rparr>"

definition is_empty :: "ptr \<Rightarrow> kstate \<Rightarrow> bool kres" where
  "is_empty q s = (if q = NULL then Ret True s else rd h_queue q s (\<lambda>Q. Ret (q_first Q = NULL) s))"

definition mutex_lock_with :: "(ptr \<Rightarrow> ptr \<Rightarrow> kstate \<Rightarrow> unit kres) \<Rightarrow> int \<Rightarrow> kstate \<Rightarrow> int kres" where
  "mutex_lock_with enq key s =
     (if mutex_is_open key s then
        bnd (get_current_process (set_superlock s)) (\<lambda>p s.
          let old = m_locked (the_mutex key s);
              s = set_locked key LOCKED s
          in if old = 0 then
               bnd (enq (m_queue (the_mutex key s)) p s) (\<lambda>_ s.
               bnd (block_process p s) (\<lambda>_ s.
               bnd (yield_process (unset_superlock s)) (\<lambda>_ s. Ret 1 s)))
             else Ret 1 (unset_superlock s))
      else Ret NOT_OPEN_ERROR s)"

text \<open>The loop \<open>while (is_delete_process(p)) p = dequeue_process(m)\<close>.\<close>

primrec skip_deleted_with :: "(ptr \<Rightarrow> kstate \<Rightarrow> ptr kres) \<Rightarrow> nat \<Rightarrow> ptr \<Rightarrow> ptr \<Rightarrow> kstate \<Rightarrow> ptr kres" where
  "skip_deleted_with deq 0 q p s = Fault Out_Of_Fuel"
| "skip_deleted_with deq (Suc n) q p s =
     bnd (is_delete_process p s) (\<lambda>dead s.
       if dead then bnd (deq q s) (\<lambda>p s. skip_deleted_with deq n q p s) else Ret p s)"

definition mutex_unlock_with ::
  "(ptr \<Rightarrow> kstate \<Rightarrow> ptr kres) \<Rightarrow> nat \<Rightarrow> int \<Rightarrow> kstate \<Rightarrow> int kres" where
  "mutex_unlock_with deq n key s =
     (if mutex_is_open key s then
        let s = set_superlock s;
            q = m_queue (the_mutex key s)
        in bnd (deq q s) (\<lambda>p s.
           bnd (skip_deleted_with deq n q p s) (\<lambda>p s.
             let s = set_locked key UNLOCKED s
             in if p \<noteq> NULL
                then bnd (unblock_process p s) (\<lambda>_ s. Ret 1 (unset_superlock (set_locked key LOCKED s)))
                else Ret 1 (unset_superlock s)))
      else Ret NOT_OPEN_ERROR s)"

definition enqueue_with :: "(kstate \<Rightarrow> u64 kres) \<Rightarrow> ptr \<Rightarrow> ptr \<Rightarrow> kstate \<Rightarrow> unit kres" where
  "enqueue_with getp q x s =
     (if q = NULL then Ret () s
      else bnd (getp s) (\<lambda>new s.
        if new = NULL then Fault Null_Deref
        else
          let s = put_qnode new \<lparr>q_elem = x, q_next = NULL\<rparr> s
          in rd h_queue q s (\<lambda>Q.
               if q_first Q = NULL then Ret () (put_queue q \<lparr>q_first = new, q_last = new\<rparr> s)
               else rd h_qnode (q_last Q) s (\<lambda>l.
                      Ret () (put_queue q (Q\<lparr>q_last := new\<rparr>)
                               (put_qnode (q_last Q) (l\<lparr>q_next := new\<rparr>) s))))))"

definition dequeue_with :: "(u64 \<Rightarrow> kstate \<Rightarrow> u64 kres) \<Rightarrow> ptr \<Rightarrow> kstate \<Rightarrow> ptr kres" where
  "dequeue_with storep q s =
     bnd (is_empty q s) (\<lambda>e s.
       if e then Ret NULL s
       else rd h_queue q s (\<lambda>Q.
            rd h_qnode (q_first Q) s (\<lambda>f.
              let first = q_next f;
                  s = put_queue q \<lparr>q_first = first, q_last = (if first = NULL then NULL else q_last Q)\<rparr> s
              in bnd (storep (q_first Q) s) (\<lambda>_ s. Ret (q_elem f) s))))"

definition get_page_with ::
  "(int \<Rightarrow> kstate \<Rightarrow> int kres) \<Rightarrow> (int \<Rightarrow> kstate \<Rightarrow> int kres) \<Rightarrow> kstate \<Rightarrow> u64 kres" where
  "get_page_with lock unlock s =
     bnd (lock (to_int (memory_mutex_key s)) s) (\<lambda>_ s.
       if unat (current_index s) < STACK_SIZE then
         let page = page_address (pages_stack s ! unat (current_index s));
             s = s\<lparr>current_index := current_index s + 1\<rparr>
         in bnd (unlock (to_int (memory_mutex_key s)) s) (\<lambda>_ s. Ret page s)
       else bnd (lock (to_int (memory_mutex_key s)) s) (\<lambda>_ s. Ret 0 s))"

definition store_page_with ::
  "(int \<Rightarrow> kstate \<Rightarrow> int kres) \<Rightarrow> (int \<Rightarrow> kstate \<Rightarrow> int kres) \<Rightarrow> u64 \<Rightarrow> kstate \<Rightarrow> u64 kres" where
  "store_page_with lock unlock a s =
     bnd (lock (to_int (memory_mutex_key s)) s) (\<lambda>_ s.
       if current_index s > 0 then
         let i = current_index s - 1;
             s = s\<lparr>current_index := i, pages_stack := (pages_stack s)[unat i := page_number a]\<rparr>
         in bnd (unlock (to_int (memory_mutex_key s)) s) (\<lambda>_ s. Ret 1 s)
       else bnd (unlock (to_int (memory_mutex_key s)) s) (\<lambda>_ s. Ret 0 s))"

text \<open>The knot: \<open>mutex_lock\<close> and \<open>mutex_unlock\<close> that may be entered \<open>n\<close> times from within.\<close>

primrec sync :: "nat \<Rightarrow> (int \<Rightarrow> kstate \<Rightarrow> int kres) \<times> (int \<Rightarrow> kstate \<Rightarrow> int kres)" where
  "sync 0 = (\<lambda>key s. Fault Out_Of_Fuel, \<lambda>key s. Fault Out_Of_Fuel)"
| "sync (Suc n) =
     (mutex_lock_with (enqueue_with (get_page_with (fst (sync n)) (snd (sync n)))),
      mutex_unlock_with (dequeue_with (store_page_with (fst (sync n)) (snd (sync n)))) (Suc n))"

definition mutex_lock :: "nat \<Rightarrow> int \<Rightarrow> kstate \<Rightarrow> int kres" where
  "mutex_lock n = fst (sync n)"

definition mutex_unlock :: "nat \<Rightarrow> int \<Rightarrow> kstate \<Rightarrow> int kres" where
  "mutex_unlock n = snd (sync n)"

definition get_page :: "nat \<Rightarrow> kstate \<Rightarrow> u64 kres" where
  "get_page n = get_page_with (mutex_lock n) (mutex_unlock n)"

definition store_page :: "nat \<Rightarrow> u64 \<Rightarrow> kstate \<Rightarrow> u64 kres" where
  "store_page n = store_page_with (mutex_lock n) (mutex_unlock n)"

definition enqueue :: "nat \<Rightarrow> ptr \<Rightarrow> ptr \<Rightarrow> kstate \<Rightarrow> unit kres" where
  "enqueue n = enqueue_with (get_page n)"

definition dequeue :: "nat \<Rightarrow> ptr \<Rightarrow> kstate \<Rightarrow> ptr kres" where
  "dequeue n = dequeue_with (store_page n)"

lemma mutex_lock_0: "mutex_lock 0 key s = Fault Out_Of_Fuel"
  by (simp add: mutex_lock_def)

lemma mutex_lock_Suc: "mutex_lock (Suc n) = mutex_lock_with (enqueue n)"
  by (simp add: mutex_lock_def mutex_unlock_def enqueue_def get_page_def)

lemma mutex_unlock_Suc: "mutex_unlock (Suc n) = mutex_unlock_with (dequeue n) (Suc n)"
  by (simp add: mutex_lock_def mutex_unlock_def dequeue_def store_page_def)

definition peek :: "ptr \<Rightarrow> kstate \<Rightarrow> ptr kres" where
  "peek q s =
     bnd (is_empty q s) (\<lambda>e s.
       if e then Ret NULL s else rd h_queue q s (\<lambda>Q. rd h_qnode (q_first Q) s (\<lambda>f. Ret (q_elem f) s)))"

definition create_queue :: "nat \<Rightarrow> kstate \<Rightarrow> ptr kres" where
  "create_queue n s =
     bnd (get_page n s) (\<lambda>q s.
       if q = NULL then Ret NULL s else Ret q (put_queue q \<lparr>q_first = NULL, q_last = NULL\<rparr> s))"

primrec drain_queue :: "nat \<Rightarrow> ptr \<Rightarrow> kstate \<Rightarrow> unit kres" where
  "drain_queue 0 q s = Fault Out_Of_Fuel"
| "drain_queue (Suc n) q s =
     bnd (is_empty q s) (\<lambda>e s.
       if \<not> e then bnd (dequeue n q s) (\<lambda>_ s. drain_queue n q s) else Ret () s)"

definition destroy_queue :: "nat \<Rightarrow> ptr \<Rightarrow> kstate \<Rightarrow> unit kres" where
  "destroy_queue n q s =
     bnd (drain_queue n q s) (\<lambda>_ s. bnd (store_page n q s) (\<lambda>_ s. Ret () s))"

end
