(* ===== verification/Page_Allocator.thy ===== *)
theory Page_Allocator
  imports Sync_Core
begin

text \<open>
  The page allocators (\<open>Kernel/memoryAllocator.c\<close>): data pages and process stacks, each a stack of
  free pages guarded by a mutex. The theory shows what a lock and an unlock of a free mutex do,
  reduces \<open>get_page\<close> and \<open>store_page\<close> to their critical sections, and proves that both
  allocators hand out distinct pages (locale \<open>page_pool\<close>, interpreted on each). It also shows
  that \<open>get_page\<close> never returns once the pages are used up.
\<close>

section \<open>Initialisation and the stack pages\<close>

primrec init_pages_loop :: "nat \<Rightarrow> nat \<Rightarrow> u8 list \<Rightarrow> u8 list" where
  "init_pages_loop 0 i ps = ps"
| "init_pages_loop (Suc n) i ps = init_pages_loop n (Suc i) (ps[i := of_nat (i + 1)])"

definition initialize_memory_allocator :: "kstate \<Rightarrow> kstate" where
  "initialize_memory_allocator s =
     s\<lparr>pages_stack := init_pages_loop (STACK_SIZE - 1) 0 (pages_stack s)\<rparr>"

definition stack_address :: "nat \<Rightarrow> u64" where
  "stack_address i = of_nat ((i + 1) * STACK_PAGE_SIZE + STACK_ADDRESS)"

primrec init_stack_pages_loop :: "nat \<Rightarrow> nat \<Rightarrow> u64 list \<Rightarrow> u64 list" where
  "init_stack_pages_loop 0 i ps = ps"
| "init_stack_pages_loop (Suc n) i ps = init_stack_pages_loop n (Suc i) (ps[i := stack_address i])"

definition initialize_stack_memory_allocator :: "kstate \<Rightarrow> kstate" where
  "initialize_stack_memory_allocator s =
     s\<lparr>stack_pages_stack := init_stack_pages_loop MAX_PROCESSES 0 (stack_pages_stack s)\<rparr>"

definition get_stack_page :: "nat \<Rightarrow> kstate \<Rightarrow> u64 kres" where
  "get_stack_page n s =
     bnd (mutex_lock n (to_int (stack_memory_mutex_key s)) s) (\<lambda>_ s.
       if unat (current_stack_index s) < MAX_PROCESSES then
         let page = stack_pages_stack s ! unat (current_stack_index s);
             s = s\<lparr>current_stack_index := current_stack_index s + 1\<rparr>
         in bnd (mutex_unlock n (to_int (stack_memory_mutex_key s)) s) (\<lambda>_ s. Ret page s)
       else bnd (mutex_unlock n (to_int (stack_memory_mutex_key s)) s) (\<lambda>_ s. Ret 0 s))"

definition store_stack_page :: "nat \<Rightarrow> u64 \<Rightarrow> kstate \<Rightarrow> u64 kres" where
  "store_stack_page n a s =
     bnd (mutex_lock n (to_int (stack_memory_mutex_key s)) s) (\<lambda>_ s.
       if current_stack_index s > 0 then
         let i = current_stack_index s - 1;
             s = s\<lparr>current_stack_index := i, stack_pages_stack := (stack_pages_stack s)[unat i := a]\<rparr>
         in bnd (mutex_unlock n (to_int (stack_memory_mutex_key s)) s) (\<lambda>_ s. Ret 1 s)
       else bnd (mutex_unlock n (to_int (stack_memory_mutex_key s)) s) (\<lambda>_ s. Ret 0 s))"

section \<open>A mutex that nobody holds\<close>

definition mutex_empty :: "int \<Rightarrow> kstate \<Rightarrow> bool" where
  "mutex_empty key s \<longleftrightarrow>
     (let q = m_queue (the_mutex key s)
      in q = NULL \<or> (case h_queue s q of None \<Rightarrow> False | Some Q \<Rightarrow> q_first Q = NULL))"

text \<open>Closed, or open and unlocked with no process waiting (and some process is running).\<close>

definition mutex_free :: "int \<Rightarrow> kstate \<Rightarrow> bool" where
  "mutex_free key s \<longleftrightarrow>
     (mutex_is_open key s \<longrightarrow>
        nat key < length (open_mutexes s) \<and> m_locked (the_mutex key s) = UNLOCKED \<and>
        mutex_empty key s \<and> cur_node s \<noteq> NULL \<and> h_snode s (cur_node s) \<noteq> None)"

text \<open>The trace that a lock or an unlock of an open mutex leaves: the superlock is released.\<close>

definition released :: "int \<Rightarrow> kstate \<Rightarrow> kstate" where
  "released key s = (if mutex_is_open key s then s\<lparr>superlock := UNLOCKED\<rparr> else s)"

lemma is_empty_eq: "q = NULL \<or> (case h_queue s q of None \<Rightarrow> False | Some Q \<Rightarrow> q_first Q = NULL) \<Longrightarrow>
    is_empty q s = Ret True s"
  by (auto simp: is_empty_def rd_def split: option.splits)

lemma mutex_lock_free:
  assumes "mutex_free key s" "mutex_is_open key s"
  shows "mutex_lock (Suc n) key s = Ret 1 (set_locked key LOCKED (s\<lparr>superlock := UNLOCKED\<rparr>))"
  using assms
  by (auto simp: mutex_lock_Suc mutex_lock_with_def mutex_free_def get_current_process_def rd_def
      set_superlock_def unset_superlock_def set_locked_def the_mutex_def)

lemma mutex_lock_closed: "\<not> mutex_is_open key s \<Longrightarrow> mutex_lock (Suc n) key s = Ret NOT_OPEN_ERROR s"
  by (simp add: mutex_lock_Suc mutex_lock_with_def)

lemma mutex_unlock_empty:
  assumes "mutex_is_open key s" "mutex_empty key s"
  shows "mutex_unlock (Suc n) key s = Ret 1 (set_locked key UNLOCKED (s\<lparr>superlock := UNLOCKED\<rparr>))"
  using assms is_empty_eq [of "m_queue (the_mutex key s)" "s\<lparr>superlock := LOCKED\<rparr>"]
  by (simp add: mutex_unlock_Suc mutex_unlock_with_def Let_def dequeue_def dequeue_with_def
      is_delete_process_def mutex_empty_def set_superlock_def unset_superlock_def set_locked_def
      the_mutex_def)

lemma mutex_unlock_closed: "\<not> mutex_is_open key s \<Longrightarrow> mutex_unlock (Suc n) key s = Ret NOT_OPEN_ERROR s"
  by (simp add: mutex_unlock_Suc mutex_unlock_with_def)

lemma set_locked_frame [simp]:
  "mutex_is_open k (set_locked key l s) = mutex_is_open k s"
  "mutex_empty k (set_locked key l s) = mutex_empty k s"
  "current_index (set_locked key l s) = current_index s"
  "pages_stack (set_locked key l s) = pages_stack s"
  "memory_mutex_key (set_locked key l s) = memory_mutex_key s"
  "current_stack_index (set_locked key l s) = current_stack_index s"
  "stack_pages_stack (set_locked key l s) = stack_pages_stack s"
  "stack_memory_mutex_key (set_locked key l s) = stack_memory_mutex_key s"
proof -
  let ?m = "\<lambda>j. open_mutexes (set_locked key l s) ! j"
  have m: "m_state (?m j) = m_state (open_mutexes s ! j) \<and> m_queue (?m j) = m_queue (open_mutexes s ! j)" for j
    by (cases "nat key < length (open_mutexes s)")
      (auto simp: set_locked_def the_mutex_def nth_list_update list_update_beyond)
  show "mutex_is_open k (set_locked key l s) = mutex_is_open k s"
    using m [of "nat k"] by (simp add: mutex_is_open_def)
  have "h_queue (set_locked key l s) = h_queue s" by (simp add: set_locked_def)
  then show "mutex_empty k (set_locked key l s) = mutex_empty k s"
    using m [of "nat k"] by (simp add: mutex_empty_def the_mutex_def)
qed (simp_all add: set_locked_def)

lemma superlock_frame [simp]:
  "mutex_is_open k (s\<lparr>superlock := x\<rparr>) = mutex_is_open k s"
  "mutex_empty k (s\<lparr>superlock := x\<rparr>) = mutex_empty k s"
  "mutex_free k (s\<lparr>superlock := x\<rparr>) = mutex_free k s"
  by (simp_all add: mutex_is_open_def mutex_empty_def mutex_free_def the_mutex_def)

section \<open>Critical sections\<close>

text \<open>
  A body \<open>f\<close> that touches neither the mutexes nor the queues, run under a free mutex, has its
  effect, and the mutex is free again.
\<close>

definition neutral :: "(kstate \<Rightarrow> kstate) \<Rightarrow> bool" where
  "neutral f \<longleftrightarrow> (\<forall>s l ms. open_mutexes (f s) = open_mutexes s \<and> h_queue (f s) = h_queue s \<and>
     f (s\<lparr>open_mutexes := ms, superlock := l\<rparr>) = (f s)\<lparr>open_mutexes := ms, superlock := l\<rparr>)"

lemma neutral_open: "neutral f \<Longrightarrow> mutex_is_open key (f s) = mutex_is_open key s"
  by (simp add: neutral_def mutex_is_open_def)

lemma neutral_empty: "neutral f \<Longrightarrow> mutex_empty key (f s) = mutex_empty key s"
  by (simp add: neutral_def mutex_empty_def the_mutex_def)

lemma set_locked_update:
  "set_locked key l s = s\<lparr>open_mutexes := (open_mutexes s)[nat key := (open_mutexes s ! nat key)\<lparr>m_locked := l\<rparr>]\<rparr>"
  by (simp add: set_locked_def the_mutex_def)

lemma critical_section:
  assumes free: "mutex_free key s" and neutral: "neutral f"
  shows "bnd (mutex_lock (Suc n) key s) (\<lambda>_ t. bnd (mutex_unlock (Suc m) key (f t)) (\<lambda>_ u. Ret x u)) =
    Ret x (released key (f s))"
proof (cases "mutex_is_open key s")
  case False
  then show ?thesis
    using neutral_open [OF neutral, of key s]
    by (simp add: mutex_lock_closed mutex_unlock_closed released_def)
next
  case True
  let ?ms = "(open_mutexes s)[nat key := (open_mutexes s ! nat key)\<lparr>m_locked := LOCKED\<rparr>]"
  let ?t = "s\<lparr>open_mutexes := ?ms, superlock := UNLOCKED\<rparr>"
  have t: "set_locked key LOCKED (s\<lparr>superlock := UNLOCKED\<rparr>) = ?t" by (simp add: set_locked_update)
  have ft: "f ?t = (f s)\<lparr>open_mutexes := ?ms, superlock := UNLOCKED\<rparr>" and ms: "open_mutexes (f s) = open_mutexes s"
    using neutral by (simp_all add: neutral_def)
  have "mutex_is_open key ?t" "mutex_empty key ?t"
    using True free unfolding t [symmetric] by (simp_all add: mutex_free_def)
  with neutral have "mutex_unlock (Suc m) key (f ?t) = Ret 1 (set_locked key UNLOCKED ((f ?t)\<lparr>superlock := UNLOCKED\<rparr>))"
    by (intro mutex_unlock_empty) (simp_all add: neutral_open neutral_empty)
  moreover have "set_locked key UNLOCKED ((f ?t)\<lparr>superlock := UNLOCKED\<rparr>) = (f s)\<lparr>superlock := UNLOCKED\<rparr>"
  proof -
    have "nat key < length (open_mutexes s)" "m_locked (open_mutexes s ! nat key) = UNLOCKED"
      using free True by (simp_all add: mutex_free_def the_mutex_def)
    then have "?ms[nat key := (?ms ! nat key)\<lparr>m_locked := UNLOCKED\<rparr>] = open_mutexes (f s)"
      by (simp add: ms list_update_same_conv)
    then show ?thesis unfolding ft set_locked_update by simp
  qed
  ultimately show ?thesis
    using True mutex_lock_free [OF free True, of n] neutral_open [OF neutral, of key s]
    by (simp add: t released_def)
qed

abbreviation mem_key :: "kstate \<Rightarrow> int" where "mem_key s \<equiv> to_int (memory_mutex_key s)"
abbreviation stack_key :: "kstate \<Rightarrow> int" where "stack_key s \<equiv> to_int (stack_memory_mutex_key s)"

text \<open>The critical sections of the four allocation routines.\<close>

definition pop_page :: "kstate \<Rightarrow> kstate" where
  "pop_page s = s\<lparr>current_index := current_index s + 1\<rparr>"

definition push_page :: "u8 \<Rightarrow> kstate \<Rightarrow> kstate" where
  "push_page i s = s\<lparr>current_index := current_index s - 1,
     pages_stack := (pages_stack s)[unat (current_index s - 1) := i]\<rparr>"

definition pop_stack_page :: "kstate \<Rightarrow> kstate" where
  "pop_stack_page s = s\<lparr>current_stack_index := current_stack_index s + 1\<rparr>"

definition push_stack_page :: "u64 \<Rightarrow> kstate \<Rightarrow> kstate" where
  "push_stack_page a s = s\<lparr>current_stack_index := current_stack_index s - 1,
     stack_pages_stack := (stack_pages_stack s)[unat (current_stack_index s - 1) := a]\<rparr>"

lemmas pool_defs = pop_page_def push_page_def pop_stack_page_def push_stack_page_def

lemma neutral_pool [simp]:
  "neutral pop_page" "neutral (push_page i)" "neutral pop_stack_page" "neutral (push_stack_page a)"
  "neutral (\<lambda>s. s)"
  by (simp_all add: neutral_def pool_defs)

text \<open>
  A routine of the form \<open>lock; if (c) { f; unlock; return x; } else \<dots>\<close> whose test and result do not
  depend on the lock.
\<close>

lemma lock_then_cong:
  assumes "mutex_free key s"
    and "\<And>t. t = s \<or> t = set_locked key LOCKED (s\<lparr>superlock := UNLOCKED\<rparr>) \<Longrightarrow> k t = k' t"
  shows "bnd (mutex_lock (Suc n) key s) (\<lambda>_ t. k t) = bnd (mutex_lock (Suc n) key s) (\<lambda>_ t. k' t)"
  using assms mutex_lock_free [of key s n] mutex_lock_closed [of key s n]
  by (cases "mutex_is_open key s") auto

lemma get_page_ok:
  assumes "mutex_free (mem_key s) s" "unat (current_index s) < STACK_SIZE"
  shows "get_page (Suc n) s =
    Ret (page_address (pages_stack s ! unat (current_index s))) (released (mem_key s) (pop_page s))"
proof -
  have "get_page (Suc n) s = bnd (mutex_lock (Suc n) (mem_key s) s) (\<lambda>_ t.
      bnd (mutex_unlock (Suc n) (mem_key s) (pop_page t))
        (\<lambda>_ u. Ret (page_address (pages_stack s ! unat (current_index s))) u))"
    unfolding get_page_def get_page_with_def
    by (rule lock_then_cong [OF assms(1)]) (use assms(2) in \<open>auto simp: pop_page_def Let_def\<close>)
  then show ?thesis using critical_section [OF assms(1) neutral_pool(1)] by simp
qed

lemma store_page_ok:
  assumes "mutex_free (mem_key s) s" "current_index s > 0"
  shows "store_page (Suc n) a s = Ret 1 (released (mem_key s) (push_page (page_number a) s))"
proof -
  have "store_page (Suc n) a s = bnd (mutex_lock (Suc n) (mem_key s) s) (\<lambda>_ t.
      bnd (mutex_unlock (Suc n) (mem_key s) (push_page (page_number a) t)) (\<lambda>_ u. Ret 1 u))"
    unfolding store_page_def store_page_with_def
    by (rule lock_then_cong [OF assms(1)]) (use assms(2) in \<open>auto simp: push_page_def Let_def\<close>)
  then show ?thesis using critical_section [OF assms(1) neutral_pool(2)] by simp
qed

lemma store_page_underflow:
  assumes "mutex_free (mem_key s) s" "current_index s = 0"
  shows "store_page (Suc n) a s = Ret 0 (released (mem_key s) s)"
proof -
  have "store_page (Suc n) a s = bnd (mutex_lock (Suc n) (mem_key s) s) (\<lambda>_ t.
      bnd (mutex_unlock (Suc n) (mem_key s) t) (\<lambda>_ u. Ret 0 u))"
    unfolding store_page_def store_page_with_def
    by (rule lock_then_cong [OF assms(1)]) (use assms(2) in auto)
  then show ?thesis using critical_section [OF assms(1) neutral_pool(5)] by simp
qed

lemma get_stack_page_ok:
  assumes "mutex_free (stack_key s) s" "unat (current_stack_index s) < MAX_PROCESSES"
  shows "get_stack_page (Suc n) s =
    Ret (stack_pages_stack s ! unat (current_stack_index s)) (released (stack_key s) (pop_stack_page s))"
proof -
  have "get_stack_page (Suc n) s = bnd (mutex_lock (Suc n) (stack_key s) s) (\<lambda>_ t.
      bnd (mutex_unlock (Suc n) (stack_key s) (pop_stack_page t))
        (\<lambda>_ u. Ret (stack_pages_stack s ! unat (current_stack_index s)) u))"
    unfolding get_stack_page_def
    by (rule lock_then_cong [OF assms(1)]) (use assms(2) in \<open>auto simp: pop_stack_page_def Let_def\<close>)
  then show ?thesis using critical_section [OF assms(1) neutral_pool(3)] by simp
qed

lemma get_stack_page_exhausted:
  assumes "mutex_free (stack_key s) s" "unat (current_stack_index s) \<ge> MAX_PROCESSES"
  shows "get_stack_page (Suc n) s = Ret 0 (released (stack_key s) s)"
proof -
  have "get_stack_page (Suc n) s = bnd (mutex_lock (Suc n) (stack_key s) s) (\<lambda>_ t.
      bnd (mutex_unlock (Suc n) (stack_key s) t) (\<lambda>_ u. Ret 0 u))"
    unfolding get_stack_page_def
    by (rule lock_then_cong [OF assms(1)]) (use assms(2) in auto)
  then show ?thesis using critical_section [OF assms(1) neutral_pool(5)] by simp
qed

lemma store_stack_page_ok:
  assumes "mutex_free (stack_key s) s" "current_stack_index s > 0"
  shows "store_stack_page (Suc n) a s = Ret 1 (released (stack_key s) (push_stack_page a s))"
proof -
  have "store_stack_page (Suc n) a s = bnd (mutex_lock (Suc n) (stack_key s) s) (\<lambda>_ t.
      bnd (mutex_unlock (Suc n) (stack_key s) (push_stack_page a t)) (\<lambda>_ u. Ret 1 u))"
    unfolding store_stack_page_def
    by (rule lock_then_cong [OF assms(1)]) (use assms(2) in \<open>auto simp: push_stack_page_def Let_def\<close>)
  then show ?thesis using critical_section [OF assms(1) neutral_pool(4)] by simp
qed

section \<open>Page numbers and addresses\<close>

lemma unat_page_address: "unat (page_address i) = unat i * PAGE_SIZE + DATA_ADDRESS"
  using unat_u8 [of i] unfolding page_address_def by (intro unat_of_nat_u64) simp

lemma page_number_address [simp]: "page_number (page_address i) = i"
proof -
  have "page_address i - of_nat DATA_ADDRESS = of_nat (unat i * PAGE_SIZE)"
    by (simp add: page_address_def)
  moreover have "unat (of_nat (unat i * PAGE_SIZE) :: u64) = unat i * PAGE_SIZE"
    using unat_u8 [of i] by (intro unat_of_nat_u64) simp
  ultimately have "unat ((page_address i - of_nat DATA_ADDRESS) div of_nat PAGE_SIZE) = unat i"
    by (simp add: unat_div)
  then show ?thesis unfolding page_number_def by (rule ucast_eqI)
qed

lemma page_address_inj: "page_address i = page_address j \<longleftrightarrow> i = j"
  by (metis page_number_address)

lemma page_address_nonnull [simp]: "page_address i \<noteq> NULL"
  using unat_page_address [of i] by (metis add_is_0 unat_0 zero_neq_numeral)

lemma unat_stack_address: "i < 128 \<Longrightarrow> unat (stack_address i) = (i + 1) * STACK_PAGE_SIZE + STACK_ADDRESS"
  unfolding stack_address_def by (intro unat_of_nat_u64) simp

lemma stack_address_inj:
  assumes "i < 128" "j < 128" "stack_address i = stack_address j"
  shows "i = j"
proof -
  have "(i + 1) * STACK_PAGE_SIZE + STACK_ADDRESS = (j + 1) * STACK_PAGE_SIZE + STACK_ADDRESS"
    using assms by (metis unat_stack_address)
  then show ?thesis by simp
qed

section \<open>Pools of pages\<close>

text \<open>
  What both allocators promise: a page handed out was free and is not free any more, and a page
  given back is free again. A run of a pool takes pages and gives back pages that it owns, by
  their position among those.
\<close>

datatype pool_op = Take | Give nat

fun pool_run :: "('s \<Rightarrow> u64 set) \<Rightarrow> ('s \<Rightarrow> (u64 \<times> 's) option) \<Rightarrow> (u64 \<Rightarrow> 's \<Rightarrow> 's option) \<Rightarrow>
    pool_op list \<Rightarrow> u64 list \<Rightarrow> 's \<Rightarrow> (u64 list \<times> 's) option" where
  "pool_run free tk gv [] owned s = Some (owned, s)"
| "pool_run free tk gv (Take # ops) owned s =
     (if free s = {} then None
      else case tk s of None \<Rightarrow> None
        | Some (a, s') \<Rightarrow> pool_run free tk gv ops (a # owned) s')"
| "pool_run free tk gv (Give k # ops) owned s =
     (if length owned \<le> k then None
      else case gv (owned ! k) s of None \<Rightarrow> None
        | Some s' \<Rightarrow> pool_run free tk gv ops (take k owned @ drop (Suc k) owned) s')"

locale page_pool =
  fixes pool_inv :: "'s \<Rightarrow> bool" and free :: "'s \<Rightarrow> u64 set" and universe :: "u64 set"
    and tk :: "'s \<Rightarrow> (u64 \<times> 's) option" and gv :: "u64 \<Rightarrow> 's \<Rightarrow> 's option"
  assumes free_universe: "pool_inv s \<Longrightarrow> free s \<subseteq> universe"
    and tk_ok: "pool_inv s \<Longrightarrow> free s \<noteq> {} \<Longrightarrow>
      \<exists>a s'. tk s = Some (a, s') \<and> a \<in> free s \<and> free s' = free s - {a} \<and> pool_inv s'"
    and gv_ok: "pool_inv s \<Longrightarrow> a \<in> universe - free s \<Longrightarrow>
      \<exists>s'. gv a s = Some s' \<and> free s' = insert a (free s) \<and> pool_inv s'"
begin

definition owns :: "u64 list \<Rightarrow> 's \<Rightarrow> bool" where
  "owns owned s \<longleftrightarrow> pool_inv s \<and> distinct owned \<and> set owned \<inter> free s = {} \<and> set owned \<union> free s = universe"

lemma owns_tk:
  assumes "owns owned s" "free s \<noteq> {}"
  shows "\<exists>a s'. tk s = Some (a, s') \<and> owns (a # owned) s'"
  using tk_ok [of s] assms by (auto simp: owns_def)

lemma owns_gv:
  assumes "owns owned s" "k < length owned"
  shows "\<exists>s'. gv (owned ! k) s = Some s' \<and> owns (take k owned @ drop (Suc k) owned) s'"
proof -
  let ?rest = "take k owned @ drop (Suc k) owned"
  have split: "owned = take k owned @ owned ! k # drop (Suc k) owned"
    using assms(2) by (simp add: id_take_nth_drop)
  then have set: "set owned = insert (owned ! k) (set ?rest)"
    by (metis Un_insert_right list.simps(15) set_append)
  have "distinct owned" using assms(1) by (simp add: owns_def)
  then have "distinct (take k owned @ owned ! k # drop (Suc k) owned)" by (subst (asm) split)
  then have dist: "distinct ?rest" "owned ! k \<notin> set ?rest" by auto
  have "owned ! k \<in> set owned" using assms(2) by simp
  with assms(1) have "owned ! k \<in> universe - free s" unfolding owns_def by blast
  with gv_ok [of s "owned ! k"] assms(1) obtain s' where "gv (owned ! k) s = Some s'"
    "free s' = insert (owned ! k) (free s)" "pool_inv s'" unfolding owns_def by blast
  with dist set assms(1) show ?thesis by (auto simp: owns_def)
qed

text \<open>Every run goes through, and what it owns is distinct and together with the rest makes up the pool.\<close>

lemma run_owns:
  "owns owned s \<Longrightarrow> pool_run free tk gv ops owned s = Some (owned', s') \<Longrightarrow> owns owned' s'"
proof (induction ops arbitrary: owned s)
  case (Cons op ops)
  show ?case
  proof (cases op)
    case Take
    with Cons.prems(2) have "free s \<noteq> {}" by (auto split: if_splits)
    with owns_tk [OF Cons.prems(1)] obtain a t where "tk s = Some (a, t)" "owns (a # owned) t" by blast
    with Cons Take \<open>free s \<noteq> {}\<close> show ?thesis by simp
  next
    case (Give k)
    with Cons.prems(2) have "k < length owned" by (auto split: if_splits)
    with owns_gv [OF Cons.prems(1)] obtain t where
      "gv (owned ! k) s = Some t" "owns (take k owned @ drop (Suc k) owned) t" by blast
    with Cons Give \<open>k < length owned\<close> show ?thesis by simp
  qed
qed simp

end

section \<open>The data pages\<close>

definition free_pages :: "kstate \<Rightarrow> u64 set" where
  "free_pages s = page_address ` set (drop (unat (current_index s)) (pages_stack s))"

definition data_pages :: "u64 set" where
  "data_pages = page_address ` (UNIV - {255})"

definition pages_inv :: "kstate \<Rightarrow> bool" where
  "pages_inv s \<longleftrightarrow>
     mutex_free (mem_key s) s \<and> length (pages_stack s) = STACK_SIZE \<and>
     distinct (drop (unat (current_index s)) (pages_stack s)) \<and>
     255 \<notin> set (drop (unat (current_index s)) (pages_stack s))"

definition take_page :: "kstate \<Rightarrow> (u64 \<times> kstate) option" where
  "take_page s = (case get_page 1 s of Ret a t \<Rightarrow> Some (a, t) | _ \<Rightarrow> None)"

definition give_page :: "u64 \<Rightarrow> kstate \<Rightarrow> kstate option" where
  "give_page a s = (case store_page 1 a s of Ret r t \<Rightarrow> if r = 1 then Some t else None | _ \<Rightarrow> None)"

lemma mutex_free_pool [simp]:
  "mutex_free k (pop_page s) = mutex_free k s"
  "mutex_free k (push_page i s) = mutex_free k s"
  "mutex_free k (pop_stack_page s) = mutex_free k s"
  "mutex_free k (push_stack_page a s) = mutex_free k s"
  "mutex_free k (released j s) = mutex_free k s"
  by (simp_all add: pool_defs released_def mutex_free_def mutex_is_open_def mutex_empty_def the_mutex_def)

lemma released_frame [simp]:
  "pages_stack (released k s) = pages_stack s" "current_index (released k s) = current_index s"
  "memory_mutex_key (released k s) = memory_mutex_key s"
  "stack_pages_stack (released k s) = stack_pages_stack s"
  "current_stack_index (released k s) = current_stack_index s"
  "stack_memory_mutex_key (released k s) = stack_memory_mutex_key s"
  by (simp_all add: released_def)

lemma pool_frame [simp]:
  "current_index (pop_page s) = current_index s + 1" "pages_stack (pop_page s) = pages_stack s"
  "memory_mutex_key (pop_page s) = memory_mutex_key s"
  "current_index (push_page i s) = current_index s - 1"
  "pages_stack (push_page i s) = (pages_stack s)[unat (current_index s - 1) := i]"
  "memory_mutex_key (push_page i s) = memory_mutex_key s"
  "current_stack_index (pop_stack_page s) = current_stack_index s + 1"
  "stack_pages_stack (pop_stack_page s) = stack_pages_stack s"
  "stack_memory_mutex_key (pop_stack_page s) = stack_memory_mutex_key s"
  "current_stack_index (push_stack_page a s) = current_stack_index s - 1"
  "stack_pages_stack (push_stack_page a s) = (stack_pages_stack s)[unat (current_stack_index s - 1) := a]"
  "stack_memory_mutex_key (push_stack_page a s) = stack_memory_mutex_key s"
  by (simp_all add: pool_defs)

lemma u8_next: "unat (i :: u8) < 255 \<Longrightarrow> unat (i + 1) = Suc (unat i)"
  by (rule unat_Suc_word) (auto simp: unsigned_minus_1_eq_mask mask_eq_exp_minus_1)

lemma u16_next: "unat (j :: u16) < 128 \<Longrightarrow> unat (j + 1) = Suc (unat j)"
  by (rule unat_Suc_word) (auto simp: unsigned_minus_1_eq_mask mask_eq_exp_minus_1)

lemma unat_prev:
  assumes "0 < (i :: 'a::len word)"
  shows "unat i = Suc (unat (i - 1))"
proof -
  have "i \<noteq> 0" using assms by (simp add: word_gt_0)
  moreover from this have "unat i \<noteq> 0" by (simp add: unat_eq_0)
  ultimately show ?thesis using unat_pred_word [of i] by simp
qed

lemma pages_inv_take:
  assumes inv: "pages_inv s" and some: "free_pages s \<noteq> {}"
  shows "\<exists>a t. take_page s = Some (a, t) \<and> a \<in> free_pages s \<and> free_pages t = free_pages s - {a} \<and>
    pages_inv t"
proof -
  let ?i = "unat (current_index s)" and ?t = "released (mem_key s) (pop_page s)"
  have len: "length (pages_stack s) = 255" using inv by (simp add: pages_inv_def)
  have "?i < 255" using some len by (auto simp: free_pages_def)
  note next_i = u8_next [OF this]
  have d: "drop ?i (pages_stack s) = pages_stack s ! ?i # drop (Suc ?i) (pages_stack s)"
    using \<open>?i < 255\<close> len by (simp add: Cons_nth_drop_Suc)
  have "take_page s = Some (page_address (pages_stack s ! ?i), ?t)"
    using get_page_ok [of s 0] inv \<open>?i < 255\<close> by (simp add: take_page_def pages_inv_def)
  moreover have "free_pages s = insert (page_address (pages_stack s ! ?i)) (free_pages ?t)"
    "page_address (pages_stack s ! ?i) \<notin> free_pages ?t" "pages_inv ?t"
    using inv d next_i \<open>?i < 255\<close>
    by (auto simp: free_pages_def pages_inv_def page_address_inj)
  ultimately show ?thesis by auto
qed

lemma pages_inv_give:
  assumes inv: "pages_inv s" and a: "a \<in> data_pages - free_pages s"
  shows "\<exists>t. give_page a s = Some t \<and> free_pages t = insert a (free_pages s) \<and> pages_inv t"
proof -
  obtain i where i: "a = page_address i" "i \<noteq> 255" "i \<notin> set (drop (unat (current_index s)) (pages_stack s))"
    using a by (auto simp: data_pages_def free_pages_def)
  have len: "length (pages_stack s) = 255" using inv by (simp add: pages_inv_def)
  have pos: "current_index s > 0"
  proof (rule ccontr)
    assume "\<not> current_index s > 0"
    then have "unat (current_index s) = 0" by (simp add: word_gt_0)
    with inv i len have "distinct (pages_stack s)" "insert i (set (pages_stack s)) \<subseteq> UNIV - {255}"
      "i \<notin> set (pages_stack s)" by (auto simp: pages_inv_def)
    moreover have "card (UNIV - {255 :: u8}) = 255" by (simp add: card_word)
    moreover have "finite (UNIV - {255 :: u8})" by simp
    ultimately have "card (insert i (set (pages_stack s))) \<le> 255" by (metis card_mono)
    with \<open>distinct (pages_stack s)\<close> \<open>i \<notin> set (pages_stack s)\<close> len show False
      by (simp add: distinct_card)
  qed
  let ?j = "current_index s - 1" and ?t = "released (mem_key s) (push_page i s)"
  have j: "unat (current_index s) = Suc (unat ?j)" using unat_prev [OF pos] .
  have "unat ?j < 255" using j unat_u8 [of "current_index s"] by simp
  then have d: "drop (unat ?j) ((pages_stack s)[unat ?j := i]) = i # drop (Suc (unat ?j)) (pages_stack s)"
    using len by (simp add: Cons_nth_drop_Suc [symmetric] drop_update_cancel)
  have "give_page a s = Some ?t"
    using store_page_ok [of s 0 a] inv pos i by (simp add: give_page_def pages_inv_def)
  moreover have "free_pages ?t = insert a (free_pages s)" "pages_inv ?t"
    using inv d i j len by (auto simp: free_pages_def pages_inv_def)
  ultimately show ?thesis by blast
qed

interpretation data: page_pool pages_inv free_pages data_pages take_page give_page
proof
  show "free_pages s \<subseteq> data_pages" if "pages_inv s" for s
    using that by (auto simp: free_pages_def data_pages_def pages_inv_def)
qed (rule pages_inv_take pages_inv_give; assumption)+

section \<open>The process stacks\<close>

definition free_stacks :: "kstate \<Rightarrow> u64 set" where
  "free_stacks s = set (drop (unat (current_stack_index s)) (stack_pages_stack s))"

definition process_stacks :: "u64 set" where
  "process_stacks = stack_address ` {..<MAX_PROCESSES}"

definition stacks_inv :: "kstate \<Rightarrow> bool" where
  "stacks_inv s \<longleftrightarrow>
     mutex_free (stack_key s) s \<and> length (stack_pages_stack s) = MAX_PROCESSES \<and>
     unat (current_stack_index s) \<le> MAX_PROCESSES \<and>
     distinct (drop (unat (current_stack_index s)) (stack_pages_stack s)) \<and>
     free_stacks s \<subseteq> process_stacks"

definition take_stack :: "kstate \<Rightarrow> (u64 \<times> kstate) option" where
  "take_stack s = (case get_stack_page 1 s of Ret a t \<Rightarrow> Some (a, t) | _ \<Rightarrow> None)"

definition give_stack :: "u64 \<Rightarrow> kstate \<Rightarrow> kstate option" where
  "give_stack a s = (case store_stack_page 1 a s of Ret r t \<Rightarrow> if r = 1 then Some t else None | _ \<Rightarrow> None)"

lemma card_process_stacks: "finite process_stacks" "card process_stacks = 128"
proof -
  have "inj_on stack_address {..<128}" by (auto simp: inj_on_def dest: stack_address_inj)
  then show "card process_stacks = 128" by (simp add: process_stacks_def card_image)
qed (simp add: process_stacks_def)

lemma stacks_inv_take:
  assumes inv: "stacks_inv s" and some: "free_stacks s \<noteq> {}"
  shows "\<exists>a t. take_stack s = Some (a, t) \<and> a \<in> free_stacks s \<and> free_stacks t = free_stacks s - {a} \<and>
    stacks_inv t"
proof -
  let ?i = "unat (current_stack_index s)" and ?t = "released (stack_key s) (pop_stack_page s)"
  have len: "length (stack_pages_stack s) = 128" using inv by (simp add: stacks_inv_def)
  have "?i < 128" using some len by (auto simp: free_stacks_def)
  note next_i = u16_next [OF this]
  have d: "drop ?i (stack_pages_stack s) = stack_pages_stack s ! ?i # drop (Suc ?i) (stack_pages_stack s)"
    using \<open>?i < 128\<close> len by (simp add: Cons_nth_drop_Suc)
  have "take_stack s = Some (stack_pages_stack s ! ?i, ?t)"
    using get_stack_page_ok [of s 0] inv \<open>?i < 128\<close> by (simp add: take_stack_def stacks_inv_def)
  moreover have "free_stacks s = insert (stack_pages_stack s ! ?i) (free_stacks ?t)"
    "stack_pages_stack s ! ?i \<notin> free_stacks ?t" "stacks_inv ?t"
    using inv d next_i \<open>?i < 128\<close> by (auto simp: free_stacks_def stacks_inv_def)
  ultimately show ?thesis by auto
qed

lemma stacks_inv_give:
  assumes inv: "stacks_inv s" and a: "a \<in> process_stacks - free_stacks s"
  shows "\<exists>t. give_stack a s = Some t \<and> free_stacks t = insert a (free_stacks s) \<and> stacks_inv t"
proof -
  have len: "length (stack_pages_stack s) = 128" using inv by (simp add: stacks_inv_def)
  have pos: "current_stack_index s > 0"
  proof (rule ccontr)
    assume "\<not> current_stack_index s > 0"
    then have "unat (current_stack_index s) = 0" by (simp add: word_gt_0)
    with inv len have "distinct (stack_pages_stack s)" "set (stack_pages_stack s) \<subseteq> process_stacks"
      "free_stacks s = set (stack_pages_stack s)" by (auto simp: stacks_inv_def free_stacks_def)
    moreover from this have "card (set (stack_pages_stack s)) = card process_stacks"
      using len by (simp add: card_process_stacks distinct_card)
    ultimately have "free_stacks s = process_stacks" by (simp add: card_process_stacks card_subset_eq)
    with a show False by simp
  qed
  let ?j = "current_stack_index s - 1" and ?t = "released (stack_key s) (push_stack_page a s)"
  have j: "unat (current_stack_index s) = Suc (unat ?j)" using unat_prev [OF pos] .
  have le: "unat ?j < 128" using inv j by (simp add: stacks_inv_def)
  then have d: "drop (unat ?j) ((stack_pages_stack s)[unat ?j := a]) =
      a # drop (Suc (unat ?j)) (stack_pages_stack s)"
    using len by (simp add: Cons_nth_drop_Suc [symmetric] drop_update_cancel)
  have "give_stack a s = Some ?t"
    using store_stack_page_ok [of s 0 a] inv pos by (simp add: give_stack_def stacks_inv_def)
  moreover have "free_stacks ?t = insert a (free_stacks s)" "stacks_inv ?t"
    using inv d j len a le by (auto simp: free_stacks_def stacks_inv_def)
  ultimately show ?thesis by blast
qed

interpretation stacks: page_pool stacks_inv free_stacks process_stacks take_stack give_stack
proof
  show "free_stacks s \<subseteq> process_stacks" if "stacks_inv s" for s
    using that by (simp add: stacks_inv_def)
qed (rule stacks_inv_take stacks_inv_give; assumption)+

section \<open>After initialisation\<close>

lemma init_pages_loop_nth:
  "length (init_pages_loop n i ps) = length ps \<and>
   (j < length ps \<longrightarrow> init_pages_loop n i ps ! j = (if i \<le> j \<and> j < i + n then of_nat (j + 1) else ps ! j))"
proof (induction n arbitrary: i ps)
  case (Suc n)
  from Suc.IH [of "Suc i" "ps[i := of_nat (i + 1)]"] show ?case
    by (cases "i = j") (auto simp: nth_list_update)
qed auto

lemma init_stack_pages_loop_nth:
  "length (init_stack_pages_loop n i ps) = length ps \<and>
   (j < length ps \<longrightarrow> init_stack_pages_loop n i ps ! j = (if i \<le> j \<and> j < i + n then stack_address j else ps ! j))"
proof (induction n arbitrary: i ps)
  case (Suc n)
  from Suc.IH [of "Suc i" "ps[i := stack_address i]"] show ?case
    by (cases "i = j") (auto simp: nth_list_update)
qed auto

lemma initialize_memory_allocator_pages:
  assumes "pages_stack s = replicate 255 0"
  shows "pages_stack (initialize_memory_allocator s) = map (\<lambda>i. of_nat (i + 1)) [0..<254] @ [0]"
proof (rule nth_equalityI)
  show "length (pages_stack (initialize_memory_allocator s)) = length (map (\<lambda>i. of_nat (i + 1) :: u8) [0..<254] @ [0])"
    using init_pages_loop_nth [of 254 0 "replicate 255 0"] assms by (simp add: initialize_memory_allocator_def)
  fix j
  assume "j < length (pages_stack (initialize_memory_allocator s))"
  then have "j < 255" using init_pages_loop_nth [of 254 0 "replicate 255 0"] assms
    by (simp add: initialize_memory_allocator_def)
  then show "pages_stack (initialize_memory_allocator s) ! j = (map (\<lambda>i. of_nat (i + 1)) [0..<254] @ [0]) ! j"
    using init_pages_loop_nth [of 254 0 "replicate 255 0" j] assms
    by (auto simp: initialize_memory_allocator_def nth_append)
qed

lemma initialize_stack_pages:
  assumes "length (stack_pages_stack s) = 128"
  shows "stack_pages_stack (initialize_stack_memory_allocator s) = map stack_address [0..<128]"
  using init_stack_pages_loop_nth [of 128 0 "stack_pages_stack s"] assms
  by (intro nth_equalityI) (auto simp: initialize_stack_memory_allocator_def)

section \<open>Exhaustion\<close>

text \<open>A mutex that is taken and has a queue: locking it means queueing for it.\<close>

definition mutex_taken :: "int \<Rightarrow> kstate \<Rightarrow> bool" where
  "mutex_taken key s \<longleftrightarrow>
     mutex_is_open key s \<and> nat key < length (open_mutexes s) \<and> m_locked (the_mutex key s) = LOCKED \<and>
     m_queue (the_mutex key s) \<noteq> NULL \<and> cur_node s \<noteq> NULL \<and> h_snode s (cur_node s) \<noteq> None"

lemma mutex_taken_again:
  "mutex_taken key s \<Longrightarrow> mutex_taken key (set_locked key LOCKED (s\<lparr>superlock := l\<rparr>)) \<and>
   mem_key (set_locked key LOCKED (s\<lparr>superlock := l\<rparr>)) = mem_key s"
  by (simp add: mutex_taken_def) (simp add: set_locked_def the_mutex_def)

lemma mutex_lock_taken:
  assumes "mutex_taken key s"
  obtains p where "mutex_lock (Suc n) key s =
      (let s' = set_locked key LOCKED (s\<lparr>superlock := LOCKED\<rparr>) in
       bnd (enqueue n (m_queue (the_mutex key s')) p s') (\<lambda>_ s.
       bnd (block_process p s) (\<lambda>_ s. bnd (yield_process (unset_superlock s)) (\<lambda>_ s. Ret 1 s))))"
proof -
  obtain c where "h_snode s (cur_node s) = Some c" "cur_node s \<noteq> NULL"
    using assms by (auto simp: mutex_taken_def)
  with assms show ?thesis
    by (intro that [of "sn_p c"])
      (simp add: mutex_lock_Suc mutex_lock_with_def mutex_taken_def get_current_process_def
        set_superlock_def the_mutex_def Let_def)
qed

text \<open>
  Locking the memory mutex while it is taken never returns: queueing for it allocates a node, and
  that locks the memory mutex.
\<close>

lemma memory_mutex_recursion:
  "mutex_taken (mem_key s) s \<Longrightarrow> mutex_lock n (mem_key s) s = Fault Out_Of_Fuel"
proof (induction n arbitrary: s)
  case 0
  show ?case by (rule mutex_lock_0)
next
  case (Suc n)
  let ?s = "set_locked (mem_key s) LOCKED (s\<lparr>superlock := LOCKED\<rparr>)"
  have t: "mutex_taken (mem_key s) ?s" "mem_key ?s = mem_key s"
    using mutex_taken_again [OF Suc.prems, of LOCKED] by simp_all
  then have "m_queue (the_mutex (mem_key s) ?s) \<noteq> NULL" by (simp add: mutex_taken_def)
  moreover from Suc.IH [of ?s] t have "get_page n ?s = Fault Out_Of_Fuel"
    by (simp add: get_page_def get_page_with_def)
  ultimately have "enqueue n (m_queue (the_mutex (mem_key s) ?s)) p ?s = Fault Out_Of_Fuel" for p
    by (simp add: enqueue_def enqueue_with_def)
  then show ?case by (rule_tac mutex_lock_taken [OF Suc.prems, of n]) (simp add: Let_def)
qed

section \<open>The allocators from power on\<close>

lemma distinct_init_pages: "distinct (map (\<lambda>i. of_nat (i + 1) :: u8) [0..<254] @ [0])"
proof -
  have inj: "inj_on (\<lambda>i. of_nat (i + 1) :: u8) {0..<254}"
  proof (rule inj_onI)
    fix i j
    assume "i \<in> {0..<254}" "j \<in> {0..<254}" "of_nat (i + 1) = (of_nat (j + 1) :: u8)"
    then have "i + 1 < 256" "j + 1 < 256" "unat (of_nat (i + 1) :: u8) = unat (of_nat (j + 1) :: u8)" by auto
    then show "i = j" by (simp only: unat_of_nat) simp
  qed
  moreover have "(0 :: u8) \<notin> (\<lambda>i. of_nat (i + 1)) ` {0..<254}"
  proof
    assume "(0 :: u8) \<in> (\<lambda>i. of_nat (i + 1)) ` {0..<254}"
    then obtain i where "i < 254" "unat (of_nat (i + 1) :: u8) = 0" by auto
    then show False by (simp only: unat_of_nat) simp
  qed
  ultimately show ?thesis by (simp add: distinct_map)
qed

lemma init_pages_255: "255 \<notin> set (map (\<lambda>i. of_nat (i + 1) :: u8) [0..<254] @ [0])"
proof
  assume "255 \<in> set (map (\<lambda>i. of_nat (i + 1) :: u8) [0..<254] @ [0])"
  then obtain i where "i < 254" "unat (of_nat (i + 1) :: u8) = 255" by (auto simp: image_iff) 
  then show False by (simp only: unat_of_nat) simp
qed

lemma mutex_free_init [simp]:
  "mutex_free k (initialize_memory_allocator s) = mutex_free k s"
  "mutex_free k (initialize_stack_memory_allocator s) = mutex_free k s"
  by (simp_all add: initialize_memory_allocator_def initialize_stack_memory_allocator_def
      mutex_free_def mutex_is_open_def mutex_empty_def the_mutex_def)

lemma init_frame [simp]:
  "current_index (initialize_memory_allocator s) = current_index s"
  "memory_mutex_key (initialize_memory_allocator s) = memory_mutex_key s"
  "current_stack_index (initialize_stack_memory_allocator s) = current_stack_index s"
  "stack_memory_mutex_key (initialize_stack_memory_allocator s) = stack_memory_mutex_key s"
  by (simp_all add: initialize_memory_allocator_def initialize_stack_memory_allocator_def)

lemma initialize_owns:
  assumes "pages_stack s = replicate 255 0" "current_index s = 0" "mutex_free (mem_key s) s"
  shows "data.owns [] (initialize_memory_allocator s)"
proof -
  let ?ps = "map (\<lambda>i. of_nat (i + 1) :: u8) [0..<254] @ [0]"
  have "card (set ?ps) = 255" using distinct_card [OF distinct_init_pages] by simp
  moreover have "set ?ps \<subseteq> UNIV - {255}" using init_pages_255 by blast
  moreover have "card (UNIV - {255 :: u8}) = 255" by (simp add: card_word)
  ultimately have "set ?ps = UNIV - {255}" by (metis card_subset_eq finite)
  then have "free_pages (initialize_memory_allocator s) = data_pages"
    using assms by (simp only: free_pages_def data_pages_def initialize_memory_allocator_pages init_frame) simp
  moreover have "pages_inv (initialize_memory_allocator s)"
    using assms distinct_init_pages init_pages_255 initialize_memory_allocator_pages [of s]
    by (simp add: pages_inv_def)
  ultimately show ?thesis by (simp add: data.owns_def)
qed

lemma initialize_stack_owns:
  assumes "length (stack_pages_stack s) = 128" "current_stack_index s = 0" "mutex_free (stack_key s) s"
  shows "stacks.owns [] (initialize_stack_memory_allocator s)"
proof -
  have "free_stacks (initialize_stack_memory_allocator s) = process_stacks"
    using assms by (auto simp: free_stacks_def process_stacks_def initialize_stack_pages)
  moreover have "distinct (map stack_address [0..<128])"
    using stack_address_inj by (simp add: distinct_map inj_on_def)
  ultimately have "stacks_inv (initialize_stack_memory_allocator s)"
    using assms initialize_stack_pages [of s] by (simp add: stacks_inv_def)
  with \<open>free_stacks _ = process_stacks\<close> show ?thesis by (simp add: stacks.owns_def)
qed

lemma card_data_pages: "finite data_pages" "card data_pages = 255"
proof -
  have "inj_on page_address (UNIV - {255})" by (auto simp: inj_on_def page_address_inj)
  then show "card data_pages = 255" by (simp add: data_pages_def card_image card_word)
qed (simp add: data_pages_def)

lemma data_pages_range: "a \<in> data_pages \<Longrightarrow> \<exists>i<255. unat a = DATA_ADDRESS + i * PAGE_SIZE"
proof -
  assume "a \<in> data_pages"
  then obtain i where "a = page_address i" "i \<noteq> 255" by (auto simp: data_pages_def)
  moreover have "unat i \<noteq> 255" using \<open>i \<noteq> 255\<close> word_unat_eq_iff [of i 255] by simp
  ultimately show ?thesis
    using unat_u8 [of i] unat_page_address [of i] by (intro exI [of _ "unat i"]) simp
qed

text \<open>
  C2. From the initialised state, whatever sequence of \<open>get_page\<close> and of \<open>store_page\<close> on pages
  that are owned is carried out: the pages owned are pairwise different pages of the data area,
  none of them is free, and as long as fewer than 255 are owned another \<open>get_page\<close> succeeds
  with a page that is not owned.
\<close>

theorem get_page_distinct:
  assumes "pages_stack s = replicate 255 0" "current_index s = 0" "mutex_free (mem_key s) s"
    and "pool_run free_pages take_page give_page ops [] (initialize_memory_allocator s) = Some (owned, t)"
  shows "distinct owned \<and> set owned \<inter> free_pages t = {} \<and>
    (\<forall>a \<in> set owned. \<exists>i<255. unat a = DATA_ADDRESS + i * PAGE_SIZE) \<and>
    (length owned < 255 \<longrightarrow> (\<exists>a u. take_page t = Some (a, u) \<and> a \<notin> set owned))"
proof -
  have owns: "data.owns owned t"
    using data.run_owns [OF initialize_owns [OF assms(1-3)] assms(4)] .
  have "\<exists>a u. take_page t = Some (a, u) \<and> a \<notin> set owned" if "length owned < 255"
  proof -
    have "free_pages t \<noteq> {}"
    proof
      assume "free_pages t = {}"
      with owns have "set owned = data_pages" "distinct owned" by (simp_all add: data.owns_def)
      with card_data_pages(2) that show False by (metis distinct_card less_irrefl)
    qed
    from data.owns_tk [OF owns this] show ?thesis by (auto simp: data.owns_def)
  qed
  with owns data_pages_range show ?thesis by (auto simp: data.owns_def)
qed

lemma power_on_zero_frame:
  "pages_stack power_on_zero = replicate 255 0" "current_index power_on_zero = 0"
  "mutex_free (mem_key power_on_zero) power_on_zero"
  "stack_pages_stack power_on_zero = replicate 128 0" "current_stack_index power_on_zero = 0"
  "mutex_free (stack_key power_on_zero) power_on_zero"
  by (simp_all add: power_on_zero_def power_on_def mutex_free_def mutex_is_open_def)

lemma first_take:
  "\<exists>a t. pool_run free_pages take_page give_page [Take] [] (initialize_memory_allocator power_on_zero) = Some ([a], t)"
  "\<exists>a t. pool_run free_stacks take_stack give_stack [Take] [] (initialize_stack_memory_allocator power_on_zero) = Some ([a], t)"
proof -
  note own = initialize_owns [OF power_on_zero_frame(1-3)]
  then have ne: "free_pages (initialize_memory_allocator power_on_zero) \<noteq> {}"
    using card_data_pages by (auto simp: data.owns_def)
  from data.owns_tk [OF own ne] ne
  show "\<exists>a t. pool_run free_pages take_page give_page [Take] [] (initialize_memory_allocator power_on_zero) = Some ([a], t)"
    by fastforce
next
  note own = initialize_stack_owns [of power_on_zero]
  then have own: "stacks.owns [] (initialize_stack_memory_allocator power_on_zero)"
    using power_on_zero_frame by simp
  then have ne: "free_stacks (initialize_stack_memory_allocator power_on_zero) \<noteq> {}"
    using card_process_stacks by (auto simp: stacks.owns_def)
  from stacks.owns_tk [OF own ne] ne
  show "\<exists>a t. pool_run free_stacks take_stack give_stack [Take] [] (initialize_stack_memory_allocator power_on_zero) = Some ([a], t)"
    by fastforce
qed

theorem get_page_distinct_witness:
  "\<exists>a t. pool_run free_pages take_page give_page [Take] [] (initialize_memory_allocator power_on_zero) = Some ([a], t) \<and>
    a \<notin> free_pages t \<and> (\<exists>b u. take_page t = Some (b, u) \<and> b \<noteq> a)"
proof -
  obtain a t where run: "pool_run free_pages take_page give_page [Take] [] (initialize_memory_allocator power_on_zero) = Some ([a], t)"
    using first_take(1) by blast
  from get_page_distinct [OF power_on_zero_frame(1-3) run] run show ?thesis by auto
qed

text \<open>
  C8. The stacks of processes never overlap: from the initialised state, after any sequence of
  \<open>get_stack_page\<close> and of \<open>store_stack_page\<close> on owned stacks, the stacks owned (each runs down
  \<open>STACK_PAGE_SIZE\<close> bytes from its address) are pairwise disjoint and lie above every data page.
\<close>

theorem get_stack_page_disjoint:
  assumes "length (stack_pages_stack s) = MAX_PROCESSES" "current_stack_index s = 0" "mutex_free (stack_key s) s"
    and "pool_run free_stacks take_stack give_stack ops [] (initialize_stack_memory_allocator s) = Some (owned, t)"
  shows "(\<forall>j < length owned. \<forall>k < j.
      unat (owned ! j) + STACK_PAGE_SIZE \<le> unat (owned ! k) \<or> unat (owned ! k) + STACK_PAGE_SIZE \<le> unat (owned ! j)) \<and>
    (\<forall>a \<in> set owned. \<forall>i. unat (page_address i) + PAGE_SIZE < unat a - STACK_PAGE_SIZE)"
proof -
  have "stacks.owns owned t" using stacks.run_owns [OF initialize_stack_owns [OF assms(1-3)] assms(4)] .
  then have dist: "distinct owned" and sub: "set owned \<subseteq> process_stacks" by (auto simp: stacks.owns_def)
  have addr: "\<exists>i<128. unat a = (i + 1) * STACK_PAGE_SIZE + STACK_ADDRESS \<and> a = stack_address i" if "a \<in> set owned" for a
    using sub that unat_stack_address by (fastforce simp: process_stacks_def)
  have "unat (owned ! j) + STACK_PAGE_SIZE \<le> unat (owned ! k) \<or> unat (owned ! k) + STACK_PAGE_SIZE \<le> unat (owned ! j)"
    if "j < length owned" "k < j" for j k
  proof -
    have mem: "owned ! j \<in> set owned" "owned ! k \<in> set owned" using that by simp_all
    obtain x y where x: "unat (owned ! j) = (x + 1) * STACK_PAGE_SIZE + STACK_ADDRESS" "owned ! j = stack_address x"
      and y: "unat (owned ! k) = (y + 1) * STACK_PAGE_SIZE + STACK_ADDRESS" "owned ! k = stack_address y"
      using addr [OF mem(1)] addr [OF mem(2)] by blast
    from dist that have "owned ! j \<noteq> owned ! k" by (simp add: nth_eq_iff_index_eq)
    with x y have "x < y \<or> y < x" by (metis nat_neq_iff)
    then show ?thesis unfolding x(1) y(1) by (elim disjE; simp)
  qed
  moreover have "unat (page_address i) + PAGE_SIZE < unat a - STACK_PAGE_SIZE" if "a \<in> set owned" for a i
    using addr [OF that] unat_page_address [of i] unat_u8 [of i] by auto
  ultimately show ?thesis by blast
qed

theorem get_stack_page_disjoint_witness:
  "\<exists>a t. pool_run free_stacks take_stack give_stack [Take] [] (initialize_stack_memory_allocator power_on_zero) = Some ([a], t) \<and>
    unat (page_address 254) + PAGE_SIZE < unat a - STACK_PAGE_SIZE"
proof -
  obtain a t where run: "pool_run free_stacks take_stack give_stack [Take] [] (initialize_stack_memory_allocator power_on_zero) = Some ([a], t)"
    using first_take(2) by blast
  from get_stack_page_disjoint [OF _ power_on_zero_frame(5,6) run] run show ?thesis
    by (auto simp: power_on_zero_frame)
qed

section \<open>A kernel that runs\<close>

text \<open>
  A small state of the kernel after boot, in which statements are evaluated: two processes, \<open>A\<close>
  (running, pid 2) and \<open>B\<close> (pid 3), in a ring of two nodes; the memory mutex (key 0) and a user
  mutex (key 1), both open and unlocked. The six pages in use are pages 1 to 6.
\<close>

definition node_A :: ptr where "node_A = page_address 1"
definition proc_A :: ptr where "proc_A = page_address 2"
definition node_B :: ptr where "node_B = page_address 3"
definition proc_B :: ptr where "proc_B = page_address 4"
definition queue_0 :: ptr where "queue_0 = page_address 5"
definition queue_1 :: ptr where "queue_1 = page_address 6"

definition two_processes :: kstate where
  "two_processes = (initialize_memory_allocator power_on_zero)
     \<lparr>current_index := 6, memory_mutex_key := 0,
      h_snode := [node_A \<mapsto> \<lparr>quantum = 1, sn_p = proc_A, sn_next = node_B\<rparr>,
                  node_B \<mapsto> \<lparr>quantum = 1, sn_p = proc_B, sn_next = node_A\<rparr>],
      h_proc := [proc_A \<mapsto> zero_process\<lparr>p_pid := 2, p_st := RUNNING\<rparr>,
                 proc_B \<mapsto> zero_process\<lparr>p_pid := 3, p_st := READY\<rparr>],
      h_queue := [queue_0 \<mapsto> \<lparr>q_first = NULL, q_last = NULL\<rparr>,
                  queue_1 \<mapsto> \<lparr>q_first = NULL, q_last = NULL\<rparr>],
      open_mutexes := [\<lparr>m_name = ''mem'', m_locked = UNLOCKED, m_state = OPEN, m_queue = queue_0\<rparr>,
                       \<lparr>m_name = ''user'', m_locked = UNLOCKED, m_state = OPEN, m_queue = queue_1\<rparr>] @
                      replicate 126 zero_mutex,
      cur_node := node_A, prev_node := node_B\<rparr>"

lemmas two_processes_pages = node_A_def proc_A_def node_B_def proc_B_def queue_0_def queue_1_def

lemma two_processes_distinct [simp]:
  "node_A \<noteq> NULL" "node_B \<noteq> NULL" "proc_A \<noteq> NULL" "proc_B \<noteq> NULL" "queue_0 \<noteq> NULL" "queue_1 \<noteq> NULL"
  "node_A \<noteq> node_B" "node_B \<noteq> node_A" "proc_A \<noteq> proc_B" "proc_B \<noteq> proc_A"
  "queue_0 \<noteq> queue_1" "queue_1 \<noteq> queue_0"
  by (simp_all add: two_processes_pages page_address_inj)

lemma two_processes_frame [simp]:
  "mem_key two_processes = 0" "current_index two_processes = 6" "cur_node two_processes = node_A"
  "h_snode two_processes = [node_A \<mapsto> \<lparr>quantum = 1, sn_p = proc_A, sn_next = node_B\<rparr>,
     node_B \<mapsto> \<lparr>quantum = 1, sn_p = proc_B, sn_next = node_A\<rparr>]"
  "h_proc two_processes = [proc_A \<mapsto> zero_process\<lparr>p_pid := 2, p_st := RUNNING\<rparr>,
     proc_B \<mapsto> zero_process\<lparr>p_pid := 3, p_st := READY\<rparr>]"
  "h_queue two_processes = [queue_0 \<mapsto> \<lparr>q_first = NULL, q_last = NULL\<rparr>,
     queue_1 \<mapsto> \<lparr>q_first = NULL, q_last = NULL\<rparr>]"
  by (simp_all add: two_processes_def)

lemma two_processes_mutexes:
  "open_mutexes two_processes = [\<lparr>m_name = ''mem'', m_locked = UNLOCKED, m_state = OPEN, m_queue = queue_0\<rparr>,
     \<lparr>m_name = ''user'', m_locked = UNLOCKED, m_state = OPEN, m_queue = queue_1\<rparr>] @ replicate 126 zero_mutex"
  by (simp add: two_processes_def)

lemma two_processes_free:
  "mutex_is_open 0 two_processes" "mutex_free 0 two_processes"
  "mutex_is_open 1 two_processes" "mutex_free 1 two_processes"
  by (simp_all add: mutex_is_open_def mutex_free_def mutex_empty_def the_mutex_def two_processes_mutexes)

text \<open>
  C17. Once the 255 data pages are used up, \<open>get_page\<close> never returns, although its last line
  would return 0: the error path locks the memory mutex a second time instead of unlocking it,
  and queueing for that mutex calls \<open>get_page\<close> again. No amount of nested calls is enough.
\<close>

theorem get_page_exhausted:
  assumes free: "mutex_free (mem_key s) s" and "mutex_is_open (mem_key s) s"
    and q: "m_queue (the_mutex (mem_key s) s) \<noteq> NULL" and "unat (current_index s) \<ge> STACK_SIZE"
  shows "get_page n s = Fault Out_Of_Fuel"
proof (cases n)
  case 0
  then show ?thesis by (simp add: get_page_def get_page_with_def mutex_lock_0)
next
  case (Suc m)
  let ?s = "set_locked (mem_key s) LOCKED (s\<lparr>superlock := UNLOCKED\<rparr>)"
  have "mutex_taken (mem_key s) ?s" "mem_key ?s = mem_key s"
    using assms by (simp_all add: mutex_taken_def mutex_free_def)
      (simp add: set_locked_def the_mutex_def)
  from memory_mutex_recursion [of ?s n] this have "mutex_lock n (mem_key s) ?s = Fault Out_Of_Fuel" by simp
  then show ?thesis
    using mutex_lock_free [OF assms(1,2), of m] assms(4) Suc
    by (simp add: get_page_def get_page_with_def)
qed

theorem get_page_exhausted_witness:
  "get_page 1000 (two_processes\<lparr>current_index := 255\<rparr>) = Fault Out_Of_Fuel"
proof (rule get_page_exhausted)
  let ?s = "two_processes\<lparr>current_index := 255\<rparr>"
  show "mutex_free (mem_key ?s) ?s" "mutex_is_open (mem_key ?s) ?s" "m_queue (the_mutex (mem_key ?s) ?s) \<noteq> NULL"
    using two_processes_frame(1)
    by (simp_all add: mutex_is_open_def mutex_free_def mutex_empty_def the_mutex_def two_processes_mutexes)
qed simp

end
