(* ===== verification/Queue_ADT.thy ===== *)
theory Queue_ADT
  imports Page_Allocator
begin

text \<open>
  The queue of pointers (\<open>Kernel/queueADT.c\<close>; its operations are defined in \<open>Sync_Core\<close>, because
  the page allocator and the mutexes need them). A queue and each of its nodes is a page of the
  allocator. The theory relates the linked nodes to the list of elements, shows what every
  operation does to that list and to the free pages, and interprets the contract of a stream
  buffer: elements come out in the order in which they went in, none lost and none twice.
\<close>

section \<open>Linked nodes\<close>

text \<open>\<open>qpath h p ns\<close>: following \<open>next\<close> from \<open>p\<close> visits the nodes \<open>ns\<close>, with these elements, up to \<open>NULL\<close>.\<close>

primrec qpath :: "(ptr \<Rightarrow> qnode option) \<Rightarrow> ptr \<Rightarrow> (ptr \<times> ptr) list \<Rightarrow> bool" where
  "qpath h p [] \<longleftrightarrow> p = NULL"
| "qpath h p (n # ns) \<longleftrightarrow>
     p = fst n \<and> p \<noteq> NULL \<and>
     (case h p of None \<Rightarrow> False | Some x \<Rightarrow> q_elem x = snd n \<and> qpath h (q_next x) ns)"

definition queue_at :: "ptr \<Rightarrow> (ptr \<times> ptr) list \<Rightarrow> kstate \<Rightarrow> bool" where
  "queue_at q ns s \<longleftrightarrow>
     q \<noteq> NULL \<and> distinct (map fst ns) \<and>
     (case h_queue s q of None \<Rightarrow> False
      | Some Q \<Rightarrow> qpath (h_qnode s) (q_first Q) ns \<and> (ns \<noteq> [] \<longrightarrow> q_last Q = fst (last ns)))"

text \<open>The nodes from \<open>p\<close> on, at most \<open>n\<close> of them.\<close>

primrec walk :: "nat \<Rightarrow> (ptr \<Rightarrow> qnode option) \<Rightarrow> ptr \<Rightarrow> (ptr \<times> ptr) list" where
  "walk 0 h p = []"
| "walk (Suc n) h p =
     (if p = NULL then []
      else case h p of None \<Rightarrow> [] | Some x \<Rightarrow> (p, q_elem x) # walk n h (q_next x))"

definition queue_nodes :: "ptr \<Rightarrow> kstate \<Rightarrow> (ptr \<times> ptr) list" where
  "queue_nodes q s = (case h_queue s q of None \<Rightarrow> [] | Some Q \<Rightarrow> walk STACK_SIZE (h_qnode s) (q_first Q))"

definition queue_elems :: "ptr \<Rightarrow> kstate \<Rightarrow> ptr list" where
  "queue_elems q s = map snd (queue_nodes q s)"

lemma qpath_walk: "qpath h p ns \<Longrightarrow> length ns \<le> n \<Longrightarrow> walk n h p = ns"
proof (induction ns arbitrary: p n)
  case Nil
  then show ?case by (cases n) auto
next
  case (Cons x ns)
  then show ?case by (cases n) (auto split: option.splits)
qed

lemma qpath_cong: "(\<And>p. p \<in> fst ` set ns \<Longrightarrow> h p = h' p) \<Longrightarrow> qpath h p ns \<Longrightarrow> qpath h' p ns"
  by (induction ns arbitrary: p) (auto split: option.splits)

lemma qpath_first: "qpath h p ns \<Longrightarrow> p = NULL \<longleftrightarrow> ns = []"
  by (cases ns) auto

lemma qpath_snoc:
  assumes "qpath h p (ns @ [(l, e)])" "a \<noteq> NULL" "l \<notin> fst ` set ns" "a \<notin> fst ` set ns" "a \<noteq> l"
  shows "qpath (h(a \<mapsto> \<lparr>q_elem = x, q_next = NULL\<rparr>, l \<mapsto> \<lparr>q_elem = e, q_next = a\<rparr>)) p (ns @ [(l, e), (a, x)])"
  using assms by (induction ns arbitrary: p) (auto split: option.splits)

lemma qpath_last:
  assumes "qpath h p (ns @ [(l, e)])"
  shows "l \<noteq> NULL \<and> (\<exists>x. h l = Some x \<and> q_elem x = e \<and> q_next x = NULL)"
  using assms by (induction ns arbitrary: p) (auto split: option.splits)

section \<open>Queues in the memory of the kernel\<close>

text \<open>
  The queue \<open>q\<close> lives in allocated pages, apart from the queue of the memory mutex; the memory
  mutex is free.
\<close>

definition in_use :: "kstate \<Rightarrow> ptr set" where
  "in_use s = data_pages - free_pages s"

definition queue_wf :: "ptr \<Rightarrow> (ptr \<times> ptr) list \<Rightarrow> kstate \<Rightarrow> bool" where
  "queue_wf q ns s \<longleftrightarrow>
     queue_at q ns s \<and> pages_inv s \<and> q \<in> in_use s \<and> fst ` set ns \<subseteq> in_use s \<and> q \<notin> fst ` set ns \<and>
     q \<noteq> m_queue (the_mutex (mem_key s) s)"

lemma queue_wf_length: "queue_wf q ns s \<Longrightarrow> length ns \<le> STACK_SIZE"
proof -
  assume wf: "queue_wf q ns s"
  then have "set (map fst ns) \<subseteq> data_pages" "distinct (map fst ns)"
    by (auto simp: queue_wf_def in_use_def queue_at_def)
  then have "length (map fst ns) \<le> card data_pages"
    by (metis card_data_pages(1) card_mono distinct_card)
  then show ?thesis by (simp add: card_data_pages)
qed

lemma queue_wf_nodes: "queue_wf q ns s \<Longrightarrow> queue_nodes q s = ns"
  using queue_wf_length [of q ns s]
  by (auto simp: queue_wf_def queue_at_def queue_nodes_def split: option.splits intro: qpath_walk)

text \<open>The state after a page operation of a queue: the allocator moves, the queue and its nodes change.\<close>

definition with_queue :: "ptr \<Rightarrow> queue \<Rightarrow> (ptr \<Rightarrow> qnode option) \<Rightarrow> kstate \<Rightarrow> kstate" where
  "with_queue q Q N s = s\<lparr>h_queue := (h_queue s)(q \<mapsto> Q), h_qnode := N\<rparr>"

lemma with_queue_frame [simp]:
  "h_queue (with_queue q Q N s) = (h_queue s)(q \<mapsto> Q)" "h_qnode (with_queue q Q N s) = N"
  "h_proc (with_queue q Q N s) = h_proc s" "h_snode (with_queue q Q N s) = h_snode s"
  "cur_node (with_queue q Q N s) = cur_node s" "open_mutexes (with_queue q Q N s) = open_mutexes s"
  "current_index (with_queue q Q N s) = current_index s" "pages_stack (with_queue q Q N s) = pages_stack s"
  "memory_mutex_key (with_queue q Q N s) = memory_mutex_key s" "superlock (with_queue q Q N s) = superlock s"
  "free_pages (with_queue q Q N s) = free_pages s" "in_use (with_queue q Q N s) = in_use s"
  "the_mutex k (with_queue q Q N s) = the_mutex k s" "mutex_is_open k (with_queue q Q N s) = mutex_is_open k s"
  by (simp_all add: with_queue_def free_pages_def in_use_def the_mutex_def mutex_is_open_def)

lemma mutex_free_with_queue:
  "q \<noteq> m_queue (the_mutex k s) \<Longrightarrow> mutex_free k (with_queue q Q N s) = mutex_free k s"
  by (simp add: mutex_free_def mutex_empty_def)

lemma pages_inv_with_queue:
  "q \<noteq> m_queue (the_mutex (mem_key s) s) \<Longrightarrow> pages_inv (with_queue q Q N s) = pages_inv s"
  by (simp add: pages_inv_def mutex_free_with_queue)

text \<open>The allocator's step in \<open>enqueue\<close> and in \<open>dequeue\<close>.\<close>

definition paged_out :: "kstate \<Rightarrow> kstate" where
  "paged_out s = released (mem_key s) (pop_page s)"

definition paged_in :: "ptr \<Rightarrow> kstate \<Rightarrow> kstate" where
  "paged_in a s = released (mem_key s) (push_page (page_number a) s)"

definition next_page :: "kstate \<Rightarrow> ptr" where
  "next_page s = page_address (pages_stack s ! unat (current_index s))"

lemma paged_frame [simp]:
  "h_queue (paged_out s) = h_queue s" "h_qnode (paged_out s) = h_qnode s"
  "h_proc (paged_out s) = h_proc s" "h_snode (paged_out s) = h_snode s"
  "cur_node (paged_out s) = cur_node s" "open_mutexes (paged_out s) = open_mutexes s"
  "memory_mutex_key (paged_out s) = memory_mutex_key s"
  "the_mutex k (paged_out s) = the_mutex k s" "mutex_is_open k (paged_out s) = mutex_is_open k s"
  "h_queue (paged_in a s) = h_queue s" "h_qnode (paged_in a s) = h_qnode s"
  "h_proc (paged_in a s) = h_proc s" "h_snode (paged_in a s) = h_snode s"
  "cur_node (paged_in a s) = cur_node s" "open_mutexes (paged_in a s) = open_mutexes s"
  "memory_mutex_key (paged_in a s) = memory_mutex_key s"
  "the_mutex k (paged_in a s) = the_mutex k s" "mutex_is_open k (paged_in a s) = mutex_is_open k s"
  by (simp_all add: paged_out_def paged_in_def released_def pop_page_def push_page_def the_mutex_def mutex_is_open_def)

lemma get_page_step:
  assumes "pages_inv s" "free_pages s \<noteq> {}"
  shows "get_page (Suc n) s = Ret (next_page s) (paged_out s) \<and> pages_inv (paged_out s) \<and>
    next_page s \<in> free_pages s \<and> free_pages (paged_out s) = free_pages s - {next_page s}"
proof -
  have "unat (current_index s) < 255" using assms by (auto simp: free_pages_def pages_inv_def)
  moreover have free: "mutex_free (mem_key s) s" using assms by (simp add: pages_inv_def)
  ultimately have g: "get_page (Suc n) s = Ret (next_page s) (paged_out s)" for n
    by (simp add: get_page_ok next_page_def paged_out_def)
  from pages_inv_take [OF assms] g [of 0] g [of n] show ?thesis by (auto simp: take_page_def)
qed

lemma store_page_step:
  assumes "pages_inv s" "a \<in> in_use s"
  shows "store_page (Suc n) a s = Ret 1 (paged_in a s) \<and> pages_inv (paged_in a s) \<and>
    free_pages (paged_in a s) = insert a (free_pages s)"
proof -
  have free: "mutex_free (mem_key s) s" using assms by (simp add: pages_inv_def)
  obtain t where t: "give_page a s = Some t" "free_pages t = insert a (free_pages s)" "pages_inv t"
    using pages_inv_give [of s a] assms by (auto simp: in_use_def)
  have pos: "current_index s > 0"
  proof (rule ccontr)
    assume "\<not> current_index s > 0"
    then have "store_page 1 a s = Ret 0 (released (mem_key s) s)"
      using store_page_underflow [OF free, of 0] by (simp add: word_gt_0)
    with t show False by (simp add: give_page_def)
  qed
  have "store_page (Suc m) a s = Ret 1 (paged_in a s)" for m
    using store_page_ok [OF free pos] by (simp add: paged_in_def)
  from this [of 0] this [of n] t show ?thesis by (simp add: give_page_def)
qed

section \<open>The operations\<close>

lemma is_empty_queue: "queue_at q ns s \<Longrightarrow> is_empty q s = Ret (ns = []) s"
  by (auto simp: queue_at_def is_empty_def rd_def split: option.splits dest: qpath_first)

lemma peek_queue: "queue_at q ns s \<Longrightarrow> peek q s = Ret (if ns = [] then NULL else snd (hd ns)) s"
  using is_empty_queue [of q ns s]
  by (cases ns) (auto simp: peek_def queue_at_def rd_def split: option.splits)

lemma enqueue_queue:
  assumes wf: "queue_wf q ns s" and room: "free_pages s \<noteq> {}"
  obtains Q N where "enqueue (Suc n) q x s = Ret () (with_queue q Q N (paged_out s))"
    "queue_wf q (ns @ [(next_page s, x)]) (with_queue q Q N (paged_out s))"
    "\<And>p. p \<notin> insert (next_page s) (fst ` set ns) \<Longrightarrow> N p = h_qnode s p"
proof -
  let ?a = "next_page s" and ?s = "paged_out s"
  have inv: "pages_inv s" and at: "queue_at q ns s" using wf by (simp_all add: queue_wf_def)
  note page = get_page_step [OF inv room, of n]
  have null: "?a \<noteq> NULL" by (simp add: next_page_def)
  have fresh: "?a \<notin> fst ` set ns" "?a \<noteq> q" "?a \<in> in_use ?s"
    using page wf pages_inv_def data.free_universe [OF inv] by (auto simp: queue_wf_def in_use_def)
  have grow: "in_use s \<subseteq> in_use ?s" using page by (auto simp: in_use_def)
  from at obtain Q where Q: "q \<noteq> NULL" "h_queue s q = Some Q" "qpath (h_qnode s) (q_first Q) ns"
    "ns \<noteq> [] \<longrightarrow> q_last Q = fst (last ns)" "distinct (map fst ns)"
    by (auto simp: queue_at_def split: option.splits)
  have wf': "queue_wf q (ns @ [(?a, x)]) (with_queue q Q' N ?s)"
    if "qpath N (q_first Q') (ns @ [(?a, x)])" "q_last Q' = ?a" for Q' N
    using that wf fresh page grow Q pages_inv_with_queue [of q ?s]
    by (auto simp: queue_wf_def queue_at_def)
  show thesis
  proof (cases ns rule: rev_cases)
    case Nil
    let ?Q = "\<lparr>q_first = ?a, q_last = ?a\<rparr>" and ?N = "(h_qnode s)(?a \<mapsto> \<lparr>q_elem = x, q_next = NULL\<rparr>)"
    have "q_first Q = NULL" using Q(3) Nil by simp
    then have "enqueue (Suc n) q x s = Ret () (with_queue q ?Q ?N ?s)"
      using page null Q by (simp add: enqueue_def enqueue_with_def put_qnode_def put_queue_def with_queue_def)
    then show ?thesis using that [of ?Q ?N] wf' [of ?N ?Q] Nil null by simp
  next
    case (snoc ms le)
    obtain l e where le: "le = (l, e)" by fastforce
    let ?Q = "Q\<lparr>q_last := ?a\<rparr>"
    let ?N = "(h_qnode s)(?a \<mapsto> \<lparr>q_elem = x, q_next = NULL\<rparr>, l \<mapsto> \<lparr>q_elem = e, q_next = ?a\<rparr>)"
    have first: "q_first Q \<noteq> NULL" "q_last Q = l" using Q snoc le qpath_first [OF Q(3)] by auto
    have "qpath (h_qnode s) (q_first Q) (ms @ [(l, e)])" using Q(3) snoc le by simp
    note last = qpath_last [OF this] and path = qpath_snoc [OF this null, of x]
    then obtain z where y: "l \<noteq> NULL" "h_qnode s l = Some \<lparr>q_elem = e, q_next = z\<rparr>"
      by (metis qnode.surjective unit.exhaust)
    have "l \<noteq> ?a" using fresh snoc le by auto
    then have "enqueue (Suc n) q x s = Ret () (with_queue q ?Q ?N ?s)"
      using page null Q first y
      by (simp add: enqueue_def enqueue_with_def put_qnode_def put_queue_def with_queue_def)
    moreover have "qpath ?N (q_first ?Q) (ns @ [(?a, x)])"
      using path fresh snoc le Q(5) by auto
    ultimately show ?thesis using that [of ?Q ?N] wf' [of ?N ?Q] snoc le by simp
  qed
qed

lemma dequeue_queue:
  assumes wf: "queue_wf q ((f, e) # ns) s"
  obtains Q where "dequeue (Suc n) q s = Ret e (paged_in f (with_queue q Q (h_qnode s) s))"
    "queue_wf q ns (paged_in f (with_queue q Q (h_qnode s) s))"
    "free_pages (paged_in f (with_queue q Q (h_qnode s) s)) = insert f (free_pages s)"
proof -
  from wf obtain Q where Q: "q \<noteq> NULL" "h_queue s q = Some Q" "qpath (h_qnode s) (q_first Q) ((f, e) # ns)"
    "q_last Q = fst (last ((f, e) # ns))" "distinct (f # map fst ns)"
    by (auto simp: queue_wf_def queue_at_def split: option.splits)
  obtain y where y: "q_first Q = f" "f \<noteq> NULL" "h_qnode s f = Some y" "q_elem y = e" "qpath (h_qnode s) (q_next y) ns"
    using Q(3) by (auto split: option.splits)
  let ?Q = "\<lparr>q_first = q_next y, q_last = (if q_next y = NULL then NULL else q_last Q)\<rparr>"
  let ?s = "with_queue q ?Q (h_qnode s) s"
  have "pages_inv ?s" "f \<in> in_use ?s"
    using wf pages_inv_with_queue [of q s] by (auto simp: queue_wf_def)
  note page = store_page_step [OF this, of n]
  have eq: "put_queue q ?Q s = ?s" by (simp add: put_queue_def with_queue_def)
  have "queue_at q ((f, e) # ns) s" using wf by (simp add: queue_wf_def)
  then have "is_empty q s = Ret False s" by (simp add: is_empty_queue)
  then have "dequeue (Suc n) q s = Ret e (paged_in f ?s)"
    using Q y page by (simp add: dequeue_def dequeue_with_def eq [simplified])
  moreover have "queue_wf q ns (paged_in f ?s)"
  proof -
    have "ns \<noteq> [] \<longrightarrow> q_last ?Q = fst (last ns)" using Q(4) qpath_first [OF y(5)] by simp
    then have "queue_at q ns (paged_in f ?s)" using Q y by (simp add: queue_at_def)
    moreover have "f \<notin> fst ` set ns" using Q(5) by simp
    then have "fst ` set ns \<subseteq> in_use (paged_in f ?s)" "q \<in> in_use (paged_in f ?s)"
      using wf page unfolding queue_wf_def in_use_def by auto
    ultimately show ?thesis using wf page by (simp add: queue_wf_def)
  qed
  ultimately show thesis using that [of ?Q] page by simp
qed

lemma dequeue_empty: "queue_at q [] s \<Longrightarrow> dequeue n q s = Ret NULL s"
  by (simp add: dequeue_def dequeue_with_def is_empty_queue)

lemma create_queue_ok:
  assumes "pages_inv s" "free_pages s \<noteq> {}" "next_page s \<noteq> m_queue (the_mutex (mem_key s) s)"
  shows "\<exists>t. create_queue (Suc n) s = Ret (next_page s) t \<and> queue_wf (next_page s) [] t \<and>
    free_pages t = free_pages s - {next_page s}"
proof -
  let ?q = "next_page s" and ?t = "with_queue (next_page s) \<lparr>q_first = NULL, q_last = NULL\<rparr> (h_qnode s) (paged_out s)"
  note page = get_page_step [OF assms(1,2), of n]
  have "?q \<noteq> NULL" by (simp add: next_page_def)
  moreover have "put_queue ?q \<lparr>q_first = NULL, q_last = NULL\<rparr> (paged_out s) = ?t"
    by (simp add: put_queue_def with_queue_def paged_out_def released_def pop_page_def)
  ultimately have "create_queue (Suc n) s = Ret ?q ?t" using page by (simp add: create_queue_def)
  moreover have "queue_wf ?q [] ?t"
    using page assms \<open>?q \<noteq> NULL\<close> data.free_universe [OF assms(1)] pages_inv_with_queue [of ?q "paged_out s"]
    by (auto simp: queue_wf_def queue_at_def in_use_def)
  moreover have "free_pages ?t = free_pages s - {?q}" using page by simp
  ultimately show ?thesis by blast
qed

text \<open>Destroying a queue gives back its nodes and itself.\<close>

lemma drain_queue_ok:
  "queue_wf q ns s \<Longrightarrow> \<exists>t. drain_queue (length ns + Suc (Suc n)) q s = Ret () t \<and> queue_wf q [] t \<and>
     free_pages t = free_pages s \<union> fst ` set ns"
proof (induction ns arbitrary: s)
  case Nil
  moreover from Nil have "queue_at q [] s" by (simp add: queue_wf_def)
  ultimately show ?case by (simp add: is_empty_queue)
next
  case (Cons fe ns)
  obtain f e where fe: "fe = (f, e)" by fastforce
  obtain Q where d: "dequeue (Suc (length ns + Suc n)) q s = Ret e (paged_in f (with_queue q Q (h_qnode s) s))"
    and wf: "queue_wf q ns (paged_in f (with_queue q Q (h_qnode s) s))"
    and fr: "free_pages (paged_in f (with_queue q Q (h_qnode s) s)) = insert f (free_pages s)"
    using dequeue_queue [of q f e ns s "length ns + Suc n"] Cons.prems fe by auto
  have "queue_at q (fe # ns) s" using Cons.prems by (simp add: queue_wf_def)
  then show ?case using Cons.IH [OF wf] d fr fe by (auto simp: is_empty_queue)
qed

lemma destroy_queue_ok:
  assumes "queue_wf q ns s"
  shows "\<exists>t. destroy_queue (length ns + Suc (Suc n)) q s = Ret () t \<and> pages_inv t \<and>
    free_pages t = insert q (free_pages s \<union> fst ` set ns)"
proof -
  obtain t where t: "drain_queue (length ns + Suc (Suc n)) q s = Ret () t" "queue_wf q [] t"
    "free_pages t = free_pages s \<union> fst ` set ns" using drain_queue_ok [OF assms] by blast
  moreover have "pages_inv t" "q \<in> in_use t" using t by (simp_all add: queue_wf_def)
  note store_page_step [OF this, of "length ns + Suc n"]
  ultimately show ?thesis by (simp add: destroy_queue_def)
qed

section \<open>The queue as a stream\<close>

definition queue_inv :: "ptr \<Rightarrow> kstate \<Rightarrow> bool" where
  "queue_inv q s \<longleftrightarrow> queue_wf q (queue_nodes q s) s"

text \<open>One element at a time: an insertion when a page is free, a removal when there is an element.\<close>

definition queue_can_put :: "kstate \<Rightarrow> ptr list \<Rightarrow> bool" where
  "queue_can_put s xs \<longleftrightarrow> length xs = 1 \<and> free_pages s \<noteq> {}"

definition queue_can_get :: "ptr \<Rightarrow> kstate \<Rightarrow> nat \<Rightarrow> bool" where
  "queue_can_get q s n \<longleftrightarrow> n = 1 \<and> queue_elems q s \<noteq> []"

definition queue_put :: "ptr \<Rightarrow> ptr list \<Rightarrow> kstate \<Rightarrow> nat \<times> kstate" where
  "queue_put q xs s = (case enqueue 1 q (hd xs) s of Ret _ t \<Rightarrow> (1, t) | _ \<Rightarrow> (0, s))"

definition queue_get :: "ptr \<Rightarrow> nat \<Rightarrow> kstate \<Rightarrow> ptr list \<times> kstate" where
  "queue_get q n s = (case dequeue 1 q s of Ret x t \<Rightarrow> ([x], t) | _ \<Rightarrow> ([], s))"

lemma queue_put_step:
  assumes "queue_inv q s" "queue_can_put s xs"
  shows "fst (queue_put q xs s) = 1 \<and> queue_inv q (snd (queue_put q xs s)) \<and>
    queue_elems q (snd (queue_put q xs s)) = queue_elems q s @ xs"
proof -
  obtain x where x: "xs = [x]" using assms(2) by (auto simp: queue_can_put_def length_Suc_conv)
  have "queue_wf q (queue_nodes q s) s" "free_pages s \<noteq> {}"
    using assms by (simp_all add: queue_inv_def queue_can_put_def)
  then obtain Q N where e: "enqueue (Suc 0) q x s = Ret () (with_queue q Q N (paged_out s))"
    and wf: "queue_wf q (queue_nodes q s @ [(next_page s, x)]) (with_queue q Q N (paged_out s))"
    by (rule enqueue_queue)
  from queue_wf_nodes [OF wf] wf e x show ?thesis by (simp add: queue_put_def queue_inv_def queue_elems_def)
qed

lemma queue_get_step:
  assumes "queue_inv q s" "queue_can_get q s n"
  shows "queue_inv q (snd (queue_get q n s)) \<and>
    queue_elems q s = fst (queue_get q n s) @ queue_elems q (snd (queue_get q n s))"
proof -
  obtain f e ns where ns: "queue_nodes q s = (f, e) # ns"
    using assms(2) by (cases "queue_nodes q s") (auto simp: queue_can_get_def queue_elems_def)
  then have "queue_wf q ((f, e) # ns) s" using assms(1) by (simp add: queue_inv_def)
  then obtain Q where d: "dequeue (Suc 0) q s = Ret e (paged_in f (with_queue q Q (h_qnode s) s))"
    and wf: "queue_wf q ns (paged_in f (with_queue q Q (h_qnode s) s))"
    by (rule dequeue_queue)
  from queue_wf_nodes [OF wf] wf d ns show ?thesis by (simp add: queue_get_def queue_inv_def queue_elems_def)
qed

interpretation adt: stream_buffer "queue_inv q" "queue_elems q" queue_can_put "queue_can_get q" "queue_put q" "queue_get q" for q
proof
  fix s xs assume a: "queue_inv q s" "queue_can_put s xs"
  then have "length xs = 1" by (simp add: queue_can_put_def)
  with queue_put_step [OF a] show "queue_inv q (snd (queue_put q xs s))"
    "queue_elems q (snd (queue_put q xs s)) = queue_elems q s @ take (fst (queue_put q xs s)) xs" by simp_all
next
  fix s n assume "queue_inv q s" "queue_can_get q s n"
  from queue_get_step [OF this] show "queue_inv q (snd (queue_get q n s))"
    "queue_elems q s = fst (queue_get q n s) @ queue_elems q (snd (queue_get q n s))" by simp_all
qed

section \<open>Properties\<close>

lemma two_processes_pages_inv: "pages_inv two_processes" "free_pages two_processes \<noteq> {}"
  "next_page two_processes = page_address 7" "queue_wf queue_1 [] two_processes"
proof -
  let ?ps = "map (\<lambda>i. of_nat (i + 1) :: u8) [0..<254] @ [0]"
  have ps: "pages_stack two_processes = ?ps"
    using initialize_memory_allocator_pages [OF power_on_zero_frame(1)] by (simp add: two_processes_def)
  show inv: "pages_inv two_processes"
  proof -
    have "distinct (drop 6 ?ps)" "255 \<notin> set (drop 6 ?ps)"
      using distinct_drop [OF distinct_init_pages] init_pages_255 in_set_dropD by fast+
    then show ?thesis unfolding pages_inv_def two_processes_frame ps using two_processes_free(2) by simp
  qed
  show "free_pages two_processes \<noteq> {}" unfolding free_pages_def ps by simp
  show "next_page two_processes = page_address 7"
    unfolding next_page_def ps two_processes_frame by (simp add: nth_append)
  have "6 \<notin> set (drop 6 ?ps)"
  proof
    assume "6 \<in> set (drop 6 ?ps)"
    then have "6 \<in> set (drop 6 ?ps)" "6 \<in> set (take 6 ?ps)" by (auto simp: take_map take_upt upt_rec)
    moreover have "distinct (take 6 ?ps @ drop 6 ?ps)" using distinct_init_pages by (simp only: append_take_drop_id)
    ultimately show False by (simp only: distinct_append) blast
  qed
  then have "queue_1 \<in> in_use two_processes"
    unfolding in_use_def free_pages_def data_pages_def ps two_processes_frame queue_1_def
    by (auto simp: page_address_inj)
  with inv show "queue_wf queue_1 [] two_processes"
    by (simp add: queue_wf_def queue_at_def the_mutex_def two_processes_mutexes)
qed



text \<open>
  \<open>destroy_queue\<close> gives every page of the queue back to the allocator: the queue's own page
  and one page per element still in it, and nothing else becomes free.
\<close>

theorem destroy_queue_frees:
  assumes "queue_inv q s" "length (queue_elems q s) + 2 \<le> n"
  shows "\<exists>t. destroy_queue n q s = Ret () t \<and> pages_inv t \<and>
    free_pages t = insert q (free_pages s \<union> fst ` set (queue_nodes q s))"
proof -
  obtain k where "n = length (queue_nodes q s) + Suc (Suc k)"
    using assms(2) by (auto simp: queue_elems_def dest: le_Suc_ex)
  then show ?thesis using destroy_queue_ok [of q "queue_nodes q s" s k] assms(1) by (simp add: queue_inv_def)
qed

theorem destroy_queue_frees_witness:
  "\<exists>t. destroy_queue 2 queue_1 two_processes = Ret () t \<and> free_pages t = insert queue_1 (free_pages two_processes)"
proof -
  note wf = two_processes_pages_inv(4)
  have inv: "queue_inv queue_1 two_processes" "queue_nodes queue_1 two_processes = []"
    using wf queue_wf_nodes [OF wf] by (simp_all add: queue_inv_def)
  then show ?thesis using destroy_queue_frees [OF inv(1), of 2] by (auto simp: queue_elems_def)
qed

end
