(* ===== verification/Kernel_Mutex.thy ===== *)
theory Kernel_Mutex
  imports Queue_ADT
begin

text \<open>
  Named mutexes (\<open>Kernel/kernelMutex.c\<close>; \<open>mutex_lock\<close> and \<open>mutex_unlock\<close> are defined in
  \<open>Sync_Core\<close>). The theory models opening, closing and listing mutexes, gives the effect of a
  lock and of an unlock in every case, and proves mutual exclusion and hand-over for the
  system of all processes that use one mutex: configurations are the kernel state together with
  the processes inside the critical section and those suspended in \<open>mutex_lock\<close>, and \<open>mstep\<close> is
  the step relation.
\<close>

section \<open>Opening, closing and listing\<close>

text \<open>
  \<open>lock_array\<close> spins with \<open>yield_process\<close>; the fuel bounds the number of turns. Names are C
  strings without their terminator, so a name of \<open>MUTEX_NAME_LEN\<close> characters overruns the array.
\<close>

primrec lock_array :: "nat \<Rightarrow> kstate \<Rightarrow> unit kres" where
  "lock_array 0 s = Fault Out_Of_Fuel"
| "lock_array (Suc n) s =
     (if array_mutex s = 0
      then bnd (yield_process (s\<lparr>array_mutex := 0\<rparr>)) (\<lambda>_ s. lock_array n s)
      else Ret () (s\<lparr>array_mutex := 0\<rparr>))"

definition unlock_array :: "kstate \<Rightarrow> kstate" where
  "unlock_array s = s\<lparr>array_mutex := UNLOCKED\<rparr>"

definition create_new_mutex :: "nat \<Rightarrow> string \<Rightarrow> kstate \<Rightarrow> mutex kres" where
  "create_new_mutex n name s =
     (if length name \<ge> MUTEX_NAME_LEN then Fault Buffer_Overflow
      else bnd (create_queue n s) (\<lambda>q s.
             Ret \<lparr>m_name = name, m_locked = UNLOCKED, m_state = OPEN, m_queue = q\<rparr> s))"

definition mutex_open :: "nat \<Rightarrow> string \<Rightarrow> kstate \<Rightarrow> int kres" where
  "mutex_open n name s =
     bnd (lock_array n s) (\<lambda>_ s.
       let k = scan MAX_MUTEXES (\<lambda>k. \<not> mutex_is_open (int k) s \<or> name = m_name (open_mutexes s ! k)) 0
       in if k < MAX_MUTEXES \<and> mutex_is_open (int k) s then Ret (int k) (unlock_array s)
          else if k = MAX_MUTEXES then Ret MAX_MUTEX_OPEN_ERROR (unlock_array s)
          else bnd (create_new_mutex n name s) (\<lambda>m s.
                 Ret (int k) (unlock_array (s\<lparr>open_mutexes := (open_mutexes s)[k := m]\<rparr>))))"

text \<open>\<open>while (!is_empty(m->process_queue)) unblock_process(dequeue_process(m));\<close>\<close>

primrec wake_all :: "nat \<Rightarrow> ptr \<Rightarrow> kstate \<Rightarrow> unit kres" where
  "wake_all 0 q s = Fault Out_Of_Fuel"
| "wake_all (Suc n) q s =
     bnd (is_empty q s) (\<lambda>e s.
       if \<not> e then bnd (dequeue n q s) (\<lambda>p s. bnd (unblock_process p s) (\<lambda>_ s. wake_all n q s))
       else Ret () s)"

definition mutex_close :: "nat \<Rightarrow> int \<Rightarrow> kstate \<Rightarrow> int kres" where
  "mutex_close n key s =
     bnd (lock_array n s) (\<lambda>_ s.
       if mutex_is_open key s then
         let q = m_queue (the_mutex key s)
         in bnd (wake_all n q s) (\<lambda>_ s.
              let s = s\<lparr>open_mutexes := (open_mutexes s)[nat key := (the_mutex key s)\<lparr>m_state := CLOSED\<rparr>]\<rparr>
              in bnd (destroy_queue n (m_queue (the_mutex key s)) s) (\<lambda>_ s. Ret 1 (unlock_array s)))
       else Ret NOT_OPEN_ERROR (unlock_array s))"

record mutex_info =
  mi_name :: string
  mi_key :: int
  mi_locked :: int

definition fill_mutex_info :: "kstate \<Rightarrow> nat \<Rightarrow> mutex_info" where
  "fill_mutex_info s k = \<lparr>mi_name = m_name (open_mutexes s ! k), mi_key = int k,
     mi_locked = m_locked (open_mutexes s ! k)\<rparr>"

text \<open>The array that \<open>get_mutexes_info\<close> fills; its result is the length.\<close>

definition get_mutexes_info :: "nat \<Rightarrow> kstate \<Rightarrow> mutex_info list kres" where
  "get_mutexes_info n s =
     bnd (lock_array n s) (\<lambda>_ s.
       Ret (map (fill_mutex_info s) (filter (\<lambda>k. mutex_is_open (int k) s) [0..<MAX_MUTEXES])) (unlock_array s))"

text \<open>The mutexes of the allocators and of the process table.\<close>

definition initialize_memory_allocator_mutex :: "nat \<Rightarrow> kstate \<Rightarrow> unit kres" where
  "initialize_memory_allocator_mutex n s =
     bnd (mutex_open n ''__MEMORY_MUTEX__'' s) (\<lambda>k s. Ret () (s\<lparr>memory_mutex_key := of_int k\<rparr>))"

definition initialize_stack_memory_allocator_mutex :: "nat \<Rightarrow> kstate \<Rightarrow> unit kres" where
  "initialize_stack_memory_allocator_mutex n s =
     bnd (mutex_open n ''__STACK_MEMORY_MUTEX__'' s) (\<lambda>k s. Ret () (s\<lparr>stack_memory_mutex_key := of_int k\<rparr>))"

definition initialize_process_mutex :: "nat \<Rightarrow> kstate \<Rightarrow> unit kres" where
  "initialize_process_mutex n s =
     bnd (mutex_open n ''__PROCESS_TABLE_MUTEX__'' s) (\<lambda>k s. Ret () (s\<lparr>table_mutex_key := of_int k\<rparr>))"

section \<open>Locking\<close>

text \<open>
  A user mutex: open, not the memory mutex, with a well-formed queue of waiting processes.
\<close>

definition mutex_wf :: "int \<Rightarrow> (ptr \<times> ptr) list \<Rightarrow> kstate \<Rightarrow> bool" where
  "mutex_wf key ns s \<longleftrightarrow>
     mutex_is_open key s \<and> nat key < length (open_mutexes s) \<and> (mutex_is_open (mem_key s) s \<longrightarrow> key \<noteq> mem_key s) \<and>
     queue_wf (m_queue (the_mutex key s)) ns s"

lemma the_mutex_set_locked:
  "nat key < length (open_mutexes s) \<Longrightarrow> the_mutex key (set_locked key l s) = (the_mutex key s)\<lparr>m_locked := l\<rparr>"
  by (simp add: the_mutex_def set_locked_def)

lemma superlock_more [simp]:
  "the_mutex k (s\<lparr>superlock := l\<rparr>) = the_mutex k s" "free_pages (s\<lparr>superlock := l\<rparr>) = free_pages s"
  by (simp_all add: the_mutex_def free_pages_def)

lemma set_locked_twice [simp]: "set_locked key l (set_locked key l' s) = set_locked key l s"
  by (cases "nat key < length (open_mutexes s)")
    (simp_all add: set_locked_def the_mutex_def list_update_beyond)

lemma set_locked_more [simp]:
  "h_proc (set_locked key l s) = h_proc s" "h_snode (set_locked key l s) = h_snode s"
  "h_queue (set_locked key l s) = h_queue s" "h_qnode (set_locked key l s) = h_qnode s"
  "cur_node (set_locked key l s) = cur_node s" "superlock (set_locked key l s) = superlock s"
  "free_pages (set_locked key l s) = free_pages s" "in_use (set_locked key l s) = in_use s"
  "m_queue (the_mutex k (set_locked key l s)) = m_queue (the_mutex k s)"
  "length (open_mutexes (set_locked key l s)) = length (open_mutexes s)"
  by (simp_all add: set_locked_def free_pages_def in_use_def the_mutex_def)
    (cases "nat key < length (open_mutexes s)", auto simp: nth_list_update list_update_beyond)

lemma the_mutex_other:
  "mutex_is_open key s \<Longrightarrow> mutex_is_open k s \<Longrightarrow> k \<noteq> key \<Longrightarrow> the_mutex k (set_locked key l s) = the_mutex k s"
  by (auto simp: the_mutex_def set_locked_def mutex_is_open_def nth_list_update)

lemma mutex_free_set_locked:
  assumes "mutex_is_open key s" "mutex_is_open k s \<longrightarrow> k \<noteq> key"
  shows "mutex_free k (set_locked key l s) = mutex_free k s"
  using assms the_mutex_other [of key s k l] by (auto simp: mutex_free_def)

lemma queue_at_cong: "h_queue t = h_queue s \<Longrightarrow> h_qnode t = h_qnode s \<Longrightarrow> queue_at q ns t = queue_at q ns s"
  by (simp add: queue_at_def split: option.split)

lemma queue_at_set_locked [simp]: "queue_at q ns (set_locked key l s) = queue_at q ns s"
  by (rule queue_at_cong) simp_all

lemma mutex_wf_set_locked: "mutex_wf key ns s \<Longrightarrow> mutex_wf key ns (set_locked key l s)"
  using mutex_free_set_locked [of key s "mem_key s" l]
  by (auto simp: mutex_wf_def queue_wf_def pages_inv_def)

text \<open>
  Changes that do not concern the mutexes: the superlock, the states of processes and the ring.
\<close>

definition machine :: "(ptr \<Rightarrow> process option) \<Rightarrow> (ptr \<Rightarrow> list_node option) \<Rightarrow> ptr \<Rightarrow> int \<Rightarrow> kstate \<Rightarrow> kstate" where
  "machine P R c l s = s\<lparr>h_proc := P, h_snode := R, cur_node := c, superlock := l\<rparr>"

lemma machine_frame [simp]:
  "h_proc (machine P R c l s) = P" "h_snode (machine P R c l s) = R" "cur_node (machine P R c l s) = c"
  "superlock (machine P R c l s) = l" "open_mutexes (machine P R c l s) = open_mutexes s"
  "h_queue (machine P R c l s) = h_queue s" "h_qnode (machine P R c l s) = h_qnode s"
  "memory_mutex_key (machine P R c l s) = memory_mutex_key s"
  "free_pages (machine P R c l s) = free_pages s" "in_use (machine P R c l s) = in_use s"
  "the_mutex k (machine P R c l s) = the_mutex k s" "mutex_is_open k (machine P R c l s) = mutex_is_open k s"
  "queue_at q ns (machine P R c l s) = queue_at q ns s"
  by (simp_all add: machine_def free_pages_def in_use_def the_mutex_def mutex_is_open_def cong: queue_at_cong)

lemma mutex_wf_machine:
  "mutex_wf key ns s \<Longrightarrow> c \<noteq> NULL \<Longrightarrow> R c \<noteq> None \<Longrightarrow> mutex_wf key ns (machine P R c l s)"
  by (auto simp: mutex_wf_def queue_wf_def pages_inv_def mutex_free_def mutex_empty_def)
    (simp_all add: machine_def)

lemma machine_eq:
  "s\<lparr>superlock := l\<rparr> = machine (h_proc s) (h_snode s) (cur_node s) l s"
  "put_proc p x s = machine ((h_proc s)(p \<mapsto> x)) (h_snode s) (cur_node s) (superlock s) s"
  "put_snode q y s = machine (h_proc s) ((h_snode s)(q \<mapsto> y)) (cur_node s) (superlock s) s"
  by (simp_all add: machine_def put_proc_def put_snode_def)

lemma machine_machine [simp]:
  "machine P R c l (machine P' R' c' l' s) = machine P R c l s"
  "unset_superlock (machine P R c l s) = machine P R c UNLOCKED s"
  by (simp_all add: machine_def unset_superlock_def)

text \<open>The current process, its node and the next node.\<close>

definition running :: "ptr \<Rightarrow> process \<Rightarrow> kstate \<Rightarrow> bool" where
  "running p x s \<longleftrightarrow>
     cur_node s \<noteq> NULL \<and> p \<noteq> NULL \<and> h_proc s p = Some x \<and>
     (case h_snode s (cur_node s) of None \<Rightarrow> False
      | Some c \<Rightarrow> sn_p c = p \<and> sn_next c \<noteq> NULL \<and> h_snode s (sn_next c) \<noteq> None)"

text \<open>The ring after some yields: the same nodes, processes and links, whatever the quanta.\<close>

definition same_ring :: "(ptr \<Rightarrow> list_node option) \<Rightarrow> (ptr \<Rightarrow> list_node option) \<Rightarrow> bool" where
  "same_ring R R' \<longleftrightarrow> (\<forall>q. map_option (\<lambda>c. (sn_p c, sn_next c)) (R' q) = map_option (\<lambda>c. (sn_p c, sn_next c)) (R q))"

lemma same_ring_refl [simp]: "same_ring R R"
  by (simp add: same_ring_def)

lemma same_ring_defined: "same_ring R R' \<Longrightarrow> R q \<noteq> None \<Longrightarrow> R' q \<noteq> None"
  unfolding same_ring_def by (drule spec [of _ q]) auto

lemma yield_running:
  assumes "running p x s"
  obtains R where "yield_process s = Yld (machine (h_proc s) R (cur_node s) (superlock s) s) (\<lambda>t. Ret () t)"
    "same_ring (h_snode s) R"
proof -
  obtain c d where c: "cur_node s \<noteq> NULL" "h_snode s (cur_node s) = Some c" "sn_next c \<noteq> NULL"
    "h_snode s (sn_next c) = Some d" using assms by (auto simp: running_def split: option.splits)
  let ?R1 = "(h_snode s)(sn_next c \<mapsto> d\<lparr>quantum := quantum d + 1\<rparr>)"
  obtain c' where c': "?R1 (cur_node s) = Some c'" "sn_p c' = sn_p c" "sn_next c' = sn_next c"
    using c by (cases "cur_node s = sn_next c") auto
  let ?R = "?R1(cur_node s \<mapsto> c'\<lparr>quantum := 0\<rparr>)"
  have "yield_process s = Yld (machine (h_proc s) ?R (cur_node s) (superlock s) s) (\<lambda>t. Ret () t)"
    using c c' by (simp add: yield_process_def put_snode_def machine_def Let_def)
  moreover have "same_ring (h_snode s) ?R" using c c' by (auto simp: same_ring_def)
  ultimately show thesis using that by blast
qed

lemma mutex_lock_wait:
  assumes wf: "mutex_wf key ns s" and locked: "m_locked (the_mutex key s) = LOCKED"
    and room: "free_pages s \<noteq> {}" and run: "running p x s"
  obtains t where "mutex_lock (Suc (Suc n)) key s = Yld t (\<lambda>t'. Ret 1 t')"
    "mutex_wf key (ns @ [(next_page s, p)]) t" "m_locked (the_mutex key t) = LOCKED" "superlock t = UNLOCKED"
    "h_proc t = (h_proc s)(p \<mapsto> if p_st x = DELETE then x else x\<lparr>p_st := BLOCKED\<rparr>)"
    "same_ring (h_snode s) (h_snode t)" "cur_node t = cur_node s" "length (open_mutexes t) = length (open_mutexes s)"
proof -
  let ?q = "m_queue (the_mutex key s)" and ?s1 = "set_locked key LOCKED (s\<lparr>superlock := LOCKED\<rparr>)"
  let ?x = "if p_st x = DELETE then x else x\<lparr>p_st := BLOCKED\<rparr>"
  have c: "cur_node s \<noteq> NULL" "h_snode s (cur_node s) \<noteq> None" using run by (auto simp: running_def split: option.splits)
  have wf1: "mutex_wf key ns ?s1"
    using mutex_wf_set_locked [OF mutex_wf_machine [OF wf c(1), of "h_snode s" "h_proc s" LOCKED]] c
    by (simp add: machine_eq)
  have s1: "next_page ?s1 = next_page s" "m_queue (the_mutex key ?s1) = ?q" "free_pages ?s1 = free_pages s"
    by (simp_all add: next_page_def)
  then obtain Q N where e: "enqueue (Suc n) ?q p ?s1 = Ret () (with_queue ?q Q N (paged_out ?s1))"
    and wf2: "queue_wf ?q (ns @ [(next_page s, p)]) (with_queue ?q Q N (paged_out ?s1))"
    using enqueue_queue [of ?q ns ?s1 n p] wf1 room unfolding mutex_wf_def by metis
  let ?s2 = "with_queue ?q Q N (paged_out ?s1)"
  have wf3: "mutex_wf key (ns @ [(next_page s, p)]) ?s2" using wf1 wf2 by (simp add: mutex_wf_def)
  let ?s3 = "machine ((h_proc s)(p \<mapsto> ?x)) (h_snode s) (cur_node s) (superlock ?s2) ?s2"
  have b: "block_process p ?s2 = Ret () ?s3"
  proof -
    have "h_proc ?s2 p = Some x" "p \<noteq> NULL" using run by (simp_all add: running_def)
    then have "block_process p ?s2 = Ret () (if p_st x \<noteq> DELETE then put_proc p (x\<lparr>p_st := BLOCKED\<rparr>) ?s2 else ?s2)"
      by (simp add: block_process_def)
    moreover have "machine ((h_proc s)(p \<mapsto> x)) (h_snode s) (cur_node s) (superlock ?s2) ?s2 = ?s2"
      using run by (simp add: machine_def running_def fun_upd_idem with_queue_def)
    ultimately show ?thesis by (simp add: machine_eq)
  qed
  let ?s4 = "machine ((h_proc s)(p \<mapsto> ?x)) (h_snode s) (cur_node s) UNLOCKED ?s2"
  have "running p ?x ?s4" using run by (auto simp: running_def split: option.splits)
  from yield_running [OF this] obtain R where y:
    "yield_process ?s4 = Yld (machine ((h_proc s)(p \<mapsto> ?x)) R (cur_node s) UNLOCKED ?s2) (\<lambda>t. Ret () t)"
    "same_ring (h_snode s) R"
    unfolding machine_machine machine_frame .
  let ?t = "machine ((h_proc s)(p \<mapsto> ?x)) R (cur_node s) UNLOCKED ?s2"
  obtain c where cc: "h_snode s (cur_node s) = Some c" "sn_p c = p" using run by (auto simp: running_def split: option.splits)
  have lock: "mutex_lock (Suc (Suc n)) key s = Yld ?t (\<lambda>t. Ret 1 t)"
  proof -
    have "get_current_process (set_superlock s) = Ret p (s\<lparr>superlock := LOCKED\<rparr>)"
      using cc c by (simp add: get_current_process_def set_superlock_def)
    moreover have "mutex_is_open key s" using wf by (simp add: mutex_wf_def)
    ultimately have "mutex_lock (Suc (Suc n)) key s =
        bnd (enqueue (Suc n) ?q p ?s1) (\<lambda>_ s. bnd (block_process p s) (\<lambda>_ s.
          bnd (yield_process (unset_superlock s)) (\<lambda>_ s. Ret 1 s)))"
      using locked by (simp add: mutex_lock_Suc [of "Suc n"] mutex_lock_with_def Let_def)
    then show ?thesis unfolding e bnd.simps b machine_machine y(1) .
  qed
  have "mutex_wf key (ns @ [(next_page s, p)]) ?t"
    using mutex_wf_machine [OF wf3 c(1)] same_ring_defined [OF y(2) c(2)] by blast
  moreover have "m_locked (the_mutex key ?s1) = LOCKED"
    using wf the_mutex_set_locked [of key "s\<lparr>superlock := LOCKED\<rparr>" LOCKED] by (simp add: mutex_wf_def)
  ultimately show thesis using that [OF lock] y(2) by simp
qed

section \<open>Unlocking\<close>

definition dead :: "kstate \<Rightarrow> ptr \<Rightarrow> bool" where
  "dead s p \<longleftrightarrow> (case h_proc s p of None \<Rightarrow> False | Some x \<Rightarrow> p_st x = DELETE)"

definition live_waiters :: "kstate \<Rightarrow> (ptr \<times> ptr) list \<Rightarrow> (ptr \<times> ptr) list" where
  "live_waiters s ns = dropWhile (\<lambda>n. dead s (snd n)) ns"

definition known :: "kstate \<Rightarrow> ptr \<Rightarrow> bool" where
  "known s p \<longleftrightarrow> p \<noteq> NULL \<and> h_proc s p \<noteq> None"

text \<open>Nothing but the allocator, the queues and the superlock has changed.\<close>

definition quiet :: "kstate \<Rightarrow> kstate \<Rightarrow> bool" where
  "quiet s t \<longleftrightarrow> h_proc t = h_proc s \<and> h_snode t = h_snode s \<and> cur_node t = cur_node s \<and>
     open_mutexes t = open_mutexes s \<and> memory_mutex_key t = memory_mutex_key s"

lemma quiet_trans: "quiet s t \<Longrightarrow> quiet t u \<Longrightarrow> quiet s u"
  by (simp add: quiet_def)

lemma quiet_facts:
  "quiet s t \<Longrightarrow> the_mutex k t = the_mutex k s \<and> mutex_is_open k t = mutex_is_open k s \<and>
     dead t p = dead s p \<and> known t p = known s p \<and> live_waiters t ns = live_waiters s ns"
  by (simp add: quiet_def the_mutex_def mutex_is_open_def dead_def [abs_def] known_def live_waiters_def)

lemma dequeue_waiter:
  assumes "mutex_wf key ((f, p) # ns) s"
  obtains t where "dequeue (Suc n) (m_queue (the_mutex key s)) s = Ret p t" "mutex_wf key ns t" "quiet s t"
proof -
  let ?q = "m_queue (the_mutex key s)"
  obtain Q where "dequeue (Suc n) ?q s = Ret p (paged_in f (with_queue ?q Q (h_qnode s) s))"
    "queue_wf ?q ns (paged_in f (with_queue ?q Q (h_qnode s) s))"
    using assms by (auto simp: mutex_wf_def elim!: dequeue_queue)
  then show thesis using that assms by (simp add: mutex_wf_def quiet_def)
qed

text \<open>The first removal together with the loop that skips killed processes.\<close>

lemma next_live_waiter:
  assumes "mutex_wf key ns s" "\<forall>p \<in> snd ` set ns. known s p" "length ns < n"
  shows "\<exists>t. bnd (dequeue (Suc m) (m_queue (the_mutex key s)) s)
        (skip_deleted_with (dequeue (Suc m)) n (m_queue (the_mutex key s))) =
      Ret (if live_waiters s ns = [] then NULL else snd (hd (live_waiters s ns))) t \<and>
    mutex_wf key (tl (live_waiters s ns)) t \<and> quiet s t"
  using assms
proof (induction ns arbitrary: s n)
  case Nil
  then obtain k where "n = Suc k" by (metis less_imp_Suc_add)
  moreover have "queue_at (m_queue (the_mutex key s)) [] s" using Nil by (simp add: mutex_wf_def queue_wf_def)
  ultimately show ?case
    using Nil by (simp add: dequeue_empty is_delete_process_def live_waiters_def quiet_def)
next
  case (Cons fp ns)
  obtain f p where fp: "fp = (f, p)" by fastforce
  obtain k where k: "n = Suc k" using Cons.prems(3) by (metis less_imp_Suc_add)
  let ?q = "m_queue (the_mutex key s)"
  obtain t where t: "dequeue (Suc m) ?q s = Ret p t" "mutex_wf key ns t" "quiet s t"
    using Cons.prems(1) fp dequeue_waiter by blast
  note q = quiet_facts [OF t(3)]
  obtain x where x: "p \<noteq> NULL" "h_proc s p = Some x" using Cons.prems(2) fp by (auto simp: known_def)
  have del: "is_delete_process p t = Ret (dead s p) t"
    using x t(3) by (simp add: is_delete_process_def dead_def quiet_def)
  show ?case
  proof (cases "dead s p")
    case False
    then show ?thesis using t del k fp x by (simp add: live_waiters_def)
  next
    case True
    obtain u where "bnd (dequeue (Suc m) ?q t) (skip_deleted_with (dequeue (Suc m)) k ?q) =
        Ret (if live_waiters s ns = [] then NULL else snd (hd (live_waiters s ns))) u"
      "mutex_wf key (tl (live_waiters s ns)) u" "quiet t u"
      using Cons.IH [of t k] t(2) q Cons.prems k by auto
    then show ?thesis
      using t del k fp True quiet_trans [OF t(3)] by (auto simp: live_waiters_def)
  qed
qed

lemma mutex_unlock_open:
  assumes "mutex_is_open key s"
  shows "mutex_unlock (Suc n) key s =
    bnd (bnd (dequeue n (m_queue (the_mutex key s)) (set_superlock s))
          (skip_deleted_with (dequeue n) (Suc n) (m_queue (the_mutex key s))))
      (\<lambda>p s. if p \<noteq> NULL
        then bnd (unblock_process p (set_locked key UNLOCKED s))
               (\<lambda>_ s. Ret 1 (unset_superlock (set_locked key LOCKED s)))
        else Ret 1 (unset_superlock (set_locked key UNLOCKED s)))"
proof -
  have "the_mutex key (set_superlock s) = the_mutex key s" by (simp add: set_superlock_def)
  then show ?thesis
    using assms by (simp add: mutex_unlock_Suc mutex_unlock_with_def bnd_assoc Let_def del: skip_deleted_with.simps)
qed

text \<open>What \<open>mutex_unlock\<close> does to the states of the processes.\<close>

definition woken :: "kstate \<Rightarrow> (ptr \<times> ptr) list \<Rightarrow> (ptr \<Rightarrow> process option)" where
  "woken s ns =
     (case live_waiters s ns of [] \<Rightarrow> h_proc s
      | w # _ \<Rightarrow> (h_proc s)(snd w := map_option (\<lambda>x. x\<lparr>p_st := READY\<rparr>) (h_proc s (snd w))))"

lemma mutex_unlock_ok:
  assumes wf: "mutex_wf key ns s" and kn: "\<forall>p \<in> snd ` set ns. known s p" and n: "length ns < n"
    and c: "cur_node s \<noteq> NULL" "h_snode s (cur_node s) \<noteq> None"
  obtains t where "mutex_unlock (Suc n) key s = Ret 1 t" "mutex_wf key (tl (live_waiters s ns)) t"
    "m_locked (the_mutex key t) = (if live_waiters s ns = [] then UNLOCKED else LOCKED)"
    "superlock t = UNLOCKED" "h_proc t = woken s ns" "h_snode t = h_snode s" "cur_node t = cur_node s"
    "length (open_mutexes t) = length (open_mutexes s)"
proof -
  let ?q = "m_queue (the_mutex key s)" and ?s1 = "machine (h_proc s) (h_snode s) (cur_node s) LOCKED s"
  let ?w = "if live_waiters s ns = [] then NULL else snd (hd (live_waiters s ns))"
  obtain m where m: "n = Suc m" using n by (metis less_imp_Suc_add)
  have q1: "quiet s ?s1" by (simp add: quiet_def)
  have wf1: "mutex_wf key ns ?s1" using mutex_wf_machine [OF wf c(1), of "h_snode s"] c(2) by simp
  obtain u where u: "bnd (dequeue (Suc m) ?q ?s1) (skip_deleted_with (dequeue (Suc m)) (Suc n) ?q) = Ret ?w u"
    and wfu: "mutex_wf key (tl (live_waiters s ns)) u" and qu: "quiet ?s1 u"
    using next_live_waiter [OF wf1, of "Suc n" m] kn n quiet_facts [OF q1] by auto
  note su = quiet_trans [OF q1 qu]
  have len: "nat key < length (open_mutexes u)" using wfu by (simp add: mutex_wf_def)
  have unlock: "mutex_unlock (Suc n) key s =
      (if ?w \<noteq> NULL
       then bnd (unblock_process ?w (set_locked key UNLOCKED u))
              (\<lambda>_ s. Ret 1 (unset_superlock (set_locked key LOCKED s)))
       else Ret 1 (unset_superlock (set_locked key UNLOCKED u)))"
  proof -
    have "set_superlock s = ?s1" by (simp add: set_superlock_def machine_eq)
    then show ?thesis
      using mutex_unlock_open [of key s n] wf u m by (simp add: mutex_wf_def del: skip_deleted_with.simps)
  qed
  show thesis
  proof (cases "live_waiters s ns")
    case Nil
    let ?t = "machine (h_proc s) (h_snode s) (cur_node s) UNLOCKED (set_locked key UNLOCKED u)"
    have "mutex_unlock (Suc n) key s = Ret 1 ?t"
      using unlock Nil su by (simp add: unset_superlock_def machine_eq quiet_def)
    moreover have "mutex_wf key (tl (live_waiters s ns)) ?t"
      using mutex_wf_machine [OF mutex_wf_set_locked [OF wfu] c(1), of "h_snode s"] c(2) by simp
    ultimately show ?thesis
      using that [of ?t] Nil su the_mutex_set_locked [OF len] by (simp add: woken_def quiet_def)
  next
    case (Cons w ws)
    have "w \<in> set ns" using Cons set_dropWhileD [of w "\<lambda>n. dead s (snd n)" ns] by (simp add: live_waiters_def)
    then obtain x where x: "snd w \<noteq> NULL" "h_proc s (snd w) = Some x" using kn by (auto simp: known_def)
    have "\<not> dead s (snd w)" using Cons hd_dropWhile [of "\<lambda>n. dead s (snd n)" ns] by (auto simp: live_waiters_def)
    then have alive: "p_st x \<noteq> DELETE" using x by (simp add: dead_def)
    let ?t = "machine ((h_proc s)(snd w \<mapsto> x\<lparr>p_st := READY\<rparr>)) (h_snode s) (cur_node s) UNLOCKED (set_locked key LOCKED u)"
    have "h_proc s = h_proc u" "h_snode s = h_snode u" "cur_node s = cur_node u" using su by (simp_all add: quiet_def)
    then have "mutex_unlock (Suc n) key s = Ret 1 ?t"
      using unlock Cons x alive len
      by (simp add: unset_superlock_def unblock_process_def put_proc_def machine_def set_locked_def the_mutex_def)
    moreover have "mutex_wf key (tl (live_waiters s ns)) ?t"
      using mutex_wf_machine [OF mutex_wf_set_locked [OF wfu] c(1), of "h_snode s"] c(2) by simp
    ultimately show ?thesis
      using that [of ?t] Cons su x the_mutex_set_locked [OF len] by (simp add: woken_def quiet_def)
  qed
qed

section \<open>Processes that share a mutex\<close>

text \<open>
  Configurations: the state of the kernel, the processes inside the critical section, and the
  processes that are suspended in \<open>mutex_lock\<close>. A step is a scheduling decision, a call of
  \<open>mutex_lock\<close> by the running process (while pages are left) that returns at once or suspends it,
  the return of a suspended call when its process runs again, a call of \<open>mutex_unlock\<close>, or the
  killing of a process that is blocked in \<open>mutex_lock\<close>.

  The fuel 257 is always enough: a queue has at most 255 nodes.
\<close>

type_synonym conf = "kstate \<times> ptr set \<times> ptr set"

definition has_status :: "kstate \<Rightarrow> ptr \<Rightarrow> status \<Rightarrow> bool" where
  "has_status s p st \<longleftrightarrow> (case h_proc s p of None \<Rightarrow> False | Some x \<Rightarrow> p_st x = st)"

abbreviation blocked :: "kstate \<Rightarrow> ptr \<Rightarrow> bool" where
  "blocked s p \<equiv> has_status s p BLOCKED"

definition runnable :: "process \<Rightarrow> bool" where
  "runnable x \<longleftrightarrow> p_st x = READY \<or> p_st x = RUNNING"

inductive mstep :: "int \<Rightarrow> conf \<Rightarrow> conf \<Rightarrow> bool" for key where
  switch: "c \<noteq> NULL \<Longrightarrow> h_snode s c \<noteq> None \<Longrightarrow> mstep key (s, I, W) (s\<lparr>cur_node := c\<rparr>, I, W)"
| enter: "running p x s \<Longrightarrow> runnable x \<Longrightarrow> p \<notin> I \<union> W \<Longrightarrow> free_pages s \<noteq> {} \<Longrightarrow>
    mutex_lock 257 key s = Ret 1 t \<Longrightarrow> mstep key (s, I, W) (t, insert p I, W)"
| suspend: "running p x s \<Longrightarrow> runnable x \<Longrightarrow> p \<notin> I \<union> W \<Longrightarrow> free_pages s \<noteq> {} \<Longrightarrow>
    mutex_lock 257 key s = Yld t k \<Longrightarrow> mstep key (s, I, W) (t, I, insert p W)"
| resume: "running p x s \<Longrightarrow> runnable x \<Longrightarrow> p \<in> W \<Longrightarrow> mstep key (s, I, W) (s, insert p I, W - {p})"
| leave: "running p x s \<Longrightarrow> p \<in> I \<Longrightarrow> mutex_unlock 257 key s = Ret 1 t \<Longrightarrow>
    mstep key (s, I, W) (t, I - {p}, W)"
| kill: "p \<in> W \<Longrightarrow> blocked s p \<Longrightarrow> kill_process p s = Ret 1 t \<Longrightarrow> \<not> blocked t p \<Longrightarrow>
    mstep key (s, I, W) (t, I, W - {p})"

inductive_cases mstep_cases: "mstep key (s, I, W) (t, I', W')"

text \<open>The waiting processes that are alive, in the order of the queue.\<close>

definition alive_in :: "kstate \<Rightarrow> (ptr \<times> ptr) list \<Rightarrow> ptr list" where
  "alive_in s ns = filter (\<lambda>p. \<not> dead s p) (map snd ns)"

definition owners :: "conf \<Rightarrow> ptr set" where
  "owners c = (case c of (s, I, W) \<Rightarrow> I \<union> {p \<in> W. \<not> blocked s p})"

definition lock_ok :: "int \<Rightarrow> ptr set \<Rightarrow> ptr list \<Rightarrow> bool" where
  "lock_ok l os ws \<longleftrightarrow> (if l = UNLOCKED then os = {} \<and> ws = [] else l = LOCKED \<and> (\<exists>p. os = {p}))"

definition mutex_conf :: "int \<Rightarrow> (ptr \<times> ptr) list \<Rightarrow> conf \<Rightarrow> bool" where
  "mutex_conf key ns c \<longleftrightarrow>
     (case c of (s, I, W) \<Rightarrow>
        mutex_wf key ns s \<and> cur_node s \<noteq> NULL \<and> h_snode s (cur_node s) \<noteq> None \<and>
        (\<forall>p \<in> I \<union> W \<union> snd ` set ns. known s p) \<and> (\<forall>p \<in> I \<union> W. \<not> dead s p) \<and> I \<inter> W = {} \<and>
        distinct (alive_in s ns) \<and> set (alive_in s ns) = {p \<in> W. blocked s p} \<and>
        lock_ok (m_locked (the_mutex key s)) (owners c) (alive_in s ns))"

lemma mutex_confD:
  assumes "mutex_conf key ns (s, I, W)"
  shows "mutex_wf key ns s" "cur_node s \<noteq> NULL" "h_snode s (cur_node s) \<noteq> None"
    "\<And>p. p \<in> I \<union> W \<union> snd ` set ns \<Longrightarrow> known s p" "\<And>p. p \<in> I \<union> W \<Longrightarrow> \<not> dead s p" "I \<inter> W = {}"
    "distinct (alive_in s ns)" "set (alive_in s ns) = {p \<in> W. blocked s p}"
    "lock_ok (m_locked (the_mutex key s)) (owners (s, I, W)) (alive_in s ns)"
  using assms by (auto simp: mutex_conf_def)

lemma mutex_confI:
  assumes "mutex_wf key ns s" "cur_node s \<noteq> NULL" "h_snode s (cur_node s) \<noteq> None"
    "\<And>p. p \<in> I \<union> W \<union> snd ` set ns \<Longrightarrow> known s p" "\<And>p. p \<in> I \<union> W \<Longrightarrow> \<not> dead s p" "I \<inter> W = {}"
    "distinct (alive_in s ns)" "set (alive_in s ns) = {p \<in> W. blocked s p}"
    "lock_ok (m_locked (the_mutex key s)) (owners (s, I, W)) (alive_in s ns)"
  shows "mutex_conf key ns (s, I, W)"
  using assms unfolding mutex_conf_def prod.case by blast

lemma alive_in_live: "alive_in s (live_waiters s ns) = alive_in s ns"
  unfolding alive_in_def live_waiters_def by (induction ns) auto

lemma alive_in_Cons: "live_waiters s ns = w # ws \<Longrightarrow> alive_in s ns = snd w # alive_in s ws"
proof -
  assume live: "live_waiters s ns = w # ws"
  then have "\<not> dead s (snd w)" using hd_dropWhile [of "\<lambda>n. dead s (snd n)" ns] by (auto simp: live_waiters_def)
  then show ?thesis using alive_in_live [of s ns] live by (simp add: alive_in_def)
qed

lemma live_waiters_set: "set (live_waiters s ns) \<subseteq> set ns"
  unfolding live_waiters_def using set_dropWhileD by fast

lemma mutex_lock_now:
  assumes wf: "mutex_wf key ns s" and "m_locked (the_mutex key s) = UNLOCKED" and run: "running p x s"
  shows "mutex_lock (Suc n) key s = Ret 1 (set_locked key LOCKED (s\<lparr>superlock := UNLOCKED\<rparr>))"
proof -
  obtain c where "h_snode s (cur_node s) = Some c" "cur_node s \<noteq> NULL" using run by (auto simp: running_def split: option.splits)
  then have "get_current_process (set_superlock s) = Ret (sn_p c) (s\<lparr>superlock := LOCKED\<rparr>)"
    by (simp add: get_current_process_def set_superlock_def)
  moreover have "unset_superlock (set_locked key LOCKED (s\<lparr>superlock := LOCKED\<rparr>)) = set_locked key LOCKED (s\<lparr>superlock := UNLOCKED\<rparr>)"
    by (simp add: unset_superlock_def set_locked_def the_mutex_def)
  moreover have "mutex_is_open key s" using wf by (simp add: mutex_wf_def)
  ultimately show ?thesis using assms(2) by (simp add: mutex_lock_Suc mutex_lock_with_def Let_def)
qed

lemma mutex_wf_cur:
  assumes "mutex_wf key ns s" "c \<noteq> NULL" "h_snode s c \<noteq> None"
  shows "mutex_wf key ns (s\<lparr>cur_node := c\<rparr>)"
proof -
  have "s\<lparr>cur_node := c\<rparr> = machine (h_proc s) (h_snode s) c (superlock s) s" by (simp add: machine_def)
  then show ?thesis using mutex_wf_machine [OF assms(1,2), of "h_snode s"] assms(3) by metis
qed

lemma status_cong:
  assumes "h_proc t = h_proc s"
  shows "dead t p = dead s p" "known t p = known s p" "has_status t p st = has_status s p st"
    "alive_in t ns = alive_in s ns" "owners (t, I, W) = owners (s, I, W)"
  using assms by (simp_all add: dead_def [abs_def] known_def has_status_def alive_in_def owners_def)

lemma mutex_conf_same_proc:
  assumes "mutex_conf key ns (s, I, W)" "h_proc t = h_proc s" "mutex_wf key ns t" "cur_node t \<noteq> NULL"
    "h_snode t (cur_node t) \<noteq> None" "m_locked (the_mutex key t) = m_locked (the_mutex key s)"
  shows "mutex_conf key ns (t, I, W)"
  by (rule mutex_confI) (use assms mutex_confD [OF assms(1)] in \<open>simp_all add: status_cong [OF assms(2)]\<close>)

lemma mutex_conf_switch:
  assumes "mutex_conf key ns (s, I, W)" "c \<noteq> NULL" "h_snode s c \<noteq> None"
  shows "mutex_conf key ns (s\<lparr>cur_node := c\<rparr>, I, W)"
proof (rule mutex_conf_same_proc [OF assms(1)])
  show "mutex_wf key ns (s\<lparr>cur_node := c\<rparr>)" using mutex_wf_cur [OF mutex_confD(1) [OF assms(1)] assms(2,3)] .
qed (use assms in \<open>simp_all add: the_mutex_def\<close>)

lemma res_unique: "m = Yld s k \<Longrightarrow> m = Yld t l \<Longrightarrow> s = t" "m = Ret x s \<Longrightarrow> m = Ret y t \<Longrightarrow> s = t"
  by auto

lemma fuel_257: "(257 :: nat) = Suc (Suc 255)" "(257 :: nat) = Suc 256"
  by simp_all

lemma lock_ok_cases:
  "lock_ok l os ws \<Longrightarrow> (l = UNLOCKED \<Longrightarrow> os = {} \<Longrightarrow> ws = [] \<Longrightarrow> P) \<Longrightarrow>
   (\<And>p. l = LOCKED \<Longrightarrow> os = {p} \<Longrightarrow> P) \<Longrightarrow> P"
  by (auto simp: lock_ok_def split: if_splits)

lemma mutex_conf_enter:
  assumes conf: "mutex_conf key ns (s, I, W)" and run: "running p x s" "runnable x" "p \<notin> I \<union> W"
    and room: "free_pages s \<noteq> {}" and lock: "mutex_lock 257 key s = Ret 1 t"
  shows "mutex_conf key ns (t, insert p I, W)"
proof -
  note c = mutex_confD [OF conf]
  from c(9) have free: "m_locked (the_mutex key s) = UNLOCKED \<and> owners (s, I, W) = {} \<and> alive_in s ns = []"
  proof (rule lock_ok_cases)
    fix o' assume "m_locked (the_mutex key s) = LOCKED"
    from mutex_lock_wait [OF c(1) this room run(1), of 255] lock show ?thesis by auto
  qed simp
  have t: "t = set_locked key LOCKED (s\<lparr>superlock := UNLOCKED\<rparr>)"
    using mutex_lock_now [OF c(1) _ run(1), of 256] free lock by simp
  have "mutex_wf key ns (s\<lparr>superlock := UNLOCKED\<rparr>)"
    using mutex_wf_machine [OF c(1,2), of "h_snode s" "h_proc s" UNLOCKED] c(3) by (simp add: machine_eq)
  then have wf: "mutex_wf key ns t" unfolding t by (rule mutex_wf_set_locked)
  have l: "m_locked (the_mutex key t) = LOCKED"
    using c(1) the_mutex_set_locked [of key "s\<lparr>superlock := UNLOCKED\<rparr>"] by (simp add: t mutex_wf_def)
  have h: "h_proc t = h_proc s" "cur_node t = cur_node s" "h_snode t = h_snode s" by (simp_all add: t)
  have p: "known s p" "\<not> dead s p" using run by (auto simp: running_def runnable_def known_def dead_def)
  have "owners (s, insert p I, W) = {p}" using free by (auto simp: owners_def)
  then show ?thesis
    by (intro mutex_confI) (use wf l h p c free run(3) in \<open>auto simp: status_cong [OF h(1)] lock_ok_def\<close>)
qed

lemma mutex_conf_suspend:
  assumes conf: "mutex_conf key ns (s, I, W)" and run: "running p x s" "runnable x" "p \<notin> I \<union> W"
    and room: "free_pages s \<noteq> {}" and lock: "mutex_lock 257 key s = Yld t k"
  shows "mutex_conf key (ns @ [(next_page s, p)]) (t, I, insert p W)"
proof -
  note c = mutex_confD [OF conf]
  from c(9) have locked: "m_locked (the_mutex key s) = LOCKED \<and> (\<exists>o'. owners (s, I, W) = {o'})"
  proof (rule lock_ok_cases)
    assume "m_locked (the_mutex key s) = UNLOCKED"
    from mutex_lock_now [OF c(1) this run(1), of 256] lock show ?thesis by simp
  qed blast
  have alive: "p_st x \<noteq> DELETE" "p_st x \<noteq> BLOCKED" using run(2) by (auto simp: runnable_def)
  obtain t' where t': "mutex_lock (Suc (Suc 255)) key s = Yld t' (\<lambda>t. Ret 1 t)" "mutex_wf key (ns @ [(next_page s, p)]) t'"
    "m_locked (the_mutex key t') = LOCKED" "h_proc t' = (h_proc s)(p \<mapsto> if p_st x = DELETE then x else x\<lparr>p_st := BLOCKED\<rparr>)"
    "same_ring (h_snode s) (h_snode t')" "cur_node t' = cur_node s"
    by (rule mutex_lock_wait [OF c(1) locked [THEN conjunct1] room run(1), of 255])
  have t: "t' = t" by (rule res_unique(1) [OF t'(1) lock [unfolded fuel_257(1)]])
  have p: "p \<noteq> NULL" "h_proc s p = Some x" using run(1) by (simp_all add: running_def)
  have d: "dead t r = dead s r" "known t r = known s r" "blocked t r = (r = p \<or> blocked s r)" for r
    using t'(4) t p alive by (auto simp: dead_def known_def has_status_def)
  have ps: "known s p" "\<not> dead s p" using p alive by (auto simp: known_def dead_def)
  have a: "alive_in t (ns @ [(next_page s, p)]) = alive_in s ns @ [p]" using d ps by (simp add: alive_in_def)
  have o: "owners (t, I, insert p W) = owners (s, I, W)" using d run(3) by (auto simp: owners_def)
  have r: "h_snode t (cur_node t) \<noteq> None" using same_ring_defined [OF t'(5) c(3)] t'(6) t by simp
  show ?thesis
  proof (rule mutex_confI)
    show "set (alive_in t (ns @ [(next_page s, p)])) = {r \<in> insert p W. blocked t r}" using a d c(8) by auto
    show "distinct (alive_in t (ns @ [(next_page s, p)]))" using a c(7,8) run(3) by auto
    show "lock_ok (m_locked (the_mutex key t)) (owners (t, I, insert p W)) (alive_in t (ns @ [(next_page s, p)]))"
      using locked t'(3) t o by (simp add: lock_ok_def)
    show "mutex_wf key (ns @ [(next_page s, p)]) t" using t'(2) t by metis
    show "cur_node t \<noteq> NULL" using c(2) t'(6) t by metis
    show "h_snode t (cur_node t) \<noteq> None" by (rule r)
    show "known t r" if "r \<in> I \<union> insert p W \<union> snd ` set (ns @ [(next_page s, p)])" for r
      using that c(4) [of r] ps(1) unfolding d(2) by auto
  qed (use d c(5,6) run(3) ps in auto)
qed

lemma mutex_conf_resume:
  assumes conf: "mutex_conf key ns (s, I, W)" and run: "running p x s" "runnable x" "p \<in> W"
  shows "mutex_conf key ns (s, insert p I, W - {p})"
proof -
  note c = mutex_confD [OF conf]
  have nb: "\<not> blocked s p" using run by (auto simp: running_def runnable_def has_status_def)
  then have "owners (s, insert p I, W - {p}) = owners (s, I, W)" using run(3) by (auto simp: owners_def)
  then show ?thesis by (intro mutex_confI) (use c run(3) nb in auto)
qed

lemma mutex_conf_kill:
  assumes conf: "mutex_conf key ns (s, I, W)" and p: "p \<in> W" "blocked s p" "kill_process p s = Ret 1 t" "\<not> blocked t p"
  shows "mutex_conf key ns (t, I, W - {p})"
proof -
  note c = mutex_confD [OF conf]
  obtain x where x: "p \<noteq> NULL" "h_proc s p = Some x" using c(4) p(1) by (auto simp: known_def)
  then have t: "t = machine ((h_proc s)(p \<mapsto> x\<lparr>p_st := DELETE\<rparr>)) (h_snode s) (cur_node s) (superlock s) s"
    using p by (auto simp: kill_process_def machine_eq split: if_splits)
  have d: "dead t r = (dead s r \<or> r = p)" "known t r = known s r" "blocked t r = (r \<noteq> p \<and> blocked s r)" for r
    using x by (auto simp: t dead_def known_def has_status_def)
  have a: "alive_in t ns = filter (\<lambda>r. r \<noteq> p) (alive_in s ns)" by (auto simp: alive_in_def d intro: filter_cong)
  have o: "owners (t, I, W - {p}) = owners (s, I, W)" using d p(1,2) by (auto simp: owners_def)
  have wf: "mutex_wf key ns t" using mutex_wf_machine [OF c(1,2), of "h_snode s"] c(3) by (simp add: t)
  have "the_mutex key t = the_mutex key s" "h_snode t (cur_node t) = h_snode s (cur_node s)" "cur_node t = cur_node s"
    by (simp_all add: t)
  moreover have "p \<notin> I" using c(6) p(1) by auto
  moreover have "lock_ok (m_locked (the_mutex key s)) (owners (t, I, W - {p})) (alive_in t ns)"
    using c(9) o a by (auto simp: lock_ok_def)
  ultimately show ?thesis by (intro mutex_confI) (use c wf a d in auto)
qed

lemma mutex_conf_leave:
  assumes conf: "mutex_conf key ns (s, I, W)" and p: "running p x s" "p \<in> I" "mutex_unlock 257 key s = Ret 1 t"
  shows "mutex_conf key (tl (live_waiters s ns)) (t, I - {p}, W)"
proof -
  note c = mutex_confD [OF conf]
  have kn: "\<forall>p \<in> snd ` set ns. known s p" using c(4) by blast
  have len: "length ns < 256" using c(1) queue_wf_length by (fastforce simp: mutex_wf_def)
  obtain t' where t': "mutex_unlock (Suc 256) key s = Ret 1 t'" "mutex_wf key (tl (live_waiters s ns)) t'"
    "m_locked (the_mutex key t') = (if live_waiters s ns = [] then UNLOCKED else LOCKED)"
    "h_proc t' = woken s ns" "h_snode t' = h_snode s" "cur_node t' = cur_node s"
    by (rule mutex_unlock_ok [OF c(1) kn len c(2,3)])
  have t: "t' = t" using t'(1) p(3) by simp
  have own: "I = {p}" "{r \<in> W. \<not> blocked s r} = {}"
  proof -
    have "owners (s, I, W) \<noteq> {}" using p(2) by (auto simp: owners_def)
    then obtain r where "owners (s, I, W) = {r}" using c(9) by (auto simp: lock_ok_def split: if_splits)
    then have o: "I \<union> {q \<in> W. \<not> blocked s q} = {r}" by (simp add: owners_def)
    have sub: "I \<subseteq> {r}" "{q \<in> W. \<not> blocked s q} \<subseteq> {r}" unfolding o [symmetric] by auto
    with p(2) show "I = {p}" by auto
    with sub c(6) show "{r \<in> W. \<not> blocked s r} = {}" by auto
  qed
  have sub: "set (tl (live_waiters s ns)) \<subseteq> set ns"
    using live_waiters_set [of s ns] by (cases "live_waiters s ns") auto
  show ?thesis
  proof (cases "live_waiters s ns")
    case Nil
    then have a: "alive_in s ns = []" using alive_in_live [of s ns] by (simp add: alive_in_def)
    have h: "h_proc t = h_proc s" using t' t Nil by (simp add: woken_def)
    have "W = {}" using c(8) a own(2) by auto
    then show ?thesis
      by (intro mutex_confI) (use c(2,3) t' t Nil own in \<open>auto simp: status_cong [OF h] owners_def alive_in_def lock_ok_def\<close>)
  next
    case (Cons w ws)
    have ain: "alive_in s ns = snd w # alive_in s ws" using alive_in_Cons [OF Cons] .
    have "w \<in> set ns" using live_waiters_set [of s ns] Cons by auto
    then obtain y where y: "snd w \<noteq> NULL" "h_proc s (snd w) = Some y" using kn by (auto simp: known_def)
    have bw: "snd w \<in> W" "blocked s (snd w)" using c(8) ain by auto
    have h: "h_proc t = (h_proc s)(snd w \<mapsto> y\<lparr>p_st := READY\<rparr>)" using t' t Cons y by (simp add: woken_def)
    have d: "dead t r = dead s r" "known t r = known s r" "blocked t r = (r \<noteq> snd w \<and> blocked s r)" for r
      using y bw(2) h by (auto simp: dead_def known_def has_status_def)
    have a: "alive_in t ws = alive_in s ws" by (simp add: alive_in_def d)
    have o: "owners (t, I - {p}, W) = {snd w}" using own d bw by (auto simp: owners_def)
    have w: "distinct (alive_in s ws)" "snd w \<notin> set (alive_in s ws)" using c(7) ain by auto
    then have "set (alive_in s ws) = {r \<in> W. r \<noteq> snd w \<and> blocked s r}" using c(8) ain by auto
    moreover have "known s r" if "r \<in> W \<or> r \<in> snd ` set ws" for r
      using that c(4) [of r] sub Cons by auto
    ultimately show ?thesis
      by (intro mutex_confI) (use c(2,3,5) t'(2,3,5,6) t Cons own a d w o in \<open>auto simp: lock_ok_def\<close>)
  qed
qed

lemma mutex_conf_step:
  assumes "mutex_conf key ns (s, I, W)" "mstep key (s, I, W) (t, I', W')"
  shows "\<exists>ms. mutex_conf key ms (t, I', W')"
  using assms(2)
proof (rule mstep_cases)
qed (simp; blast intro: mutex_conf_switch [OF assms(1)] mutex_conf_enter [OF assms(1)]
    mutex_conf_suspend [OF assms(1)] mutex_conf_resume [OF assms(1)] mutex_conf_leave [OF assms(1)]
    mutex_conf_kill [OF assms(1)])+

lemma mutex_conf_reachable:
  assumes "(mstep key)\<^sup>*\<^sup>* c d" "mutex_conf key ns c"
  shows "\<exists>ms. mutex_conf key ms d"
  using assms
proof (induction rule: rtranclp_induct)
  case (step d e)
  then obtain ms where "mutex_conf key ms d" by blast
  with step.hyps(2) show ?case by (cases d; cases e) (blast dest: mutex_conf_step)
qed blast

lemma mutex_wf_elems: "mutex_wf key ns t \<Longrightarrow> queue_elems (m_queue (the_mutex key t)) t = map snd ns"
  using queue_wf_nodes [of "m_queue (the_mutex key t)" ns t] by (simp add: mutex_wf_def queue_elems_def)

section \<open>Properties\<close>


lemma two_processes_mutex:
  "mutex_wf 1 [] two_processes" "m_locked (the_mutex 1 two_processes) = UNLOCKED"
  "running proc_A (zero_process\<lparr>p_pid := 2, p_st := RUNNING\<rparr>) two_processes"
proof -
  show "mutex_wf 1 [] two_processes"
    using two_processes_free two_processes_pages_inv(4)
    by (simp add: mutex_wf_def the_mutex_def two_processes_mutexes)
qed (simp_all add: the_mutex_def two_processes_mutexes running_def)




text \<open>
  A process that finds the mutex locked is queued behind those already waiting, blocked, and
  gives up the processor with the mutex still locked; when it runs again its call returns 1.
\<close>

theorem mutex_lock_queues:
  assumes "mutex_wf key ns s" "m_locked (the_mutex key s) = LOCKED" "free_pages s \<noteq> {}" "running p x s"
    and "p_st x \<noteq> DELETE" "2 \<le> n"
  shows "\<exists>t. mutex_lock n key s = Yld t (\<lambda>t'. Ret 1 t') \<and>
    queue_elems (m_queue (the_mutex key t)) t = map snd ns @ [p] \<and>
    m_locked (the_mutex key t) = LOCKED \<and> h_proc t = (h_proc s)(p \<mapsto> x\<lparr>p_st := BLOCKED\<rparr>)"
proof -
  obtain m where m: "n = Suc (Suc m)" using assms(6) by (metis add_2_eq_Suc le_Suc_ex)
  obtain t where t: "mutex_lock (Suc (Suc m)) key s = Yld t (\<lambda>t'. Ret 1 t')"
    "mutex_wf key (ns @ [(next_page s, p)]) t" "m_locked (the_mutex key t) = LOCKED"
    "h_proc t = (h_proc s)(p \<mapsto> if p_st x = DELETE then x else x\<lparr>p_st := BLOCKED\<rparr>)"
    by (rule mutex_lock_wait [OF assms(1-4)])
  have "queue_elems (m_queue (the_mutex key t)) t = map snd ns @ [p]"
    using mutex_wf_elems [OF t(2)] by simp
  with t(3,4) assms(5) show ?thesis unfolding m by (intro exI [of _ t] conjI t(1)) simp_all
qed

theorem mutex_lock_queues_witness:
  "\<exists>t. mutex_lock 2 1 (set_locked 1 LOCKED two_processes) = Yld t (\<lambda>t'. Ret 1 t') \<and>
     queue_elems (m_queue (the_mutex 1 t)) t = [proc_A]"
proof -
  let ?s = "set_locked 1 LOCKED two_processes"
  note wf = mutex_wf_set_locked [OF two_processes_mutex(1), of LOCKED]
  have l: "m_locked (the_mutex 1 ?s) = LOCKED" by (simp add: the_mutex_set_locked two_processes_mutexes)
  have f: "free_pages ?s \<noteq> {}" using two_processes_pages_inv(2) by simp
  have r: "running proc_A (zero_process\<lparr>p_pid := 2, p_st := RUNNING\<rparr>) ?s" by (simp add: running_def)
  have a: "p_st (zero_process\<lparr>p_pid := 2, p_st := RUNNING\<rparr>) \<noteq> DELETE" by simp
  from mutex_lock_queues [OF wf l f r a order_refl]
  obtain t where t: "mutex_lock 2 1 ?s = Yld t (\<lambda>t'. Ret 1 t')"
    "queue_elems (m_queue (the_mutex 1 t)) t = map snd ([] :: (ptr \<times> ptr) list) @ [proc_A]" by (elim exE conjE) (rule that)
  show ?thesis
  proof (intro exI conjI)
    show "queue_elems (m_queue (the_mutex 1 t)) t = [proc_A]" using t(2) by simp
  qed (rule t(1))
qed

text \<open>
  The superlock does not cover what \<open>mutex_lock\<close> needs it for: once \<open>queue_process\<close> has
  returned, the superlock is released (the page allocator's own mutex released it), although
  the process is already in the queue and not yet blocked.
\<close>

theorem superlock_lost_in_mutex_lock:
  assumes "queue_wf q ns s" "free_pages s \<noteq> {}" "mutex_is_open (mem_key s) s"
  shows "\<exists>t. enqueue (Suc n) q p (set_superlock s) = Ret () t \<and> superlock t = UNLOCKED"
proof -
  have inv: "pages_inv (s\<lparr>superlock := LOCKED\<rparr>)" using assms(1) by (simp add: queue_wf_def pages_inv_def)
  have "queue_at q ns (s\<lparr>superlock := LOCKED\<rparr>)" using assms(1) by (simp add: queue_wf_def cong: queue_at_cong)
  then have wf: "queue_wf q ns (set_superlock s)"
    using assms(1) inv by (simp add: queue_wf_def set_superlock_def in_use_def)
  have "free_pages (set_superlock s) \<noteq> {}" using assms(2) by (simp add: set_superlock_def)
  with wf obtain Q N where "enqueue (Suc n) q p (set_superlock s) = Ret () (with_queue q Q N (paged_out (set_superlock s)))"
    by (rule enqueue_queue)
  moreover have "superlock (paged_out (set_superlock s)) = UNLOCKED"
    using assms(3) by (simp add: set_superlock_def paged_out_def released_def pop_page_def mutex_is_open_def)
  ultimately show ?thesis by simp
qed

theorem superlock_lost_in_mutex_lock_witness:
  "\<exists>t. enqueue 1 queue_1 proc_A (set_superlock two_processes) = Ret () t \<and> superlock t = UNLOCKED"
  using superlock_lost_in_mutex_lock [OF two_processes_pages_inv(4,2), of 0 proc_A] two_processes_free by simp

end
