(* ===== verification/Process_Table.thy ===== *)
theory Process_Table
  imports Kernel_Mutex "HOL-Library.Multiset"
begin

text \<open>
  Processes and the process table (\<open>Kernel/process.c\<close>; the operations on a single field of a
  process are in \<open>Kernel_State\<close>). A process is a page of the allocator; the table maps its pid to
  it and is guarded by a mutex of its own. The theory models creation (with the initial stack
  frame), the list of data pages a process owns, file descriptors and destruction, and shows that
  creation and destruction keep the table consistent and lose no page.
\<close>

abbreviation table_key :: "kstate \<Rightarrow> int" where "table_key s \<equiv> to_int (table_mutex_key s)"

section \<open>The table\<close>

definition lock_table :: "nat \<Rightarrow> kstate \<Rightarrow> unit kres" where
  "lock_table n s = bnd (mutex_lock n (table_key s) s) (\<lambda>_ s. Ret () s)"

definition unlock_table :: "nat \<Rightarrow> kstate \<Rightarrow> unit kres" where
  "unlock_table n s = bnd (mutex_unlock n (table_key s) s) (\<lambda>_ s. Ret () s)"

definition insert_process :: "nat \<Rightarrow> ptr \<Rightarrow> kstate \<Rightarrow> int kres" where
  "insert_process n p s =
     bnd (lock_table n s) (\<lambda>_ s.
       let i = scan MAX_PROCESSES (\<lambda>i. process_table s ! i = NULL) 0
       in if i < MAX_PROCESSES then
            rd h_proc p s (\<lambda>x.
              let s = put_proc p (x\<lparr>p_pid := of_nat i\<rparr>) (s\<lparr>n_processes := n_processes s + 1\<rparr>);
                  s = s\<lparr>process_table := (process_table s)[i := p]\<rparr>
              in bnd (unlock_table n s) (\<lambda>_ s. Ret (int i) s))
          else bnd (unlock_table n s) (\<lambda>_ s. Ret (- 1) s))"

text \<open>The loop of \<open>get_current_pids\<close>; the result is what it stores.\<close>

primrec pids_loop :: "nat \<Rightarrow> nat \<Rightarrow> int \<Rightarrow> kstate \<Rightarrow> int list kres" where
  "pids_loop 0 i processes_left s = Ret [] s"
| "pids_loop (Suc k) i processes_left s =
     (if processes_left > 0 then
        if process_table s ! i \<noteq> NULL
        then bnd (pid_process (process_table s ! i) s) (\<lambda>pid s.
             bnd (pids_loop k (Suc i) (processes_left - 1) s) (\<lambda>pids s. Ret (to_int pid # pids) s))
        else pids_loop k (Suc i) processes_left s
      else Ret [] s)"

definition get_current_pids :: "nat \<Rightarrow> kstate \<Rightarrow> (int \<times> int list) kres" where
  "get_current_pids n s =
     bnd (lock_table n s) (\<lambda>_ s.
     bnd (pids_loop MAX_PROCESSES 0 (to_int (n_processes s)) s) (\<lambda>pids s.
     bnd (unlock_table n s) (\<lambda>_ s. Ret (int (length pids), pids @ [- 1]) s)))"

definition get_process_by_pid :: "u64 \<Rightarrow> kstate \<Rightarrow> ptr kres" where
  "get_process_by_pid pid s =
     (if unat pid < MAX_PROCESSES \<and> process_table s ! unat pid \<noteq> NULL
      then bnd (is_delete_process (process_table s ! unat pid) s) (\<lambda>dead s.
             Ret (if \<not> dead then process_table s ! unat pid else NULL) s)
      else Ret NULL s)"

definition number_processes :: "kstate \<Rightarrow> u64" where
  "number_processes s = n_processes s"

section \<open>Fields of a process\<close>

definition get_name_process :: "ptr \<Rightarrow> kstate \<Rightarrow> string kres" where
  "get_name_process p s = rd h_proc p s (\<lambda>x. Ret (p_name x) s)"

definition stack_page_process :: "ptr \<Rightarrow> kstate \<Rightarrow> u64 kres" where
  "stack_page_process p s = rd h_proc p s (\<lambda>x. Ret (stack_page x) s)"

definition clean_data_page :: "process \<Rightarrow> process" where
  "clean_data_page x = x\<lparr>data_page := replicate MAX_DATA_PAGES NULL, n_data_page := 0\<rparr>"

definition add_data_page :: "ptr \<Rightarrow> ptr \<Rightarrow> kstate \<Rightarrow> unit kres" where
  "add_data_page p page s =
     rd h_proc p s (\<lambda>x.
       let i = scan MAX_DATA_PAGES (\<lambda>i. data_page x ! i = NULL) 0
       in Ret () (if i < MAX_DATA_PAGES
                  then put_proc p (x\<lparr>n_data_page := n_data_page x + 1, data_page := (data_page x)[i := page]\<rparr>) s
                  else s))"

definition remove_data_page :: "ptr \<Rightarrow> ptr \<Rightarrow> kstate \<Rightarrow> unit kres" where
  "remove_data_page p page s =
     rd h_proc p s (\<lambda>x.
       let i = scan MAX_DATA_PAGES (\<lambda>i. data_page x ! i = page) 0
       in Ret () (if i < MAX_DATA_PAGES
                  then put_proc p (x\<lparr>n_data_page := n_data_page x - 1, data_page := (data_page x)[i := NULL]\<rparr>) s
                  else s))"

text \<open>The loop of \<open>data_pages_process\<close> over the array of pages from an index on.\<close>

primrec pages_loop :: "ptr list \<Rightarrow> int \<Rightarrow> ptr list" where
  "pages_loop [] pages_left = []"
| "pages_loop (a # as) pages_left =
     (if pages_left > 0 then if a \<noteq> NULL then a # pages_loop as (pages_left - 1) else pages_loop as pages_left
      else [])"

definition data_pages_process :: "ptr \<Rightarrow> kstate \<Rightarrow> ptr list kres" where
  "data_pages_process p s =
     rd h_proc p s (\<lambda>x. Ret (pages_loop (data_page x) (to_int (n_data_page x)) @ [NULL]) s)"

section \<open>File descriptors\<close>

text \<open>
  \<open>1 << fd\<close> with the \<open>int\<close> constant 1: defined for 0 to 30 only, although the code admits up to
  \<open>MAX_FDS\<close> descriptors.
\<close>

definition fd_bit :: "int \<Rightarrow> u64 option" where
  "fd_bit fd = (if 0 \<le> fd \<and> fd < 31 then Some (push_bit (nat fd) 1) else None)"

definition with_fd_bit :: "int \<Rightarrow> (u64 \<Rightarrow> 'a kres) \<Rightarrow> 'a kres" where
  "with_fd_bit fd f = (case fd_bit fd of None \<Rightarrow> Fault Bad_Shift | Some b \<Rightarrow> f b)"

definition set_file_open :: "ptr \<Rightarrow> int \<Rightarrow> kstate \<Rightarrow> int kres" where
  "set_file_open p fd s =
     (if fd \<ge> MAX_FDS then Ret 0 s
      else with_fd_bit fd (\<lambda>b. rd h_proc p s (\<lambda>x. Ret 1 (put_proc p (x\<lparr>open_fds := or (open_fds x) b\<rparr>) s))))"

definition set_file_closed :: "ptr \<Rightarrow> int \<Rightarrow> kstate \<Rightarrow> int kres" where
  "set_file_closed p fd s =
     (if fd \<ge> MAX_FDS then Ret 0 s
      else with_fd_bit fd (\<lambda>b. rd h_proc p s (\<lambda>x. Ret 1 (put_proc p (x\<lparr>open_fds := and (open_fds x) (not b)\<rparr>) s))))"

definition file_is_open :: "ptr \<Rightarrow> int \<Rightarrow> kstate \<Rightarrow> bool kres" where
  "file_is_open p fd s =
     (if fd < MAX_FDS then with_fd_bit fd (\<lambda>b. rd h_proc p s (\<lambda>x. Ret (and (open_fds x) b \<noteq> 0) s))
      else Ret False s)"

section \<open>Creation and destruction\<close>

text \<open>The size of a frame is 23 words. A stack page of 0 would put the frame at an invalid address.\<close>

abbreviation FRAME_SIZE :: u64 where "FRAME_SIZE \<equiv> 184"

definition start_frame :: "u64 \<Rightarrow> ptr \<Rightarrow> u64 \<Rightarrow> StackFrame" where
  "start_frame rip frame params =
     \<lparr>sf_gs = 0x001, sf_fs = 0x002, sf_r15 = 0x003, sf_r14 = 0x004, sf_r13 = 0x005, sf_r12 = 0x006,
      sf_r11 = 0x007, sf_r10 = 0x008, sf_r9 = 0x009, sf_r8 = 0x00A, sf_rsi = 0x00B, sf_rdi = params,
      sf_rbp = 0x00D, sf_rdx = 0x00E, sf_rcx = 0x00F, sf_rbx = 0x010, sf_rax = 0x011,
      sf_rip = rip, sf_cs = 0x008, sf_eflags = 0x202, sf_rsp = frame + 176, sf_ss = 0x000, sf_base = 0x000\<rparr>"

definition fill_stack :: "u64 \<Rightarrow> u64 \<Rightarrow> u64 \<Rightarrow> kstate \<Rightarrow> u64 kres" where
  "fill_stack rip stack params s =
     (if stack = 0 then Fault Bad_Pointer
      else let frame = stack - FRAME_SIZE
           in Ret frame (s\<lparr>h_frame := (h_frame s)(frame \<mapsto> start_frame rip frame params)\<rparr>))"

definition create_process :: "nat \<Rightarrow> u64 \<Rightarrow> u64 \<Rightarrow> string \<Rightarrow> kstate \<Rightarrow> ptr kres" where
  "create_process n new_process_rip params name s =
     bnd (get_page n s) (\<lambda>p s.
       if p = NULL then Fault Null_Deref
       else if length name \<ge> MAX_PROCESS_NAME then Fault Buffer_Overflow
       else
         let s = put_proc p ((junk_proc s p)\<lparr>p_name := name\<rparr>) s
         in bnd (get_stack_page n s) (\<lambda>stack s.
            rd h_proc p s (\<lambda>x.
              let s = put_proc p (x\<lparr>stack_page := stack, entry_point := new_process_rip, p_st := READY\<rparr>) s
              in bnd (fill_stack new_process_rip stack params s) (\<lambda>rsp s.
                 rd h_proc p s (\<lambda>x.
                   let s = put_proc p (clean_data_page (x\<lparr>p_rsp := rsp\<rparr>)) s
                   in bnd (insert_process n p s) (\<lambda>_ s.
                      rd h_proc p s (\<lambda>x.
                      bnd (if p_pid x \<noteq> 0
                           then bnd (get_current_process s) (\<lambda>c s. bnd (pid_process c s) (\<lambda>pid s.
                                rd h_proc p s (\<lambda>x. Ret () (put_proc p (x\<lparr>p_ppid := pid\<rparr>) s))))
                           else Ret () (s\<lparr>foreground := p\<rparr>)) (\<lambda>_ s.
                      rd h_proc p s (\<lambda>x. Ret p (put_proc p (x\<lparr>open_fds := 0\<rparr>) s))))))))))"

text \<open>The loop of \<open>free_data_pages\<close>, with \<open>k\<close> entries from index \<open>i\<close> on.\<close>

primrec free_data_pages_loop :: "nat \<Rightarrow> ptr \<Rightarrow> nat \<Rightarrow> nat \<Rightarrow> kstate \<Rightarrow> unit kres" where
  "free_data_pages_loop n p 0 i s = Ret () s"
| "free_data_pages_loop n p (Suc k) i s =
     rd h_proc p s (\<lambda>x.
       if n_data_page x > 0 then
         if data_page x ! i \<noteq> NULL
         then bnd (store_page n (data_page x ! i) s) (\<lambda>_ s.
              rd h_proc p s (\<lambda>x.
                free_data_pages_loop n p k (Suc i) (put_proc p (x\<lparr>n_data_page := n_data_page x - 1\<rparr>) s)))
         else free_data_pages_loop n p k (Suc i) s
       else Ret () s)"

definition free_data_pages :: "nat \<Rightarrow> ptr \<Rightarrow> kstate \<Rightarrow> unit kres" where
  "free_data_pages n p s = free_data_pages_loop n p MAX_DATA_PAGES 0 s"

definition set_foreground_process :: "ptr \<Rightarrow> kstate \<Rightarrow> unit kres" where
  "set_foreground_process p s =
     bnd (get_current_process s) (\<lambda>c s.
       if foreground s = c then set_foreground_force_process p s else Ret () s)"

definition table_at :: "u64 \<Rightarrow> kstate \<Rightarrow> (ptr \<Rightarrow> 'a kres) \<Rightarrow> 'a kres" where
  "table_at i s f = (if unat i < MAX_PROCESSES then f (process_table s ! unat i) else Fault Array_Bounds)"

definition destroy_process :: "nat \<Rightarrow> ptr \<Rightarrow> kstate \<Rightarrow> unit kres" where
  "destroy_process n p s =
     (if p \<noteq> NULL then
        bnd (lock_table n s) (\<lambda>_ s.
        bnd (free_data_pages n p (s\<lparr>n_processes := n_processes s - 1\<rparr>)) (\<lambda>_ s.
        bnd (if foreground s = p
             then rd h_proc p s (\<lambda>x. table_at (p_ppid x) s (\<lambda>q. set_foreground_process q s))
             else Ret () s) (\<lambda>_ s.
        rd h_proc p s (\<lambda>x.
        table_at (p_pid x) s (\<lambda>_.
          let s = s\<lparr>process_table := (process_table s)[unat (p_pid x) := NULL]\<rparr>
          in bnd (unlock_table n s) (\<lambda>_ s.
             rd h_proc p s (\<lambda>x.
             bnd (store_stack_page n (stack_page x) s) (\<lambda>_ s.
             bnd (store_page n p s) (\<lambda>_ s. Ret () s)))))))))
      else Ret () s)"

section \<open>The kernel's own mutexes\<close>

text \<open>
  The memory, stack and table mutexes are used as critical sections that end before the process
  gives up the processor, so outside them they are free.
\<close>

definition keys_distinct :: "kstate \<Rightarrow> bool" where
  "keys_distinct s \<longleftrightarrow>
     (mutex_is_open (mem_key s) s \<longrightarrow> mem_key s \<noteq> stack_key s \<and> mem_key s \<noteq> table_key s) \<and>
     (mutex_is_open (stack_key s) s \<longrightarrow> stack_key s \<noteq> table_key s)"

definition kernel_inv :: "kstate \<Rightarrow> bool" where
  "kernel_inv s \<longleftrightarrow> pages_inv s \<and> stacks_inv s \<and> mutex_free (table_key s) s \<and> keys_distinct s"

definition acquired :: "int \<Rightarrow> kstate \<Rightarrow> kstate" where
  "acquired key s = (if mutex_is_open key s then set_locked key LOCKED (s\<lparr>superlock := UNLOCKED\<rparr>) else s)"

definition relinquished :: "int \<Rightarrow> kstate \<Rightarrow> kstate" where
  "relinquished key s = (if mutex_is_open key s then set_locked key UNLOCKED (s\<lparr>superlock := UNLOCKED\<rparr>) else s)"

lemma lock_step: "mutex_free key s \<Longrightarrow> bnd (mutex_lock (Suc n) key s) (\<lambda>_ t. k t) = k (acquired key s)"
  by (cases "mutex_is_open key s") (simp_all add: acquired_def mutex_lock_free mutex_lock_closed)

lemma unlock_step:
  "(mutex_is_open key s \<Longrightarrow> mutex_empty key s) \<Longrightarrow> bnd (mutex_unlock (Suc n) key s) (\<lambda>_ t. k t) = k (relinquished key s)"
  by (cases "mutex_is_open key s") (simp_all add: relinquished_def mutex_unlock_empty mutex_unlock_closed)

text \<open>States that agree on what the mutexes and the stack allocator depend on.\<close>

definition admin :: "kstate \<Rightarrow> kstate \<Rightarrow> bool" where
  "admin s t \<longleftrightarrow>
     open_mutexes t = open_mutexes s \<and> h_queue t = h_queue s \<and> h_snode t = h_snode s \<and>
     cur_node t = cur_node s \<and> prev_node t = prev_node s \<and> memory_mutex_key t = memory_mutex_key s \<and>
     stack_memory_mutex_key t = stack_memory_mutex_key s \<and> table_mutex_key t = table_mutex_key s \<and>
     stack_pages_stack t = stack_pages_stack s \<and> current_stack_index t = current_stack_index s"

lemma admin_refl [simp]: "admin s s"
  by (simp add: admin_def)

lemma admin_trans: "admin s t \<Longrightarrow> admin t u \<Longrightarrow> admin s u"
  by (simp add: admin_def)

lemma admin_facts:
  assumes "admin s t"
  shows "mutex_is_open k t = mutex_is_open k s" "mutex_empty k t = mutex_empty k s" "mutex_free k t = mutex_free k s"
    "mem_key t = mem_key s" "stack_key t = stack_key s" "table_key t = table_key s"
    "free_stacks t = free_stacks s" "stacks_inv t = stacks_inv s" "keys_distinct t = keys_distinct s"
proof -
  show o: "mutex_is_open k t = mutex_is_open k s" for k using assms by (simp add: admin_def mutex_is_open_def)
  show e: "mutex_empty k t = mutex_empty k s" for k using assms by (simp add: admin_def mutex_empty_def the_mutex_def)
  show f: "mutex_free k t = mutex_free k s" for k using assms o e by (simp add: admin_def mutex_free_def the_mutex_def)
  show k: "mem_key t = mem_key s" "stack_key t = stack_key s" "table_key t = table_key s" using assms by (simp_all add: admin_def)
  show g: "free_stacks t = free_stacks s" using assms by (simp add: admin_def free_stacks_def)
  show "stacks_inv t = stacks_inv s" using assms f g by (simp add: admin_def stacks_inv_def)
  show "keys_distinct t = keys_distinct s" unfolding keys_distinct_def k o by simp
qed

lemma admin_update [simp]:
  "admin s (put_proc p x t) = admin s t" "admin s (t\<lparr>n_processes := c\<rparr>) = admin s t"
  "admin s (t\<lparr>process_table := pt\<rparr>) = admin s t" "admin s (t\<lparr>foreground := f\<rparr>) = admin s t"
  "admin s (t\<lparr>superlock := l\<rparr>) = admin s t" "admin s (t\<lparr>h_frame := hf\<rparr>) = admin s t"
  "admin s (t\<lparr>h_proc := hp\<rparr>) = admin s t"
  "admin s (released k t) = admin s t" "admin s (pop_page t) = admin s t" "admin s (push_page i t) = admin s t"
  by (simp_all add: admin_def put_proc_def released_def pop_page_def push_page_def)

lemma admin_paged [simp]: "admin s (paged_out t) = admin s t" "admin s (paged_in a t) = admin s t"
  by (simp_all add: paged_out_def paged_in_def)

lemma released_more [simp]:
  "h_proc (released k s) = h_proc s" "h_frame (released k s) = h_frame s"
  "process_table (released k s) = process_table s" "n_processes (released k s) = n_processes s"
  "foreground (released k s) = foreground s" "h_snode (released k s) = h_snode s"
  "cur_node (released k s) = cur_node s" "prev_node (released k s) = prev_node s" "junk_proc (released k s) = junk_proc s"
  "table_mutex_key (released k s) = table_mutex_key s"
  "free_pages (released k s) = free_pages s"
  by (simp_all add: released_def free_pages_def)

section \<open>Creating a process\<close>

text \<open>The position that \<open>insert_process\<close> takes, and the process that \<open>create_process\<close> leaves in its page.\<close>

definition first_free :: "kstate \<Rightarrow> nat" where
  "first_free s = scan MAX_PROCESSES (\<lambda>i. process_table s ! i = NULL) 0"

lemma insert_process_ok:
  assumes free: "mutex_free (table_key s) s" and slot: "first_free s < MAX_PROCESSES"
    and p: "p \<noteq> NULL" "h_proc s p = Some x"
  shows "insert_process (Suc n) p s = Ret (int (first_free s)) (released (table_key s)
    (s\<lparr>n_processes := n_processes s + 1, h_proc := (h_proc s)(p \<mapsto> x\<lparr>p_pid := of_nat (first_free s)\<rparr>),
       process_table := (process_table s)[first_free s := p]\<rparr>))"
proof -
  let ?i = "first_free s"
  let ?f = "\<lambda>s. s\<lparr>n_processes := n_processes s + 1, h_proc := (h_proc s)(p \<mapsto> x\<lparr>p_pid := of_nat ?i\<rparr>),
      process_table := (process_table s)[?i := p]\<rparr>"
  have neutral: "neutral ?f" by (simp add: neutral_def)
  have body: "insert_process (Suc n) p s = bnd (mutex_lock (Suc n) (table_key s) s) (\<lambda>_ t.
      bnd (mutex_unlock (Suc n) (table_key s) (?f t)) (\<lambda>_ u. Ret (int ?i) u))"
    unfolding insert_process_def lock_table_def unlock_table_def bnd_assoc bnd.simps
  proof (rule lock_then_cong [OF free])
    fix t assume "t = s \<or> t = set_locked (table_key s) LOCKED (s\<lparr>superlock := UNLOCKED\<rparr>)"
    then have "process_table t = process_table s" "h_proc t = h_proc s" "table_mutex_key t = table_mutex_key s"
      by (auto simp: set_locked_def)
    with p slot show "(let i = scan MAX_PROCESSES (\<lambda>i. process_table t ! i = NULL) 0
        in if i < MAX_PROCESSES
           then rd h_proc p t (\<lambda>x.
                  let s = put_proc p (x\<lparr>p_pid := word_of_nat i\<rparr>) (t\<lparr>n_processes := n_processes t + 1\<rparr>);
                      s = s\<lparr>process_table := (process_table s)[i := p]\<rparr>
                  in bnd (mutex_unlock (Suc n) (table_key s) s) (\<lambda>_ s. Ret (int i) s))
           else bnd (mutex_unlock (Suc n) (table_key t) t) (\<lambda>_ s. Ret (- 1) s)) =
        bnd (mutex_unlock (Suc n) (table_key s) (?f t)) (\<lambda>_ u. Ret (int ?i) u)"
      by (simp add: first_free_def Let_def put_proc_def)
  qed
  show ?thesis unfolding body by (rule critical_section [OF free neutral])
qed

definition new_process :: "kstate \<Rightarrow> u64 \<Rightarrow> u64 \<Rightarrow> string \<Rightarrow> process" where
  "new_process s rip ppid name =
     (let stack = stack_pages_stack s ! unat (current_stack_index s)
      in (junk_proc s (next_page s))
         \<lparr>p_name := name, stack_page := stack, entry_point := rip, p_st := READY, p_rsp := stack - FRAME_SIZE,
          data_page := replicate MAX_DATA_PAGES NULL, n_data_page := 0,
          p_pid := of_nat (first_free s), p_ppid := ppid, open_fds := 0\<rparr>)"

definition next_stack :: "kstate \<Rightarrow> u64" where
  "next_stack s = stack_pages_stack s ! unat (current_stack_index s)"

definition stacked_out :: "kstate \<Rightarrow> kstate" where
  "stacked_out s = released (stack_key s) (pop_stack_page s)"

definition stacked_in :: "u64 \<Rightarrow> kstate \<Rightarrow> kstate" where
  "stacked_in a s = released (stack_key s) (push_stack_page a s)"

lemma get_stack_step:
  assumes "stacks_inv s" "free_stacks s \<noteq> {}"
  shows "get_stack_page (Suc n) s = Ret (next_stack s) (stacked_out s) \<and> stacks_inv (stacked_out s) \<and>
    next_stack s \<in> free_stacks s \<and> free_stacks (stacked_out s) = free_stacks s - {next_stack s}"
proof -
  have "unat (current_stack_index s) < 128" using assms by (auto simp: free_stacks_def stacks_inv_def)
  moreover have "mutex_free (stack_key s) s" using assms by (simp add: stacks_inv_def)
  ultimately have g: "get_stack_page (Suc n) s = Ret (next_stack s) (stacked_out s)" for n
    by (simp add: get_stack_page_ok next_stack_def stacked_out_def)
  from stacks_inv_take [OF assms] g [of 0] g [of n] show ?thesis by (auto simp: take_stack_def)
qed

lemma store_stack_step:
  assumes "stacks_inv s" "a \<in> process_stacks - free_stacks s"
  shows "store_stack_page (Suc n) a s = Ret 1 (stacked_in a s) \<and> stacks_inv (stacked_in a s) \<and>
    free_stacks (stacked_in a s) = insert a (free_stacks s)"
proof -
  have free: "mutex_free (stack_key s) s" using assms by (simp add: stacks_inv_def)
  obtain t where t: "give_stack a s = Some t" "free_stacks t = insert a (free_stacks s)" "stacks_inv t"
    using stacks_inv_give [of s a] assms by auto
  have pos: "current_stack_index s > 0"
  proof (rule ccontr)
    assume "\<not> current_stack_index s > 0"
    then have "current_stack_index s = 0" by (simp add: word_gt_0)
    then have "store_stack_page 1 a s = bnd (mutex_lock 1 (stack_key s) s) (\<lambda>_ t.
        bnd (mutex_unlock 1 (stack_key s) t) (\<lambda>_ u. Ret 0 u))"
      unfolding store_stack_page_def One_nat_def by (intro lock_then_cong [OF free]) auto
    then have "store_stack_page 1 a s = Ret 0 (released (stack_key s) s)"
      using critical_section [OF free neutral_pool(5)] by simp
    with t show False by (simp add: give_stack_def)
  qed
  have "store_stack_page (Suc m) a s = Ret 1 (stacked_in a s)" for m
    using store_stack_page_ok [OF free pos] by (simp add: stacked_in_def)
  from this [of 0] this [of n] t show ?thesis by (simp add: give_stack_def)
qed

text \<open>The stack allocator does not touch the rest of the kernel.\<close>

lemma stacked_frame [simp]:
  "h_proc (stacked_out s) = h_proc s" "h_proc (stacked_in a s) = h_proc s"
  "h_frame (stacked_out s) = h_frame s" "h_snode (stacked_out s) = h_snode s" "cur_node (stacked_out s) = cur_node s"
  "h_snode (stacked_in a s) = h_snode s" "cur_node (stacked_in a s) = cur_node s"
  "prev_node (stacked_out s) = prev_node s" "prev_node (stacked_in a s) = prev_node s"
  "process_table (stacked_out s) = process_table s" "process_table (stacked_in a s) = process_table s"
  "n_processes (stacked_out s) = n_processes s" "n_processes (stacked_in a s) = n_processes s"
  "foreground (stacked_out s) = foreground s" "foreground (stacked_in a s) = foreground s"
  "free_pages (stacked_out s) = free_pages s" "free_pages (stacked_in a s) = free_pages s"
  "pages_inv (stacked_out s) = pages_inv s" "pages_inv (stacked_in a s) = pages_inv s"
  "mutex_free k (stacked_out s) = mutex_free k s" "mutex_free k (stacked_in a s) = mutex_free k s"
  "keys_distinct (stacked_out s) = keys_distinct s" "keys_distinct (stacked_in a s) = keys_distinct s"
  "table_mutex_key (stacked_out s) = table_mutex_key s" "table_mutex_key (stacked_in a s) = table_mutex_key s"
proof -
  have o: "mutex_is_open k (stacked_out s) = mutex_is_open k s" "mutex_is_open k (stacked_in a s) = mutex_is_open k s" for k
    by (simp_all add: stacked_out_def stacked_in_def mutex_is_open_def released_def pool_defs)
  show k: "table_mutex_key (stacked_out s) = table_mutex_key s" "table_mutex_key (stacked_in a s) = table_mutex_key s"
    by (simp_all add: stacked_out_def stacked_in_def pool_defs)
  have "memory_mutex_key (stacked_out s) = memory_mutex_key s" "memory_mutex_key (stacked_in a s) = memory_mutex_key s"
    "stack_memory_mutex_key (stacked_out s) = stack_memory_mutex_key s"
    "stack_memory_mutex_key (stacked_in a s) = stack_memory_mutex_key s"
    by (simp_all add: stacked_out_def stacked_in_def pool_defs)
  then show "keys_distinct (stacked_out s) = keys_distinct s" "keys_distinct (stacked_in a s) = keys_distinct s"
    by (simp_all add: keys_distinct_def o k)
qed (simp_all add: stacked_out_def stacked_in_def free_pages_def pages_inv_def, simp_all add: pool_defs)

lemma admin_pages:
  assumes "admin s t" "pages_stack t = pages_stack s" "current_index t = current_index s"
  shows "pages_inv t = pages_inv s" "free_pages t = free_pages s" "in_use t = in_use s" "next_page t = next_page s"
  using assms admin_facts [OF assms(1)] by (simp_all add: pages_inv_def free_pages_def in_use_def next_page_def)

lemma put_proc_frame [simp]:
  "h_proc (put_proc p x s) = (h_proc s)(p \<mapsto> x)" "h_frame (put_proc p x s) = h_frame s"
  "h_snode (put_proc p x s) = h_snode s" "cur_node (put_proc p x s) = cur_node s"
  "process_table (put_proc p x s) = process_table s" "n_processes (put_proc p x s) = n_processes s"
  "foreground (put_proc p x s) = foreground s" "junk_proc (put_proc p x s) = junk_proc s"
  "table_mutex_key (put_proc p x s) = table_mutex_key s"
  "pages_stack (put_proc p x s) = pages_stack s" "current_index (put_proc p x s) = current_index s"
  "put_proc p x (put_proc p y s) = put_proc p x s"
  by (simp_all add: put_proc_def)

lemma paged_out_more [simp]:
  "h_frame (paged_out s) = h_frame s" "process_table (paged_out s) = process_table s"
  "n_processes (paged_out s) = n_processes s" "foreground (paged_out s) = foreground s"
  "junk_proc (paged_out s) = junk_proc s" "table_mutex_key (paged_out s) = table_mutex_key s"
  "process_table (paged_in a s) = process_table s" "n_processes (paged_in a s) = n_processes s"
  "foreground (paged_in a s) = foreground s" "table_mutex_key (paged_in a s) = table_mutex_key s"
  by (simp_all add: paged_out_def paged_in_def pool_defs)

lemma kernel_frame:
  assumes "admin s t" "pages_stack t = pages_stack s" "current_index t = current_index s"
  shows "pages_inv t = pages_inv s" "stacks_inv t = stacks_inv s" "mutex_free k t = mutex_free k s"
    "keys_distinct t = keys_distinct s" "kernel_inv t = kernel_inv s" "free_pages t = free_pages s"
    "free_stacks t = free_stacks s" "next_stack t = next_stack s"
proof -
  show "next_stack t = next_stack s" using assms(1) by (simp add: next_stack_def admin_def)
qed (simp_all add: admin_pages [OF assms] admin_facts [OF assms(1)] kernel_inv_def)

lemma put_proc_kernel [simp]:
  "pages_inv (put_proc p x s) = pages_inv s" "stacks_inv (put_proc p x s) = stacks_inv s"
  "mutex_free k (put_proc p x s) = mutex_free k s" "keys_distinct (put_proc p x s) = keys_distinct s"
  "kernel_inv (put_proc p x s) = kernel_inv s" "free_pages (put_proc p x s) = free_pages s"
  "free_stacks (put_proc p x s) = free_stacks s" "next_stack (put_proc p x s) = next_stack s"
  using kernel_frame [of s "put_proc p x s"] by simp_all

lemma paged_out_kernel [simp]:
  "stacks_inv (paged_out s) = stacks_inv s" "mutex_free k (paged_out s) = mutex_free k s"
  "keys_distinct (paged_out s) = keys_distinct s" "free_stacks (paged_out s) = free_stacks s"
  "next_stack (paged_out s) = next_stack s"
  "stacks_inv (paged_in a s) = stacks_inv s" "mutex_free k (paged_in a s) = mutex_free k s"
  "keys_distinct (paged_in a s) = keys_distinct s" "free_stacks (paged_in a s) = free_stacks s"
  using admin_facts [of s "paged_out s"] admin_facts [of s "paged_in a s"]
  by (simp_all add: next_stack_def) (simp add: paged_out_def pop_page_def)

text \<open>The running process, when there is one.\<close>

definition current_is :: "ptr \<Rightarrow> process \<Rightarrow> kstate \<Rightarrow> bool" where
  "current_is c y s \<longleftrightarrow>
     cur_node s \<noteq> NULL \<and> c \<noteq> NULL \<and> h_proc s c = Some y \<and> c \<notin> free_pages s \<and>
     (case h_snode s (cur_node s) of None \<Rightarrow> False | Some d \<Rightarrow> sn_p d = c)"

definition parent_pid :: "kstate \<Rightarrow> process \<Rightarrow> u64" where
  "parent_pid s y = (if first_free s = 0 then p_ppid (junk_proc s (next_page s)) else p_pid y)"

text \<open>The new process, up to the point where it is entered in the table.\<close>

definition drafted :: "u64 \<Rightarrow> u64 \<Rightarrow> string \<Rightarrow> kstate \<Rightarrow> process \<times> kstate" where
  "drafted rip params name s =
     (let p = next_page s; stack = next_stack s; frame = stack - FRAME_SIZE;
          x = (junk_proc s p)\<lparr>p_name := name, stack_page := stack, entry_point := rip, p_st := READY,
                p_rsp := frame, data_page := replicate MAX_DATA_PAGES NULL, n_data_page := 0\<rparr>;
          t = stacked_out (put_proc p ((junk_proc s p)\<lparr>p_name := name\<rparr>) (paged_out s))
      in (x, put_proc p x (t\<lparr>h_frame := (h_frame s)(frame \<mapsto> start_frame rip frame params)\<rparr>)))"

lemma process_stacks_nonzero: "a \<in> process_stacks \<Longrightarrow> a \<noteq> 0"
  using unat_stack_address by (fastforce simp: process_stacks_def)

lemma adopt_process:
  assumes "p \<noteq> NULL" "h_proc s p = Some x"
    and "p_pid x \<noteq> 0 \<Longrightarrow> get_current_process s = Ret c s" "p_pid x \<noteq> 0 \<Longrightarrow> pid_process c s = Ret pp s"
  shows "rd h_proc p s (\<lambda>x.
       bnd (if p_pid x \<noteq> 0
            then bnd (get_current_process s) (\<lambda>c s. bnd (pid_process c s) (\<lambda>pid s.
                 rd h_proc p s (\<lambda>x. Ret () (put_proc p (x\<lparr>p_ppid := pid\<rparr>) s))))
            else Ret () (s\<lparr>foreground := p\<rparr>)) (\<lambda>_ s.
       rd h_proc p s (\<lambda>x. Ret p (put_proc p (x\<lparr>open_fds := 0\<rparr>) s)))) =
     Ret p (put_proc p (x\<lparr>p_ppid := if p_pid x = 0 then p_ppid x else pp, open_fds := 0\<rparr>)
       (if p_pid x = 0 then s\<lparr>foreground := p\<rparr> else s))"
  using assms by (cases "p_pid x = 0") simp_all

lemma create_process_ok:
  assumes inv: "kernel_inv s" and room: "free_pages s \<noteq> {}" "free_stacks s \<noteq> {}" "first_free s < MAX_PROCESSES"
    and name: "length name < MAX_PROCESS_NAME" and cur: "first_free s \<noteq> 0 \<Longrightarrow> current_is c y s"
  obtains t where "create_process (Suc n) rip params name s = Ret (next_page s) t"
    "h_proc t = (h_proc s)(next_page s \<mapsto> new_process s rip (parent_pid s y) name)"
    "process_table t = (process_table s)[first_free s := next_page s]" "n_processes t = n_processes s + 1"
    "h_frame t = (h_frame s)(next_stack s - FRAME_SIZE \<mapsto> start_frame rip (next_stack s - FRAME_SIZE) params)"
    "foreground t = (if first_free s = 0 then next_page s else foreground s)"
    "free_pages t = free_pages s - {next_page s}" "free_stacks t = free_stacks s - {next_stack s}"
    "kernel_inv t" "h_snode t = h_snode s" "cur_node t = cur_node s" "prev_node t = prev_node s" "array_mutex t = array_mutex s"
    "open_mutexes t = open_mutexes s" "h_queue t = h_queue s" "memory_mutex_key t = memory_mutex_key s"
    "stack_memory_mutex_key t = stack_memory_mutex_key s" "table_mutex_key t = table_mutex_key s"
proof -
  let ?p = "next_page s" and ?i = "first_free s" and ?stack = "next_stack s"
  let ?frame = "?stack - FRAME_SIZE"
  let ?x1 = "(junk_proc s ?p)\<lparr>p_name := name\<rparr>"
  let ?s2 = "put_proc ?p ?x1 (paged_out s)"
  let ?x3 = "?x1\<lparr>stack_page := ?stack, entry_point := rip, p_st := READY\<rparr>"
  let ?s5 = "(put_proc ?p ?x3 (stacked_out ?s2))\<lparr>h_frame := (h_frame s)(?frame \<mapsto> start_frame rip ?frame params)\<rparr>"
  let ?x5 = "clean_data_page (?x3\<lparr>p_rsp := ?frame\<rparr>)"
  let ?s6 = "put_proc ?p ?x5 ?s5"
  let ?x7 = "?x5\<lparr>p_pid := of_nat ?i\<rparr>"
  let ?f = "if ?i = 0 then ?p else foreground s"
  let ?s7 = "released (table_key ?s6) (?s6\<lparr>n_processes := n_processes ?s6 + 1, h_proc := (h_proc ?s6)(?p \<mapsto> ?x7),
      process_table := (process_table ?s6)[?i := ?p]\<rparr>)"
  let ?t = "put_proc ?p (?x7\<lparr>p_ppid := if p_pid ?x7 = 0 then p_ppid ?x7 else p_pid y, open_fds := 0\<rparr>)
      (if p_pid ?x7 = 0 then ?s7\<lparr>foreground := ?p\<rparr> else ?s7)"
  have pinv: "pages_inv s" "stacks_inv s" "mutex_free (table_key s) s" "keys_distinct s"
    using inv by (simp_all add: kernel_inv_def)
  note page = get_page_step [OF pinv(1) room(1), of n]
  have null: "?p \<noteq> NULL" by (simp add: next_page_def)
  have s2: "stacks_inv ?s2" "free_stacks ?s2 \<noteq> {}" "next_stack ?s2 = ?stack" using pinv(2) room(2) by simp_all
  note stack = get_stack_step [OF s2(1,2), of n, unfolded s2(3)]
  have snz: "?stack \<noteq> 0" using stack pinv(2) process_stacks_nonzero by (auto simp: stacks_inv_def)
  have ff: "first_free ?s6 = ?i" by (simp add: first_free_def)
  have a6: "admin (stacked_out ?s2) ?s6" by simp
  have free: "mutex_free (table_key ?s6) ?s6" using admin_facts(3,6) [OF a6] pinv(3) by simp
  have ins: "insert_process (Suc n) ?p ?s6 = Ret (int ?i) ?s7"
    by (rule insert_process_ok [OF free, unfolded ff, OF room(3) null]) simp
  have pid: "p_pid ?x7 = 0 \<longleftrightarrow> ?i = 0"
  proof -
    have u: "unat (of_nat ?i :: u64) = ?i" using room(3) by (intro unat_of_nat_u64) simp
    have "(of_nat ?i :: u64) = 0 \<longleftrightarrow> unat (of_nat ?i :: u64) = 0" by (rule unat_eq_0 [symmetric])
    then have "(of_nat ?i :: u64) = 0 \<longleftrightarrow> ?i = 0" unfolding u .
    moreover have "p_pid ?x7 = of_nat ?i" by simp
    ultimately show ?thesis by (simp only:)
  qed
  have h7: "h_proc ?s7 ?p = Some ?x7" by simp
  have up: "create_process (Suc n) rip params name s =
      bnd (insert_process (Suc n) ?p ?s6) (\<lambda>_ s.
        rd h_proc ?p s (\<lambda>x.
        bnd (if p_pid x \<noteq> 0
             then bnd (get_current_process s) (\<lambda>c s. bnd (pid_process c s) (\<lambda>pid s.
                  rd h_proc ?p s (\<lambda>x. Ret () (put_proc ?p (x\<lparr>p_ppid := pid\<rparr>) s))))
             else Ret () (s\<lparr>foreground := ?p\<rparr>)) (\<lambda>_ s.
        rd h_proc ?p s (\<lambda>x. Ret ?p (put_proc ?p (x\<lparr>open_fds := 0\<rparr>) s)))))"
    using page null name stack snz by (simp add: create_process_def fill_stack_def Let_def)
  have cur7: "get_current_process ?s7 = Ret c ?s7" "pid_process c ?s7 = Ret (p_pid y) ?s7" if "p_pid ?x7 \<noteq> 0"
  proof -
    have "?i \<noteq> 0" using pid that by blast
    from cur [OF this] obtain d where d: "cur_node s \<noteq> NULL" "c \<noteq> NULL" "h_proc s c = Some y"
      "c \<notin> free_pages s" "h_snode s (cur_node s) = Some d" "sn_p d = c"
      by (auto simp: current_is_def split: option.splits)
    have "?p \<in> free_pages s" using page by blast
    then have "c \<noteq> ?p" using d(4) by blast
    show "get_current_process ?s7 = Ret c ?s7" using d by (simp add: get_current_process_def)
    show "pid_process c ?s7 = Ret (p_pid y) ?s7" using d \<open>c \<noteq> ?p\<close> by (simp add: pid_process_def)
  qed
  have final: "create_process (Suc n) rip params name s = Ret ?p ?t"
    unfolding up ins bnd.simps by (rule adopt_process [OF null h7 cur7])
  have a8: "admin (stacked_out ?s2) ?t" "pages_stack ?t = pages_stack (stacked_out ?s2)"
    "current_index ?t = current_index (stacked_out ?s2)" by simp_all
  note kt = kernel_frame [OF a8]
  have "kernel_inv ?t" "free_pages ?t = free_pages s - {?p}" "free_stacks ?t = free_stacks s - {?stack}"
    using kt pinv page stack by (simp_all add: kernel_inv_def)
  moreover have "?x7\<lparr>p_ppid := if p_pid ?x7 = 0 then p_ppid ?x7 else p_pid y, open_fds := 0\<rparr> =
      new_process s rip (parent_pid s y) name"
    unfolding pid by (simp add: new_process_def clean_data_page_def next_stack_def parent_pid_def Let_def)
  moreover have "open_mutexes ?t = open_mutexes s" "h_queue ?t = h_queue s" "array_mutex ?t = array_mutex s"
    "memory_mutex_key ?t = memory_mutex_key s" "stack_memory_mutex_key ?t = stack_memory_mutex_key s" "prev_node ?t = prev_node s"
    by (simp_all add: put_proc_def stacked_out_def paged_out_def released_def pool_defs)
  ultimately show thesis using that [OF final] pid by simp
qed

section \<open>Destroying a process\<close>

text \<open>Taking and releasing the table mutex around a section that leaves the mutexes alone.\<close>

lemma set_locked_rest [simp]:
  "process_table (set_locked k l s) = process_table s" "n_processes (set_locked k l s) = n_processes s"
  "foreground (set_locked k l s) = foreground s" "table_mutex_key (set_locked k l s) = table_mutex_key s"
  "free_stacks (set_locked k l s) = free_stacks s" "keys_distinct (set_locked k l s) = keys_distinct s"
proof -
  show "keys_distinct (set_locked k l s) = keys_distinct s" by (simp add: keys_distinct_def) (simp add: set_locked_def)
qed (simp_all add: set_locked_def free_stacks_def)

lemma superlock_kernel [simp]:
  "pages_inv (s\<lparr>superlock := l\<rparr>) = pages_inv s" "stacks_inv (s\<lparr>superlock := l\<rparr>) = stacks_inv s"
  "keys_distinct (s\<lparr>superlock := l\<rparr>) = keys_distinct s" "free_stacks (s\<lparr>superlock := l\<rparr>) = free_stacks s"
  using kernel_frame [of s "s\<lparr>superlock := l\<rparr>"] by simp_all

lemma acquired_frame [simp]:
  "h_proc (acquired k s) = h_proc s" "h_snode (acquired k s) = h_snode s" "cur_node (acquired k s) = cur_node s"
  "process_table (acquired k s) = process_table s" "n_processes (acquired k s) = n_processes s"
  "foreground (acquired k s) = foreground s" "table_mutex_key (acquired k s) = table_mutex_key s"
  "free_pages (acquired k s) = free_pages s" "free_stacks (acquired k s) = free_stacks s"
  "mutex_is_open j (acquired k s) = mutex_is_open j s" "mutex_empty j (acquired k s) = mutex_empty j s"
  by (simp_all add: acquired_def)

lemma lock_prev [simp]: "prev_node (acquired k s) = prev_node s" "prev_node (relinquished k s) = prev_node s"
  "prev_node (paged_out s) = prev_node s" "prev_node (paged_in a s) = prev_node s"
  by (simp_all add: acquired_def relinquished_def set_locked_def paged_out_def paged_in_def released_def pool_defs)

lemma relinquished_frame [simp]:
  "h_proc (relinquished k s) = h_proc s" "h_snode (relinquished k s) = h_snode s" "cur_node (relinquished k s) = cur_node s"
  "process_table (relinquished k s) = process_table s" "n_processes (relinquished k s) = n_processes s"
  "foreground (relinquished k s) = foreground s" "table_mutex_key (relinquished k s) = table_mutex_key s"
  "free_pages (relinquished k s) = free_pages s" "free_stacks (relinquished k s) = free_stacks s"
  by (simp_all add: relinquished_def)

text \<open>Setting the lock of the table mutex does not disturb the two allocators.\<close>

lemma table_lock_kernel:
  assumes "pages_inv s" "stacks_inv s" "keys_distinct s" "mutex_is_open (table_key s) s"
  shows "pages_inv (set_locked (table_key s) l s)" "stacks_inv (set_locked (table_key s) l s)"
proof -
  have "mutex_is_open (mem_key s) s \<longrightarrow> mem_key s \<noteq> table_key s" "mutex_is_open (stack_key s) s \<longrightarrow> stack_key s \<noteq> table_key s"
    using assms(3) by (auto simp: keys_distinct_def)
  then show "pages_inv (set_locked (table_key s) l s)" "stacks_inv (set_locked (table_key s) l s)"
    using assms(1,2,4) mutex_free_set_locked [of "table_key s" s "mem_key s" l] mutex_free_set_locked [of "table_key s" s "stack_key s" l]
    by (simp_all add: pages_inv_def stacks_inv_def)
qed

lemma acquired_inv:
  assumes "kernel_inv s"
  shows "pages_inv (acquired (table_key s) s)" "stacks_inv (acquired (table_key s) s)" "keys_distinct (acquired (table_key s) s)"
  using assms table_lock_kernel [of "s\<lparr>superlock := UNLOCKED\<rparr>" LOCKED] by (simp_all add: acquired_def kernel_inv_def)

lemma relinquished_inv:
  assumes inv: "kernel_inv s" and adm: "admin (acquired (table_key s) s) u" and u: "pages_inv u" "stacks_inv u"
  shows "kernel_inv (relinquished (table_key s) u)"
proof (cases "mutex_is_open (table_key s) s")
  case False
  then show ?thesis
    using assms admin_facts [OF adm] by (simp add: relinquished_def acquired_def kernel_inv_def)
next
  case True
  let ?k = "table_key s" and ?t = "set_locked (table_key s) UNLOCKED (u\<lparr>superlock := UNLOCKED\<rparr>)"
  have k: "table_key u = ?k" "mutex_is_open ?k u" "keys_distinct u" "mutex_empty ?k u"
    using admin_facts [OF adm] acquired_inv [OF inv] True inv by (simp_all add: kernel_inv_def mutex_free_def)
  have "nat ?k < length (open_mutexes s)" "cur_node s \<noteq> NULL" "h_snode s (cur_node s) \<noteq> None"
    using inv True by (simp_all add: kernel_inv_def mutex_free_def)
  then have u': "nat ?k < length (open_mutexes u)" "cur_node u \<noteq> NULL" "h_snode u (cur_node u) \<noteq> None"
    using adm by (simp_all add: admin_def) (simp_all add: acquired_def)
  have "mutex_free ?k ?t"
    using u' k the_mutex_set_locked [of ?k "u\<lparr>superlock := UNLOCKED\<rparr>" UNLOCKED] by (simp add: mutex_free_def)
  moreover have "pages_inv ?t" "stacks_inv ?t"
    using table_lock_kernel [of "u\<lparr>superlock := UNLOCKED\<rparr>" UNLOCKED] u k by simp_all
  ultimately show ?thesis using k by (simp add: relinquished_def kernel_inv_def)
qed

text \<open>The process is well formed: its data pages, counted by \<open>n_data_page\<close>, are its own.\<close>

definition owned_pages :: "process \<Rightarrow> ptr list" where
  "owned_pages x = filter (\<lambda>a. a \<noteq> NULL) (data_page x)"

definition process_wf :: "ptr \<Rightarrow> process \<Rightarrow> kstate \<Rightarrow> bool" where
  "process_wf p x s \<longleftrightarrow>
     h_proc s p = Some x \<and> p \<in> in_use s \<and> length (data_page x) = MAX_DATA_PAGES \<and>
     n_data_page x = of_nat (length (owned_pages x)) \<and> distinct (owned_pages x) \<and>
     set (owned_pages x) \<subseteq> in_use s - {p} \<and> stack_page x \<in> process_stacks - free_stacks s"

definition same_table :: "kstate \<Rightarrow> kstate \<Rightarrow> bool" where
  "same_table s t \<longleftrightarrow> process_table t = process_table s \<and> n_processes t = n_processes s \<and> foreground t = foreground s"

lemma of_nat_u64_0: "n < 2 ^ 64 \<Longrightarrow> (of_nat n :: u64) = 0 \<longleftrightarrow> n = 0"
  using unat_of_nat_u64 [of n] unat_eq_0 [of "of_nat n :: u64"] by auto

lemma free_data_pages_loop_ok:
  assumes "pages_inv s" "p \<noteq> NULL" "h_proc s p = Some x" "length (data_page x) = i + k" "i + k \<le> MAX_DATA_PAGES"
    and "n_data_page x = of_nat (length (filter (\<lambda>a. a \<noteq> NULL) (drop i (data_page x))))"
    and "distinct (filter (\<lambda>a. a \<noteq> NULL) (drop i (data_page x)))"
    and "set (filter (\<lambda>a. a \<noteq> NULL) (drop i (data_page x))) \<subseteq> in_use s"
  shows "\<exists>t. free_data_pages_loop (Suc n) p k i s = Ret () t \<and> pages_inv t \<and> admin s t \<and> same_table s t \<and>
    h_proc t = (h_proc s)(p \<mapsto> x\<lparr>n_data_page := 0\<rparr>) \<and>
    free_pages t = free_pages s \<union> set (filter (\<lambda>a. a \<noteq> NULL) (drop i (data_page x)))"
  using assms
proof (induction k arbitrary: i s x)
  case 0
  then have "x\<lparr>n_data_page := 0\<rparr> = x" by (cases x) simp
  with 0 show ?case by (simp add: same_table_def fun_upd_idem)
next
  case (Suc k)
  let ?ps = "\<lambda>i. filter (\<lambda>a. a \<noteq> NULL) (drop i (data_page x))"
  have d: "drop i (data_page x) = data_page x ! i # drop (Suc i) (data_page x)"
    using Suc.prems(4) by (simp add: Cons_nth_drop_Suc)
  have len: "length (?ps i) < 2 ^ 64"
  proof -
    have "length (?ps i) \<le> length (drop i (data_page x))" by (rule length_filter_le)
    then show ?thesis using Suc.prems(4,5) by simp
  qed
  have n0: "n_data_page x = 0 \<longleftrightarrow> ?ps i = []" using of_nat_u64_0 [OF len] Suc.prems(6) by simp
  show ?case
  proof (cases "?ps i = []")
    case True
    then have "n_data_page x = 0" using n0 by blast
    moreover from this have "x\<lparr>n_data_page := 0\<rparr> = x" by (cases x) simp
    ultimately show ?thesis using Suc.prems True by (simp add: same_table_def fun_upd_idem)
  next
    case False
    then have pos: "n_data_page x > 0" using n0 by (simp add: word_gt_0)
    show ?thesis
    proof (cases "data_page x ! i = NULL")
      case True
      then have "?ps i = ?ps (Suc i)" using d by simp
      with Suc.IH [of s x "Suc i"] Suc.prems True pos show ?thesis by simp
    next
      case nn: False
      let ?a = "data_page x ! i" and ?x = "x\<lparr>n_data_page := n_data_page x - 1\<rparr>"
      have ps: "?ps i = ?a # ?ps (Suc i)" using d nn by simp
      have "?a \<in> in_use s" using Suc.prems(8) ps by simp
      note page = store_page_step [OF Suc.prems(1) this, of n]
      let ?s = "put_proc p ?x (paged_in ?a s)"
      have "\<exists>t. free_data_pages_loop (Suc n) p k (Suc i) ?s = Ret () t \<and> pages_inv t \<and> admin ?s t \<and> same_table ?s t \<and>
          h_proc t = (h_proc ?s)(p \<mapsto> ?x\<lparr>n_data_page := 0\<rparr>) \<and>
          free_pages t = free_pages ?s \<union> set (filter (\<lambda>a. a \<noteq> NULL) (drop (Suc i) (data_page ?x)))"
      proof (rule Suc.IH)
        show "set (filter (\<lambda>a. a \<noteq> NULL) (drop (Suc i) (data_page ?x))) \<subseteq> in_use ?s"
          using Suc.prems(7,8) ps page by (auto simp: in_use_def)
      qed (use Suc.prems page ps in simp_all)
      then obtain t where t: "free_data_pages_loop (Suc n) p k (Suc i) ?s = Ret () t" "pages_inv t" "admin ?s t" "same_table ?s t"
        "h_proc t = (h_proc ?s)(p \<mapsto> ?x\<lparr>n_data_page := 0\<rparr>)"
        "free_pages t = free_pages ?s \<union> set (filter (\<lambda>a. a \<noteq> NULL) (drop (Suc i) (data_page ?x)))" by blast
      have "admin s t" using t(3) admin_trans [of s ?s t] by simp
      moreover have "same_table s t" using t(4) by (simp add: same_table_def)
      moreover have "h_proc t = (h_proc s)(p \<mapsto> x\<lparr>n_data_page := 0\<rparr>)" using t(5) by simp
      moreover have "free_pages t = free_pages s \<union> set (?ps i)" using t(6) page ps by simp
      moreover have "free_data_pages_loop (Suc n) p (Suc k) i s = Ret () t"
        using t(1) Suc.prems(2,3) pos nn page by simp
      ultimately show ?thesis using t(2) by blast
    qed
  qed
qed

lemma free_data_pages_ok:
  assumes "pages_inv s" "p \<noteq> NULL" "process_wf p x s"
  obtains t where "free_data_pages (Suc n) p s = Ret () t" "pages_inv t" "admin s t" "same_table s t"
    "h_proc t = (h_proc s)(p \<mapsto> x\<lparr>n_data_page := 0\<rparr>)" "free_pages t = free_pages s \<union> set (owned_pages x)"
proof -
  have "set (owned_pages x) \<subseteq> in_use s" using assms(3) by (auto simp: process_wf_def)
  then have "\<exists>t. free_data_pages_loop (Suc n) p MAX_DATA_PAGES 0 s = Ret () t \<and> pages_inv t \<and> admin s t \<and> same_table s t \<and>
    h_proc t = (h_proc s)(p \<mapsto> x\<lparr>n_data_page := 0\<rparr>) \<and>
    free_pages t = free_pages s \<union> set (filter (\<lambda>a. a \<noteq> NULL) (drop 0 (data_page x)))"
    using assms by (intro free_data_pages_loop_ok) (simp_all add: process_wf_def owned_pages_def)
  then show thesis using that by (auto simp: free_data_pages_def owned_pages_def)
qed

text \<open>
  A change of the foreground process: the processes keep everything but their status.
\<close>

definition same_but_status :: "(ptr \<Rightarrow> process option) \<Rightarrow> (ptr \<Rightarrow> process option) \<Rightarrow> bool" where
  "same_but_status P P' \<longleftrightarrow>
     (\<forall>q. map_option (\<lambda>x. x\<lparr>p_st := READY\<rparr>) (P' q) = map_option (\<lambda>x. x\<lparr>p_st := READY\<rparr>) (P q))"

lemma same_but_status_refl [simp]: "same_but_status P P"
  by (simp add: same_but_status_def)

lemma same_but_status_upd: "P q = Some x \<Longrightarrow> same_but_status P (P(q \<mapsto> x\<lparr>p_st := st\<rparr>))"
  by (simp add: same_but_status_def)

lemma same_but_status_Some:
  assumes "same_but_status P P'" "P q = Some x"
  obtains st where "P' q = Some (x\<lparr>p_st := st\<rparr>)"
proof -
  from assms have "map_option (\<lambda>x. x\<lparr>p_st := READY\<rparr>) (P' q) = Some (x\<lparr>p_st := READY\<rparr>)"
    unfolding same_but_status_def by (metis option.map(2))
  then obtain y where y: "P' q = Some y" "y\<lparr>p_st := READY\<rparr> = x\<lparr>p_st := READY\<rparr>" by auto
  then have "y = x\<lparr>p_st := p_st y\<rparr>" by (cases x; cases y) simp
  with y(1) show thesis using that by metis
qed

lemma set_foreground_ok:
  assumes "cur_node s \<noteq> NULL" "h_snode s (cur_node s) \<noteq> None" "q = NULL \<or> h_proc s q \<noteq> None"
  shows "\<exists>P f. set_foreground_process q s = Ret () (s\<lparr>h_proc := P, foreground := f\<rparr>) \<and> same_but_status (h_proc s) P"
proof -
  obtain d where d: "h_snode s (cur_node s) = Some d" using assms(2) by blast
  have same: "s\<lparr>h_proc := h_proc s, foreground := foreground s\<rparr> = s" by simp
  show ?thesis
  proof (cases "foreground s = sn_p d \<and> q \<noteq> NULL \<and> p_pid (the (h_proc s q)) \<noteq> 0")
    case False
    then have "set_foreground_process q s = Ret () s"
      using assms d by (auto simp: set_foreground_process_def get_current_process_def set_foreground_force_process_def)
    then show ?thesis using same same_but_status_refl by metis
  next
    case True
    then obtain x where x: "h_proc s q = Some x" using assms(3) by auto
    let ?P = "if p_st x = BLOCKED_FOREGROUND then (h_proc s)(q \<mapsto> x\<lparr>p_st := READY\<rparr>) else h_proc s"
    have "set_foreground_process q s = Ret () (s\<lparr>h_proc := ?P, foreground := q\<rparr>)"
      using assms(1) d True x
      by (simp add: set_foreground_process_def get_current_process_def set_foreground_force_process_def
          unblock_foreground_process_def put_proc_def)
    moreover have "same_but_status (h_proc s) ?P" using same_but_status_upd [of "h_proc s" q x READY] x by simp
    ultimately show ?thesis by blast
  qed
qed

section \<open>The table invariant\<close>

text \<open>
  Every entry of the table is a process in use with that pid, and \<open>n_processes\<close> counts them.
\<close>

definition table_ok :: "kstate \<Rightarrow> bool" where
  "table_ok s \<longleftrightarrow>
     length (process_table s) = MAX_PROCESSES \<and>
     (\<forall>i < MAX_PROCESSES. process_table s ! i \<noteq> NULL \<longrightarrow>
        process_table s ! i \<in> in_use s \<and>
        (\<exists>x. h_proc s (process_table s ! i) = Some x \<and> p_pid x = of_nat i)) \<and>
     unat (n_processes s) = length (filter (\<lambda>p. p \<noteq> NULL) (process_table s))"

lemma table_entry:
  assumes "table_ok s" "i < MAX_PROCESSES" "process_table s ! i \<noteq> NULL"
  obtains x where "h_proc s (process_table s ! i) = Some x" "p_pid x = of_nat i" "process_table s ! i \<in> in_use s"
  using assms by (auto simp: table_ok_def)

lemma table_pid:
  assumes "table_ok s" "i < MAX_PROCESSES" "process_table s ! i = p" "p \<noteq> NULL" "h_proc s p = Some x"
  shows "unat (p_pid x) = i"
proof -
  have "p_pid x = of_nat i" using table_entry [OF assms(1,2)] assms(3-5) by auto
  then show ?thesis using assms(2) by (simp add: unat_of_nat_u64)
qed

lemma destroy_process_ok:
  assumes inv: "kernel_inv s" "table_ok s" and i: "i < MAX_PROCESSES" "process_table s ! i = p" "p \<noteq> NULL"
    and wf: "process_wf p x s" and cur: "cur_node s \<noteq> NULL" "h_snode s (cur_node s) \<noteq> None"
    and fg: "foreground s = p \<Longrightarrow> unat (p_ppid x) < MAX_PROCESSES"
  obtains t where "destroy_process (Suc n) p s = Ret () t" "kernel_inv t"
    "free_pages t = free_pages s \<union> insert p (set (owned_pages x))"
    "free_stacks t = insert (stack_page x) (free_stacks s)"
    "process_table t = (process_table s)[i := NULL]" "n_processes t = n_processes s - 1"
    "same_but_status ((h_proc s)(p \<mapsto> x\<lparr>n_data_page := 0\<rparr>)) (h_proc t)"
    "h_snode t = h_snode s" "cur_node t = cur_node s" "prev_node t = prev_node s"
    "foreground s \<noteq> p \<Longrightarrow> h_proc t = (h_proc s)(p \<mapsto> x\<lparr>n_data_page := 0\<rparr>) \<and> foreground t = foreground s"
proof -
  let ?k = "table_key s" and ?s1 = "(acquired (table_key s) s)\<lparr>n_processes := n_processes s - 1\<rparr>"
  have hx: "h_proc s p = Some x" using wf by (simp add: process_wf_def)
  note pid = table_pid [OF inv(2) i hx]
  have acq: "pages_inv ?s1" "stacks_inv ?s1" "admin (acquired ?k s) ?s1"
    using acquired_inv [OF inv(1)] kernel_frame [of "acquired ?k s" ?s1] by simp_all
  have "free_pages ?s1 = free_pages s" "free_stacks ?s1 = free_stacks s"
    using kernel_frame [of "acquired ?k s" ?s1] by simp_all
  then have wf1: "process_wf p x ?s1" using wf by (simp add: process_wf_def in_use_def)
  obtain s2 where s2: "free_data_pages (Suc n) p ?s1 = Ret () s2" "pages_inv s2" "admin ?s1 s2" "same_table ?s1 s2"
    "h_proc s2 = (h_proc ?s1)(p \<mapsto> x\<lparr>n_data_page := 0\<rparr>)" "free_pages s2 = free_pages ?s1 \<union> set (owned_pages x)"
    by (rule free_data_pages_ok [OF acq(1) i(3) wf1])
  let ?x = "x\<lparr>n_data_page := 0\<rparr>"
  have h2: "h_proc s2 p = Some ?x" using s2(5) by simp
  obtain P f where s3: "(if foreground s2 = p
       then rd h_proc p s2 (\<lambda>x. table_at (p_ppid x) s2 (\<lambda>q. set_foreground_process q s2))
       else Ret () s2) = Ret () (s2\<lparr>h_proc := P, foreground := f\<rparr>)" "same_but_status (h_proc s2) P"
    "foreground s \<noteq> p \<longrightarrow> P = h_proc s2 \<and> f = foreground s"
  proof (cases "foreground s2 = p")
    case False
    then show ?thesis using that [of "foreground s2" "h_proc s2"] s2(4) by (simp add: same_table_def)
  next
    case True
    let ?q = "process_table s ! unat (p_ppid x)"
    have pp: "unat (p_ppid x) < 128" using fg True s2(4) by (simp add: same_table_def)
    have "?q = NULL \<or> h_proc s2 ?q \<noteq> None" using table_entry [OF inv(2) pp] s2(5) by auto
    moreover have "cur_node s2 \<noteq> NULL" "h_snode s2 (cur_node s2) \<noteq> None" using cur s2(3) by (simp_all add: admin_def)
    ultimately obtain P f where "set_foreground_process ?q s2 = Ret () (s2\<lparr>h_proc := P, foreground := f\<rparr>)"
      "same_but_status (h_proc s2) P" using set_foreground_ok by blast
    moreover have "process_table s2 = process_table s" "foreground s = p" using s2(4) True by (simp_all add: same_table_def)
    ultimately show ?thesis using that True h2 i(3) pp by (simp add: table_at_def)
  qed
  let ?s4 = "s2\<lparr>h_proc := P, foreground := f, process_table := (process_table s)[i := NULL]\<rparr>"
  obtain st where st: "P p = Some (?x\<lparr>p_st := st\<rparr>)" by (rule same_but_status_Some [OF s3(2) h2])
  have a4: "admin (acquired ?k s) ?s4" using admin_trans [OF acq(3) s2(3)] by simp
  have k4: "pages_inv ?s4" "stacks_inv ?s4" "free_pages ?s4 = free_pages s \<union> set (owned_pages x)" "free_stacks ?s4 = free_stacks s"
    using kernel_frame [of s2 ?s4] s2 admin_facts [OF s2(3)] acq \<open>free_pages ?s1 = _\<close> \<open>free_stacks ?s1 = _\<close> by simp_all
  let ?s5 = "relinquished ?k ?s4"
  have s5: "kernel_inv ?s5" using relinquished_inv [OF inv(1) a4 k4(1,2)] .
  have emp: "mutex_empty ?k ?s4" if "mutex_is_open ?k ?s4"
    using that admin_facts [OF a4] inv(1) by (simp add: kernel_inv_def mutex_free_def)
  have "stacks_inv ?s5" "stack_page x \<in> process_stacks - free_stacks ?s5"
    using s5 k4(4) wf by (simp_all add: kernel_inv_def process_wf_def)
  note stack = store_stack_step [OF this, of n]
  let ?s6 = "stacked_in (stack_page x) ?s5"
  have "pages_inv ?s6" "p \<in> in_use ?s6"
    using s5 wf k4(3) by (auto simp: kernel_inv_def process_wf_def in_use_def)
  note page = store_page_step [OF this, of n]
  let ?t = "paged_in p ?s6"
  have "destroy_process (Suc n) p s = Ret () ?t"
  proof -
    have l: "bnd (lock_table (Suc n) s) (\<lambda>_ t. K t) = K (acquired ?k s)" for K :: "kstate \<Rightarrow> unit kres"
      unfolding lock_table_def bnd_assoc bnd.simps using inv(1) by (intro lock_step) (simp add: kernel_inv_def)
    have k: "table_key ?s4 = ?k" using a4 by (simp add: admin_def)
    have u: "bnd (unlock_table (Suc n) ?s4) (\<lambda>_ t. K t) = K ?s5" for K :: "kstate \<Rightarrow> unit kres"
      unfolding unlock_table_def bnd_assoc bnd.simps k by (intro unlock_step emp)
    let ?s3 = "s2\<lparr>h_proc := P, foreground := f\<rparr>"
    have r3: "rd h_proc p ?s3 K = K (?x\<lparr>p_st := st\<rparr>)" for K :: "process \<Rightarrow> unit kres" using i(3) st by simp
    have r5: "rd h_proc p ?s5 K = K (?x\<lparr>p_st := st\<rparr>)" for K :: "process \<Rightarrow> unit kres" using i(3) st by simp
    have pt: "process_table ?s3 = process_table s" using s2(4) by (simp add: same_table_def)
    have ti: "table_at (p_pid (?x\<lparr>p_st := st\<rparr>)) ?s3 K = K p" for K :: "ptr \<Rightarrow> unit kres"
      using pid i pt by (simp add: table_at_def)
    have s4: "?s3\<lparr>process_table := (process_table ?s3)[unat (p_pid (?x\<lparr>p_st := st\<rparr>)) := NULL]\<rparr> = ?s4"
      using pid pt by simp
    have "bnd (unlock_table (Suc n) ?s4) (\<lambda>_ s. rd h_proc p s (\<lambda>x.
        bnd (store_stack_page (Suc n) (stack_page x) s) (\<lambda>_ s. bnd (store_page (Suc n) p s) (\<lambda>_ s. Ret () s)))) = Ret () ?t"
      unfolding u r5 using stack page by simp
    then show ?thesis
      using i(3) unfolding destroy_process_def l acquired_frame s2(1) bnd.simps s3(1) r3 ti s4 Let_def by simp
  qed
  moreover have "kernel_inv ?t" using s5 stack page by (simp add: kernel_inv_def)
  moreover have "free_pages ?t = free_pages s \<union> insert p (set (owned_pages x))" using page k4(3) by auto
  moreover have "free_stacks ?t = insert (stack_page x) (free_stacks s)" using stack k4(4) by simp
  ultimately show thesis using that [of ?t] s2 s3 a4 by (simp add: same_table_def admin_def)
qed

lemma length_filter_update:
  assumes "i < length xs"
  shows "length (filter P (xs[i := y])) + (if P (xs ! i) then 1 else 0) = length (filter P xs) + (if P y then 1 else 0)"
proof -
  have xs: "xs = take i xs @ xs ! i # drop (Suc i) xs" using assms by (rule id_take_nth_drop)
  have "length (filter P xs) = length (filter P (take i xs @ xs ! i # drop (Suc i) xs))" by (subst xs) simp
  then show ?thesis using assms by (simp add: upd_conv_take_nth_drop)
qed

lemma first_free_slot:
  assumes "first_free s < MAX_PROCESSES"
  shows "process_table s ! first_free s = NULL" "j < first_free s \<Longrightarrow> process_table s ! j \<noteq> NULL"
  using scan_stops [of 128 "\<lambda>i. process_table s ! i = NULL" 0] scan_before [of 0 j 128 "\<lambda>i. process_table s ! i = NULL"] assms
  by (simp_all add: first_free_def)

lemma table_ok_create:
  assumes ok: "table_ok s" and i: "first_free s < MAX_PROCESSES" and p: "p \<in> free_pages s" "p \<in> data_pages" "p \<noteq> NULL"
    and t: "h_proc t = (h_proc s)(p \<mapsto> x)" "p_pid x = of_nat (first_free s)" "free_pages t = free_pages s - {p}"
      "process_table t = (process_table s)[first_free s := p]" "n_processes t = n_processes s + 1"
  shows "table_ok t"
proof -
  let ?i = "first_free s"
  have len: "length (process_table s) = 128" using ok by (simp add: table_ok_def)
  have "?i < length (process_table s)" using i len by simp
  note cnt = length_filter_update [OF this, of "\<lambda>q. q \<noteq> NULL" p]
  have "length (filter (\<lambda>q. q \<noteq> NULL) (process_table t)) = Suc (length (filter (\<lambda>q. q \<noteq> NULL) (process_table s)))"
    using cnt first_free_slot(1) [OF i] p(3) t(4) by simp
  moreover have "length (filter (\<lambda>q. q \<noteq> NULL) (process_table t)) \<le> 128"
    using length_filter_le [of _ "process_table t"] t(4) len by simp
  ultimately have n: "unat (n_processes s) < 128" "unat (n_processes s) = length (filter (\<lambda>q. q \<noteq> NULL) (process_table s))"
    "length (filter (\<lambda>q. q \<noteq> NULL) (process_table t)) = Suc (unat (n_processes s))"
    using ok by (simp_all add: table_ok_def)
  have "n_processes s \<noteq> - 1" using n(1) by (auto simp: unsigned_minus_1_eq_mask mask_eq_exp_minus_1)
  then have "unat (n_processes t) = length (filter (\<lambda>q. q \<noteq> NULL) (process_table t))" using n t(5) by (simp add: unat_Suc_word)
  moreover have "process_table t ! j \<in> in_use t \<and> (\<exists>y. h_proc t (process_table t ! j) = Some y \<and> p_pid y = of_nat j)"
    if "j < 128" "process_table t ! j \<noteq> NULL" for j
  proof (cases "j = ?i")
    case True
    then show ?thesis using t len p that by (simp add: in_use_def)
  next
    case False
    then have e: "process_table t ! j = process_table s ! j" using t(4) by simp
    note j = that
    obtain y where y: "h_proc s (process_table s ! j) = Some y" "p_pid y = of_nat j" "process_table s ! j \<in> in_use s"
      using table_entry [OF ok j(1)] j(2) e by auto
    then have "process_table s ! j \<noteq> p" using p(1) by (auto simp: in_use_def)
    then show ?thesis using y e t(1,3) by (auto simp: in_use_def)
  qed
  ultimately show ?thesis using len t(4) by (simp add: table_ok_def)
qed

lemma table_ok_destroy:
  assumes ok: "table_ok s" and i: "i < MAX_PROCESSES" "process_table s ! i = p" "p \<noteq> NULL"
    and A: "A \<inter> set (process_table s) \<subseteq> {p}"
    and t: "same_but_status ((h_proc s)(p \<mapsto> x)) (h_proc t)" "free_pages t = free_pages s \<union> A"
      "process_table t = (process_table s)[i := NULL]" "n_processes t = n_processes s - 1"
  shows "table_ok t"
proof -
  have len: "length (process_table s) = 128" using ok by (simp add: table_ok_def)
  have "i < length (process_table s)" using i len by simp
  note cnt = length_filter_update [OF this, of "\<lambda>q. q \<noteq> NULL" NULL]
  have n: "unat (n_processes s) = Suc (length (filter (\<lambda>q. q \<noteq> NULL) (process_table t)))"
    using cnt i t(3) ok by (simp add: table_ok_def)
  then have "n_processes s \<noteq> 0" by auto
  then have "unat (n_processes t) = length (filter (\<lambda>q. q \<noteq> NULL) (process_table t))"
    using n t(4) by (simp add: unat_pred_word)
  moreover have "process_table t ! j \<in> in_use t \<and> (\<exists>y. h_proc t (process_table t ! j) = Some y \<and> p_pid y = of_nat j)"
    if "j < 128" "process_table t ! j \<noteq> NULL" for j
  proof -
    have "j \<noteq> i" using that t(3) len by auto
    then have e: "process_table t ! j = process_table s ! j" using t(3) by simp
    note j = that
    obtain y where y: "h_proc s (process_table s ! j) = Some y" "p_pid y = of_nat j" "process_table s ! j \<in> in_use s"
      using table_entry [OF ok j(1)] j(2) e by auto
    have "process_table s ! j \<noteq> p"
    proof
      assume "process_table s ! j = p"
      then have "unat (p_pid y) = i" "unat (p_pid y) = j"
        using table_pid [OF ok i, of y] table_pid [OF ok that(1), of p y] y i by simp_all
      with \<open>j \<noteq> i\<close> show False by simp
    qed
    moreover from this have "((h_proc s)(p \<mapsto> x)) (process_table s ! j) = Some y" using y by simp
    from same_but_status_Some [OF t(1) this] obtain st where "h_proc t (process_table s ! j) = Some (y\<lparr>p_st := st\<rparr>)" by blast
    moreover have "process_table s ! j \<in> set (process_table s)" using len that by simp
    ultimately show ?thesis using y e A t(2) by (auto simp: in_use_def)
  qed
  ultimately show ?thesis using len t(3) by (simp add: table_ok_def)
qed

section \<open>Reading the table\<close>

lemma pids_loop_ok:
  assumes "table_ok s"
  shows "i + k = MAX_PROCESSES \<Longrightarrow>
    pids_loop k i (int (length (filter (\<lambda>p. p \<noteq> NULL) (drop i (process_table s))))) s =
    Ret (map int (filter (\<lambda>j. process_table s ! j \<noteq> NULL) [i..<MAX_PROCESSES])) s"
proof (induction k arbitrary: i)
  case (Suc k)
  let ?l = "\<lambda>i. filter (\<lambda>p. p \<noteq> NULL) (drop i (process_table s))"
  have i: "i < 128" using Suc.prems by simp
  have len: "length (process_table s) = 128" using assms by (simp add: table_ok_def)
  have d: "drop i (process_table s) = process_table s ! i # drop (Suc i) (process_table s)"
    using i len by (simp add: Cons_nth_drop_Suc)
  have u: "[i..<128] = i # [Suc i..<128]" using i by (simp add: upt_conv_Cons)
  have IH: "pids_loop k (Suc i) (int (length (?l (Suc i)))) s =
      Ret (map int (filter (\<lambda>j. process_table s ! j \<noteq> NULL) [Suc i..<128])) s" using Suc by simp
  show ?case
  proof (cases "process_table s ! i = NULL")
    case True
    then have l: "?l i = ?l (Suc i)" using d by simp
    show ?thesis
    proof (cases "?l (Suc i) = []")
      case empty: True
      have "\<not> process_table s ! j \<noteq> NULL" if "Suc i \<le> j" "j < 128" for j
      proof -
        have "process_table s ! j \<in> set (drop (Suc i) (process_table s))"
          using that len by (auto simp: in_set_conv_nth intro!: exI [of _ "j - Suc i"])
        then show ?thesis using empty by (auto simp: filter_empty_conv)
      qed
      then have "filter (\<lambda>j. process_table s ! j \<noteq> NULL) [i..<128] = []" using True u by (auto simp: filter_empty_conv)
      then show ?thesis unfolding l empty by simp
    next
      case False
      then show ?thesis using IH True u unfolding l by simp
    qed
  next
    case False
    obtain x where x: "h_proc s (process_table s ! i) = Some x" "p_pid x = of_nat i"
      using table_entry [OF assms i] False by auto
    have "?l i = process_table s ! i # ?l (Suc i)" using d False by simp
    then show ?thesis using IH False u x i by (simp add: pid_process_def to_int_of_nat)
  qed
qed simp

lemma to_int_of_nat_le: "n \<le> 128 \<Longrightarrow> to_int (of_nat n) = int n"
  unfolding to_int_def by transfer (simp add: take_bit_int_eq_self signed_take_bit_int_eq_self)

section \<open>Properties\<close>

text \<open>
  The state in which the properties are evaluated: the two processes in the table, as pids 0 and
  1, with the first two stacks.
\<close>

definition process_A :: process where
  "process_A = zero_process\<lparr>p_pid := 0, p_st := RUNNING, stack_page := stack_address 0\<rparr>"

definition process_B :: process where
  "process_B = zero_process\<lparr>p_pid := 1, p_st := READY, stack_page := stack_address 1\<rparr>"

definition two_in_table :: kstate where
  "two_in_table = (initialize_stack_memory_allocator two_processes)
     \<lparr>current_stack_index := 2, h_proc := [proc_A \<mapsto> process_A, proc_B \<mapsto> process_B],
      process_table := [proc_A, proc_B] @ replicate 126 NULL, n_processes := 2\<rparr>"

lemma two_in_table_frame [simp]:
  "h_proc two_in_table = [proc_A \<mapsto> process_A, proc_B \<mapsto> process_B]"
  "process_table two_in_table = [proc_A, proc_B] @ replicate 126 NULL" "n_processes two_in_table = 2"
  "current_stack_index two_in_table = 2" "cur_node two_in_table = node_A" "table_key two_in_table = - 1"
  "stack_key two_in_table = - 1" "mem_key two_in_table = 0"
  "h_snode two_in_table = h_snode two_processes" "open_mutexes two_in_table = open_mutexes two_processes"
  "h_queue two_in_table = h_queue two_processes" "current_index two_in_table = current_index two_processes"
  "pages_stack two_in_table = pages_stack two_processes" "foreground two_in_table = NULL"
  by (simp_all add: two_in_table_def two_processes_def initialize_stack_memory_allocator_def
      initialize_memory_allocator_def power_on_zero_def power_on_def)

lemma two_in_table_stacks: "stack_pages_stack two_in_table = map stack_address [0..<128]"
proof -
  have "length (stack_pages_stack two_processes) = 128"
    by (simp add: two_processes_def initialize_memory_allocator_def power_on_zero_def power_on_def)
  from initialize_stack_pages [OF this] show ?thesis by (simp add: two_in_table_def)
qed

lemma two_in_table_next_stack: "next_stack two_in_table = stack_address 2"
  by (simp add: next_stack_def two_in_table_stacks numeral_2_eq_2 [symmetric] del: upt_rec_numeral)

lemma two_in_table_kernel: "kernel_inv two_in_table" "free_pages two_in_table = free_pages two_processes"
  "free_stacks two_in_table = stack_address ` {2..<128}"
proof -
  let ?s = two_in_table
  have m: "mutex_is_open k ?s = mutex_is_open k two_processes" "mutex_free k ?s = mutex_free k two_processes" for k
    by (simp_all add: mutex_is_open_def mutex_free_def mutex_empty_def the_mutex_def)
  show f: "free_pages ?s = free_pages two_processes" by (simp add: free_pages_def)
  have p: "pages_inv ?s" using two_processes_pages_inv(1) m by (simp add: pages_inv_def)
  have d: "drop 2 (map stack_address [0..<128]) = map stack_address [2..<128]" by (simp add: drop_map numeral_2_eq_2 [symmetric] del: upt_rec_numeral)
  show st: "free_stacks ?s = stack_address ` {2..<128}"
  proof -
    have "unat (2 :: u16) = 2" by simp
    then show ?thesis unfolding free_stacks_def two_in_table_stacks two_in_table_frame by (simp only: d set_map set_upt)
  qed
  have "distinct (map stack_address [2..<128])"
    unfolding distinct_map using stack_address_inj by (auto simp: inj_on_def simp del: upt_rec_numeral)
  then have "stacks_inv ?s"
    using st image_mono [of "{2..<128}" "{..<128}" stack_address]
    by (auto simp: stacks_inv_def two_in_table_stacks d mutex_free_def mutex_is_open_def process_stacks_def simp del: upt_rec_numeral)
  then show "kernel_inv ?s" using p by (simp add: kernel_inv_def keys_distinct_def mutex_free_def mutex_is_open_def)
qed

lemma two_in_table_free: "first_free two_in_table = 2"
  unfolding first_free_def by (rule scan_0_eqI) (auto simp: nth_append less_Suc_eq numeral_2_eq_2)

lemma two_in_table_pages: "i \<in> {1, 2, 3, 4, 5, 6} \<Longrightarrow> page_address i \<in> in_use two_in_table"
proof -
  assume i: "i \<in> {1, 2, 3, 4, 5, 6}"
  let ?ps = "map (\<lambda>i. of_nat (i + 1) :: u8) [0..<254] @ [0]"
  have ps: "pages_stack two_in_table = ?ps"
    using initialize_memory_allocator_pages [OF power_on_zero_frame(1)] by (simp add: two_processes_def)
  have "i \<in> set (take 6 ?ps)" using i by (auto simp: take_map take_upt upt_rec)
  moreover have "distinct (take 6 ?ps @ drop 6 ?ps)" using distinct_init_pages by (simp only: append_take_drop_id)
  ultimately have "i \<notin> set (drop 6 ?ps)" by (simp only: distinct_append) blast
  then show ?thesis
    using i unfolding in_use_def free_pages_def data_pages_def ps two_in_table_frame two_processes_frame
    by (auto simp: page_address_inj)
qed

lemma two_in_table_ok: "table_ok two_in_table"
proof -
  have "proc_A \<in> in_use two_in_table" "proc_B \<in> in_use two_in_table"
    using two_in_table_pages by (simp_all add: two_processes_pages)
  then have "process_table two_in_table ! i \<in> in_use two_in_table \<and>
      (\<exists>x. h_proc two_in_table (process_table two_in_table ! i) = Some x \<and> p_pid x = of_nat i)"
    if "i < 128" "process_table two_in_table ! i \<noteq> NULL" for i
    using that by (cases "i = 0"; cases "i = 1") (auto simp: nth_append nth_Cons' process_A_def process_B_def split: if_splits)
  then show ?thesis by (simp add: table_ok_def)
qed

lemma two_in_table_current: "current_is proc_A process_A two_in_table"
  using two_in_table_pages [of 2] by (simp add: current_is_def proc_A_def [symmetric] in_use_def)

text \<open>
  C12. \<open>create_process\<close> succeeds whenever a page, a stack and a slot of the table are free. It takes
  the first free pid, gives the process its own page and its own stack, with no data pages and no
  open files, and lays out a frame from which \<open>iretq\<close> starts it at its entry point with its
  argument in \<open>rdi\<close>, interrupts enabled. The table stays consistent.
\<close>

theorem create_process_creates:
  assumes "kernel_inv s" "table_ok s" "free_pages s \<noteq> {}" "free_stacks s \<noteq> {}"
    and "first_free s < MAX_PROCESSES" "length name < MAX_PROCESS_NAME" "current_is c y s"
  shows "\<exists>p x t f. create_process (Suc n) rip params name s = Ret p t \<and> kernel_inv t \<and> table_ok t \<and>
    p \<in> free_pages s \<and> free_pages t = free_pages s - {p} \<and>
    process_table s ! first_free s = NULL \<and> process_table t = (process_table s)[first_free s := p] \<and>
    h_proc t = (h_proc s)(p \<mapsto> x) \<and> p_pid x = of_nat (first_free s) \<and> p_st x = READY \<and> p_name x = name \<and>
    owned_pages x = [] \<and> open_fds x = 0 \<and> (first_free s \<noteq> 0 \<longrightarrow> p_ppid x = p_pid y) \<and>
    stack_page x \<in> free_stacks s \<and> free_stacks t = free_stacks s - {stack_page x} \<and>
    h_frame t (p_rsp x) = Some f \<and> p_rsp x = stack_page x - FRAME_SIZE \<and>
    sf_rip f = rip \<and> sf_rdi f = params \<and> sf_eflags f = 0x202 \<and> sf_rsp f = p_rsp x + 176"
proof -
  let ?p = "next_page s" and ?x = "new_process s rip (parent_pid s y) name"
  obtain t where t: "create_process (Suc n) rip params name s = Ret ?p t"
    "h_proc t = (h_proc s)(?p \<mapsto> ?x)" "process_table t = (process_table s)[first_free s := ?p]"
    "n_processes t = n_processes s + 1"
    "h_frame t = (h_frame s)(next_stack s - FRAME_SIZE \<mapsto> start_frame rip (next_stack s - FRAME_SIZE) params)"
    "free_pages t = free_pages s - {?p}" "free_stacks t = free_stacks s - {next_stack s}" "kernel_inv t"
    using create_process_ok [OF assms(1,3-6), of c y n rip params] assms(7) by metis
  have page: "?p \<in> free_pages s" "next_stack s \<in> free_stacks s"
    using get_page_step [of s] get_stack_step [of s] assms(1,3,4) by (simp_all add: kernel_inv_def)
  have x: "p_pid ?x = of_nat (first_free s)" "p_st ?x = READY" "p_name ?x = name" "owned_pages ?x = []" "open_fds ?x = 0"
    "stack_page ?x = next_stack s" "p_rsp ?x = next_stack s - FRAME_SIZE" "p_ppid ?x = parent_pid s y"
    by (simp_all add: new_process_def next_stack_def owned_pages_def Let_def)
  have par: "first_free s \<noteq> 0 \<longrightarrow> p_ppid ?x = p_pid y" unfolding x(8) by (simp add: parent_pid_def)
  have "?p \<in> data_pages" using page data.free_universe [of s] assms(1) by (auto simp: kernel_inv_def)
  then have "table_ok t"
    using table_ok_create [OF assms(2,5) page(1) _ _ t(2) x(1) t(6,3,4)] by (simp add: next_page_def)
  then show ?thesis
    using t x(1-7) page first_free_slot(1) [OF assms(5)] par
    by (intro exI [of _ ?p] exI [of _ ?x] exI [of _ t] exI [of _ "start_frame rip (p_rsp ?x) params"])
      (simp add: start_frame_def)
qed

theorem create_process_creates_witness:
  "\<exists>p x t. create_process 1 0x400000 7 ''shell'' two_in_table = Ret p t \<and> table_ok t \<and>
     h_proc t p = Some x \<and> p_pid x = 2"
proof -
  note w = two_in_table_kernel
  have "free_pages two_in_table \<noteq> {}" using w(2) two_processes_pages_inv(2) by simp
  moreover have "free_stacks two_in_table \<noteq> {}" using w(3) by simp
  ultimately show ?thesis
    using create_process_creates [OF w(1) two_in_table_ok _ _ _ _ two_in_table_current, where name = "''shell''" and n = 0 and rip = "0x400000" and params = 7]
      two_in_table_free by auto
qed

text \<open>
  C13. \<open>destroy_process\<close> gives back everything the process had and nothing else: its own page, each
  of its data pages, and its stack; its slot of the table becomes free, the others keep their
  processes, and the table stays consistent.
\<close>

theorem destroy_process_frees:
  assumes "kernel_inv s" "table_ok s" "i < MAX_PROCESSES" "process_table s ! i = p" "p \<noteq> NULL"
    and "process_wf p x s" "cur_node s \<noteq> NULL" "h_snode s (cur_node s) \<noteq> None"
    and "foreground s = p \<longrightarrow> unat (p_ppid x) < MAX_PROCESSES"
    and "set (owned_pages x) \<inter> set (process_table s) = {}"
  shows "\<exists>t. destroy_process (Suc n) p s = Ret () t \<and> kernel_inv t \<and> table_ok t \<and>
    free_pages t = free_pages s \<union> insert p (set (owned_pages x)) \<and>
    free_stacks t = insert (stack_page x) (free_stacks s) \<and> process_table t = (process_table s)[i := NULL]"
proof -
  obtain t where t: "destroy_process (Suc n) p s = Ret () t" "kernel_inv t"
    "free_pages t = free_pages s \<union> insert p (set (owned_pages x))"
    "free_stacks t = insert (stack_page x) (free_stacks s)"
    "process_table t = (process_table s)[i := NULL]" "n_processes t = n_processes s - 1"
    "same_but_status ((h_proc s)(p \<mapsto> x\<lparr>n_data_page := 0\<rparr>)) (h_proc t)"
    using destroy_process_ok [OF assms(1-8), of n] assms(9) by metis
  have "insert p (set (owned_pages x)) \<inter> set (process_table s) \<subseteq> {p}" using assms(10) by auto
  from table_ok_destroy [OF assms(2-5) this t(7,3,5,6)] t show ?thesis by blast
qed

lemma two_in_table_wf_B: "process_wf proc_B process_B two_in_table"
proof -
  have own: "owned_pages process_B = []" by (simp add: owned_pages_def process_B_def zero_process_def)
  have "stack_address 1 \<noteq> stack_address k" if "2 \<le> k" "k < 128" for k using stack_address_inj [of 1 k] that by auto
  then show ?thesis
    using two_in_table_pages [of 4] own
    by (auto simp: process_wf_def proc_B_def [symmetric] two_in_table_kernel process_stacks_def)
      (simp_all add: process_B_def zero_process_def)
qed

theorem destroy_process_frees_witness:
  "\<exists>t. destroy_process 1 proc_B two_in_table = Ret () t \<and> table_ok t \<and>
     free_pages t = insert proc_B (free_pages two_in_table) \<and> process_table t ! 1 = NULL"
proof -
  have own: "owned_pages process_B = []" by (simp add: owned_pages_def process_B_def zero_process_def)
  show ?thesis
    using destroy_process_frees [OF two_in_table_kernel(1) two_in_table_ok, of 1 proc_B process_B 0]
      two_in_table_wf_B own by auto
qed

text \<open>
  \<open>get_current_pids\<close> reports exactly the pids in use, in increasing order, followed by -1, and
  returns their number.
\<close>

theorem get_current_pids_complete:
  assumes "kernel_inv s" "table_ok s"
  shows "\<exists>t. get_current_pids (Suc n) s =
      Ret (int (unat (n_processes s)),
           map int (filter (\<lambda>i. process_table s ! i \<noteq> NULL) [0..<MAX_PROCESSES]) @ [- 1]) t \<and> kernel_inv t"
proof -
  let ?k = "table_key s" and ?L = "map int (filter (\<lambda>i. process_table s ! i \<noteq> NULL) [0..<MAX_PROCESSES])"
  let ?s = "acquired ?k s"
  have ok: "table_ok ?s" using assms(2) by (simp add: table_ok_def in_use_def)
  have count: "unat (n_processes s) = length (filter (\<lambda>p. p \<noteq> NULL) (process_table s))"
    using assms(2) by (simp add: table_ok_def)
  have "length (filter (\<lambda>p. p \<noteq> NULL) (process_table s)) \<le> length (process_table s)" by (rule length_filter_le)
  moreover have len: "length (process_table s) = 128" using assms(2) by (simp add: table_ok_def)
  ultimately have le: "length (filter (\<lambda>p. p \<noteq> NULL) (process_table s)) \<le> 128" by simp
  have n: "to_int (n_processes s) = int (length (filter (\<lambda>p. p \<noteq> NULL) (process_table s)))"
  proof -
    have "n_processes s = of_nat (length (filter (\<lambda>p. p \<noteq> NULL) (process_table s)))"
      unfolding count [symmetric] by simp
    then show ?thesis using to_int_of_nat_le [OF le] by simp
  qed
  have loop: "pids_loop 128 0 (to_int (n_processes ?s)) ?s = Ret ?L ?s"
    using pids_loop_ok [OF ok, of 0 128] n by simp
  have "map ((!) (process_table s)) [0..<128] = process_table s" using map_nth [of "process_table s"] len by metis
  then have "length ?L = length (filter (\<lambda>p. p \<noteq> NULL) (process_table s))"
    by (metis (no_types, lifting) length_filter_map length_map comp_apply filter_cong)
  then have l: "int (length ?L) = int (unat (n_processes s))" using count by simp
  have emp: "mutex_empty ?k ?s" if "mutex_is_open ?k ?s"
    using that assms(1) by (simp add: kernel_inv_def mutex_free_def)
  have "get_current_pids (Suc n) s = Ret (int (length ?L), ?L @ [- 1]) (relinquished ?k ?s)"
  proof -
    have "mutex_free ?k s" using assms(1) by (simp add: kernel_inv_def)
    note lock = lock_step [OF this]
    have k: "table_key ?s = ?k" by simp
    have "bnd (mutex_unlock (Suc n) ?k ?s) (\<lambda>_ t. K t) = K (relinquished ?k ?s)" for K :: "kstate \<Rightarrow> (int \<times> int list) kres"
      by (rule unlock_step [OF emp])
    then show ?thesis
      unfolding get_current_pids_def lock_table_def unlock_table_def bnd_assoc bnd.simps lock loop k by simp
  qed
  moreover have "kernel_inv (relinquished ?k ?s)"
    using relinquished_inv [OF assms(1) admin_refl] acquired_inv [OF assms(1)] by blast
  ultimately show ?thesis unfolding l by blast
qed

theorem get_current_pids_complete_witness:
  "\<exists>L t. get_current_pids 1 two_in_table = Ret (2, L @ [- 1]) t \<and> kernel_inv t"
  using get_current_pids_complete [OF two_in_table_kernel(1) two_in_table_ok, of 0] by auto

text \<open>
  The bit map of open files of a process behaves like a set for the descriptors 0 to 30:
  opening or closing one changes that one only. From 31 to 63 the shift is undefined, although
  the code admits these descriptors; from 64 on the operations refuse.
\<close>

theorem file_descriptor_set:
  assumes "p \<noteq> NULL" "h_proc s p = Some x" "0 \<le> fd" "fd < 31" "0 \<le> fd'" "fd' < 31"
  shows "(\<exists>t. set_file_open p fd s = Ret 1 t \<and>
        file_is_open p fd' t = Ret (fd' = fd \<or> bit (open_fds x) (nat fd')) t) \<and>
    (\<exists>t. set_file_closed p fd s = Ret 1 t \<and>
        file_is_open p fd' t = Ret (fd' \<noteq> fd \<and> bit (open_fds x) (nat fd')) t) \<and>
    (\<forall>g. 31 \<le> g \<and> g < 64 \<longrightarrow> set_file_open p g s = Fault Bad_Shift) \<and>
    (\<forall>g. 64 \<le> g \<longrightarrow> set_file_open p g s = Ret 0 s)"
proof -
  have b: "and w (2 ^ n) \<noteq> 0 \<longleftrightarrow> bit w n" for w :: u64 and n
    by (simp add: and_exp_eq_0_iff_not_bit)
  have bit1: "bit ((2 :: u64) ^ m) n \<longleftrightarrow> n = m \<and> n < 64" for m n
    by (auto simp: bit_exp_iff)
  have eq: "nat fd' = nat fd \<longleftrightarrow> fd' = fd" using assms by auto
  have lt: "nat fd' < 64" using assms by simp
  show ?thesis
    using assms eq lt
    by (simp add: set_file_open_def set_file_closed_def file_is_open_def with_fd_bit_def fd_bit_def b
        bit_or_iff bit_and_iff bit_not_iff bit1 disj_commute conj_commute)
qed

theorem file_descriptor_set_witness:
  "\<exists>t. set_file_open proc_A 5 two_in_table = Ret 1 t \<and> file_is_open proc_A 5 t = Ret True t"
  using file_descriptor_set [of proc_A two_in_table process_A 5 5] by auto

definition pages_counted :: "process \<Rightarrow> bool" where
  "pages_counted x \<longleftrightarrow> length (data_page x) = MAX_DATA_PAGES \<and> n_data_page x = of_nat (length (owned_pages x))"

lemma pages_loop_ok: "pages_loop as (int (length (filter (\<lambda>a. a \<noteq> NULL) as))) = filter (\<lambda>a. a \<noteq> NULL) as"
proof (induction as)
  case (Cons a as)
  have "filter (\<lambda>a. a \<noteq> NULL) as = []" if "length (filter (\<lambda>a. a \<noteq> NULL) as) = 0" using that by simp
  then show ?case using Cons by auto
qed simp

lemma mset_owned_update:
  assumes "i < length (data_page x)"
  shows "mset (owned_pages (x\<lparr>n_data_page := m, data_page := (data_page x)[i := a]\<rparr>)) =
    (if a = NULL then {#} else {#a#}) + (mset (owned_pages x) - (if data_page x ! i = NULL then {#} else {#data_page x ! i#}))"
  using assms by (auto simp: owned_pages_def mset_update filter_diff_mset mset_filter)

lemma pages_counted_mset: "pages_counted x \<longleftrightarrow> length (data_page x) = MAX_DATA_PAGES \<and> n_data_page x = of_nat (size (mset (owned_pages x)))"
  by (simp add: pages_counted_def)

lemma add_data_page_ok:
  assumes "p \<noteq> NULL" "h_proc s p = Some x" "pages_counted x" "length (owned_pages x) < MAX_DATA_PAGES" "page \<noteq> NULL"
  obtains y where "add_data_page p page s = Ret () (put_proc p y s)" "pages_counted y"
    "mset (owned_pages y) = add_mset page (mset (owned_pages x))" "p_st y = p_st x" "p_pid y = p_pid x" "stack_page y = stack_page x"
proof -
  let ?i = "scan 64 (\<lambda>i. data_page x ! i = NULL) 0"
  have len: "length (data_page x) = 64" using assms(3) by (simp add: pages_counted_def)
  have "?i < 64"
  proof (rule ccontr)
    assume "\<not> ?i < 64"
    then have "?i = 64" using scan_le [of 64 _ 0] by (metis add_0 le_neq_implies_less)
    then have "\<forall>j<64. data_page x ! j \<noteq> NULL" by (simp add: scan_0_full_iff)
    then have "owned_pages x = data_page x" using len by (auto simp: owned_pages_def filter_id_conv in_set_conv_nth)
    with assms(4) len show False by simp
  qed
  then have i: "?i < length (data_page x)" "data_page x ! ?i = NULL" using len scan_stops [of 64 _ 0] by auto
  let ?y = "x\<lparr>n_data_page := n_data_page x + 1, data_page := (data_page x)[?i := page]\<rparr>"
  have m: "mset (owned_pages ?y) = add_mset page (mset (owned_pages x))"
    using mset_owned_update [OF i(1), of page "n_data_page x + 1"] i(2) assms(5) by simp
  have "add_data_page p page s = Ret () (put_proc p ?y s)"
    using assms(1,2) \<open>?i < 64\<close> by (simp add: add_data_page_def Let_def)
  moreover have "pages_counted ?y" using assms(3) m len unfolding pages_counted_mset by simp
  ultimately show thesis using that m by simp
qed

lemma remove_data_page_ok:
  assumes "p \<noteq> NULL" "h_proc s p = Some x" "pages_counted x" "page \<in># mset (owned_pages x)"
  obtains y where "remove_data_page p page s = Ret () (put_proc p y s)" "pages_counted y"
    "mset (owned_pages y) = mset (owned_pages x) - {#page#}" "p_st y = p_st x" "p_pid y = p_pid x" "stack_page y = stack_page x"
proof -
  let ?i = "scan 64 (\<lambda>i. data_page x ! i = page) 0"
  have len: "length (data_page x) = 64" using assms(3) by (simp add: pages_counted_def)
  have page: "page \<in> set (data_page x)" "page \<noteq> NULL" using assms(4) by (auto simp: owned_pages_def)
  have "?i < 64"
  proof (rule ccontr)
    assume "\<not> ?i < 64"
    then have "?i = 64" using scan_le [of 64 _ 0] by (metis add_0 le_neq_implies_less)
    then have "\<forall>j<64. data_page x ! j \<noteq> page" by (simp add: scan_0_full_iff)
    then show False using page(1) len by (auto simp: in_set_conv_nth)
  qed
  then have i: "?i < length (data_page x)" "data_page x ! ?i = page" using len scan_stops [of 64 _ 0] by auto
  let ?y = "x\<lparr>n_data_page := n_data_page x - 1, data_page := (data_page x)[?i := NULL]\<rparr>"
  have m: "mset (owned_pages ?y) = mset (owned_pages x) - {#page#}"
    using mset_owned_update [OF i(1), of NULL "n_data_page x - 1"] i(2) page(2) by simp
  have "remove_data_page p page s = Ret () (put_proc p ?y s)"
    using assms(1,2) \<open>?i < 64\<close> by (simp add: remove_data_page_def Let_def)
  moreover have "pages_counted ?y"
  proof -
    define k where "k = size (mset (owned_pages ?y))"
    have "size (mset (owned_pages x)) = Suc k" using assms(4) m unfolding k_def by (metis insert_DiffM size_add_mset)
    then have "n_data_page x = of_nat (Suc k)" using assms(3) unfolding pages_counted_mset by metis
    then have "n_data_page ?y = of_nat (size (mset (owned_pages ?y)))" unfolding k_def [symmetric] by simp
    then show ?thesis unfolding pages_counted_mset using len by simp
  qed
  ultimately show thesis using that m by simp
qed

lemma data_pages_process_ok:
  assumes "p \<noteq> NULL" "h_proc s p = Some x" "pages_counted x"
  shows "data_pages_process p s = Ret (owned_pages x @ [NULL]) s"
proof -
  have "length (owned_pages x) \<le> length (data_page x)" by (simp add: owned_pages_def)
  then have "length (owned_pages x) \<le> 64" using assms(3) by (simp add: pages_counted_def)
  then have "to_int (n_data_page x) = int (length (owned_pages x))"
    using assms(3) to_int_of_nat_le [of "length (owned_pages x)"] by (simp add: pages_counted_def)
  then show ?thesis using assms(1,2) pages_loop_ok [of "data_page x"] by (simp add: data_pages_process_def owned_pages_def)
qed

text \<open>
  The data pages of a process are accounted for exactly: while fewer than 64 are held, adding a
  page adds it once and counts it, removing it undoes that, and \<open>data_pages_process\<close> lists the
  pages held, ended by \<open>NULL\<close>.
\<close>

theorem data_pages_accounting:
  assumes "p \<noteq> NULL" "h_proc s p = Some x" "pages_counted x" "length (owned_pages x) < MAX_DATA_PAGES" "page \<noteq> NULL"
  shows "\<exists>y z. add_data_page p page s = Ret () (put_proc p y s) \<and> pages_counted y \<and>
    mset (owned_pages y) = add_mset page (mset (owned_pages x)) \<and>
    data_pages_process p (put_proc p y s) = Ret (owned_pages y @ [NULL]) (put_proc p y s) \<and>
    remove_data_page p page (put_proc p y s) = Ret () (put_proc p z s) \<and> pages_counted z \<and>
    mset (owned_pages z) = mset (owned_pages x)"
proof -
  obtain y where y: "add_data_page p page s = Ret () (put_proc p y s)" "pages_counted y"
    "mset (owned_pages y) = add_mset page (mset (owned_pages x))" using add_data_page_ok [OF assms] by blast
  have h: "h_proc (put_proc p y s) p = Some y" by simp
  have "page \<in># mset (owned_pages y)" unfolding y(3) by simp
  then obtain z where "remove_data_page p page (put_proc p y s) = Ret () (put_proc p z (put_proc p y s))" "pages_counted z"
    "mset (owned_pages z) = mset (owned_pages y) - {#page#}" using remove_data_page_ok [OF assms(1) h y(2)] by blast
  then show ?thesis using y data_pages_process_ok [OF assms(1) h y(2)] by (intro exI [of _ y] exI [of _ z]) simp
qed

theorem data_pages_accounting_witness:
  "\<exists>y. add_data_page proc_A 0x50A000 two_in_table = Ret () (put_proc proc_A y two_in_table) \<and>
     mset (owned_pages y) = {#0x50A000#}"
proof -
  have e: "owned_pages process_A = []" "pages_counted process_A"
    by (simp_all add: pages_counted_def owned_pages_def process_A_def zero_process_def)
  show ?thesis using data_pages_accounting [of proc_A two_in_table process_A "0x50A000"] e by auto
qed

section \<open>Printing the processes\<close>

text \<open>
  \<open>print_processes\<close> looks at as many entries of the table as there are processes, whether they are used or not. It passes its arguments to
  \<open>get_process_info_by_pid\<close> in the wrong order: \<open>pi\<close>, the address of its local variable, is taken for the pid, and the pid for the
  address to write to. \<open>m\<close> entries are left.
\<close>

primrec print_processes_loop :: "u64 \<Rightarrow> nat \<Rightarrow> nat \<Rightarrow> kstate \<Rightarrow> unit kres" where
  "print_processes_loop pi 0 i s = Ret () s"
| "print_processes_loop pi (Suc m) i s =
     table_at (of_nat i) s (\<lambda>p. rd h_proc p s (\<lambda>x.
     bnd (get_process_by_pid pi s) (\<lambda>q s. if q = NULL then print_processes_loop pi m (Suc i) s else Fault Bad_Pointer)))"

definition print_processes :: "u64 \<Rightarrow> kstate \<Rightarrow> unit kres" where
  "print_processes pi s = print_processes_loop pi (unat (n_processes s)) 0 s"

text \<open>It reads through a null pointer as soon as a process in the middle of the table has ended.\<close>

lemma print_processes_loop_hole:
  assumes "MAX_PROCESSES \<le> unat pi" "table_ok s" "k < MAX_PROCESSES"
    and "\<And>j. i \<le> j \<Longrightarrow> j < k \<Longrightarrow> process_table s ! j \<noteq> NULL" "i \<le> k"
    and "process_table s ! k = NULL" "k < i + m"
  shows "print_processes_loop pi m i s = Fault Null_Deref"
proof -
  have none: "get_process_by_pid pi s = Ret NULL s" using assms(1) by (simp add: get_process_by_pid_def)
  have step: "print_processes_loop pi (Suc m) j s = print_processes_loop pi m (Suc j) s" if "i \<le> j" "j < k" for m j
  proof -
    have j: "j < MAX_PROCESSES" "process_table s ! j \<noteq> NULL" using that assms(3,4) by simp_all
    obtain x where "h_proc s (process_table s ! j) = Some x" by (rule table_entry [OF assms(2) j])
    then show ?thesis using j none by (simp add: table_at_def unat_of_nat_u64)
  qed
  have "print_processes_loop pi m j s = Fault Null_Deref" if "process_table s ! k = NULL" "i \<le> j" "j \<le> k" "k < j + m" for m j
    using that
  proof (induction m arbitrary: j)
    case (Suc m)
    show ?case
    proof (cases "j = k")
      case True
      then show ?thesis using Suc.prems(1) assms(3) by (simp add: table_at_def unat_of_nat_u64 rd_def)
    next
      case False
      then show ?thesis using Suc step [of j m] by simp
    qed
  qed simp
  then show ?thesis using assms(5-7) by simp
qed

lemma print_processes_hole:
  assumes "MAX_PROCESSES \<le> unat pi" "table_ok s" "first_free s < unat (n_processes s)"
  shows "print_processes pi s = Fault Null_Deref"
proof -
  have "length (filter (\<lambda>p. p \<noteq> NULL) (process_table s)) \<le> MAX_PROCESSES"
    using assms(2) length_filter_le [of _ "process_table s"] by (simp add: table_ok_def)
  then have f: "first_free s < MAX_PROCESSES" using assms(2,3) by (simp add: table_ok_def)
  show ?thesis unfolding print_processes_def
    by (rule print_processes_loop_hole [OF assms(1,2) f]) (use first_free_slot [OF f] assms(3) in auto)
qed

end
