(* ===== verification/Scheduler.thy ===== *)
theory Scheduler
  imports Process_Table
begin

text \<open>
  The scheduler (\<open>Kernel/processManager.c\<close>): a ring of nodes, one per process, with the running
  process at \<open>current\<close>. The timer interrupt and \<open>int 70h\<close> call \<open>next_process\<close> with the stack pointer of the
  interrupted process and continue with the one it returns. The theory shows that the ring is
  served in turn and skips blocked processes, what adding and ending a process does to the ring,
  and that the search for a runnable process does not end when there is none.
\<close>

section \<open>The routines\<close>

abbreviation QUANTUM :: int where "QUANTUM \<equiv> 1"

text \<open>
  The loop of \<open>set_next_current\<close>; the second number bounds its turns. A process to be deleted is
  taken out of the ring (behind \<open>prev\<close>) and destroyed.
\<close>

primrec set_next_current :: "nat \<Rightarrow> nat \<Rightarrow> kstate \<Rightarrow> unit kres" where
  "set_next_current n 0 s = Fault Out_Of_Fuel"
| "set_next_current n (Suc m) s =
     rd h_snode (cur_node s) s (\<lambda>c.
     bnd (is_blocked_process (sn_p c) s) (\<lambda>blocked s.
     bnd (is_delete_process (sn_p c) s) (\<lambda>dead s.
       if blocked \<or> dead then
         bnd (if dead then
                rd h_snode (prev_node s) s (\<lambda>pv.
                let s = put_snode (prev_node s) (pv\<lparr>sn_next := sn_next c\<rparr>) s
                in rd h_snode (cur_node s) s (\<lambda>c'.
                   bnd (destroy_process n (sn_p c') s) (\<lambda>_ s.
                   bnd (store_page n (cur_node s) s) (\<lambda>_ s. Ret () s))))
              else Ret () (s\<lparr>prev_node := cur_node s\<rparr>)) (\<lambda>_ s.
         set_next_current n m (s\<lparr>cur_node := sn_next c\<rparr>))
       else Ret () s)))"

definition next_process :: "nat \<Rightarrow> nat \<Rightarrow> u64 \<Rightarrow> kstate \<Rightarrow> u64 kres" where
  "next_process n m current_rsp s =
     (if cur_node s = NULL then Ret current_rsp s
      else
        bnd (unassign_quantum s) (\<lambda>_ s.
        rd h_snode (cur_node s) s (\<lambda>c.
          if quantum c > 0 then Ret current_rsp s
          else if superlock s = 0 then Ret current_rsp (s\<lparr>superlock := 0\<rparr>)
          else
            let s = put_snode (cur_node s) (c\<lparr>quantum := QUANTUM\<rparr>) (s\<lparr>superlock := 0\<rparr>)
            in bnd (set_rsp_process (sn_p c) current_rsp s) (\<lambda>_ s.
               rd h_snode (cur_node s) s (\<lambda>c.
               bnd (set_next_current n m (s\<lparr>prev_node := cur_node s, cur_node := sn_next c\<rparr>)) (\<lambda>_ s.
                 let s = unset_superlock s
                 in rd h_snode (cur_node s) s (\<lambda>c. get_rsp_process (sn_p c) s)))))))"

definition add_process :: "nat \<Rightarrow> ptr \<Rightarrow> kstate \<Rightarrow> unit kres" where
  "add_process n p s =
     bnd (get_page n s) (\<lambda>new s.
       if new = NULL then Fault Null_Deref
       else
         let s = set_superlock s
         in if cur_node s = NULL
            then Ret () (unset_superlock (put_snode new \<lparr>quantum = QUANTUM, sn_p = p, sn_next = new\<rparr>
                   (s\<lparr>cur_node := new, prev_node := new\<rparr>)))
            else rd h_snode (cur_node s) s (\<lambda>c.
                   let s = put_snode new \<lparr>quantum = QUANTUM, sn_p = p, sn_next = sn_next c\<rparr> s
                   in rd h_snode (cur_node s) s (\<lambda>c.
                        Ret () (unset_superlock (put_snode (cur_node s) (c\<lparr>sn_next := new\<rparr>) s)))))"

text \<open>
  \<open>_change_process\<close> loads a stack pointer and does not come back: a routine either returns a value
  or leaves with the stack pointer of the process to run.
\<close>

datatype 'a or_switch = Returns 'a | Switch_To u64

definition exec_process :: "nat \<Rightarrow> ptr \<Rightarrow> kstate \<Rightarrow> int or_switch kres" where
  "exec_process n p s =
     bnd (add_process n p s) (\<lambda>_ s.
     bnd (pid_process p s) (\<lambda>pid s.
       if to_int pid = 0
       then rd h_snode (cur_node s) s (\<lambda>c. bnd (get_rsp_process (sn_p c) s) (\<lambda>rsp s. Ret (Switch_To rsp) s))
       else Ret (Returns (to_int pid)) s))"

definition end_process :: "nat \<Rightarrow> nat \<Rightarrow> kstate \<Rightarrow> unit or_switch kres" where
  "end_process n m s =
     (let s = set_superlock s; node = cur_node s
      in rd h_snode node s (\<lambda>c.
         bnd (destroy_process n (sn_p c) s) (\<lambda>_ s.
         rd h_snode (cur_node s) s (\<lambda>c.
         rd h_snode (prev_node s) s (\<lambda>pv.
           let s = put_snode (prev_node s) (pv\<lparr>sn_next := sn_next c\<rparr>) s
           in rd h_snode (cur_node s) s (\<lambda>c.
              bnd (set_next_current n m (s\<lparr>cur_node := sn_next c\<rparr>)) (\<lambda>_ s.
              bnd (store_page n node (unset_superlock s)) (\<lambda>_ s.
              bnd (assign_quantum s) (\<lambda>_ s.
              rd h_snode (cur_node s) s (\<lambda>c.
              bnd (get_rsp_process (sn_p c) s) (\<lambda>rsp s. Ret (Switch_To rsp) s)))))))))))"

section \<open>The ring\<close>

text \<open>\<open>rpath R a ns b\<close>: following \<open>next\<close> from \<open>a\<close> visits the nodes \<open>ns\<close>, with these processes, and arrives at \<open>b\<close>.\<close>

primrec rpath :: "(ptr \<Rightarrow> list_node option) \<Rightarrow> ptr \<Rightarrow> (ptr \<times> ptr) list \<Rightarrow> ptr \<Rightarrow> bool" where
  "rpath R a [] b \<longleftrightarrow> a = b"
| "rpath R a (n # ns) b \<longleftrightarrow>
     a = fst n \<and> a \<noteq> NULL \<and>
     (case R a of None \<Rightarrow> False | Some c \<Rightarrow> sn_p c = snd n \<and> rpath R (sn_next c) ns b)"

lemma rpath_append: "rpath R a (xs @ ys) b \<longleftrightarrow> (\<exists>m. rpath R a xs m \<and> rpath R m ys b)"
  by (induction xs arbitrary: a) (auto split: option.splits)

lemma rpath_cong:
  "(\<And>q. q \<in> fst ` set ns \<Longrightarrow> map_option (\<lambda>c. (sn_p c, sn_next c)) (R' q) = map_option (\<lambda>c. (sn_p c, sn_next c)) (R q)) \<Longrightarrow>
   rpath R' a ns b = rpath R a ns b"
proof (induction ns arbitrary: a)
  case (Cons n ns)
  have IH: "rpath R' a ns b = rpath R a ns b" for a using Cons by simp
  have "map_option (\<lambda>c. (sn_p c, sn_next c)) (R' (fst n)) = map_option (\<lambda>c. (sn_p c, sn_next c)) (R (fst n))" using Cons.prems by simp
  then show ?case using IH by (cases "R (fst n)"; cases "R' (fst n)") auto
qed simp

lemma rpath_quantum: "R b = Some d \<Longrightarrow> rpath (R(b \<mapsto> d\<lparr>quantum := k\<rparr>)) a ns e = rpath R a ns e"
  by (rule rpath_cong) auto

text \<open>The ring read from the running process: the nodes with their processes, each node once.\<close>

definition ring_of :: "kstate \<Rightarrow> (ptr \<times> ptr) list \<Rightarrow> bool" where
  "ring_of s ns \<longleftrightarrow> ns \<noteq> [] \<and> distinct (map fst ns) \<and> rpath (h_snode s) (cur_node s) ns (cur_node s)"

definition waits :: "kstate \<Rightarrow> ptr \<Rightarrow> bool" where
  "waits s p \<longleftrightarrow> (case h_proc s p of None \<Rightarrow> False
     | Some x \<Rightarrow> p_st x = BLOCKED \<or> p_st x = BLOCKED_READ \<or> p_st x = BLOCKED_FOREGROUND)"

definition runs :: "kstate \<Rightarrow> ptr \<Rightarrow> bool" where
  "runs s p \<longleftrightarrow> (case h_proc s p of None \<Rightarrow> False | Some x \<Rightarrow> p_st x = READY \<or> p_st x = RUNNING)"

lemma waits_eq: "p \<noteq> NULL \<Longrightarrow> waits s p \<Longrightarrow> is_blocked_process p s = Ret True s \<and> is_delete_process p s = Ret False s"
  by (auto simp: waits_def is_blocked_process_def is_delete_process_def split: option.splits)

lemma runs_eq: "p \<noteq> NULL \<Longrightarrow> runs s p \<Longrightarrow> is_blocked_process p s = Ret False s \<and> is_delete_process p s = Ret False s"
  by (auto simp: runs_def is_blocked_process_def is_delete_process_def split: option.splits)

lemma set_next_current_skips:
  assumes "rpath (h_snode s) (cur_node s) (bs @ [(c, p)]) e" "\<forall>w \<in> set bs. snd w \<noteq> NULL \<and> waits s (snd w)"
    "p \<noteq> NULL" "runs s p" "length bs < m"
  shows "set_next_current n m s =
    Ret () (s\<lparr>cur_node := c, prev_node := (if bs = [] then prev_node s else fst (last bs))\<rparr>)"
  using assms
proof (induction bs arbitrary: s m)
  case Nil
  then obtain k where "m = Suc k" by (metis less_imp_Suc_add)
  with Nil runs_eq [OF Nil.prems(3,4)] show ?case by (auto split: option.splits)
next
  case (Cons w bs)
  obtain k where k: "m = Suc k" using Cons.prems(5) by (metis less_imp_Suc_add)
  from Cons.prems(1) obtain d where d: "cur_node s = fst w" "fst w \<noteq> NULL" "h_snode s (fst w) = Some d" "sn_p d = snd w"
    "rpath (h_snode s) (sn_next d) (bs @ [(c, p)]) e" by (auto split: option.splits)
  let ?s = "s\<lparr>prev_node := cur_node s, cur_node := sn_next d\<rparr>"
  have "set_next_current n k ?s =
      Ret () (?s\<lparr>cur_node := c, prev_node := (if bs = [] then prev_node ?s else fst (last bs))\<rparr>)"
    using Cons.prems(2-5) d(5) k by (intro Cons.IH) (simp_all add: waits_def runs_def)
  moreover have "is_blocked_process (snd w) s = Ret True s" "is_delete_process (snd w) s = Ret False s"
    using waits_eq [of "snd w" s] Cons.prems(2) by simp_all
  ultimately show ?case using k d by simp
qed

text \<open>One step along the ring.\<close>

lemma ring_step:
  assumes "ring_of s (w # ns)"
  obtains d where "cur_node s = fst w" "fst w \<noteq> NULL" "h_snode s (fst w) = Some d" "sn_p d = snd w"
    "rpath (h_snode s) (sn_next d) ns (fst w)"
  using assms by (auto simp: ring_of_def split: option.splits)

lemma ring_rotate:
  assumes "ring_of s (w # ns)" "h_snode s (fst w) = Some d" "h_snode t = h_snode s" "cur_node t = sn_next d"
  shows "ring_of t (ns @ [w])"
proof -
  obtain d' where d': "fst w \<noteq> NULL" "h_snode s (fst w) = Some d'" "sn_p d' = snd w" "rpath (h_snode s) (sn_next d') ns (fst w)"
    by (rule ring_step [OF assms(1)])
  then have "d' = d" using assms(2) by simp
  with d' assms show ?thesis by (simp add: ring_of_def rpath_append)
qed

lemma set_next_current_stuck:
  assumes "ring_of s ns" "\<forall>w \<in> set ns. snd w \<noteq> NULL \<and> waits s (snd w)"
  shows "set_next_current n m s = Fault Out_Of_Fuel"
  using assms
proof (induction m arbitrary: s ns)
  case (Suc m)
  obtain w ws where ns: "ns = w # ws" using Suc.prems(1) by (cases ns) (auto simp: ring_of_def)
  obtain d where d: "cur_node s = fst w" "fst w \<noteq> NULL" "h_snode s (fst w) = Some d" "sn_p d = snd w"
    by (rule ring_step [OF Suc.prems(1) [unfolded ns]])
  let ?s = "s\<lparr>prev_node := cur_node s, cur_node := sn_next d\<rparr>"
  have "ring_of ?s (ws @ [w])" using ring_rotate [OF Suc.prems(1) [unfolded ns] d(3)] by simp
  moreover have "\<forall>v \<in> set (ws @ [w]). snd v \<noteq> NULL \<and> waits ?s (snd v)" using Suc.prems(2) ns by (auto simp: waits_def)
  ultimately have "set_next_current n m ?s = Fault Out_Of_Fuel" by (rule Suc.IH)
  moreover have "is_blocked_process (snd w) s = Ret True s" "is_delete_process (snd w) s = Ret False s"
    using waits_eq [of "snd w" s] Suc.prems(2) ns by simp_all
  ultimately show ?case using d by simp
qed simp

section \<open>Switching\<close>

text \<open>
  The quantum of the running process is used up and no kernel section is protected by the
  superlock: the state in which \<open>next_process\<close> looks for another process.
\<close>

definition quantum_over :: "kstate \<Rightarrow> bool" where
  "quantum_over s \<longleftrightarrow> superlock s \<noteq> 0 \<and>
     (case h_snode s (cur_node s) of None \<Rightarrow> False | Some c \<Rightarrow> quantum c \<le> 1)"

text \<open>The state in which the search starts: the stack pointer saved, the quantum renewed.\<close>

definition suspended :: "ptr \<Rightarrow> list_node \<Rightarrow> ptr \<Rightarrow> process \<Rightarrow> u64 \<Rightarrow> kstate \<Rightarrow> kstate" where
  "suspended a c p x rsp s = s\<lparr>superlock := 0, h_snode := (h_snode s)(a \<mapsto> c\<lparr>quantum := QUANTUM\<rparr>),
     h_proc := (h_proc s)(p \<mapsto> x\<lparr>p_rsp := rsp\<rparr>), prev_node := a, cur_node := sn_next c\<rparr>"

lemma next_process_search:
  assumes "cur_node s = a" "a \<noteq> NULL" "h_snode s a = Some c" "quantum c \<le> 1" "superlock s \<noteq> 0"
    "sn_p c = p" "p \<noteq> NULL" "h_proc s p = Some x"
  shows "next_process n m rsp s =
    bnd (set_next_current n m (suspended a c p x rsp s)) (\<lambda>_ s.
      let s = unset_superlock s in rd h_snode (cur_node s) s (\<lambda>c. get_rsp_process (sn_p c) s))"
  using assms
  by (simp add: next_process_def unassign_quantum_def put_snode_def put_proc_def set_rsp_process_def
      suspended_def Let_def)

lemma suspended_frame [simp]:
  "cur_node (suspended a c p x rsp s) = sn_next c" "prev_node (suspended a c p x rsp s) = a"
  "h_snode (suspended a c p x rsp s) = (h_snode s)(a \<mapsto> c\<lparr>quantum := QUANTUM\<rparr>)"
  "h_proc (suspended a c p x rsp s) = (h_proc s)(p \<mapsto> x\<lparr>p_rsp := rsp\<rparr>)"
  by (simp_all add: suspended_def)

lemma suspended_status:
  assumes "h_proc s p = Some x"
  shows "waits (suspended a c p x rsp s) q = waits s q" "runs (suspended a c p x rsp s) q = runs s q"
  using assms by (auto simp: waits_def runs_def)

lemma ring_split:
  assumes "rpath R a (bs @ (b, q) # es) a" "distinct (map fst (bs @ (b, q) # es))"
  shows "rpath R a (bs @ [(b, q)]) (fst (hd (es @ bs @ [(b, q)]))) \<and> rpath R b ((b, q) # es @ bs) b"
proof -
  obtain m where m: "rpath R a bs m" "rpath R m ((b, q) # es) a" using assms(1) by (auto simp: rpath_append)
  then have "m = b" by simp
  with m have loop: "rpath R b ((b, q) # es @ bs) b" by (auto simp: rpath_append split: option.splits)
  obtain e where e: "rpath R a (bs @ [(b, q)]) e" "rpath R e es a" using m by (auto simp: rpath_append split: option.splits)
  have "e = fst (hd (es @ bs @ [(b, q)]))"
    using e m \<open>m = b\<close> by (cases es; cases bs) (auto split: option.splits)
  with e loop show ?thesis by simp
qed

text \<open>What a switch leaves alone: everything but the ring, the processes and the superlock.\<close>

definition unscheduled :: "kstate \<Rightarrow> kstate" where
  "unscheduled s = s\<lparr>h_snode := Map.empty, h_proc := Map.empty, cur_node := NULL, prev_node := NULL, superlock := 0\<rparr>"

lemma unscheduled_fields:
  assumes "unscheduled t = unscheduled s"
  shows "open_mutexes t = open_mutexes s" "h_queue t = h_queue s" "memory_mutex_key t = memory_mutex_key s"
    "stack_memory_mutex_key t = stack_memory_mutex_key s" "table_mutex_key t = table_mutex_key s" "pages_stack t = pages_stack s"
    "current_index t = current_index s" "stack_pages_stack t = stack_pages_stack s" "current_stack_index t = current_stack_index s"
    "process_table t = process_table s" "n_processes t = n_processes s" "foreground t = foreground s"
proof -
  have eq: "f (unscheduled t) = f (unscheduled s)" for f :: "kstate \<Rightarrow> 'a" using assms by simp
  show "open_mutexes t = open_mutexes s" using eq [of open_mutexes] by (simp add: unscheduled_def)
  show "h_queue t = h_queue s" using eq [of h_queue] by (simp add: unscheduled_def)
  show "memory_mutex_key t = memory_mutex_key s" using eq [of memory_mutex_key] by (simp add: unscheduled_def)
  show "stack_memory_mutex_key t = stack_memory_mutex_key s" using eq [of stack_memory_mutex_key] by (simp add: unscheduled_def)
  show "table_mutex_key t = table_mutex_key s" using eq [of table_mutex_key] by (simp add: unscheduled_def)
  show "pages_stack t = pages_stack s" using eq [of pages_stack] by (simp add: unscheduled_def)
  show "current_index t = current_index s" using eq [of current_index] by (simp add: unscheduled_def)
  show "stack_pages_stack t = stack_pages_stack s" using eq [of stack_pages_stack] by (simp add: unscheduled_def)
  show "current_stack_index t = current_stack_index s" using eq [of current_stack_index] by (simp add: unscheduled_def)
  show "process_table t = process_table s" using eq [of process_table] by (simp add: unscheduled_def)
  show "n_processes t = n_processes s" using eq [of n_processes] by (simp add: unscheduled_def)
  show "foreground t = foreground s" using eq [of foreground] by (simp add: unscheduled_def)
qed

lemma next_process_switches:
  assumes ring: "ring_of s ((a, p) # rest)" and split: "rest @ [(a, p)] = bs @ (b, q) # es"
    and known: "p \<noteq> NULL" "h_proc s p = Some x" "q \<noteq> NULL" "h_proc s q = Some y" "runs s q"
    and wait: "\<forall>w \<in> set bs. snd w \<noteq> NULL \<and> waits s (snd w)" and over: "quantum_over s" and m: "length bs < m"
  obtains t where "next_process n m rsp s = Ret (if q = p then rsp else p_rsp y) t" "cur_node t = b"
    "ring_of t ((b, q) # es @ bs)" "superlock t = UNLOCKED" "h_proc t = (h_proc s)(p \<mapsto> x\<lparr>p_rsp := rsp\<rparr>)"
    "\<And>c d. h_snode t c = Some d \<Longrightarrow> \<exists>d'. h_snode s c = Some d' \<and> (quantum d = quantum d' \<or> quantum d = QUANTUM)"
    "prev_node t = (if bs = [] then a else fst (last bs))" "unscheduled t = unscheduled s"
proof -
  obtain c where c: "cur_node s = a" "a \<noteq> NULL" "h_snode s a = Some c" "sn_p c = p"
    using ring by (auto elim: ring_step)
  have q1: "quantum c \<le> 1" "superlock s \<noteq> 0" using over c by (simp_all add: quantum_over_def)
  let ?s = "suspended a c p x rsp s"
  have same: "rpath (h_snode ?s) e ns f = rpath (h_snode s) e ns f" for e ns f
    by (rule rpath_cong) (use c in auto)
  have "ring_of (s\<lparr>cur_node := sn_next c\<rparr>) (rest @ [(a, p)])"
    by (rule ring_rotate [OF ring]) (use c in simp_all)
  then have r: "rpath (h_snode ?s) (sn_next c) (bs @ (b, q) # es) (sn_next c)" "distinct (map fst (bs @ (b, q) # es))"
    unfolding same split ring_of_def by simp_all
  note rs = ring_split [OF r]
  have "set_next_current n m ?s = Ret () (?s\<lparr>cur_node := b, prev_node := (if bs = [] then prev_node ?s else fst (last bs))\<rparr>)"
    by (rule set_next_current_skips) (use rs wait known m suspended_status [OF known(2)] in auto)
  moreover obtain d where "h_snode ?s b = Some d" "sn_p d = q" "b \<noteq> NULL"
    using rs by (auto split: option.splits)
  ultimately have "next_process n m rsp s = Ret (if q = p then rsp else p_rsp y)
      (unset_superlock (?s\<lparr>cur_node := b, prev_node := (if bs = [] then prev_node ?s else fst (last bs))\<rparr>))" (is "_ = Ret _ ?t")
    using next_process_search [OF c(1-3) q1 c(4) known(1,2), of n m rsp] known
    by (simp add: unset_superlock_def Let_def get_rsp_process_def)
  moreover have "ring_of ?t ((b, q) # es @ bs)"
    using rs r(2) by (auto simp: ring_of_def unset_superlock_def)
  moreover have "\<exists>d'. h_snode s e = Some d' \<and> (quantum d = quantum d' \<or> quantum d = QUANTUM)"
    if "h_snode ?t e = Some d" for e d
    using that c(3) by (cases "e = a") (auto simp: unset_superlock_def)
  moreover have "unscheduled ?t = unscheduled s" by (simp add: unscheduled_def unset_superlock_def suspended_def)
  ultimately show thesis by (intro that [of ?t]) (simp_all add: unset_superlock_def)
qed

section \<open>Properties\<close>

text \<open>A sequence of switches, one for each stack pointer: every time the quantum is over.\<close>

primrec switches :: "nat \<Rightarrow> nat \<Rightarrow> u64 list \<Rightarrow> kstate \<Rightarrow> kstate option" where
  "switches n m [] s = Some s"
| "switches n m (r # rs) s =
     (case next_process n m r s of Ret _ t \<Rightarrow> switches n m rs t | _ \<Rightarrow> None)"

text \<open>Every process of the ring waits or can run, and no node has more than one quantum.\<close>

definition settled :: "kstate \<Rightarrow> (ptr \<times> ptr) list \<Rightarrow> bool" where
  "settled s ns \<longleftrightarrow>
     ring_of s ns \<and> superlock s = UNLOCKED \<and> (\<forall>w \<in> set ns. snd w \<noteq> NULL \<and> (waits s (snd w) \<or> runs s (snd w))) \<and>
     (\<forall>c d. h_snode s c = Some d \<longrightarrow> quantum d \<le> 1)"

lemma settled_over: "settled s ns \<Longrightarrow> quantum_over s"
  by (cases ns) (auto simp: settled_def ring_of_def quantum_over_def split: option.splits)

lemma settled_known: "settled s ns \<Longrightarrow> w \<in> set ns \<Longrightarrow> \<exists>x. snd w \<noteq> NULL \<and> h_proc s (snd w) = Some x"
  by (fastforce simp: settled_def waits_def runs_def split: option.splits)

text \<open>One switch of a settled kernel, to the first process behind the current one that can run.\<close>

lemma settled_switch:
  assumes set: "settled s ((a, p) # rest)" and some: "\<exists>w \<in> set (rest @ [(a, p)]). runs s (snd w)"
    and m: "length rest < m"
  obtains bs b q es r t where "rest @ [(a, p)] = bs @ (b, q) # es" "\<forall>w \<in> set bs. waits s (snd w)" "runs s q"
    "next_process n m rsp s = Ret r t" "settled t ((b, q) # es @ bs)" "cur_node t = b"
    "\<And>w. runs t w = runs s w" "\<And>w. waits t w = waits s w"
proof -
  obtain bs w es where bs: "rest @ [(a, p)] = bs @ w # es" "runs s (snd w)" "\<forall>v \<in> set bs. \<not> runs s (snd v)"
    using split_list_first_prop [OF some] by blast
  obtain b q where w: "w = (b, q)" by fastforce
  have mem: "set bs \<union> {w} \<union> set es = set ((a, p) # rest)" using arg_cong [OF bs(1), of set] by auto
  have inl: "w \<in> set ((a, p) # rest)" using mem by blast
  have all: "snd v \<noteq> NULL \<and> (waits s (snd v) \<or> runs s (snd v))" if "v \<in> set ((a, p) # rest)" for v
    using set that unfolding settled_def by blast
  have wait: "\<forall>v \<in> set bs. snd v \<noteq> NULL \<and> waits s (snd v)" using all bs(3) mem by blast
  obtain x y where x: "p \<noteq> NULL" "h_proc s p = Some x" "q \<noteq> NULL" "h_proc s q = Some y"
    using settled_known [OF set, of "(a, p)"] settled_known [OF set, of "(b, q)"] inl w by auto
  have "length (bs @ w # es) = Suc (length rest)" using arg_cong [OF bs(1), of length] by simp
  then have len: "length bs < m" using m by simp
  have ring: "ring_of s ((a, p) # rest)" using set by (simp add: settled_def)
  obtain t where t: "next_process n m rsp s = Ret (if q = p then rsp else p_rsp y) t" "cur_node t = b"
    "ring_of t ((b, q) # es @ bs)" "superlock t = UNLOCKED" "h_proc t = (h_proc s)(p \<mapsto> x\<lparr>p_rsp := rsp\<rparr>)"
    "\<And>c d. h_snode t c = Some d \<Longrightarrow> \<exists>d'. h_snode s c = Some d' \<and> (quantum d = quantum d' \<or> quantum d = QUANTUM)"
    "prev_node t = (if bs = [] then a else fst (last bs))" "unscheduled t = unscheduled s"
    using next_process_switches [OF ring bs(1) [unfolded w] x(1-4) _ wait settled_over [OF set] len] bs(2) w by auto
  have st: "runs t v = runs s v" "waits t v = waits s v" for v using t(5) x(2) by (auto simp: runs_def waits_def)
  have "settled t ((b, q) # es @ bs)"
  proof -
    have same_set: "set ((b, q) # es @ bs) = set ((a, p) # rest)" using mem w by auto
    have "\<forall>v \<in> set ((b, q) # es @ bs). snd v \<noteq> NULL \<and> (waits t (snd v) \<or> runs t (snd v))"
      using all same_set unfolding st by blast
    moreover have "quantum d \<le> 1" if "h_snode t c = Some d" for c d
      using t(6) [OF that] set by (auto simp: settled_def)
    ultimately show ?thesis using t(3,4) by (simp add: settled_def)
  qed
  then show thesis using that [OF bs(1) [unfolded w] _ _ t(1) _ t(2) st] wait bs(2) w by auto
qed

text \<open>
  C10. \<open>next_process\<close> serves the ring in turn: when the quantum of the running process is over and no
  kernel section holds the superlock, it stores the interrupted stack pointer in the running
  process, passes over the blocked processes behind it, and continues with the saved stack
  pointer of the first one that can run. The ring keeps its order.
\<close>

theorem next_process_round_robin:
  assumes "ring_of s ((a, p) # rest)" "rest @ [(a, p)] = bs @ (b, q) # es"
    and "p \<noteq> NULL" "h_proc s p = Some x" "q \<noteq> NULL" "h_proc s q = Some y" "runs s q"
    and "\<forall>w \<in> set bs. snd w \<noteq> NULL \<and> waits s (snd w)" "quantum_over s" "length bs < m"
  shows "\<exists>t. next_process n m rsp s = Ret (if q = p then rsp else p_rsp y) t \<and> cur_node t = b \<and>
    ring_of t ((b, q) # es @ bs) \<and> superlock t = UNLOCKED \<and> h_proc t = (h_proc s)(p \<mapsto> x\<lparr>p_rsp := rsp\<rparr>)"
  using next_process_switches [OF assms, of n rsp] by metis

lemma two_ring: "ring_of two_in_table [(node_A, proc_A), (node_B, proc_B)]"
  by (simp add: ring_of_def)

lemma two_superlock: "superlock two_in_table = UNLOCKED"
  by (simp add: two_in_table_def two_processes_def initialize_stack_memory_allocator_def
      initialize_memory_allocator_def power_on_zero_def power_on_def)

lemma two_status:
  "runs two_in_table proc_A" "runs two_in_table proc_B"
  by (simp_all add: runs_def process_A_def process_B_def)

theorem next_process_round_robin_witness:
  "\<exists>t. next_process 1 2 99 two_in_table = Ret (p_rsp process_B) t \<and> cur_node t = node_B \<and>
     ring_of t [(node_B, proc_B), (node_A, proc_A)]"
  using next_process_round_robin [of two_in_table node_A proc_A "[(node_B, proc_B)]" "[]" node_B proc_B "[(node_A, proc_A)]"
      process_A process_B 2 1 99] two_ring two_status two_superlock
  by (auto simp: quantum_over_def)

lemma switches_reach:
  assumes "settled s ((a, p) # rest)" "rest @ [(a, p)] = us @ (c, r) # vs" "runs s r"
    "length us < length rs" "length rest < m"
  shows "\<exists>k t. 0 < k \<and> k \<le> Suc (length us) \<and> switches n m (take k rs) s = Some t \<and> cur_node t = c"
  using assms
proof (induction "length us" arbitrary: s a p rest us vs rs rule: less_induct)
  case less
  obtain r0 rs' where rs: "rs = r0 # rs'" using less.prems(4) by (cases rs) auto
  have "\<exists>w \<in> set (rest @ [(a, p)]). runs s (snd w)" using less.prems(2,3) by auto
  from settled_switch [OF less.prems(1) this less.prems(5), of n r0]
  obtain bs b q es v t where t: "rest @ [(a, p)] = bs @ (b, q) # es" "\<forall>w \<in> set bs. waits s (snd w)" "runs s q"
    "next_process n m r0 s = Ret v t" "settled t ((b, q) # es @ bs)" "cur_node t = b" "\<And>w. runs t w = runs s w"
    by metis
  have "\<not> waits s r" using less.prems(3) by (auto simp: runs_def waits_def split: option.splits)
  then have "length bs \<le> length us"
  proof (rule contrapos_np)
    assume "\<not> length bs \<le> length us"
    then have "(c, r) = bs ! length us" using t(1) less.prems(2) by (metis not_le nth_append nth_append_length)
    then show "waits s r" using t(2) \<open>\<not> length bs \<le> length us\<close> by (metis not_le nth_mem snd_conv)
  qed
  show ?case
  proof (cases "length bs = length us")
    case True
    have "bs @ (b, q) # es = us @ (c, r) # vs" using t(1) less.prems(2) by (rule subst)
    then have "b = c" using True by (simp add: append_eq_append_conv)
    then have "switches n m (take 1 rs) s = Some t \<and> cur_node t = c" using t rs by simp
    then show ?thesis by (intro exI [of _ 1] exI [of _ t]) simp
  next
    case False
    let ?us = "drop (Suc (length bs)) us"
    have less_len: "length bs < length us" using False \<open>length bs \<le> length us\<close> by simp
    have e: "es = ?us @ (c, r) # vs"
      using arg_cong [OF t(1) [unfolded less.prems(2)], of "drop (Suc (length bs))"] less_len by simp
    have "length (bs @ (b, q) # es) = Suc (length rest)" using arg_cong [OF t(1), of length] by simp
    then have len: "length (es @ bs) < m" using less.prems(5) by simp
    obtain k u where u: "0 < k" "k \<le> Suc (length ?us)" "switches n m (take k rs') t = Some u" "cur_node u = c"
    proof -
      have "(es @ bs) @ [(b, q)] = ?us @ (c, r) # vs @ bs @ [(b, q)]" by (subst e) simp
      moreover have "length ?us < length us" "length ?us < length rs'" using less.prems(4) rs less_len by simp_all
      moreover have "runs t r" using t(7) less.prems(3) by simp
      ultimately show ?thesis using less.hyps [OF _ t(5) _ _ _ len, of ?us "vs @ bs @ [(b, q)]" rs'] that by blast
    qed
    then have "switches n m (take (Suc k) rs) s = Some u" using t(4) rs by simp
    moreover have "Suc k \<le> Suc (length us)" using u(2) less_len by simp
    ultimately show ?thesis using u(4) by blast
  qed
qed

text \<open>
  C11. No process that can run starves: from every state in which each process of the ring waits or
  can run, a process that can run becomes the running one after at most as many switches as the
  ring has nodes, whatever the stack pointers are; every switch returns.
\<close>

theorem runnable_process_runs:
  assumes "settled s ns" "(c, r) \<in> set ns" "runs s r" "length ns \<le> m" "length rs = length ns"
  shows "\<exists>k t. 0 < k \<and> k \<le> length ns \<and> switches n m (take k rs) s = Some t \<and> cur_node t = c"
proof -
  obtain a p rest where ns: "ns = (a, p) # rest" using assms(2) by (cases ns) auto
  obtain us vs where us: "rest @ [(a, p)] = us @ (c, r) # vs" using assms(2) ns split_list [of "(c, r)" "rest @ [(a, p)]"] by auto
  have "length us + length vs = length rest" using arg_cong [OF us, of length] by simp
  then have "length us < length rs" "length rest < m" "Suc (length us) \<le> length ns" using assms(4,5) ns by simp_all
  then show ?thesis using switches_reach [OF assms(1) [unfolded ns] us assms(3), of rs m n] order_trans by blast
qed

lemma two_settled: "settled two_in_table [(node_A, proc_A), (node_B, proc_B)]"
  using two_ring two_status two_superlock by (auto simp: settled_def)

theorem runnable_process_runs_witness:
  "\<exists>k t. k \<le> 2 \<and> switches 1 2 (take k [7, 8]) two_in_table = Some t \<and> cur_node t = node_A"
  using runnable_process_runs [OF two_settled, of node_A proc_A 2 "[7, 8]" 1] two_status by auto

text \<open>
  When every process of the ring waits, the search of \<open>set_next_current\<close> goes round the ring for ever, with
  interrupts off and the superlock taken.
\<close>

lemma next_process_all_blocked:
  assumes "ring_of s ns" "\<forall>w \<in> set ns. snd w \<noteq> NULL \<and> waits s (snd w)" "quantum_over s"
  shows "next_process n m rsp s = Fault Out_Of_Fuel"
proof -
  obtain w rest where ns: "ns = w # rest" using assms(1) by (cases ns) (auto simp: ring_of_def)
  obtain c where c: "cur_node s = fst w" "fst w \<noteq> NULL" "h_snode s (fst w) = Some c" "sn_p c = snd w"
    by (rule ring_step [OF assms(1) [unfolded ns]])
  obtain x where p: "snd w \<noteq> NULL" "h_proc s (snd w) = Some x" using assms(2) ns by (auto simp: waits_def split: option.splits)
  have q1: "quantum c \<le> 1" "superlock s \<noteq> 0" using assms(3) c by (simp_all add: quantum_over_def)
  let ?s = "suspended (fst w) c (snd w) x rsp s"
  have "ring_of (s\<lparr>cur_node := sn_next c\<rparr>) (rest @ [w])"
    by (rule ring_rotate [OF assms(1) [unfolded ns]]) (use c in simp_all)
  moreover have "rpath (h_snode ?s) e ms f = rpath (h_snode s) e ms f" for e ms f
    by (rule rpath_cong) (use c in auto)
  ultimately have "ring_of ?s (rest @ [w])" by (simp add: ring_of_def)
  moreover have "\<forall>v \<in> set (rest @ [w]). snd v \<noteq> NULL \<and> waits ?s (snd v)"
    using assms(2) ns suspended_status(1) [OF p(2)] by auto
  ultimately have "set_next_current n m ?s = Fault Out_Of_Fuel" by (rule set_next_current_stuck)
  then show ?thesis using next_process_search [OF c(1-3) q1 c(4) p, of n m rsp] by simp
qed

text \<open>
  C15. When the quantum is over, \<open>next_process\<close> returns exactly when some process of the ring can run. Otherwise it never does, however long
  it searches; nothing in the code rules that out.
\<close>

theorem next_process_returns_iff:
  assumes "settled s ns" "length ns \<le> m"
  shows "((\<exists>v t. next_process n m rsp s = Ret v t) \<longleftrightarrow> (\<exists>w \<in> set ns. runs s (snd w))) \<and>
    ((\<exists>w \<in> set ns. runs s (snd w)) \<or> (\<forall>k. next_process n k rsp s = Fault Out_Of_Fuel))"
proof (cases "\<exists>w \<in> set ns. runs s (snd w)")
  case True
  obtain a p rest where ns: "ns = (a, p) # rest" using assms(1) by (cases ns) (auto simp: settled_def ring_of_def)
  have "\<exists>w \<in> set (rest @ [(a, p)]). runs s (snd w)" "length rest < m" using True assms(2) ns by auto
  then obtain v t where "next_process n m rsp s = Ret v t" using settled_switch [OF assms(1) [unfolded ns], of m n rsp] by metis
  then show ?thesis using True by blast
next
  case False
  then have "\<forall>w \<in> set ns. snd w \<noteq> NULL \<and> waits s (snd w)" using assms(1) by (auto simp: settled_def)
  moreover have "ring_of s ns" using assms(1) by (simp add: settled_def)
  ultimately have "next_process n k rsp s = Fault Out_Of_Fuel" for k
    using next_process_all_blocked settled_over [OF assms(1)] by blast
  then show ?thesis using False by simp
qed

theorem next_process_returns_iff_witness:
  "\<exists>v t. next_process 1 2 99 two_in_table = Ret v t"
  using next_process_returns_iff [OF two_settled, of 2 1 99] two_status by auto

text \<open>
  \<open>add_process\<close> puts the new process into the ring directly behind the running one, with one
  quantum, in a page that was free; the running process keeps running.
\<close>

theorem add_process_inserts:
  assumes "pages_inv s" "free_pages s \<noteq> {}" "ring_of s ((a, p) # rest)" "fst ` set ((a, p) # rest) \<inter> free_pages s = {}"
  shows "\<exists>new t. add_process (Suc n) q s = Ret () t \<and> new \<in> free_pages s \<and> free_pages t = free_pages s - {new} \<and>
    cur_node t = a \<and> ring_of t ((a, p) # (new, q) # rest) \<and> superlock t = UNLOCKED \<and> h_proc t = h_proc s"
proof -
  let ?new = "next_page s"
  note page = get_page_step [OF assms(1,2), of n]
  obtain c where c: "cur_node s = a" "a \<noteq> NULL" "h_snode s a = Some c" "sn_p c = p" "rpath (h_snode s) (sn_next c) rest a"
    using ring_step [OF assms(3)] by auto
  have new: "?new \<notin> fst ` set ((a, p) # rest)" "?new \<noteq> NULL" "a \<noteq> ?new" using page assms(4) by (auto simp: next_page_def)
  let ?R = "(h_snode s)(?new \<mapsto> \<lparr>quantum = QUANTUM, sn_p = q, sn_next = sn_next c\<rparr>, a \<mapsto> c\<lparr>sn_next := ?new\<rparr>)"
  let ?t = "(paged_out s)\<lparr>superlock := UNLOCKED, h_snode := ?R\<rparr>"
  have "add_process (Suc n) q s = Ret () ?t"
    using page new c by (simp add: add_process_def set_superlock_def unset_superlock_def put_snode_def Let_def)
  moreover have "rpath ?R (sn_next c) rest a = rpath (h_snode s) (sn_next c) rest a"
  proof (rule rpath_cong)
    fix e assume "e \<in> fst ` set rest"
    moreover have "a \<notin> fst ` set rest" using assms(3) by (simp add: ring_of_def)
    moreover have "?new \<notin> fst ` set rest" using new by simp
    ultimately have "e \<noteq> a" "e \<noteq> ?new" by metis+
    then show "map_option (\<lambda>c. (sn_p c, sn_next c)) (?R e) = map_option (\<lambda>c. (sn_p c, sn_next c)) (h_snode s e)" by simp
  qed
  then have "ring_of ?t ((a, p) # (?new, q) # rest)"
    using new c assms(3) by (auto simp: ring_of_def)
  moreover have "free_pages ?t = free_pages s - {?new}" using page by (simp add: free_pages_def)
  ultimately show ?thesis using page c(1) by (intro exI [of _ ?new] exI [of _ ?t]) simp
qed

theorem add_process_inserts_witness:
  "\<exists>new t. add_process 1 proc_B two_in_table = Ret () t \<and>
     ring_of t [(node_A, proc_A), (new, proc_B), (node_B, proc_B)]"
proof -
  have "pages_inv two_in_table" "free_pages two_in_table \<noteq> {}"
    using two_in_table_kernel two_processes_pages_inv(2) by (simp_all add: kernel_inv_def)
  moreover have "{node_A, node_B} \<inter> free_pages two_in_table = {}"
    using two_in_table_pages [of 1] two_in_table_pages [of 3] by (auto simp: two_processes_pages in_use_def)
  ultimately show ?thesis
    using add_process_inserts [OF _ _ two_ring, of 0 proc_B] by auto
qed

lemma ring_unlink:
  assumes "ring_of s ((a, p) # rest)" "rest \<noteq> []" "h_snode s a = Some c" "h_snode s (fst (last rest)) = Some l"
    "R = (h_snode s)(fst (last rest) \<mapsto> l\<lparr>sn_next := sn_next c\<rparr>)"
  shows "rpath R (sn_next c) rest (sn_next c)"
proof -
  obtain init w where rest: "rest = init @ [w]" using assms(2) by (cases rest rule: rev_cases) auto
  have p: "rpath (h_snode s) (sn_next c) (init @ [w]) a" "distinct (map fst (init @ [w]))"
    using ring_step [OF assms(1)] assms(1,3) rest by (auto simp: ring_of_def)
  have eq: "rpath R (sn_next c) init e = rpath (h_snode s) (sn_next c) init e" for e
  proof (rule rpath_cong)
    fix d assume "d \<in> fst ` set init"
    moreover have "fst w \<notin> fst ` set init" using p(2) by simp
    ultimately have "d \<noteq> fst w" by metis
    then show "map_option (\<lambda>c. (sn_p c, sn_next c)) (R d) = map_option (\<lambda>c. (sn_p c, sn_next c)) (h_snode s d)"
      using assms(5) rest by simp
  qed
  have "rpath (h_snode s) (sn_next c) init (fst w)" "fst w \<noteq> NULL" "sn_p l = snd w"
    using p(1) assms(4) rest by (auto simp: rpath_append)
  then show ?thesis using eq assms(5) rest by (simp add: rpath_append)
qed

lemma pages_inv_at:
  assumes "pages_inv s" "open_mutexes t = open_mutexes s" "h_queue t = h_queue s" "memory_mutex_key t = memory_mutex_key s"
    "pages_stack t = pages_stack s" "current_index t = current_index s" "cur_node t \<noteq> NULL" "h_snode t (cur_node t) \<noteq> None"
  shows "pages_inv t"
  using assms by (simp add: pages_inv_def mutex_free_def mutex_is_open_def mutex_empty_def the_mutex_def)

lemma kernel_inv_at:
  assumes "kernel_inv s" "open_mutexes t = open_mutexes s" "h_queue t = h_queue s" "memory_mutex_key t = memory_mutex_key s"
    "stack_memory_mutex_key t = stack_memory_mutex_key s" "table_mutex_key t = table_mutex_key s"
    "pages_stack t = pages_stack s" "current_index t = current_index s" "stack_pages_stack t = stack_pages_stack s"
    "current_stack_index t = current_stack_index s" "cur_node t \<noteq> NULL" "h_snode t (cur_node t) \<noteq> None"
  shows "kernel_inv t"
  using assms by (simp add: kernel_inv_def pages_inv_def stacks_inv_def free_stacks_def keys_distinct_def mutex_free_def mutex_is_open_def
      mutex_empty_def the_mutex_def)

text \<open>
  The steps of \<open>end_process\<close>: the node is unlinked and the search continues behind it; then the node is given back and
  the quantum of the new running process grows.
\<close>

lemma end_search:
  assumes ring: "ring_of s ((a, p) # bs @ (b, q) # es)" and c: "h_snode s a = Some c" "cur_node s = a"
    and t: "h_snode t = h_snode s" "h_proc t = (h_proc s)(p \<mapsto> x')" and q: "q \<noteq> p" "q \<noteq> NULL" "runs s q"
    and wait: "\<forall>w \<in> set bs. snd w \<noteq> NULL \<and> snd w \<noteq> p \<and> waits s (snd w)" and m: "length bs < m"
  obtains l R d e where "h_snode s (fst (last (bs @ (b, q) # es))) = Some l" "fst (last (bs @ (b, q) # es)) \<noteq> NULL"
    "fst (last (bs @ (b, q) # es)) \<noteq> a" "R = (h_snode s)(fst (last (bs @ (b, q) # es)) \<mapsto> l\<lparr>sn_next := sn_next c\<rparr>)"
    "set_next_current n m (t\<lparr>h_snode := R, cur_node := sn_next c\<rparr>) = Ret () (t\<lparr>h_snode := R, cur_node := b, prev_node := e\<rparr>)"
    "R b = Some d" "sn_p d = q" "b \<noteq> NULL" "rpath R b ((b, q) # es @ bs) b" "distinct (map fst ((b, q) # es @ bs))"
    "e = (if bs = [] then prev_node t else fst (last bs))"
proof -
  let ?rest = "bs @ (b, q) # es"
  obtain l where l: "h_snode s (fst (last ?rest)) = Some l" "fst (last ?rest) \<noteq> NULL" "fst (last ?rest) \<noteq> a"
  proof -
    obtain init w where rest: "?rest = init @ [w]" by (cases ?rest rule: rev_cases) auto
    have "rpath (h_snode s) a ((a, p) # init @ [w]) a" "distinct (map fst ((a, p) # init @ [w]))"
      using ring c(2) unfolding ring_of_def rest by simp_all
    then show ?thesis using that unfolding rest by (auto simp: rpath_append split: option.splits)
  qed
  let ?R = "(h_snode s)(fst (last ?rest) \<mapsto> l\<lparr>sn_next := sn_next c\<rparr>)" let ?u = "t\<lparr>h_snode := ?R, cur_node := sn_next c\<rparr>"
  have path: "rpath ?R (sn_next c) ?rest (sn_next c)" "distinct (map fst ?rest)"
    using ring_unlink [OF ring _ c(1) l(1)] ring by (simp_all add: ring_of_def)
  note split = ring_split [OF path]
  have st: "waits ?u v = waits s v" "runs ?u v = runs s v" if "v \<noteq> p" for v
    using that t(2) by (simp_all add: waits_def runs_def)
  have "set_next_current n m ?u = Ret () (?u\<lparr>cur_node := b, prev_node := (if bs = [] then prev_node ?u else fst (last bs))\<rparr>)"
  proof (rule set_next_current_skips [OF _ _ q(2) _ m])
    show "rpath (h_snode ?u) (cur_node ?u) (bs @ [(b, q)]) (fst (hd (es @ bs @ [(b, q)])))" using split by simp
  qed (use wait st q(1,3) in auto)
  moreover obtain d where "?R b = Some d" "sn_p d = q" "b \<noteq> NULL" using split by (auto split: option.splits)
  moreover have "distinct (map fst ((b, q) # es @ bs))" using path(2) by auto
  ultimately show thesis using l split by (intro that [OF l refl, of "if bs = [] then prev_node ?u else fst (last bs)" d]) simp_all
qed

lemma end_give_back:
  assumes "kernel_inv t" "a \<in> in_use t" "R b = Some d" "sn_p d = q" "b \<noteq> NULL" "q \<noteq> NULL" "h_proc t q = Some y"
  obtains u where "bnd (store_page (Suc n) a (unset_superlock (t\<lparr>h_snode := R, cur_node := b, prev_node := e\<rparr>))) (\<lambda>_ s.
      bnd (assign_quantum s) (\<lambda>_ s. rd h_snode (cur_node s) s (\<lambda>c.
      bnd (get_rsp_process (sn_p c) s) (\<lambda>rsp s. Ret (Switch_To rsp) s)))) = Ret (Switch_To (p_rsp y) :: unit or_switch) u"
    "h_snode u = R(b \<mapsto> d\<lparr>quantum := quantum d + 1\<rparr>)" "cur_node u = b" "prev_node u = e" "superlock u = UNLOCKED" "kernel_inv u"
    "h_proc u = h_proc t" "free_pages u = insert a (free_pages t)" "free_stacks u = free_stacks t"
    "process_table u = process_table t" "n_processes u = n_processes t" "foreground u = foreground t"
proof -
  let ?w = "unset_superlock (t\<lparr>h_snode := R, cur_node := b, prev_node := e\<rparr>)"
  have f: "free_pages ?w = free_pages t" "free_stacks ?w = free_stacks t" by (simp_all add: free_pages_def free_stacks_def unset_superlock_def)
  have k: "kernel_inv ?w" by (rule kernel_inv_at [OF assms(1)]) (use assms(3,5) in \<open>simp_all add: unset_superlock_def\<close>)
  then have "pages_inv ?w" by (simp add: kernel_inv_def)
  moreover have "a \<in> in_use ?w" using assms(2) unfolding in_use_def f by simp
  ultimately have page: "store_page (Suc n) a ?w = Ret 1 (paged_in a ?w)" "free_pages (paged_in a ?w) = insert a (free_pages t)"
    "pages_inv (paged_in a ?w)" using store_page_step [of ?w a n] f by auto
  have kp: "kernel_inv (paged_in a ?w)" using k page(3) by (simp add: kernel_inv_def)
  let ?t = "put_snode b (d\<lparr>quantum := quantum d + 1\<rparr>) (paged_in a ?w)"
  have g: "cur_node (paged_in a ?w) = b" "h_snode (paged_in a ?w) = R" "h_proc (paged_in a ?w) q = Some y"
    using assms(7) by (simp_all add: unset_superlock_def)
  have "assign_quantum (paged_in a ?w) = Ret () ?t" using g assms(3,5) by (simp add: assign_quantum_def)
  moreover have h: "cur_node ?t = b" "h_snode ?t = R(b \<mapsto> d\<lparr>quantum := quantum d + 1\<rparr>)" "h_proc ?t q = Some y"
    using g by (simp_all only: put_snode_def) simp_all
  ultimately have "bnd (store_page (Suc n) a ?w) (\<lambda>_ s. bnd (assign_quantum s) (\<lambda>_ s. rd h_snode (cur_node s) s (\<lambda>c.
      bnd (get_rsp_process (sn_p c) s) (\<lambda>rsp s. Ret (Switch_To rsp) s)))) = Ret (Switch_To (p_rsp y)) ?t"
    using assms(4-6) page(1) by (simp only: bnd.simps) (simp add: get_rsp_process_def)
  moreover have "free_pages ?t = free_pages (paged_in a ?w)" "free_stacks ?t = free_stacks (paged_in a ?w)"
    by (simp_all add: free_pages_def free_stacks_def put_snode_def)
  then have "free_pages ?t = insert a (free_pages t)" "free_stacks ?t = free_stacks t" using page(2) f(2) by simp_all
  moreover have "process_table ?t = process_table t" "n_processes ?t = n_processes t" "foreground ?t = foreground t" "h_proc ?t = h_proc t"
    "prev_node ?t = e" "superlock ?t = UNLOCKED"
    by (simp_all add: put_snode_def unset_superlock_def) (simp_all add: paged_in_def released_def push_page_def)
  moreover have "kernel_inv ?t" by (rule kernel_inv_at [OF kp]) (use assms(5) in \<open>simp_all add: put_snode_def\<close>, simp_all add: unset_superlock_def)
  ultimately show thesis using that h(1,2) by blast
qed

lemma end_process_ok:
  assumes inv: "kernel_inv s" "table_ok s" and i: "i < MAX_PROCESSES" "process_table s ! i = p" "p \<noteq> NULL" "process_wf p x s"
    and bg: "foreground s \<noteq> p" and ring: "ring_of s ((a, p) # bs @ (b, q) # es)" "prev_node s = fst (last (bs @ (b, q) # es))"
    and own: "a \<in> in_use s" "a \<noteq> p" "a \<notin> set (owned_pages x)" and q: "q \<noteq> p" "q \<noteq> NULL" "h_proc s q = Some y" "runs s q"
    and wait: "\<forall>w \<in> set bs. snd w \<noteq> NULL \<and> snd w \<noteq> p \<and> waits s (snd w)" and m: "length bs < m"
  obtains u where "end_process (Suc n) m s = Ret (Switch_To (p_rsp y)) u" "ring_of u ((b, q) # es @ bs)" "cur_node u = b"
    "free_pages u = free_pages s \<union> insert a (insert p (set (owned_pages x)))" "free_stacks u = insert (stack_page x) (free_stacks s)"
    "process_table u = (process_table s)[i := NULL]" "n_processes u = n_processes s - 1" "foreground u = foreground s"
    "h_proc u = (h_proc s)(p \<mapsto> x\<lparr>n_data_page := 0\<rparr>)" "kernel_inv u" "superlock u = UNLOCKED"
    "prev_node u = fst (last ((b, q) # es @ bs))"
proof -
  let ?s = "set_superlock s" and ?rest = "bs @ (b, q) # es"
  obtain c where c: "cur_node s = a" "a \<noteq> NULL" "h_snode s a = Some c" "sn_p c = p"
    using ring_step [OF ring(1)] by auto
  have f: "admin s ?s" "pages_stack ?s = pages_stack s" "current_index ?s = current_index s" by (simp_all add: set_superlock_def)
  have s': "kernel_inv ?s" "table_ok ?s" "process_wf p x ?s" "foreground ?s = foreground s" "h_proc ?s = h_proc s"
    "free_pages ?s = free_pages s" "free_stacks ?s = free_stacks s" "process_table ?s = process_table s" "n_processes ?s = n_processes s"
    using inv i(4) kernel_frame [OF f] admin_pages [OF f] by (simp_all add: table_ok_def process_wf_def) (simp_all add: set_superlock_def)
  obtain t where t: "destroy_process (Suc n) p ?s = Ret () t" "kernel_inv t"
    "free_pages t = free_pages s \<union> insert p (set (owned_pages x))" "free_stacks t = insert (stack_page x) (free_stacks s)"
    "process_table t = (process_table s)[i := NULL]" "n_processes t = n_processes s - 1" "h_snode t = h_snode s" "cur_node t = a" "prev_node t = prev_node s"
    "h_proc t = (h_proc s)(p \<mapsto> x\<lparr>n_data_page := 0\<rparr>)" "foreground t = foreground s"
    using destroy_process_ok [OF s'(1,2) i(1) _ i(3) s'(3), of n] i(2) bg c s' by (simp add: set_superlock_def) metis
  obtain l R d e where l: "h_snode s (fst (last ?rest)) = Some l" "fst (last ?rest) \<noteq> NULL" "fst (last ?rest) \<noteq> a"
    "R = (h_snode s)(fst (last ?rest) \<mapsto> l\<lparr>sn_next := sn_next c\<rparr>)"
    and search: "set_next_current (Suc n) m (t\<lparr>h_snode := R, cur_node := sn_next c\<rparr>) = Ret () (t\<lparr>h_snode := R, cur_node := b, prev_node := e\<rparr>)"
    and d: "R b = Some d" "sn_p d = q" "b \<noteq> NULL" and path: "rpath R b ((b, q) # es @ bs) b" "distinct (map fst ((b, q) # es @ bs))"
    and e: "e = (if bs = [] then prev_node t else fst (last bs))"
    by (rule end_search [OF ring(1) c(3,1) t(7,10) q(1,2,4) wait m])
  have give: "a \<in> in_use t" "h_proc t q = Some y" using t(3,10) own q by (simp_all add: in_use_def)
  obtain u where
    tail: "bnd (store_page (Suc n) a (unset_superlock (t\<lparr>h_snode := R, cur_node := b, prev_node := e\<rparr>))) (\<lambda>_ s.
      bnd (assign_quantum s) (\<lambda>_ s. rd h_snode (cur_node s) s (\<lambda>c.
      bnd (get_rsp_process (sn_p c) s) (\<lambda>rsp s. Ret (Switch_To rsp) s)))) = Ret (Switch_To (p_rsp y) :: unit or_switch) u"
    and u: "h_snode u = R(b \<mapsto> d\<lparr>quantum := quantum d + 1\<rparr>)" "cur_node u = b" "prev_node u = e" "superlock u = UNLOCKED" "kernel_inv u"
      "h_proc u = h_proc t" "free_pages u = insert a (free_pages t)" "free_stacks u = free_stacks t"
      "process_table u = process_table t" "n_processes u = n_processes t" "foreground u = foreground t"
    by (rule end_give_back [where R = R and b = b and n = n and e = e, OF t(2) give(1) d q(2) give(2)])
  have first: "cur_node ?s = a" "rd h_snode a ?s K = K c" for K :: "list_node \<Rightarrow> unit or_switch kres"
    using c by (simp_all add: set_superlock_def)
  have step: "rd h_snode (cur_node t) t K = K c" "rd h_snode (prev_node t) t K = K l"
      "rd h_snode (cur_node (t\<lparr>h_snode := R\<rparr>)) (t\<lparr>h_snode := R\<rparr>) K = K c"
      "put_snode (prev_node t) (l\<lparr>sn_next := sn_next c\<rparr>) t = t\<lparr>h_snode := R\<rparr>" for K :: "list_node \<Rightarrow> unit or_switch kres"
    using t(7-9) c l ring(2) by (simp_all add: put_snode_def)
  have "end_process (Suc n) m s = Ret (Switch_To (p_rsp y)) u"
    unfolding end_process_def Let_def first t(1) bnd.simps step search c(4) by (rule tail)
  moreover have "ring_of u ((b, q) # es @ bs)" using path unfolding ring_of_def u(1,2) rpath_quantum [of R b d, OF d(1)] by blast
  moreover have "prev_node u = fst (last ((b, q) # es @ bs))" using u(3) e t(9) ring(2) by simp
  ultimately show thesis using that u t(3-6,10,11) by auto
qed


definition B_running :: kstate where
  "B_running = two_in_table\<lparr>cur_node := node_B, prev_node := node_A\<rparr>"

lemma B_running_frame [simp]:
  "h_proc B_running = h_proc two_in_table" "h_snode B_running = h_snode two_in_table" "cur_node B_running = node_B"
  "prev_node B_running = node_A" "process_table B_running = process_table two_in_table"
  "foreground B_running = NULL" "free_pages B_running = free_pages two_in_table"
  "free_stacks B_running = free_stacks two_in_table" "in_use B_running = in_use two_in_table"
  by (simp_all add: B_running_def free_pages_def free_stacks_def in_use_def)

lemma B_running_ok: "kernel_inv B_running" "table_ok B_running"
proof -
  have m: "mutex_free k B_running = mutex_free k two_in_table" "mutex_is_open k B_running = mutex_is_open k two_in_table" for k
    by (simp_all add: mutex_free_def mutex_is_open_def mutex_empty_def the_mutex_def) (simp_all add: B_running_def)
  have k: "mem_key B_running = mem_key two_in_table" "stack_key B_running = stack_key two_in_table" "table_key B_running = table_key two_in_table"
    by (simp_all add: B_running_def)
  have l: "pages_stack B_running = pages_stack two_in_table" "current_index B_running = current_index two_in_table"
    "stack_pages_stack B_running = stack_pages_stack two_in_table" "current_stack_index B_running = current_stack_index two_in_table"
    by (simp_all add: B_running_def)
  show "kernel_inv B_running" using two_in_table_kernel(1)
    unfolding kernel_inv_def pages_inv_def stacks_inv_def keys_distinct_def m k l B_running_frame by simp
  show "table_ok B_running" using two_in_table_ok
    unfolding table_ok_def B_running_frame by (simp add: B_running_def)
qed


end
