(* ===== verification/Timer.thy ===== *)
theory Timer
  imports Scheduler
begin

text \<open>
  The timer (\<open>Kernel/timer.c\<close>): a linked list of sleeping processes with the ticks each has left.
  \<open>sleep\<close> puts the running process on the list and blocks it; every timer interrupt
  (\<open>timer_handler\<close>) counts all of them down, takes those whose time has come out of the list, wakes
  them and gives their pages back. The theory shows that a process is roused by exactly the tick
  it asked for.
\<close>

section \<open>The routines\<close>

definition put_sleep :: "ptr \<Rightarrow> sleep_process \<Rightarrow> kstate \<Rightarrow> kstate" where
  "put_sleep q x s = s\<lparr>h_sleep := (h_sleep s)(q := Some x)\<rparr>"

text \<open>The loop of \<open>timer_handler\<close>; the second number bounds its turns.\<close>

primrec timer_loop :: "nat \<Rightarrow> nat \<Rightarrow> ptr \<Rightarrow> ptr \<Rightarrow> kstate \<Rightarrow> unit kres" where
  "timer_loop n 0 current prev s = Fault Out_Of_Fuel"
| "timer_loop n (Suc m) current prev s =
     (if current \<noteq> NULL then
        rd h_sleep current s (\<lambda>c.
          let c = c\<lparr>ticks := ticks c - 1\<rparr>;
              s = put_sleep current c s
          in if ticks c \<le> 0 then
               bnd (if prev = NULL then Ret () (s\<lparr>sleeping_processes := sp_next c\<rparr>)
                    else rd h_sleep prev s (\<lambda>pv. Ret () (put_sleep prev (pv\<lparr>sp_next := sp_next c\<rparr>) s))) (\<lambda>_ s.
               rd h_sleep current s (\<lambda>c.
               bnd (unblock_process (sp_p c) s) (\<lambda>_ s.
               rd h_sleep current s (\<lambda>c.
               bnd (store_page n current s) (\<lambda>_ s. timer_loop n m (sp_next c) prev s)))))
             else timer_loop n m (sp_next c) current s)
      else Ret () s)"

definition timer_handler :: "nat \<Rightarrow> nat \<Rightarrow> kstate \<Rightarrow> unit kres" where
  "timer_handler n m s = timer_loop n m (sleeping_processes s) NULL s"

text \<open>The field \<open>next\<close> is written by \<open>add_sleep_process\<close> before it is read.\<close>

definition create_sleep_process :: "nat \<Rightarrow> u64 \<Rightarrow> kstate \<Rightarrow> ptr kres" where
  "create_sleep_process n t s =
     bnd (get_page n s) (\<lambda>new s.
       if new = NULL then Fault Null_Deref
       else bnd (get_current_process s) (\<lambda>p s.
              Ret new (put_sleep new \<lparr>sp_p = p, ticks = t, sp_next = NULL\<rparr> s)))"

definition add_sleep_process :: "ptr \<Rightarrow> kstate \<Rightarrow> unit kres" where
  "add_sleep_process q s =
     rd h_sleep q s (\<lambda>c. Ret () ((put_sleep q (c\<lparr>sp_next := sleeping_processes s\<rparr>) s)\<lparr>sleeping_processes := q\<rparr>))"

definition sleep :: "nat \<Rightarrow> u64 \<Rightarrow> kstate \<Rightarrow> int kres" where
  "sleep n milliseconds s =
     (let wait_ticks = milliseconds div 55
      in if wait_ticks = 0 then Ret 0 s
         else
           bnd (assign_quantum s) (\<lambda>_ s.
           bnd (create_sleep_process n wait_ticks s) (\<lambda>new s.
           bnd (add_sleep_process new s) (\<lambda>_ s.
           rd h_sleep new s (\<lambda>c.
           bnd (block_process (sp_p c) s) (\<lambda>_ s.
           bnd (yield_process s) (\<lambda>_ s. Ret 1 s)))))))"

section \<open>The list of sleeping processes\<close>

type_synonym sleeper = "ptr \<times> ptr \<times> u64"

text \<open>\<open>spath h a ns b\<close>: from \<open>a\<close> the list runs through the nodes \<open>ns\<close> and continues at \<open>b\<close>.\<close>

primrec spath :: "(ptr \<Rightarrow> sleep_process option) \<Rightarrow> ptr \<Rightarrow> sleeper list \<Rightarrow> ptr \<Rightarrow> bool" where
  "spath h a [] b \<longleftrightarrow> a = b"
| "spath h a (n # ns) b \<longleftrightarrow>
     a = fst n \<and> a \<noteq> NULL \<and>
     (\<exists>c. h a = Some c \<and> sp_p c = fst (snd n) \<and> ticks c = snd (snd n) \<and> spath h (sp_next c) ns b)"

abbreviation nodes :: "sleeper list \<Rightarrow> ptr set" where "nodes ns \<equiv> fst ` set ns"

lemma spath_append: "spath h a (xs @ ys) b \<longleftrightarrow> (\<exists>m. spath h a xs m \<and> spath h m ys b)"
  by (induction xs arbitrary: a) auto

lemma spath_other: "q \<notin> nodes ns \<Longrightarrow> spath (h(q := x)) a ns b = spath h a ns b"
  by (induction ns arbitrary: a) auto

text \<open>The processes a tick wakes, and the list it leaves.\<close>

definition due :: "sleeper list \<Rightarrow> sleeper list" where
  "due ns = filter (\<lambda>n. snd (snd n) = 1) ns"

definition counted :: "sleeper list \<Rightarrow> sleeper list" where
  "counted ns = map (\<lambda>(c, p, t). (c, p, t - 1)) (filter (\<lambda>n. snd (snd n) \<noteq> 1) ns)"

definition ready :: "process \<Rightarrow> process" where
  "ready x = (if p_st x \<noteq> DELETE then x\<lparr>p_st := READY\<rparr> else x)"

definition roused :: "ptr set \<Rightarrow> (ptr \<Rightarrow> process option) \<Rightarrow> ptr \<Rightarrow> process option" where
  "roused W P p = (if p \<in> W then map_option ready (P p) else P p)"

lemma ready_ready [simp]: "ready (ready x) = ready x"
  by (simp add: ready_def)

lemma roused_roused: "roused W (roused V P) = roused (W \<union> V) P"
  by (auto simp: roused_def fun_eq_iff option.map_comp comp_def)

lemma roused_empty [simp]: "roused {} P = P"
  by (simp add: roused_def fun_eq_iff)

text \<open>
  The list is well formed: its nodes are different pages in use, its processes exist, and no
  process has zero ticks left.
\<close>

definition sleepers_wf :: "sleeper list \<Rightarrow> kstate \<Rightarrow> bool" where
  "sleepers_wf ns s \<longleftrightarrow>
     pages_inv s \<and> distinct (map fst ns) \<and> nodes ns \<subseteq> in_use s \<and>
     (\<forall>n \<in> set ns. snd (snd n) \<noteq> 0 \<and> fst (snd n) \<noteq> NULL \<and> h_proc s (fst (snd n)) \<noteq> None)"

definition sleepers :: "sleeper list \<Rightarrow> kstate \<Rightarrow> bool" where
  "sleepers ns s \<longleftrightarrow> sleepers_wf ns s \<and> spath (h_sleep s) (sleeping_processes s) ns NULL"

lemma spath_relink:
  assumes "spath h a ds e" "ds \<noteq> []" "distinct (map fst ds)" "h (fst (last ds)) = Some l"
  shows "spath (h(fst (last ds) \<mapsto> l\<lparr>sp_next := f\<rparr>)) a ds f"
proof -
  obtain init d where ds: "ds = init @ [d]" using assms(2) by (cases ds rule: rev_cases) auto
  have "fst d \<notin> nodes init" using assms(3) ds by simp
  with assms ds show ?thesis by (auto simp: spath_append spath_other)
qed

lemma sleep_frame [simp]:
  "h_sleep (put_proc p x s) = h_sleep s" "sleeping_processes (put_proc p x s) = sleeping_processes s"
  "h_sleep (paged_in a s) = h_sleep s" "sleeping_processes (paged_in a s) = sleeping_processes s"
  "h_sleep (paged_out s) = h_sleep s" "sleeping_processes (paged_out s) = sleeping_processes s"
  by (simp_all add: put_proc_def paged_in_def paged_out_def released_def pool_defs)

text \<open>A step of the loop, for a process whose time has come and for one that goes on sleeping.\<close>

definition unlinked :: "ptr \<Rightarrow> sleep_process \<Rightarrow> sleeper list \<Rightarrow> kstate \<Rightarrow> kstate" where
  "unlinked a c ds s =
     (let h = (h_sleep s)(a \<mapsto> c\<lparr>ticks := ticks c - 1\<rparr>)
      in if ds = [] then s\<lparr>h_sleep := h, sleeping_processes := sp_next c\<rparr>
         else s\<lparr>h_sleep := h(fst (last ds) \<mapsto> (the (h (fst (last ds))))\<lparr>sp_next := sp_next c\<rparr>)\<rparr>)"

lemma unlinked_frame [simp]:
  "pages_inv (unlinked a c ds s) = pages_inv s" "in_use (unlinked a c ds s) = in_use s"
  "free_pages (unlinked a c ds s) = free_pages s" "h_proc (unlinked a c ds s) = h_proc s" "admin s (unlinked a c ds s)"
proof -
  show "admin s (unlinked a c ds s)" by (simp add: unlinked_def admin_def Let_def)
  moreover have "pages_stack (unlinked a c ds s) = pages_stack s" "current_index (unlinked a c ds s) = current_index s"
    by (simp_all add: unlinked_def Let_def)
  ultimately show "pages_inv (unlinked a c ds s) = pages_inv s" "in_use (unlinked a c ds s) = in_use s"
    "free_pages (unlinked a c ds s) = free_pages s"
    by (simp_all add: admin_pages)
qed (simp add: unlinked_def Let_def)

lemma timer_step_due:
  assumes a: "a \<noteq> NULL" "h_sleep s a = Some c" "ticks c = 1" "a \<in> in_use s" "a \<notin> nodes ds"
    and p: "sp_p c \<noteq> NULL" "h_proc s (sp_p c) = Some x" and inv: "pages_inv s"
    and prev: "prev = (if ds = [] then NULL else fst (last ds))" "spath (h_sleep s) (sleeping_processes s) ds a"
    and d: "distinct (map fst ds)"
  shows "timer_loop (Suc n) (Suc m) a prev s =
      timer_loop (Suc n) m (sp_next c) prev (paged_in a (put_proc (sp_p c) (ready x) (unlinked a c ds s)))"
    "spath (h_sleep (unlinked a c ds s)) (sleeping_processes (unlinked a c ds s)) ds (sp_next c)"
    "b \<notin> insert a (nodes ds) \<Longrightarrow> h_sleep (unlinked a c ds s) b = h_sleep s b"
proof -
  let ?c = "c\<lparr>ticks := 0\<rparr>" and ?u = "unlinked a c ds s"
  let ?s = "put_sleep a ?c s"
  have last: "fst (last ds) \<noteq> NULL \<and> fst (last ds) \<noteq> a \<and> (\<exists>l. h_sleep s (fst (last ds)) = Some l)" if "ds \<noteq> []"
  proof -
    note ne = that
    obtain init d where ds: "ds = init @ [d]" using ne by (cases ds rule: rev_cases) auto
    with prev(2) a(5) show ?thesis by (auto simp: spath_append)
  qed
  have link: "(if prev = NULL then Ret () (?s\<lparr>sleeping_processes := sp_next ?c\<rparr>)
      else rd h_sleep prev ?s (\<lambda>pv. Ret () (put_sleep prev (pv\<lparr>sp_next := sp_next ?c\<rparr>) ?s))) = Ret () ?u"
    using last prev(1) a(3) by (cases "ds = []") (auto simp: unlinked_def put_sleep_def Let_def)
  have ua: "h_sleep ?u a = Some ?c" using last a(3) by (cases "ds = []") (auto simp: unlinked_def Let_def)
  have ub: "unblock_process (sp_p c) ?u = Ret () (put_proc (sp_p c) (ready x) ?u)"
    using p by (auto simp: unblock_process_def ready_def put_proc_def fun_upd_idem)
  have "pages_inv (put_proc (sp_p c) (ready x) ?u)" "a \<in> in_use (put_proc (sp_p c) (ready x) ?u)"
    using inv a(4) by (simp_all add: in_use_def)
  note page = store_page_step [OF this, of n]
  have "timer_loop (Suc n) (Suc m) a prev s =
      bnd (if prev = NULL then Ret () (?s\<lparr>sleeping_processes := sp_next ?c\<rparr>)
           else rd h_sleep prev ?s (\<lambda>pv. Ret () (put_sleep prev (pv\<lparr>sp_next := sp_next ?c\<rparr>) ?s))) (\<lambda>_ s.
      rd h_sleep a s (\<lambda>c. bnd (unblock_process (sp_p c) s) (\<lambda>_ s. rd h_sleep a s (\<lambda>c.
      bnd (store_page (Suc n) a s) (\<lambda>_ s. timer_loop (Suc n) m (sp_next c) prev s)))))"
    using a by (simp add: Let_def)
  also have "\<dots> = timer_loop (Suc n) m (sp_next c) prev (paged_in a (put_proc (sp_p c) (ready x) ?u))"
    unfolding link using ua ub a(1) page by simp
  finally show "timer_loop (Suc n) (Suc m) a prev s = \<dots>" .
  show "spath (h_sleep ?u) (sleeping_processes ?u) ds (sp_next c)"
  proof (cases "ds = []")
    case False
    obtain l where l: "((h_sleep s)(a \<mapsto> ?c)) (fst (last ds)) = Some l" using last [OF False] by auto
    have "spath ((h_sleep s)(a \<mapsto> ?c)) (sleeping_processes s) ds a" using prev(2) a(5) by (simp add: spath_other)
    from spath_relink [of "(h_sleep s)(a \<mapsto> ?c)", OF this False d l, of "sp_next c"] l False show ?thesis using a(3) by (simp add: unlinked_def Let_def del: fun_upd_apply)
  qed (simp add: unlinked_def Let_def)
  show "h_sleep ?u b = h_sleep s b" if "b \<notin> insert a (nodes ds)"
  proof -
    have "b \<noteq> fst (last ds)" if "ds \<noteq> []" using \<open>b \<notin> insert a (nodes ds)\<close> last_in_set [OF that] by (metis image_eqI insertCI)
    then show ?thesis using that by (cases "ds = []") (auto simp: unlinked_def Let_def)
  qed
qed

lemma timer_step_wait:
  assumes "a \<noteq> NULL" "h_sleep s a = Some c" "ticks c \<noteq> 1"
  shows "timer_loop n (Suc m) a prev s =
    timer_loop n m (sp_next c) a (put_sleep a (c\<lparr>ticks := ticks c - 1\<rparr>) s)"
  using assms by (simp add: Let_def)

lemma put_sleep_frame [simp]:
  "pages_inv (put_sleep q c s) = pages_inv s" "in_use (put_sleep q c s) = in_use s"
  "free_pages (put_sleep q c s) = free_pages s" "h_proc (put_sleep q c s) = h_proc s"
  "h_sleep (put_sleep q c s) = (h_sleep s)(q \<mapsto> c)" "sleeping_processes (put_sleep q c s) = sleeping_processes s"
  by (simp_all add: put_sleep_def pages_inv_def free_pages_def in_use_def mutex_free_def mutex_is_open_def mutex_empty_def the_mutex_def)

lemma minus_grown: "x \<notin> N \<Longrightarrow> N \<subseteq> D - F \<Longrightarrow> F' \<subseteq> insert x F \<Longrightarrow> N \<subseteq> D - F'"
  by blast

lemma sleepers_wf_Cons:
  assumes "sleepers_wf (w # ns) s" "pages_inv t" "free_pages t \<subseteq> insert (fst w) (free_pages s)" "\<And>p. h_proc s p \<noteq> None \<Longrightarrow> h_proc t p \<noteq> None"
  shows "sleepers_wf ns t"
proof -
  have "fst w \<notin> nodes ns" using assms(1) by (simp add: sleepers_wf_def)
  moreover have "nodes ns \<subseteq> data_pages - free_pages s" 
    using assms(1) unfolding sleepers_wf_def in_use_def list.set image_insert by blast
  ultimately have "nodes ns \<subseteq> in_use t" unfolding in_use_def by (rule minus_grown [OF _ _ assms(3)])
  moreover have "\<forall>v \<in> set ns. snd (snd v) \<noteq> 0 \<and> fst (snd v) \<noteq> NULL \<and> h_proc t (fst (snd v)) \<noteq> None"
    using assms(1,4) unfolding sleepers_wf_def by (meson list.set_intros(2))
  moreover have "distinct (map fst ns)" using assms(1) by (simp add: sleepers_wf_def)
  ultimately show ?thesis using assms(2) unfolding sleepers_wf_def by blast
qed

lemma timer_loop_ok:
  assumes "sleepers_wf ns s" "distinct (map fst (ds @ ns))" "spath (h_sleep s) (sleeping_processes s) ds a"
    and "spath (h_sleep s) a ns NULL" "prev = (if ds = [] then NULL else fst (last ds))" "length ns < m"
  shows "\<exists>t. timer_loop (Suc n) m a prev s = Ret () t \<and> pages_inv t \<and>
    spath (h_sleep t) (sleeping_processes t) (ds @ counted ns) NULL \<and>
    h_proc t = roused ((\<lambda>w. fst (snd w)) ` set (due ns)) (h_proc s) \<and> free_pages t = free_pages s \<union> nodes (due ns)"
  using assms
proof (induction ns arbitrary: s ds a prev m)
  case Nil
  then obtain k where "m = Suc k" by (cases m) auto
  with Nil show ?case by (auto simp: counted_def due_def sleepers_wf_def)
next
  case (Cons w ns)
  obtain k where m: "m = Suc k" "length ns < k" using Cons.prems(6) by (cases m) auto
  obtain c where c: "a = fst w" "a \<noteq> NULL" "h_sleep s a = Some c" "sp_p c = fst (snd w)" "ticks c = snd (snd w)"
    "spath (h_sleep s) (sp_next c) ns NULL" using Cons.prems(4) by auto
  have wf: "pages_inv s" "a \<in> in_use s" "sp_p c \<noteq> NULL" using Cons.prems(1) c by (auto simp: sleepers_wf_def)
  obtain x where x: "h_proc s (sp_p c) = Some x" using Cons.prems(1) c by (auto simp: sleepers_wf_def)
  have d: "a \<notin> nodes ds" "a \<notin> nodes ns" "distinct (map fst ds)" "nodes ds \<inter> nodes ns = {}" "distinct (map fst (ds @ ns))"
    using Cons.prems(2) c(1) by auto
  show ?case
  proof (cases "ticks c = 1")
    case True
    let ?u = "unlinked a c ds s"
    let ?s = "paged_in a (put_proc (sp_p c) (ready x) ?u)"
    note step = timer_step_due [OF c(2,3) True wf(2) d(1) wf(3) x wf(1) Cons.prems(5,3) d(3)]
    have "pages_inv (put_proc (sp_p c) (ready x) ?u)" "a \<in> in_use (put_proc (sp_p c) (ready x) ?u)"
      using wf by (simp_all add: in_use_def)
    note page = store_page_step [OF this, of n]
    have rest: "spath (h_sleep ?s) (sp_next c) ns NULL"
    proof -
      have "h_sleep ?u b = h_sleep s b" if "b \<in> nodes ns" for b using that d by (intro step(3)) auto
      then have "spath (h_sleep ?u) e ns f = spath (h_sleep s) e ns f" for e f
        by (induction ns arbitrary: e) auto
      with c(6) show ?thesis by simp
    qed
    have "sleepers_wf ns ?s"
      by (rule sleepers_wf_Cons [OF Cons.prems(1)]) (use page c(1) x in auto)
    moreover have "spath (h_sleep ?s) (sleeping_processes ?s) ds (sp_next c)" using step(2) by simp
    ultimately obtain t where t: "timer_loop (Suc n) k (sp_next c) prev ?s = Ret () t" "pages_inv t"
      "spath (h_sleep t) (sleeping_processes t) (ds @ counted ns) NULL"
      "h_proc t = roused ((\<lambda>w. fst (snd w)) ` set (due ns)) (h_proc ?s)" "free_pages t = free_pages ?s \<union> nodes (due ns)"
      using Cons.IH [OF _ d(5) _ rest Cons.prems(5) m(2)] by blast
    have w: "due (w # ns) = w # due ns" "counted (w # ns) = counted ns" using True c(5) by (simp_all add: due_def counted_def)
    have "h_proc ?s = roused {sp_p c} (h_proc s)" using x by (auto simp: roused_def fun_eq_iff)
    then have "h_proc t = roused ((\<lambda>w. fst (snd w)) ` set (due (w # ns))) (h_proc s)"
      using t(4) c(4) by (simp add: roused_roused w)
    moreover have "free_pages t = free_pages s \<union> nodes (due (w # ns))" using t(5) page w(1) c(1) by auto
    ultimately show ?thesis using t step(1) m(1) w(2) by auto
  next
    case False
    let ?s = "put_sleep a (c\<lparr>ticks := ticks c - 1\<rparr>) s" and ?ds = "ds @ [(a, sp_p c, ticks c - 1)]"
    have wf': "sleepers_wf ns ?s" by (rule sleepers_wf_Cons [OF Cons.prems(1)]) (use wf in auto)
    have path: "spath (h_sleep ?s) (sleeping_processes ?s) ?ds (sp_next c)" "spath (h_sleep ?s) (sp_next c) ns NULL"
      using Cons.prems(3) c(2,6) d(1,2) by (simp_all add: spath_append spath_other)
    have "distinct (map fst (?ds @ ns))" using d by auto
    from Cons.IH [OF wf' this path _ m(2), of a]
    obtain t where t: "timer_loop (Suc n) k (sp_next c) a ?s = Ret () t" "pages_inv t"
      "spath (h_sleep t) (sleeping_processes t) (?ds @ counted ns) NULL"
      "h_proc t = roused ((\<lambda>w. fst (snd w)) ` set (due ns)) (h_proc ?s)" "free_pages t = free_pages ?s \<union> nodes (due ns)" by auto
    have "due (w # ns) = due ns" "counted (w # ns) = (a, sp_p c, ticks c - 1) # counted ns"
      using False c(1,4,5) by (auto simp: due_def counted_def split: prod.splits)
    with t timer_step_wait [OF c(2,3) False, of "Suc n" k prev] m(1) show ?thesis by auto
  qed
qed

section \<open>Properties\<close>

lemma timer_handler_ok:
  assumes "sleepers ns s" "length ns < m"
  shows "\<exists>t. timer_handler (Suc n) m s = Ret () t \<and> sleepers (counted ns) t \<and>
    h_proc t = roused ((\<lambda>w. fst (snd w)) ` set (due ns)) (h_proc s) \<and> free_pages t = free_pages s \<union> nodes (due ns)"
proof -
  have wf: "sleepers_wf ns s" "spath (h_sleep s) (sleeping_processes s) ns NULL" using assms(1) by (simp_all add: sleepers_def)
  then obtain t where t: "timer_loop (Suc n) m (sleeping_processes s) NULL s = Ret () t" "pages_inv t"
    "spath (h_sleep t) (sleeping_processes t) ([] @ counted ns) NULL"
    "h_proc t = roused ((\<lambda>w. fst (snd w)) ` set (due ns)) (h_proc s)" "free_pages t = free_pages s \<union> nodes (due ns)"
    using timer_loop_ok [of ns s "[]" "sleeping_processes s" NULL m n] assms(2) by (auto simp: sleepers_wf_def)
  have d: "distinct (map fst ns)" using wf(1) by (simp add: sleepers_wf_def)
  have "map fst (counted ns) = map fst (filter (\<lambda>n. snd (snd n) \<noteq> 1) ns)" by (simp add: counted_def split_def comp_def)
  then have c: "distinct (map fst (counted ns))" "nodes (counted ns) = nodes (filter (\<lambda>n. snd (snd n) \<noteq> 1) ns)"
    using d distinct_map_filter by (metis, metis set_map)
  have "nodes (counted ns) \<inter> nodes (due ns) = {}"
    using eq_key_imp_eq_value [OF d] unfolding c(2) due_def by auto
  moreover have "nodes (counted ns) \<subseteq> data_pages - free_pages s" using wf(1) c(2) by (auto simp: sleepers_wf_def in_use_def)
  ultimately have "nodes (counted ns) \<subseteq> in_use t" using t(5) unfolding in_use_def by blast
  moreover have "snd (snd v) \<noteq> 0 \<and> fst (snd v) \<noteq> NULL \<and> h_proc t (fst (snd v)) \<noteq> None" if "v \<in> set (counted ns)" for v
  proof -
    from that obtain b p k where v: "(b, p, k) \<in> set ns" "k \<noteq> 1" "v = (b, p, k - 1)" by (auto simp: counted_def)
    then have "p \<noteq> NULL \<and> h_proc s p \<noteq> None" using wf(1) by (fastforce simp: sleepers_wf_def)
    with v t(4) show ?thesis by (auto simp: roused_def)
  qed
  ultimately show ?thesis using t c(1) unfolding timer_handler_def sleepers_def sleepers_wf_def by auto
qed

text \<open>A number of timer interrupts, and the list they leave of a list.\<close>

primrec timer_ticks :: "nat \<Rightarrow> nat \<Rightarrow> nat \<Rightarrow> kstate \<Rightarrow> kstate option" where
  "timer_ticks n m 0 s = Some s"
| "timer_ticks n m (Suc k) s = (case timer_handler n m s of Ret _ t \<Rightarrow> timer_ticks n m k t | _ \<Rightarrow> None)"

definition over :: "nat \<Rightarrow> sleeper list \<Rightarrow> sleeper list" where
  "over k ns = filter (\<lambda>w. unat (snd (snd w)) \<le> k) ns"

definition remaining :: "nat \<Rightarrow> sleeper list \<Rightarrow> sleeper list" where
  "remaining k ns = map (\<lambda>(c, p, t). (c, p, t - of_nat k)) (filter (\<lambda>w. unat (snd (snd w)) > k) ns)"

lemma tick_pred: "t \<noteq> 0 \<Longrightarrow> unat t = Suc (unat (t - 1 :: u64))"
  by (metis Suc_pred unat_gt_0 unat_pred_word One_nat_def)

lemma remaining_Suc:
  assumes "\<forall>w \<in> set ns. snd (snd w) \<noteq> 0"
  shows "remaining (Suc k) ns = remaining k (counted ns)"
  using assms
proof (induction ns)
  case (Cons w ns)
  obtain c p t where w: "w = (c, p, t)" by (metis prod_cases3)
  have t: "unat t = Suc (unat (t - 1))" using Cons.prems w by (intro tick_pred) simp
  have "t = 1 \<Longrightarrow> unat t = 1" by simp
  with t Cons w show ?case by (auto simp: remaining_def counted_def algebra_simps)
qed (simp add: remaining_def counted_def)

lemma sleepers_Cons:
  "over k ((c, p, t) # ns) = (if unat t \<le> k then [(c, p, t)] else []) @ over k ns"
  "due ((c, p, t) # ns) = (if t = 1 then [(c, p, t)] else []) @ due ns"
  "counted ((c, p, t) # ns) = (if t = 1 then [] else [(c, p, t - 1)]) @ counted ns"
  by (simp_all add: over_def due_def counted_def)

lemma over_Suc:
  assumes "\<forall>w \<in> set ns. snd (snd w) \<noteq> 0"
  shows "(\<lambda>w. (fst w, fst (snd w))) ` set (over (Suc k) ns) =
    (\<lambda>w. (fst w, fst (snd w))) ` set (due ns) \<union> (\<lambda>w. (fst w, fst (snd w))) ` set (over k (counted ns))"
  using assms
proof (induction ns)
  case (Cons w ns)
  obtain c p t where w: "w = (c, p, t)" by (metis prod_cases3)
  have t: "unat t = Suc (unat (t - 1))" using Cons.prems w by (intro tick_pred) simp
  have "t = 1 \<Longrightarrow> unat t = 1" by simp
  with t Cons w show ?case by (cases "t = 1"; cases "unat t \<le> Suc k") (simp_all add: sleepers_Cons)
qed (simp add: over_def counted_def due_def)

lemma over_parts:
  "nodes (over k ns) = fst ` (\<lambda>w. (fst w, fst (snd w))) ` set (over k ns)"
  "(\<lambda>w. fst (snd w)) ` set (over k ns) = snd ` (\<lambda>w. (fst w, fst (snd w))) ` set (over k ns)"
  by (simp_all add: image_image)

lemma timer_ticks_ok:
  assumes "sleepers ns s" "length ns < m"
  shows "\<exists>t. timer_ticks (Suc n) m k s = Some t \<and> sleepers (remaining k ns) t \<and>
    h_proc t = roused ((\<lambda>w. fst (snd w)) ` set (over k ns)) (h_proc s) \<and> free_pages t = free_pages s \<union> nodes (over k ns)"
  using assms
proof (induction k arbitrary: s ns)
  case 0
  have nz: "\<forall>w \<in> set ns. snd (snd w) \<noteq> 0" using 0 by (auto simp: sleepers_def sleepers_wf_def)
  then have "filter (\<lambda>w. unat (snd (snd w)) > 0) ns = ns" by (auto simp: filter_id_conv unat_gt_0)
  moreover have "over 0 ns = []" using nz by (auto simp: over_def filter_empty_conv unat_eq_0)
  ultimately show ?case using 0 by (simp add: remaining_def)
next
  case (Suc k)
  have nz: "\<forall>w \<in> set ns. snd (snd w) \<noteq> 0" using Suc.prems by (auto simp: sleepers_def sleepers_wf_def)
  obtain t where t: "timer_handler (Suc n) m s = Ret () t" "sleepers (counted ns) t"
    "h_proc t = roused ((\<lambda>w. fst (snd w)) ` set (due ns)) (h_proc s)" "free_pages t = free_pages s \<union> nodes (due ns)"
    using timer_handler_ok [OF Suc.prems, of n] by blast
  have "length (counted ns) \<le> length ns" by (simp add: counted_def)
  then obtain u where u: "timer_ticks (Suc n) m k t = Some u" "sleepers (remaining k (counted ns)) u"
    "h_proc u = roused ((\<lambda>w. fst (snd w)) ` set (over k (counted ns))) (h_proc t)"
    "free_pages u = free_pages t \<union> nodes (over k (counted ns))"
    using Suc.IH [OF t(2)] Suc.prems(2) by auto
  have "h_proc u = roused ((\<lambda>w. fst (snd w)) ` set (over (Suc k) ns)) (h_proc s)"
    unfolding u(3) t(3) roused_roused over_parts(2) over_Suc [OF nz] image_Un by (simp add: image_image Un_commute)
  moreover have "free_pages u = free_pages s \<union> nodes (over (Suc k) ns)"
    unfolding u(4) t(4) over_parts(1) over_Suc [OF nz] image_Un by (simp add: image_image Un_assoc)
  ultimately show ?case using t(1) u remaining_Suc [OF nz, of k] by auto
qed

text \<open>\<open>sleep\<close> puts the running process at the head of the list and blocks it.\<close>

lemma sleepers_change:
  assumes "sleepers ns s" "pages_inv t" "free_pages t = free_pages s" "h_sleep t = h_sleep s"
    "sleeping_processes t = sleeping_processes s" "\<And>p. h_proc s p \<noteq> None \<Longrightarrow> h_proc t p \<noteq> None"
  shows "sleepers ns t"
  using assms by (auto simp: sleepers_def sleepers_wf_def in_use_def)

lemma pages_inv_list: "pages_inv (s\<lparr>sleeping_processes := a\<rparr>) = pages_inv s"
  by (simp add: pages_inv_def mutex_free_def mutex_is_open_def mutex_empty_def the_mutex_def)

lemma pages_inv_machine: "pages_inv s \<Longrightarrow> c \<noteq> NULL \<Longrightarrow> R c \<noteq> None \<Longrightarrow> pages_inv (machine P R c l s)"
  by (rule pages_inv_at) (simp_all add: machine_def)

lemma sleep_ok:
  assumes sl: "sleepers ns s" and room: "free_pages s \<noteq> {}" and run: "running p x s" and nd: "p_st x \<noteq> DELETE"
    and ms: "ms div 55 \<noteq> 0"
  obtains new t where "sleep (Suc n) ms s = Yld t (\<lambda>t. Ret 1 t)" "new \<in> free_pages s" "free_pages t = free_pages s - {new}"
    "sleepers ((new, p, ms div 55) # ns) t" "h_proc t = (h_proc s)(p \<mapsto> x\<lparr>p_st := BLOCKED\<rparr>)"
proof -
  obtain c where c: "cur_node s \<noteq> NULL" "h_snode s (cur_node s) = Some c" "sn_p c = p" "p \<noteq> NULL" "h_proc s p = Some x"
    using run by (auto simp: running_def split: option.splits)
  let ?s1 = "put_snode (cur_node s) (c\<lparr>quantum := quantum c + 1\<rparr>) s" and ?k = "ms div 55"
  have q: "assign_quantum s = Ret () ?s1" using c by (simp add: assign_quantum_def)
  have inv: "pages_inv s" using sl by (simp add: sleepers_def sleepers_wf_def)
  have inv1: "pages_inv ?s1" by (rule pages_inv_at [OF inv]) (use c in \<open>simp_all add: put_snode_def\<close>)
  have f1: "free_pages ?s1 = free_pages s" "cur_node ?s1 = cur_node s" "h_proc ?s1 = h_proc s" "h_sleep ?s1 = h_sleep s"
    "sleeping_processes ?s1 = sleeping_processes s" by (simp_all add: put_snode_def free_pages_def)
  note page = get_page_step [OF inv1, unfolded f1(1), OF room, of n]
  let ?new = "next_page ?s1" and ?s2 = "paged_out ?s1"
  let ?s3 = "(put_sleep ?new \<lparr>sp_p = p, ticks = ?k, sp_next = sleeping_processes s\<rparr> ?s2)\<lparr>sleeping_processes := ?new\<rparr>"
  have nn: "?new \<noteq> NULL" by (simp add: next_page_def)
  have gc: "get_current_process ?s2 = Ret p ?s2" using c by (simp add: get_current_process_def) (simp add: put_snode_def)
  have cr: "create_sleep_process (Suc n) ?k ?s1 = Ret ?new (put_sleep ?new \<lparr>sp_p = p, ticks = ?k, sp_next = NULL\<rparr> ?s2)"
    using page nn gc by (simp add: create_sleep_process_def)
  have ad: "add_sleep_process ?new (put_sleep ?new \<lparr>sp_p = p, ticks = ?k, sp_next = NULL\<rparr> ?s2) = Ret () ?s3"
    using nn f1 by (simp add: add_sleep_process_def) (simp add: put_sleep_def)
  let ?s4 = "put_proc p (x\<lparr>p_st := BLOCKED\<rparr>) ?s3"
  have h3: "h_proc ?s3 = h_proc s" "free_pages ?s3 = free_pages s - {?new}" using f1 page by (simp_all add: free_pages_def put_sleep_def)
  have bl: "block_process p ?s3 = Ret () ?s4" using c nd h3 by (simp add: block_process_def)
  have "running p (x\<lparr>p_st := BLOCKED\<rparr>) ?s4" using run c by (auto simp: running_def put_sleep_def put_snode_def split: option.splits)
  then obtain R where y: "yield_process ?s4 = Yld (machine (h_proc ?s4) R (cur_node ?s4) (superlock ?s4) ?s4) (\<lambda>t. Ret () t)"
    "same_ring (h_snode ?s4) R" by (rule yield_running)
  let ?t = "machine (h_proc ?s4) R (cur_node ?s4) (superlock ?s4) ?s4"
  have "rd h_sleep ?new ?s3 K = K \<lparr>sp_p = p, ticks = ?k, sp_next = sleeping_processes s\<rparr>" for K :: "sleep_process \<Rightarrow> int kres"
    using nn by simp
  then have "sleep (Suc n) ms s = bnd (yield_process ?s4) (\<lambda>_ s. Ret 1 s)"
    using ms bl unfolding sleep_def Let_def q cr ad bnd.simps by simp
  then have sl_eq: "sleep (Suc n) ms s = Yld ?t (\<lambda>t. Ret 1 t)" unfolding y(1) bnd.simps .
  have t_frame: "free_pages ?t = free_pages s - {?new}" "h_sleep ?t = (h_sleep s)(?new \<mapsto> \<lparr>sp_p = p, ticks = ?k, sp_next = sleeping_processes s\<rparr>)"
    "sleeping_processes ?t = ?new" "h_proc ?t = (h_proc s)(p \<mapsto> x\<lparr>p_st := BLOCKED\<rparr>)"
    using h3 f1 by (simp_all add: machine_def free_pages_def)
  have "pages_inv ?t"
  proof -
    have "pages_inv ?s2" using page by blast
    moreover have "R (cur_node s) \<noteq> None" using same_ring_defined [OF y(2)] c by (simp add: put_sleep_def put_snode_def)
    moreover have "pages_inv ?s4 = pages_inv ?s2" by (simp add: pages_inv_list)
    moreover have "cur_node ?s4 = cur_node s" by (simp add: put_sleep_def put_snode_def)
    ultimately show ?thesis using c(1) by (intro pages_inv_machine) simp_all
  qed
  moreover have wf: "sleepers_wf ns s" "spath (h_sleep s) (sleeping_processes s) ns NULL" using sl by (simp_all add: sleepers_def)
  moreover have new: "?new \<notin> nodes ns" "?new \<in> data_pages" "nodes ns \<subseteq> in_use s"
    using page wf(1) data.free_universe [OF inv] by (auto simp: sleepers_wf_def in_use_def)
  moreover have "insert ?new (nodes ns) \<subseteq> in_use ?t" using new t_frame(1) by (auto simp: in_use_def)
  ultimately have "sleepers ((?new, p, ?k) # ns) ?t"
    using ms c nn t_frame by (auto simp: sleepers_def sleepers_wf_def spath_other)
  with sl_eq t_frame(1,4) page show thesis using that [of ?t ?new] by blast
qed


lemma no_sleepers: "sleepers [] two_in_table"
proof -
  have "sleeping_processes two_in_table = NULL"
    by (simp add: two_in_table_def two_processes_def initialize_stack_memory_allocator_def
      initialize_memory_allocator_def power_on_zero_def power_on_def)
  then show ?thesis using two_in_table_kernel(1) by (simp add: sleepers_def sleepers_wf_def kernel_inv_def)
qed


text \<open>
  C21. A process that calls \<open>sleep\<close> for at least 55 ms leaves the processor blocked and stays blocked
  for exactly \<open>milliseconds / 55\<close> timer interrupts.
\<close>

theorem sleep_duration:
  assumes "sleepers ns s" "free_pages s \<noteq> {}" "running p x s" "p_st x \<noteq> DELETE" "ms div 55 \<noteq> 0"
    and "p \<notin> (\<lambda>w. fst (snd w)) ` set ns" "Suc (length ns) < m"
  shows "\<exists>t u. sleep (Suc n) ms s = Yld t (\<lambda>t. Ret 1 t) \<and> timer_ticks (Suc n) m k t = Some u \<and>
    (waits u p \<longleftrightarrow> k < unat (ms div 55)) \<and> (runs u p \<longleftrightarrow> k \<ge> unat (ms div 55))"
proof -
  obtain new t where t: "sleep (Suc n) ms s = Yld t (\<lambda>t. Ret 1 t)" "sleepers ((new, p, ms div 55) # ns) t"
    "h_proc t = (h_proc s)(p \<mapsto> x\<lparr>p_st := BLOCKED\<rparr>)"
    by (rule sleep_ok [OF assms(1-5), of n])
  obtain u where u: "timer_ticks (Suc n) m k t = Some u"
    "h_proc u = roused ((\<lambda>w. fst (snd w)) ` set (over k ((new, p, ms div 55) # ns))) (h_proc t)"
    using timer_ticks_ok [OF t(2), of m n k] assms(7) by auto
  have "set (over k ns) \<subseteq> set ns" by (auto simp: over_def)
  then have "p \<notin> (\<lambda>w. fst (snd w)) ` set (over k ns)" using assms(6) by blast
  then have "h_proc u p = Some (if unat (ms div 55) \<le> k then x\<lparr>p_st := READY\<rparr> else x\<lparr>p_st := BLOCKED\<rparr>)"
    using u(2) t(3) by (simp add: roused_def sleepers_Cons ready_def)
  then have "(waits u p \<longleftrightarrow> k < unat (ms div 55)) \<and> (runs u p \<longleftrightarrow> k \<ge> unat (ms div 55))"
    by (auto simp: waits_def runs_def)
  with t(1) u(1) show ?thesis by blast
qed

theorem sleep_duration_witness:
  "\<exists>t u. sleep 1 1000 two_in_table = Yld t (\<lambda>t. Ret 1 t) \<and> timer_ticks 1 2 17 t = Some u \<and> waits u proc_A"
proof -
  have d: "(1000 :: u64) div 55 = 18" "unat (18 :: u64) = 18" by code_simp+
  have run: "running proc_A process_A two_in_table" "p_st process_A \<noteq> DELETE" by (simp_all add: running_def process_A_def)
  have room: "free_pages two_in_table \<noteq> {}" using two_in_table_kernel(2) two_processes_pages_inv(2) by simp
  have "(1000 :: u64) div 55 \<noteq> 0" "proc_A \<notin> (\<lambda>w. fst (snd w)) ` set ([] :: sleeper list)" "Suc (length ([] :: sleeper list)) < 2"
    using d by simp_all
  from sleep_duration [OF no_sleepers room run this, of 0 17]
  obtain t u where t: "sleep (Suc 0) 1000 two_in_table = Yld t (\<lambda>t. Ret 1 t)" "timer_ticks (Suc 0) 2 17 t = Some u"
    "waits u proc_A \<longleftrightarrow> 17 < unat ((1000 :: u64) div 55)" by blast
  have "waits u proc_A" using t(3) d by simp
  then show ?thesis using t(1,2) unfolding One_nat_def by blast
qed

end
