(* ===== verification/C_Library.thy ===== *)
theory C_Library
  imports Prelude "HOL-Library.Signed_Division" "HOL-Library.List_Lexorder"
begin

text \<open>
  The kernel's own C library: \<open>ctype.c\<close>, \<open>strings.c\<close>, \<open>lib.c\<close> (blocks of memory, numbers and text) and
  \<open>random.c\<close>. The routines work on a flat memory of bytes. A loop whose end depends on the contents of
  memory is a partial function: \<open>None\<close> when it does not end, when a signed \<open>int\<close> overflows, or on a
  division by zero.
\<close>

section \<open>Memory and characters\<close>

type_synonym mem = "u64 \<Rightarrow> u8"

text \<open>\<open>char\<close> is signed.\<close>

definition ch :: "mem \<Rightarrow> u64 \<Rightarrow> int" where
  "ch m p = sint (m p)"

definition int_ok :: "int \<Rightarrow> bool" where
  "int_ok v \<longleftrightarrow> - (2 ^ 31) \<le> v \<and> v < 2 ^ 31"

section \<open>\<open>ctype.c\<close>\<close>

definition islower :: "int \<Rightarrow> bool" where "islower c \<longleftrightarrow> c \<ge> 97 \<and> c \<le> 122"
definition isupper :: "int \<Rightarrow> bool" where "isupper c \<longleftrightarrow> c \<ge> 65 \<and> c \<le> 90"
definition isdigit :: "int \<Rightarrow> bool" where "isdigit c \<longleftrightarrow> c \<ge> 48 \<and> c \<le> 57"
definition isalpha :: "int \<Rightarrow> bool" where "isalpha c \<longleftrightarrow> islower c \<or> isupper c"
definition isalnum :: "int \<Rightarrow> bool" where "isalnum c \<longleftrightarrow> isalpha c \<or> isdigit c"
definition isblank :: "int \<Rightarrow> bool" where "isblank c \<longleftrightarrow> c = 9 \<or> c = 32"
definition isprint :: "int \<Rightarrow> bool" where "isprint c \<longleftrightarrow> c > 0x1F \<and> c \<noteq> 0x7F"
definition iscntrl :: "int \<Rightarrow> bool" where "iscntrl c \<longleftrightarrow> \<not> isprint c"
definition isgraph :: "int \<Rightarrow> bool" where "isgraph c \<longleftrightarrow> isprint c \<and> c \<noteq> 32"
definition ispunct :: "int \<Rightarrow> bool" where "ispunct c \<longleftrightarrow> isgraph c \<and> \<not> isalnum c"
definition isspace :: "int \<Rightarrow> bool" where "isspace c \<longleftrightarrow> isblank c \<or> c = 11 \<or> c = 12 \<or> c = 13 \<or> c = 10"
definition isxdigit :: "int \<Rightarrow> bool" where
  "isxdigit c \<longleftrightarrow> isdigit c \<or> (c \<ge> 97 \<and> c \<le> 102) \<or> (c \<ge> 65 \<and> c \<le> 70)"

lemmas ctype_defs = islower_def isupper_def isdigit_def isalpha_def isalnum_def isblank_def isprint_def
  iscntrl_def isgraph_def ispunct_def isspace_def isxdigit_def

section \<open>\<open>strings.c\<close>\<close>

partial_function (option) str_len_from :: "mem \<Rightarrow> u64 \<Rightarrow> int \<Rightarrow> int option" where
  [code]: "str_len_from m str i =
     (if \<not> int_ok i then None else if ch m (str + of_int i) \<noteq> 0 then str_len_from m str (i + 1) else Some i)"

definition str_len :: "mem \<Rightarrow> u64 \<Rightarrow> int option" where
  "str_len m str = str_len_from m str 0"

text \<open>In \<open>i < n\<close> the \<open>int\<close> is converted to \<open>unsigned int\<close>; \<open>i\<close> is not negative.\<close>

partial_function (option) strncmp_from :: "mem \<Rightarrow> u64 \<Rightarrow> u64 \<Rightarrow> u32 \<Rightarrow> int \<Rightarrow> int option" where
  [code]: "strncmp_from m s t n i =
     (if \<not> int_ok i then None
      else if (of_int i :: u32) < n \<and> ch m (s + of_int i) \<noteq> 0 \<and> ch m (t + of_int i) \<noteq> 0 \<and>
              ch m (s + of_int i) = ch m (t + of_int i)
      then strncmp_from m s t n (i + 1)
      else Some (ch m (s + of_int i) - ch m (t + of_int i)))"

definition strncmp :: "mem \<Rightarrow> u64 \<Rightarrow> u64 \<Rightarrow> u32 \<Rightarrow> int option" where
  "strncmp m s t n = strncmp_from m s t n 0"

abbreviation UINT_MAX :: u32 where "UINT_MAX \<equiv> 4294967295"

definition strcmp :: "mem \<Rightarrow> u64 \<Rightarrow> u64 \<Rightarrow> int option" where
  "strcmp m s t = strncmp m s t UINT_MAX"

partial_function (option) strcpy_from :: "u64 \<Rightarrow> u64 \<Rightarrow> int \<Rightarrow> mem \<Rightarrow> (int \<times> mem) option" where
  [code]: "strcpy_from dst src i m =
     (if \<not> int_ok i then None
      else if ch m (src + of_int i) \<noteq> 0 then strcpy_from dst src (i + 1) (m(dst + of_int i := m (src + of_int i)))
      else Some (i, m(dst + of_int i := 0)))"

definition strcpy :: "u64 \<Rightarrow> u64 \<Rightarrow> mem \<Rightarrow> (int \<times> mem) option" where
  "strcpy dst src m = strcpy_from dst src 0 m"

text \<open>Here \<open>n\<close> is an \<open>int\<close>.\<close>

partial_function (option) strcpynto_from :: "u64 \<Rightarrow> u64 \<Rightarrow> int \<Rightarrow> int \<Rightarrow> int \<Rightarrow> mem \<Rightarrow> (int \<times> mem) option" where
  [code]: "strcpynto_from dst src limit n i m =
     (if \<not> int_ok i then None
      else if i < n \<and> ch m (src + of_int i) \<noteq> 0 \<and> ch m (src + of_int i) \<noteq> limit
      then strcpynto_from dst src limit n (i + 1) (m(dst + of_int i := m (src + of_int i)))
      else Some (i, m(dst + of_int i := 0)))"

definition strcpynto :: "u64 \<Rightarrow> u64 \<Rightarrow> int \<Rightarrow> int \<Rightarrow> mem \<Rightarrow> (int \<times> mem) option" where
  "strcpynto dst src limit n m = strcpynto_from dst src limit n 0 m"

text \<open>\<open>UINT_MAX\<close> is converted to the \<open>int\<close> parameter.\<close>

definition strcpyto :: "u64 \<Rightarrow> u64 \<Rightarrow> int \<Rightarrow> mem \<Rightarrow> (int \<times> mem) option" where
  "strcpyto dst src limit m = strcpynto dst src limit (sint UINT_MAX) m"

section \<open>\<open>lib.c\<close>\<close>

primrec memset_loop :: "u64 \<Rightarrow> u8 \<Rightarrow> nat \<Rightarrow> mem \<Rightarrow> mem" where
  "memset_loop dst c 0 m = m"
| "memset_loop dst c (Suc k) m = memset_loop dst c k (m(dst + of_nat k := c))"

definition memset :: "u64 \<Rightarrow> int \<Rightarrow> u64 \<Rightarrow> mem \<Rightarrow> mem" where
  "memset dst c len m = memset_loop dst (of_int c) (unat len) m"

text \<open>The two loops of \<open>memcpy\<close>, from index \<open>i\<close> on for \<open>k\<close> turns: 32-bit words, and bytes.\<close>

definition copy_word :: "u64 \<Rightarrow> u64 \<Rightarrow> mem \<Rightarrow> mem" where
  "copy_word d s m = m(d := m s, d + 1 := m (s + 1), d + 2 := m (s + 2), d + 3 := m (s + 3))"

primrec copy_words :: "u64 \<Rightarrow> u64 \<Rightarrow> nat \<Rightarrow> nat \<Rightarrow> mem \<Rightarrow> mem" where
  "copy_words d s i 0 m = m"
| "copy_words d s i (Suc k) m = copy_words d s (Suc i) k (copy_word (d + of_nat (4 * i)) (s + of_nat (4 * i)) m)"

primrec copy_bytes :: "u64 \<Rightarrow> u64 \<Rightarrow> nat \<Rightarrow> nat \<Rightarrow> mem \<Rightarrow> mem" where
  "copy_bytes d s i 0 m = m"
| "copy_bytes d s i (Suc k) m = copy_bytes d s (Suc i) k (m(d + of_nat i := m (s + of_nat i)))"

definition memcpy :: "u64 \<Rightarrow> u64 \<Rightarrow> u64 \<Rightarrow> mem \<Rightarrow> mem" where
  "memcpy destination source len m =
     (if destination mod 4 = 0 \<and> source mod 4 = 0 \<and> len mod 4 = 0
      then copy_words destination source 0 (unat (len div 4)) m
      else copy_bytes destination source 0 (unat len) m)"

text \<open>\<open>itoa\<close>: the digits from the lowest one, and the reversal in place.\<close>

definition digit_char :: "int \<Rightarrow> u8" where
  "digit_char r = of_int (if r < 10 then r + 48 else r + 65 - 10)"

partial_function (option) itoa_digits :: "int \<Rightarrow> int \<Rightarrow> u64 \<Rightarrow> int \<Rightarrow> mem \<Rightarrow> (u64 \<times> int \<times> mem) option" where
  [code]: "itoa_digits base value p len m =
     (if base = 0 then None
      else let m = m(p := digit_char (value smod base)); v = value sdiv base
           in if v \<noteq> 0 then itoa_digits base v (p + 1) (len + 1) m else Some (p + 1, len + 1, m))"

lemma pointer_step:
  assumes "p1 < (p2 :: u64)"
  shows "unat (p1 + 1) = Suc (unat p1)" "unat (p2 - 1) = unat p2 - 1" "unat p1 < unat p2"
proof -
  have "p1 \<noteq> - 1" "p2 \<noteq> 0" using assms leD [OF word_order.extremum, of p2] by auto
  then show "unat (p1 + 1) = Suc (unat p1)" "unat (p2 - 1) = unat p2 - 1" by (simp_all add: unat_Suc_word unat_pred_word)
  show "unat p1 < unat p2" using assms by (simp add: word_less_nat_alt)
qed

function reverse_loop :: "u64 \<Rightarrow> u64 \<Rightarrow> mem \<Rightarrow> mem" where
  "reverse_loop p1 p2 m =
     (if p1 < p2 then reverse_loop (p1 + 1) (p2 - 1) (m(p1 := m p2, p2 := m p1)) else m)"
  by pat_completeness auto

termination
  by (relation "measure (\<lambda>(p1, p2, m). unat p2 - unat p1)") (use pointer_step in \<open>auto intro: diff_less_mono2\<close>)

declare reverse_loop.simps [simp del]

definition itoa :: "int \<Rightarrow> u64 \<Rightarrow> int \<Rightarrow> mem \<Rightarrow> (int \<times> mem) option" where
  "itoa value str base m =
     (let neg = value < 0 \<and> base = 10;
          v = if neg then - value else value;
          m = if neg then m(str := 45) else m;
          str = if neg then str + 1 else str
      in if \<not> int_ok v then None
         else case itoa_digits base v str (if neg then 1 else 0) m of None \<Rightarrow> None
              | Some (p, len, m) \<Rightarrow> Some (len, reverse_loop str (p - 1) (m(p := 0))))"

partial_function (option) skip_space :: "mem \<Rightarrow> u64 \<Rightarrow> u64 option" where
  [code]: "skip_space m str = (if isspace (ch m str) then skip_space m (str + 1) else Some str)"

partial_function (option) atoi_digits :: "mem \<Rightarrow> u64 \<Rightarrow> int \<Rightarrow> int option" where
  [code]: "atoi_digits m str num =
     (if ch m str \<noteq> 0 \<and> isdigit (ch m str)
      then let num' = num * 10 + ch m str - 48
           in if int_ok (num * 10 + ch m str) then atoi_digits m (str + 1) num' else None
      else Some num)"

definition atoi :: "mem \<Rightarrow> u64 \<Rightarrow> int option" where
  "atoi m str =
     (case skip_space m str of None \<Rightarrow> None
      | Some str \<Rightarrow>
          let sign = if ch m str = 45 then - 1 else 1;
              str = if ch m str = 45 \<or> ch m str = 43 then str + 1 else str
          in map_option (\<lambda>num. num * sign) (atoi_digits m str 0))"

section \<open>\<open>random.c\<close>\<close>

definition rand_int :: "u64 \<Rightarrow> int \<times> u64" where
  "rand_int next =
     (let next = next * 1103515245 + 12345
      in (uint ((ucast (next div 65536) :: u32) mod 32768), next))"

definition rand_int_range :: "int \<Rightarrow> int \<Rightarrow> u64 \<Rightarrow> int \<times> u64" where
  "rand_int_range low high next =
     (if high \<le> low then (- 1, next)
      else let r = high - low; (x, next) = rand_int next in (x smod r + low, next))"

definition srand :: "u32 \<Rightarrow> u64" where
  "srand seed = ucast seed"

section \<open>Blocks of memory\<close>

lemma offset_eq: "k < 2 ^ 64 \<Longrightarrow> unat (a - b) = k \<longleftrightarrow> a = b + (of_nat k :: u64)"
proof
  assume "unat (a - b) = k"
  then have "a - b = of_nat k" by auto
  then show "a = b + of_nat k" by (simp add: algebra_simps)
qed (simp add: unat_of_nat_u64)

lemma offset_less_Suc: "k < 2 ^ 64 \<Longrightarrow> unat (a - b) < Suc k \<longleftrightarrow> unat (a - b) < k \<or> a = b + (of_nat k :: u64)"
  using offset_eq [of k a b] by (auto simp: less_Suc_eq)

lemma memset_loop_eq:
  "k \<le> 2 ^ 64 \<Longrightarrow> memset_loop dst c k m = (\<lambda>a. if unat (a - dst) < k then c else m a)"
proof (induction k arbitrary: m)
  case (Suc k)
  then show ?case using offset_less_Suc [of k _ dst] by (auto simp: fun_eq_iff)
qed simp

text \<open>No byte that is read is written before.\<close>

definition apart :: "u64 \<Rightarrow> u64 \<Rightarrow> nat \<Rightarrow> bool" where
  "apart d s n \<longleftrightarrow> n \<le> unat (s - d) \<and> n \<le> unat (d - s)"

lemma apart_neq:
  assumes "apart d s n" "x < n" "y < n"
  shows "s + of_nat x \<noteq> d + of_nat y"
proof
  assume eq: "s + of_nat x = d + of_nat y"
  have n: "n < 2 ^ 64" using assms(1) unsigned_less [of "s - d", where ?'a = nat] by (simp add: apart_def)
  show False
  proof (cases "x \<le> y")
    case True
    then have "s - d = of_nat (y - x)" using eq by (simp add: algebra_simps of_nat_diff)
    then have "unat (s - d) = y - x" using assms(3) n by (simp add: unat_of_nat_u64)
    then show False using assms unfolding apart_def by linarith
  next
    case False
    then have "d - s = of_nat (x - y)" using eq by (simp add: algebra_simps of_nat_diff)
    then have "unat (d - s) = x - y" using assms(2) n by (simp add: unat_of_nat_u64)
    then show False using assms unfolding apart_def by linarith
  qed
qed

lemma copy_bytes_append: "copy_bytes d s i (j + k) m = copy_bytes d s (i + j) k (copy_bytes d s i j m)"
  by (induction j arbitrary: i m) simp_all

lemma copy_bytes_eq:
  assumes "apart d s n" "i + k \<le> n"
  shows "copy_bytes d s i k m = (\<lambda>a. if i \<le> unat (a - d) \<and> unat (a - d) < i + k then m (s + (a - d)) else m a)"
  using assms(2)
proof (induction k arbitrary: i m)
  case (Suc k)
  have n: "n < 2 ^ 64" using assms(1) unsigned_less [of "s - d", where ?'a = nat] by (simp add: apart_def)
  let ?m = "m(d + of_nat i := m (s + of_nat i))"
  have "?m (s + (a - d)) = m (s + (a - d))" if "unat (a - d) < n" for a
  proof -
    have "s + of_nat (unat (a - d)) \<noteq> d + of_nat i" using that Suc.prems by (intro apart_neq [OF assms(1)]) simp_all
    then show ?thesis by simp
  qed
  note same = this
  have at: "unat (a - d) = i \<longleftrightarrow> a = d + of_nat i" for a using Suc.prems n by (intro offset_eq) simp
  show ?case
  proof
    fix a
    have "copy_bytes d s i (Suc k) m a = (if Suc i \<le> unat (a - d) \<and> unat (a - d) < Suc i + k then ?m (s + (a - d)) else ?m a)"
      using Suc.IH [of "Suc i" ?m] Suc.prems by (simp del: fun_upd_apply)
    also have "\<dots> = (if i \<le> unat (a - d) \<and> unat (a - d) < i + Suc k then m (s + (a - d)) else m a)"
      using same [of a] at [of a] Suc.prems by (cases "a = d + of_nat i"; cases "Suc i \<le> unat (a - d)") (auto simp del: fun_upd_apply simp: fun_upd_same fun_upd_other)
    finally show "copy_bytes d s i (Suc k) m a = \<dots>" .
  qed
qed (auto simp: fun_eq_iff)

lemma copy_words_eq:
  assumes "apart d s n" "4 * (i + k) \<le> n"
  shows "copy_words d s i k m = copy_bytes d s (4 * i) (4 * k) m"
  using assms(2)
proof (induction k arbitrary: i m)
  case (Suc k)
  let ?d = "d + of_nat (4 * i)" and ?s = "s + of_nat (4 * i)"
  have neq: "?s + of_nat x \<noteq> ?d + of_nat y" if "x < 4" "y < 4" for x y
    using apart_neq [OF assms(1), of "4 * i + x" "4 * i + y"] that Suc.prems by (simp add: add.assoc)
  have "copy_word ?d ?s m = copy_bytes d s (4 * i) 4 m"
    using neq [of 1 0] neq [of 2 0] neq [of 2 1] neq [of 3 0] neq [of 3 1] neq [of 3 2]
    by (simp add: copy_word_def numeral_eq_Suc add.assoc algebra_simps)
  moreover have "copy_bytes d s (4 * i) (4 * Suc k) m = copy_bytes d s (4 * Suc i) (4 * k) (copy_bytes d s (4 * i) 4 m)"
    using copy_bytes_append [of d s "4 * i" 4 "4 * k" m] by (simp add: add.commute)
  ultimately show ?case using Suc by simp
qed simp

section \<open>Text in memory\<close>

text \<open>The bytes \<open>xs\<close> stand at \<open>p\<close>; a C string is followed by 0.\<close>

primrec bytes_at :: "mem \<Rightarrow> u64 \<Rightarrow> u8 list \<Rightarrow> bool" where
  "bytes_at m p [] \<longleftrightarrow> True"
| "bytes_at m p (x # xs) \<longleftrightarrow> m p = x \<and> bytes_at m (p + 1) xs"

definition cstr :: "mem \<Rightarrow> u64 \<Rightarrow> u8 list \<Rightarrow> bool" where
  "cstr m p xs \<longleftrightarrow> bytes_at m p (xs @ [0]) \<and> 0 \<notin> set xs"

lemma bytes_at_append: "bytes_at m p (xs @ ys) \<longleftrightarrow> bytes_at m p xs \<and> bytes_at m (p + of_nat (length xs)) ys"
  by (induction xs arbitrary: p) (auto simp: add.assoc)

lemma bytes_at_nth: "bytes_at m p xs \<longleftrightarrow> (\<forall>i < length xs. m (p + of_nat i) = xs ! i)"
proof (induction xs arbitrary: p)
  case (Cons x xs)
  have "(\<forall>i < Suc (length xs). m (p + of_nat i) = (x # xs) ! i) \<longleftrightarrow>
      m p = x \<and> (\<forall>i < length xs. m (p + of_nat (Suc i)) = xs ! i)"
    by (auto simp: less_Suc_eq_0_disj)
  then show ?case using Cons by (simp add: add.assoc)
qed simp

lemma ch_eq: "ch m p = ch m q \<longleftrightarrow> m p = m q"
  unfolding ch_def by (rule word_eq_iff_signed [symmetric])

lemma ch_0 [simp]: "ch m p = 0 \<longleftrightarrow> m p = 0"
  unfolding ch_def by (metis signed_0 word_eq_iff_signed)

lemma cstr_nth:
  assumes "cstr m p xs"
  shows "i < length xs \<Longrightarrow> m (p + of_nat i) = xs ! i \<and> m (p + of_nat i) \<noteq> 0" "m (p + of_nat (length xs)) = 0"
  using assms by (auto simp: cstr_def bytes_at_append) (auto simp: bytes_at_nth in_set_conv_nth)

lemma int_ok_nat: "n < 2 ^ 31 \<Longrightarrow> int_ok (int n)"
  by (simp add: int_ok_def)

text \<open>\<open>strncmp\<close> stops at the first position where the strings end or differ, or at \<open>n\<close>.\<close>

fun first_diff :: "u8 list \<Rightarrow> u8 list \<Rightarrow> nat" where
  "first_diff (x # xs) (y # ys) = (if x = y then Suc (first_diff xs ys) else 0)"
| "first_diff [] ys = 0"
| "first_diff (x # xs) [] = 0"

definition char_at :: "u8 list \<Rightarrow> nat \<Rightarrow> int" where
  "char_at xs i = (if i < length xs then sint (xs ! i) else 0)"

lemma first_diff_le: "first_diff xs ys \<le> length xs" "first_diff xs ys \<le> length ys"
  by (induction xs ys rule: first_diff.induct) auto

lemma first_diff_same: "i < first_diff xs ys \<Longrightarrow> xs ! i = ys ! i"
  by (induction xs ys arbitrary: i rule: first_diff.induct) (auto simp: nth_Cons' split: if_splits)

lemma first_diff_differ:
  "first_diff xs ys < length xs \<Longrightarrow> first_diff xs ys < length ys \<Longrightarrow> xs ! first_diff xs ys \<noteq> ys ! first_diff xs ys"
  by (induction xs ys rule: first_diff.induct) auto

lemma ch_cstr: "cstr m p xs \<Longrightarrow> i \<le> length xs \<Longrightarrow> ch m (p + of_nat i) = char_at xs i"
  using cstr_nth [of m p xs] by (auto simp: ch_def char_at_def le_less)

lemma char_at_0: "cstr m p xs \<Longrightarrow> i \<le> length xs \<Longrightarrow> char_at xs i = 0 \<longleftrightarrow> i = length xs"
  using cstr_nth(1) [of m p xs i] cstr_nth(2) [of m p xs] ch_cstr [of m p xs i] ch_0 [of m "p + of_nat i"]
  by (cases "i = length xs") auto

lemma strncmp_from_eq:
  assumes s: "cstr m s xs" and t: "cstr m t ys" and len: "length xs < 2 ^ 31" "length ys < 2 ^ 31"
    and i: "i \<le> first_diff xs ys" "i \<le> unat n"
  shows "strncmp_from m s t n (int i) =
    Some (let k = min (first_diff xs ys) (unat n) in char_at xs k - char_at ys k)"
  using i
proof (induction "min (first_diff xs ys) (unat n) - i" arbitrary: i)
  case 0
  let ?d = "first_diff xs ys"
  have i: "i \<le> length xs" "i \<le> length ys" using 0 first_diff_le [of xs ys] by auto
  have ok: "int_ok (int i)" using i len by (intro int_ok_nat) simp
  have "i = ?d \<or> i = unat n" using 0 by auto
  moreover have "\<not> (of_int (int i) :: u32) < n" if "i = unat n" using that by (simp add: word_less_nat_alt)
  moreover have "char_at xs i = 0 \<or> char_at ys i = 0 \<or> char_at xs i \<noteq> char_at ys i" if "i = ?d"
    using that first_diff_differ [of xs ys] i char_at_0 [OF s i(1)] char_at_0 [OF t i(2)]
    by (auto simp: char_at_def word_eq_iff_signed [symmetric] split: if_splits)
  ultimately have "strncmp_from m s t n (int i) = Some (char_at xs i - char_at ys i)"
    using ok ch_cstr [OF s i(1)] ch_cstr [OF t i(2)] by (subst strncmp_from.simps) (auto simp del: ch_0)
  moreover have "i = min ?d (unat n)" using 0 by auto
  ultimately show ?case by (simp add: Let_def)
next
  case (Suc k)
  let ?d = "first_diff xs ys"
  have lt: "i < ?d" "i < unat n" using Suc.hyps(2) by auto
  have i: "i < length xs" "i < length ys" using lt first_diff_le [of xs ys] by auto
  have ok: "int_ok (int i)" using i len by (intro int_ok_nat) simp
  have "unat (of_nat i :: u32) = i" using i len by (simp add: unat_of_nat)
  then have "(of_nat i :: u32) < n" using lt(2) by (simp add: word_less_nat_alt)
  moreover have "char_at xs i = char_at ys i" using first_diff_same [OF lt(1)] i by (simp add: char_at_def)
  moreover have "char_at xs i \<noteq> 0" using char_at_0 [OF s, of i] i by simp
  ultimately have "strncmp_from m s t n (int i) = strncmp_from m s t n (int (Suc i))"
    using ok ch_cstr [OF s, of i] ch_cstr [OF t, of i] i by (subst strncmp_from.simps) (simp add: add.commute del: ch_0)
  moreover have "k = min ?d (unat n) - Suc i" using Suc.hyps(2) by simp
  ultimately show ?case using Suc.hyps(1) [of "Suc i"] lt by simp
qed

lemma sint_0_iff: "sint (x :: u8) = 0 \<longleftrightarrow> x = 0"
  by (metis signed_0 word_eq_iff_signed)

lemma first_diff_order:
  assumes "0 \<notin> set xs" "0 \<notin> set ys"
  shows "(char_at xs (first_diff xs ys) - char_at ys (first_diff xs ys) < 0 \<longleftrightarrow> map sint (xs @ [0]) < map sint (ys @ [0])) \<and>
    (char_at xs (first_diff xs ys) - char_at ys (first_diff xs ys) = 0 \<longleftrightarrow> xs = ys)"
  using assms
proof (induction xs ys rule: first_diff.induct)
  case (1 x xs y ys)
  have "char_at (c # cs) (Suc i) = char_at cs i" for c cs i by (simp add: char_at_def)
  then show ?case using 1 by (cases "x = y") (auto simp: char_at_def word_eq_iff_signed [symmetric])
next
  case (2 ys)
  then show ?case using sint_0_iff [of "hd ys"] by (cases ys) (auto simp: char_at_def)
next
  case (3 x xs)
  then show ?case using sint_0_iff [of x] by (auto simp: char_at_def)
qed

lemma memcpy_eq:
  assumes "apart destination source (unat len)"
  shows "memcpy destination source len m = (\<lambda>a. if unat (a - destination) < unat len then m (source + (a - destination)) else m a)"
proof -
  note ap = assms
  have "memcpy destination source len m = copy_bytes destination source 0 (unat len) m"
  proof (cases "destination mod 4 = 0 \<and> source mod 4 = 0 \<and> len mod 4 = 0")
    case True
    have "unat (len mod 4) = unat len mod 4" by (simp add: unat_mod)
    then have "unat len mod 4 = 0" using True by simp
    moreover have "unat (len div 4) = unat len div 4" by (simp add: unat_div)
    ultimately have "4 * unat (len div 4) = unat len" by auto
    then show ?thesis using copy_words_eq [OF ap, of 0 "unat (len div 4)" m] True by (simp add: memcpy_def)
  next
    case False
    then show ?thesis unfolding memcpy_def by (rule if_not_P)
  qed
  moreover have "unat len \<le> 2 ^ 64" using unsigned_less [of len, where ?'a = nat] by simp
  ultimately show ?thesis using copy_bytes_eq [OF ap, of 0 "unat len" m] by simp
qed

section \<open>Properties of blocks and strings\<close>

text \<open>
  C24. \<open>memcpy\<close> copies byte for byte, for every alignment and length, whenever source and destination
  do not overlap: the loop over 32-bit words does the same as the loop over bytes, and no byte
  outside the destination changes. \<open>memset\<close> fills exactly its block.
\<close>

theorem memcpy_copies:
  assumes "unat len \<le> unat (source - destination)" "unat len \<le> unat (destination - source)"
  shows "memcpy destination source len m =
      (\<lambda>a. if unat (a - destination) < unat len then m (source + (a - destination)) else m a) \<and>
    memset destination c len m = (\<lambda>a. if unat (a - destination) < unat len then of_int c else m a)"
  using memcpy_eq [of destination source len m] assms unsigned_less [of len, where ?'a = nat]
  by (simp add: apart_def memset_def memset_loop_eq)

theorem memcpy_copies_witness:
  "memcpy 0x1000 0x2000 8 (\<lambda>a. ucast a) 0x1005 = 5 \<and> memset 0x1000 65 3 (\<lambda>a. 0) 0x1002 = 65"
  using memcpy_copies [of 8 "0x2000" "0x1000" "\<lambda>a. ucast a" 65] memcpy_copies [of 3 "0x2000" "0x1000" "\<lambda>a. 0" 65] by simp

text \<open>
  C25. \<open>strcmp\<close> compares two strings lexicographically, with the terminator as part of them and \<open>char\<close>
  signed: it returns 0 exactly for equal strings and a negative number exactly when the first
  one is smaller. It always returns, for strings of fewer than \<open>2\<^sup>31\<close> characters.
\<close>

theorem strcmp_lexicographic:
  assumes "cstr m s xs" "cstr m t ys" "length xs < 2 ^ 31" "length ys < 2 ^ 31"
  shows "\<exists>r. strcmp m s t = Some r \<and> (r = 0 \<longleftrightarrow> xs = ys) \<and> (r < 0 \<longleftrightarrow> map sint (xs @ [0]) < map sint (ys @ [0]))"
proof -
  have "first_diff xs ys \<le> unat UINT_MAX" using first_diff_le(1) [of xs ys] assms(3) by simp
  then have "strcmp m s t = Some (char_at xs (first_diff xs ys) - char_at ys (first_diff xs ys))"
    using strncmp_from_eq [OF assms, of 0 UINT_MAX] by (simp add: strcmp_def strncmp_def Let_def min_def)
  moreover have "0 \<notin> set xs" "0 \<notin> set ys" using assms(1,2) by (simp_all add: cstr_def)
  ultimately show ?thesis using first_diff_order by blast
qed

theorem strcmp_lexicographic_witness:
  "\<exists>r. strcmp (\<lambda>a. if a = 0 then 104 else if a = 8 then 108 else 0) 0 8 = Some r \<and> r < 0"
  using strcmp_lexicographic [of "\<lambda>a. if a = 0 then 104 else if a = 8 then 108 else 0" 0 "[104]" 8 "[108]"]
  by (auto simp: cstr_def)

text \<open>
  \<open>strcpyto\<close> never copies anything: the limit \<open>UINT_MAX\<close> it passes arrives as the \<open>int\<close> -1, so
  the loop does not start, whatever the source is, and the destination becomes the empty string.
\<close>

theorem strcpyto_copies_nothing:
  "strcpyto dst src limit m = Some (0, m(dst := 0))"
proof -
  have "sint UINT_MAX = - 1" by code_simp
  then show ?thesis
    unfolding strcpyto_def strcpynto_def by (subst strcpynto_from.simps) (simp add: int_ok_def)
qed

section \<open>Numbers and text\<close>

text \<open>The reversal in place, byte by byte.\<close>

lemma reverse_loop_eq:
  "p1 \<le> p2 \<or> p1 = p2 + 1 \<Longrightarrow> reverse_loop p1 p2 m = (\<lambda>a. if p1 \<le> a \<and> a \<le> p2 then m (p1 + p2 - a) else m a)"
proof (induction p1 p2 m rule: reverse_loop.induct)
  case (1 p1 p2 m)
  show ?case
  proof (cases "p1 < p2")
    case False
    have "a = p1 \<and> p2 = p1" if "p1 \<le> a" "a \<le> p2" for a using that False by auto
    then have "(\<lambda>a. if p1 \<le> a \<and> a \<le> p2 then m (p1 + p2 - a) else m a) = m"
      by (intro ext) (metis add_diff_cancel_right')
    then show ?thesis using False by (subst reverse_loop.simps) simp
  next
    case True
    let ?m = "m(p1 := m p2, p2 := m p1)"
    note st = pointer_step [OF True]
    have "p1 + 1 \<le> p2 - 1 \<or> p1 + 1 = p2 - 1 + 1"
      using st by (cases "unat p2 = Suc (unat p1)") (auto simp: word_le_nat_alt word_unat_eq_iff)
    note IH = 1(1) [OF True this]
    have "reverse_loop p1 p2 m a = (if p1 \<le> a \<and> a \<le> p2 then m (p1 + p2 - a) else m a)" for a
    proof -
      have inner: "p1 + 1 \<le> a \<and> a \<le> p2 - 1 \<longleftrightarrow> p1 \<le> a \<and> a \<le> p2 \<and> a \<noteq> p1 \<and> a \<noteq> p2"
        using st by (auto simp: word_le_nat_alt word_unat_eq_iff)
      have "reverse_loop p1 p2 m a = (if p1 + 1 \<le> a \<and> a \<le> p2 - 1 then ?m (p1 + 1 + (p2 - 1) - a) else ?m a)"
        using True by (subst reverse_loop.simps) (simp only: IH if_True)
      also have "\<dots> = (if p1 \<le> a \<and> a \<le> p2 then m (p1 + p2 - a) else m a)"
      proof (cases "a = p1 \<or> a = p2")
        case True
        then show ?thesis using inner \<open>p1 < p2\<close> by auto
      next
        case False
        then have "p1 + p2 - a \<noteq> p1" "p1 + p2 - a \<noteq> p2" by (auto simp: algebra_simps)
        moreover have "p1 + 1 + (p2 - 1) - a = p1 + p2 - a" by simp
        ultimately show ?thesis using inner False by (simp del: fun_upd_apply add: fun_upd_other)
      qed
      finally show ?thesis .
    qed
    then show ?thesis by blast
  qed
qed

text \<open>The decimal digits of a number, the lowest first, and a list written to memory.\<close>

fun dec :: "nat \<Rightarrow> u8 list" where
  "dec v = of_nat (48 + v mod 10) # (if v div 10 = 0 then [] else dec (v div 10))"

declare dec.simps [simp del]

definition wr :: "mem \<Rightarrow> u64 \<Rightarrow> u8 list \<Rightarrow> mem" where
  "wr m p xs = (\<lambda>a. if unat (a - p) < length xs then xs ! unat (a - p) else m a)"

lemma wr_Cons: "length xs < 2 ^ 64 - 1 \<Longrightarrow> wr (m(p := x)) (p + 1) xs = wr m p (x # xs)"
proof
  fix a assume len: "length xs < 2 ^ 64 - 1"
  show "wr (m(p := x)) (p + 1) xs a = wr m p (x # xs) a"
  proof (cases "a = p")
    case True
    have "unat (p - (p + 1)) = 2 ^ 64 - 1" by (simp add: unsigned_minus_1_eq_mask mask_eq_exp_minus_1)
    with len True show ?thesis by (simp add: wr_def)
  next
    case False
    then have "a - p \<noteq> 0" by simp
    then have "unat (a - p) \<noteq> 0" "unat (a - p - 1) = unat (a - p) - 1" by (simp_all only: unat_eq_0 unat_pred_word not_False_eq_True)
    then have "unat (a - p) = Suc (unat (a - (p + 1)))" by (simp add: diff_diff_eq)
    with False show ?thesis by (simp add: wr_def)
  qed
qed

lemma dec_length: "v < 10 ^ k \<Longrightarrow> 0 < k \<Longrightarrow> length (dec v) \<le> k"
proof (induction k arbitrary: v)
  case (Suc k)
  show ?case
  proof (cases "v div 10 = 0")
    case False
    then have "v div 10 < 10 ^ k" "0 < k" using Suc.prems by (auto intro: gr0I)
    with Suc.IH [of "v div 10"] False show ?thesis by (subst dec.simps) simp
  qed (subst dec.simps, simp)
qed simp

lemma itoa_digits_dec:
  assumes "v < 10 ^ k" "0 < k" "k < 100"
  shows "itoa_digits 10 (int v) p len m =
    Some (p + of_nat (length (dec v)), len + int (length (dec v)), wr m p (dec v))"
  using assms
proof (induction v arbitrary: p len m k rule: dec.induct)
  case (1 v)
  let ?m = "m(p := of_nat (48 + v mod 10))"
  have c: "digit_char (int v smod 10) = of_nat (48 + v mod 10)"
  proof -
    have "int v smod 10 = int (v mod 10)" by (cases "v = 0") (simp_all add: signed_modulo_int_def zmod_int)
    then show ?thesis by (simp add: digit_char_def)
  qed
  have d: "int v sdiv 10 = int (v div 10)" by (cases "v = 0") (simp_all add: signed_divide_int_def zdiv_int)
  show ?case
  proof (cases "v div 10 = 0")
    case True
    have "wr ?m (p + 1) [] = ?m" by (intro ext) (simp add: wr_def)
    then have "wr m p [of_nat (48 + v mod 10)] = ?m" using wr_Cons [of "[]" m p] by simp
    with True c d show ?thesis by (subst itoa_digits.simps, subst (1 2 3) dec.simps) (simp add: Let_def)
  next
    case False
    obtain j where k: "k = Suc j" using 1(3) gr0_implies_Suc by blast
    have j: "k = Suc j" "0 < j" "v div 10 < 10 ^ j" using k 1(2) False by (auto intro: gr0I)
    have "length (dec (v div 10)) < 2 ^ 64 - 1" using dec_length [OF j(3,2)] j(1) 1(4) by simp
    note w = wr_Cons [OF this, of m p "of_nat (48 + v mod 10)"]
    have "itoa_digits 10 (int v) p len m = itoa_digits 10 (int (v div 10)) (p + 1) (len + 1) ?m"
      using False c d by (subst itoa_digits.simps) (simp add: Let_def)
    also have "\<dots> = Some (p + 1 + of_nat (length (dec (v div 10))), len + 1 + int (length (dec (v div 10))), wr ?m (p + 1) (dec (v div 10)))"
      using 1(1) [OF False j(3,2)] j(1) 1(4) by simp
    finally show ?thesis unfolding w using False by (subst (1 2 3) dec.simps) (simp add: add.assoc add.commute)
  qed
qed

lemma sint_of_nat_small: "n < 128 \<Longrightarrow> sint (of_nat n :: u8) = int n"
  by (simp add: signed_of_nat signed_take_bit_int_eq_self)

lemma dec_digits: "c \<in> set (dec v) \<Longrightarrow> \<exists>d < 10. c = of_nat (48 + d)"
proof (induction v rule: dec.induct)
  case (1 v)
  have "c = of_nat (48 + v mod 10) \<or> v div 10 \<noteq> 0 \<and> c \<in> set (dec (v div 10))"
    using 1(2) by (subst (asm) dec.simps) (simp split: if_splits)
  moreover have "v mod 10 < 10" by simp
  ultimately show ?case using 1(1) by metis
qed

lemma dec_value: "foldl (\<lambda>n c. n * 10 + (sint c - 48)) 0 (rev (dec v)) = int v"
proof (induction v rule: dec.induct)
  case (1 v)
  have c: "sint (of_nat (48 + v mod 10) :: u8) = int (48 + v mod 10)"
    by (rule sint_of_nat_small) simp
  show ?case
  proof (cases "v div 10 = 0")
    case True
    then show ?thesis using c by (subst dec.simps) simp
  next
    case False
    then show ?thesis using 1 c by (subst dec.simps) (simp add: zdiv_int zmod_int)
  qed
qed

lemma dec_nonzero: "0 \<notin> set (dec v)"
proof
  assume "0 \<in> set (dec v)"
  then obtain d where "d < 10" "(0 :: u8) = of_nat (48 + d)" using dec_digits by blast
  then have "sint (0 :: u8) = int (48 + d)" using sint_of_nat_small [of "48 + d"] by simp
  then show False by simp
qed

lemma unat_max: "unat (- 1 :: u64) = 2 ^ 64 - 1"
  by (simp add: unsigned_minus_1_eq_mask mask_eq_exp_minus_1)

lemma atoi_digits_ok:
  assumes "bytes_at m p (cs @ [0])" "\<forall>c \<in> set cs. \<exists>d < 10. c = of_nat (48 + d)" "0 \<le> num"
    "foldl (\<lambda>n c. n * 10 + (sint c - 48)) num cs < 2 ^ 31 - 48"
  shows "atoi_digits m p num = Some (foldl (\<lambda>n c. n * 10 + (sint c - 48)) num cs)"
  using assms
proof (induction cs arbitrary: p num)
  case Nil
  then show ?case by (subst atoi_digits.simps) (simp add: isdigit_def)
next
  case (Cons c cs)
  let ?f = "\<lambda>n c. n * 10 + (sint (c :: u8) - 48)"
  obtain d where d: "d < 10" "c = of_nat (48 + d)" using Cons.prems(2) by auto
  have sc: "sint c = int (48 + d)" using d(1) unfolding d(2) by (intro sint_of_nat_small) simp
  have digit: "0 \<le> sint y - 48" if "y \<in> set cs" for y :: u8
  proof -
    obtain e where e: "e < 10" "y = of_nat (48 + e)" using Cons.prems(2) \<open>y \<in> set cs\<close> by auto
    have "sint y = int (48 + e)" using e(1) unfolding e(2) by (intro sint_of_nat_small) simp
    then show ?thesis by simp
  qed
  have mono: "x \<le> foldl ?f x ys" if "0 \<le> x" "\<forall>y \<in> set ys. 0 \<le> sint y - 48" for x ys
    using that
  proof (induction ys arbitrary: x)
    case (Cons y ys)
    then have "0 \<le> sint y - 48" by simp
    then have "x \<le> ?f x y" "0 \<le> ?f x y" using Cons.prems(1) by simp_all
    moreover have "?f x y \<le> foldl ?f (?f x y) ys" using Cons calculation(2) by simp
    ultimately show ?case by (simp add: order_trans)
  qed simp
  have x: "0 \<le> ?f num c" using sc Cons.prems(3) by simp
  have le: "?f num c < 2 ^ 31 - 48" using mono [OF x] digit Cons.prems(4) by fastforce
  have "ch m p = int (48 + d)" using Cons.prems(1) sc by (simp add: ch_def)
  then have "atoi_digits m p num = atoi_digits m (p + 1) (?f num c)"
    using le Cons.prems(3) d(1) sc by (subst atoi_digits.simps) (simp add: isdigit_def int_ok_def Let_def del: ch_0)
  also have "\<dots> = Some (foldl ?f (?f num c) cs)" using Cons.prems x by (intro Cons.IH) simp_all
  finally show ?case by simp
qed

text \<open>What \<open>itoa\<close> leaves in memory for a number that is not negative.\<close>

lemma itoa_text:
  assumes v: "v < 2 ^ 31" and room: "unat str + 10 < 2 ^ 64"
  shows "\<exists>p m'. itoa_digits 10 (int v) str len m = Some (p, len + int (length (dec v)), m') \<and>
    bytes_at (reverse_loop str (p - 1) (m'(p := 0))) str (rev (dec v) @ [0]) \<and>
    (\<forall>a. unat (a - str) > length (dec v) \<longrightarrow> reverse_loop str (p - 1) (m'(p := 0)) a = m a)"
proof -
  let ?n = "length (dec v)" and ?w = "wr m str (dec v)"
  let ?p = "str + of_nat ?n"
  have n: "0 < ?n" "?n \<le> 10" using dec_length [of v 10] v by (simp_all add: dec.simps [of v])
  have it: "itoa_digits 10 (int v) str len m = Some (?p, len + int ?n, ?w)"
    using itoa_digits_dec [of v 10] v by simp
  have off: "unat (str + of_nat i) = unat str + i" if "i \<le> ?n" for i
  proof -
    have "unat (of_nat i :: u64) = i" using that n by (intro unat_of_nat_u64) simp
    then show ?thesis using room that n by (subst unat_plus_simple [THEN iffD1]) (simp_all add: word_le_nat_alt unat_word_ariths)
  qed
  have pm: "?p - 1 = str + of_nat (?n - 1)" using n(1) by (cases "length (dec v)") simp_all
  have upm: "unat (?p - 1) = unat str + (?n - 1)" unfolding pm using n by (intro off) simp
  have "str \<le> ?p - 1" using upm by (simp add: word_le_nat_alt)
  then have rev: "reverse_loop str (?p - 1) M = (\<lambda>a. if str \<le> a \<and> a \<le> ?p - 1 then M (str + (?p - 1) - a) else M a)" for M
    by (intro reverse_loop_eq disjI1)
  let ?m = "reverse_loop str (?p - 1) (?w(?p := 0))"
  have "?m (str + of_nat i) = (rev (dec v) @ [0]) ! i" if "i \<le> ?n" for i
  proof (cases "i = ?n")
    case True
    have "\<not> ?p \<le> ?p - 1" unfolding word_le_nat_alt upm using off [of ?n] n(1) by linarith
    then show ?thesis using True by (simp add: rev nth_append)
  next
    case False
    then have i: "i < ?n" using that by simp
    have le: "str \<le> str + of_nat i \<and> str + of_nat i \<le> ?p - 1" using off [of i] upm i by (simp add: word_le_nat_alt)
    have eq: "str + (?p - 1) - (str + of_nat i) = str + of_nat (?n - 1 - i)"
      unfolding pm using i by (simp add: of_nat_diff algebra_simps)
    have neq: "str + of_nat (?n - 1 - i) \<noteq> ?p" using off [of "?n - 1 - i"] off [of ?n] n(1) by (metis diff_le_self diff_diff_left le_refl nat_add_left_cancel_less less_irrefl diff_less order_le_less_trans zero_less_one add_left_cancel)
    have "unat (of_nat (?n - 1 - i) :: u64) = ?n - 1 - i" using n by (intro unat_of_nat_u64) simp
    then have w: "?w (str + of_nat (?n - 1 - i)) = dec v ! (?n - 1 - i)" using n(1) by (simp add: wr_def)
    have "?m (str + of_nat i) = (?w(?p := 0)) (str + (?p - 1) - (str + of_nat i))"
      unfolding rev using le by (rule if_P)
    also have "\<dots> = dec v ! (?n - 1 - i)" unfolding eq using neq w by (simp only: fun_upd_other not_False_eq_True)
    finally show ?thesis using i by (simp add: rev_nth nth_append)
  qed
  then have "bytes_at ?m str (rev (dec v) @ [0])" by (simp add: bytes_at_nth)
  moreover have "?m a = m a" if "unat (a - str) > ?n" for a
  proof -
    have np: "a \<noteq> ?p" using that n offset_eq [of ?n a str] by auto
    have "\<not> (str \<le> a \<and> a \<le> ?p - 1)"
    proof
      assume "str \<le> a \<and> a \<le> ?p - 1"
      then have "unat (a - str) = unat a - unat str" "unat a \<le> unat str + (?n - 1)"
        using upm by (simp_all add: word_le_nat_alt unat_sub)
      with that show False by simp
    qed
    then have "?m a = (?w(?p := 0)) a" unfolding rev by (rule if_not_P)
    then show ?thesis using np that by (simp add: wr_def)
  qed
  ultimately show ?thesis using it by blast
qed

lemma atoi_text:
  assumes "bytes_at m p (rev (dec v) @ [0])" "int v < 2 ^ 31 - 48"
  shows "atoi_digits m p 0 = Some (int v)" "isdigit (ch m p)"
proof -
  have d: "\<forall>c \<in> set (rev (dec v)). \<exists>d < 10. c = of_nat (48 + d)" using dec_digits by auto
  show "atoi_digits m p 0 = Some (int v)" using atoi_digits_ok [OF assms(1) d, of 0] assms(2) dec_value [of v] by simp
  obtain c cs where c: "rev (dec v) = c # cs" by (cases "rev (dec v)") (simp_all add: dec.simps [of v])
  then obtain e where e: "e < 10" "c = of_nat (48 + e)" using d by auto
  have "sint c = int (48 + e)" using e(1) unfolding e(2) by (intro sint_of_nat_small) simp
  moreover have "m p = c" using assms(1) c by simp
  ultimately show "isdigit (ch m p)" using e(1) by (simp add: isdigit_def ch_def)
qed

lemma isdigit_not_space: "isdigit c \<Longrightarrow> \<not> isspace c \<and> c \<noteq> 45 \<and> c \<noteq> 43"
  by (auto simp: ctype_defs)

text \<open>The text of a number: what \<open>itoa\<close> leaves in memory, and that \<open>atoi\<close> reads it back.\<close>

definition decimal_text :: "int \<Rightarrow> u8 list" where
  "decimal_text v = (if 0 \<le> v then rev (dec (nat v)) else 45 # rev (dec (nat (- v))))"

lemma decimal_text_length: "\<bar>v\<bar> < 2 ^ 31 \<Longrightarrow> length (decimal_text v) \<le> 11"
proof -
  assume "\<bar>v\<bar> < 2 ^ 31"
  then have "nat \<bar>v\<bar> < 2 ^ 31" by (simp add: nat_less_iff)
  then have "length (dec (nat \<bar>v\<bar>)) \<le> 10" by (intro dec_length) simp_all
  then show ?thesis by (auto simp: decimal_text_def)
qed

lemma decimal_text_nonzero: "0 \<notin> set (decimal_text v)"
  using dec_nonzero by (auto simp: decimal_text_def)

lemma itoa_negative:
  assumes "v < 0" "- (2 ^ 31) < v" "unat str + 11 < 2 ^ 64"
  shows "\<exists>m'. itoa v str 10 m = Some (int (length (decimal_text v)), m') \<and> bytes_at m' str (decimal_text v @ [0]) \<and>
    (\<forall>a. unat (a - str) > length (decimal_text v) \<longrightarrow> m' a = m a)"
proof -
  let ?n = "nat (- v)" and ?xs = "rev (dec (nat (- v)))"
  have n: "?n < 2 ^ 31" "int ?n = - v" using assms(1,2) by auto
  have "str \<noteq> - 1" using assms(3) unat_max by auto
  then have room: "unat (str + 1) = unat str + 1" by (simp add: unat_Suc_word)
  obtain p m1 where p: "itoa_digits 10 (- v) (str + 1) 1 (m(str := 45)) = Some (p, 1 + int (length ?xs), m1)"
    "bytes_at (reverse_loop (str + 1) (p - 1) (m1(p := 0))) (str + 1) (?xs @ [0])"
    "\<forall>a. unat (a - (str + 1)) > length ?xs \<longrightarrow> reverse_loop (str + 1) (p - 1) (m1(p := 0)) a = (m(str := 45)) a"
    using itoa_text [OF n(1), of "str + 1" 1 "m(str := 45)"] assms(3) room n(2) by auto
  let ?m = "reverse_loop (str + 1) (p - 1) (m1(p := 0))"
  have len: "length ?xs \<le> 10" using dec_length [of ?n 10] n(1) by simp
  have t: "decimal_text v = 45 # ?xs" using assms(1) by (simp add: decimal_text_def)
  have "itoa v str 10 m = Some (int (length (45 # ?xs)), ?m)" using p(1) assms(1,2) by (simp add: itoa_def int_ok_def)
  moreover have at: "?m str = 45"
  proof -
    have "unat (str - (str + 1)) = 2 ^ 64 - 1" using unat_max by simp
    then show ?thesis using p(3) len by simp
  qed
  moreover have "?m a = m a" if "unat (a - str) > length (45 # ?xs)" for a
  proof -
    have "a - str \<noteq> 0" using that by auto
    then have "unat (a - (str + 1)) = unat (a - str) - 1" using unat_pred_word [of "a - str"] by (simp add: diff_diff_eq)
    then show ?thesis using p(3) that \<open>a - str \<noteq> 0\<close> by auto
  qed
  ultimately show ?thesis unfolding t using p(2) by (intro exI [of _ ?m]) simp
qed

lemma itoa_ok:
  assumes "\<bar>v\<bar> < 2 ^ 31" "unat str + 11 < 2 ^ 64"
  shows "\<exists>m'. itoa v str 10 m = Some (int (length (decimal_text v)), m') \<and> bytes_at m' str (decimal_text v @ [0]) \<and>
    (\<forall>a. unat (a - str) > length (decimal_text v) \<longrightarrow> m' a = m a)"
proof (cases "0 \<le> v")
  case True
  let ?xs = "rev (dec (nat v))"
  have n: "nat v < 2 ^ 31" "int (nat v) = v" using assms(1) True by auto
  obtain p m1 where "itoa_digits 10 v str 0 m = Some (p, int (length ?xs), m1)"
    "bytes_at (reverse_loop str (p - 1) (m1(p := 0))) str (?xs @ [0])"
    "\<forall>a. unat (a - str) > length ?xs \<longrightarrow> reverse_loop str (p - 1) (m1(p := 0)) a = m a"
    using itoa_text [OF n(1), of str 0 m] assms(2) n(2) by auto
  then show ?thesis using True assms(1) by (simp add: itoa_def int_ok_def decimal_text_def)
qed (use itoa_negative [of v str m] assms in auto)

lemma atoi_decimal:
  assumes "bytes_at m p (decimal_text v @ [0])" "\<bar>v\<bar> < 2 ^ 31 - 48" shows "atoi m p = Some v"
proof (cases "0 \<le> v")
  case True
  then have a: "atoi_digits m p 0 = Some v" "isdigit (ch m p)" using atoi_text [of m p "nat v"] assms by (simp_all add: decimal_text_def)
  then have "skip_space m p = Some p" using isdigit_not_space [OF a(2)] by (subst skip_space.simps) simp
  then show ?thesis using a(1) isdigit_not_space [OF a(2)] by (simp add: atoi_def)
next
  case False
  then have b: "m p = 45" "bytes_at m (p + 1) (rev (dec (nat (- v))) @ [0])" using assms(1) by (simp_all add: decimal_text_def)
  have "ch m p = 45" unfolding ch_def b(1) by simp
  moreover have "skip_space m p = Some p" using calculation by (subst skip_space.simps) (simp add: ctype_defs)
  ultimately show ?thesis using atoi_text(1) [OF b(2)] assms(2) False by (simp add: atoi_def)
qed

text \<open>
  \<open>atoi\<close> reads back what \<open>itoa\<close> writes: for every number whose digits do not overflow in \<open>atoi\<close>,
  \<open>itoa\<close> in base 10 returns the number of characters it wrote, leaves a terminated string of that
  length at \<open>str\<close>, changes no other byte, and \<open>atoi\<close> of that string is the number again.
\<close>

theorem atoi_itoa:
  assumes "\<bar>v\<bar> < 2 ^ 31 - 48" "unat str + 11 < 2 ^ 64"
  shows "\<exists>m' xs. itoa v str 10 m = Some (int (length xs), m') \<and> cstr m' str xs \<and> atoi m' str = Some v \<and>
    (\<forall>a. unat (a - str) > length xs \<longrightarrow> m' a = m a)"
proof -
  obtain m' where "itoa v str 10 m = Some (int (length (decimal_text v)), m')" "bytes_at m' str (decimal_text v @ [0])"
    "\<forall>a. unat (a - str) > length (decimal_text v) \<longrightarrow> m' a = m a" using itoa_ok [of v str m] assms by auto
  then show ?thesis using atoi_decimal [of m' str v] assms(1) decimal_text_nonzero [of v] unfolding cstr_def by blast
qed

theorem atoi_itoa_witness:
  "\<exists>m' (xs :: u8 list). itoa (- 1234) 0x1000 10 (\<lambda>_. 7) = Some (int (length xs), m') \<and> atoi m' 0x1000 = Some (- 1234)"
proof -
  have "\<bar>- 1234 :: int\<bar> < 2 ^ 31 - 48" "unat (0x1000 :: u64) + 11 < 2 ^ 64" by simp_all
  from atoi_itoa [OF this, of "\<lambda>_. 7"] show ?thesis by blast
qed

text \<open>
  \<open>rand_int_range\<close> stays within its range: at least \<open>low\<close> and below \<open>top\<close> when the range is not empty,
  and -1 without drawing a number otherwise.
\<close>

theorem rand_int_range_bounds:
  "(low < high \<longrightarrow> low \<le> fst (rand_int_range low high next) \<and> fst (rand_int_range low high next) < high) \<and>
   (high \<le> low \<longrightarrow> rand_int_range low high next = (- 1, next)) \<and> 0 \<le> fst (rand_int next) \<and> fst (rand_int next) < 32768"
proof -
  have r: "0 \<le> fst (rand_int next)" "fst (rand_int next) < 32768" by (simp_all add: rand_int_def Let_def uint_mod)
  have "low \<le> fst (rand_int_range low high next) \<and> fst (rand_int_range low high next) < high" if "low < high"
  proof -
    have "fst (rand_int_range low high next) = fst (rand_int next) mod (high - low) + low"
      using that r(1) by (simp add: rand_int_range_def Let_def split_def smod_mod_positive)
    then show ?thesis using that pos_mod_bound [of "high - low" "fst (rand_int next)"] pos_mod_sign [of "high - low" "fst (rand_int next)"] by linarith
  qed
  then show ?thesis using r by (simp add: rand_int_range_def)
qed

theorem rand_int_range_bounds_witness:
  "2 \<le> fst (rand_int_range 2 7 1) \<and> fst (rand_int_range 2 7 1) < 7"
  using rand_int_range_bounds [of 2 7 1] by simp

section \<open>Pointers in memory\<close>

definition store_ptr :: "u64 \<Rightarrow> u64 \<Rightarrow> mem \<Rightarrow> mem" where
  "store_ptr a p m = wr m a (le_bytes 8 p)"

definition load_ptr :: "mem \<Rightarrow> u64 \<Rightarrow> u64" where
  "load_ptr m a = of_le_bytes (map (\<lambda>i. m (a + of_nat i)) [0..<8])"

section \<open>Blocks and pointers relative to a page\<close>

lemma offset_inj: "x < 2 ^ 64 \<Longrightarrow> y < 2 ^ 64 \<Longrightarrow> (b :: u64) + of_nat x = b + of_nat y \<longleftrightarrow> x = y"
  by (metis add_left_cancel unat_of_nat_u64)

lemma wr_at:
  assumes "x < 2 ^ 64" "y < 2 ^ 64" "y + length xs \<le> 2 ^ 64"
  shows "wr m (b + of_nat y) xs (b + of_nat x) = (if y \<le> x \<and> x < y + length xs then xs ! (x - y) else m (b + of_nat x))"
proof (cases "y \<le> x")
  case True
  then have "b + of_nat x - (b + of_nat y) = (of_nat (x - y) :: u64)" by (simp add: of_nat_diff)
  then have "unat (b + of_nat x - (b + of_nat y)) = x - y" using assms(1) by (simp only: unat_of_nat_u64)
  then show ?thesis using True by (auto simp: wr_def)
next
  case False
  let ?d = "b + of_nat x - (b + of_nat y)"
  have d: "0 < y - x" "y - x < 2 ^ 64" using False assms by auto
  have "(of_nat (2 ^ 64 - (y - x)) :: u64) = of_nat (2 ^ 64) - of_nat (y - x)" using d by (intro of_nat_diff) simp
  then have "?d = of_nat (2 ^ 64 - (y - x))" using False by (simp add: of_nat_diff)
  then have "unat ?d = 2 ^ 64 - (y - x)" using d(1) by (simp only: unat_of_nat_u64 diff_less zero_less_power zero_less_numeral)
  then have "\<not> unat ?d < length xs" using assms(3) False by linarith
  then show ?thesis using False by (simp add: wr_def)
qed

lemma load_ptr_cong: "(\<And>i. i < 8 \<Longrightarrow> m (a + of_nat i) = m' (a + of_nat i)) \<Longrightarrow> load_ptr m a = load_ptr m' a"
  unfolding load_ptr_def by (rule arg_cong [where f = of_le_bytes], rule map_cong) auto

lemma load_store_same: "load_ptr (store_ptr a p m) a = p"
proof -
  have "wr m a (le_bytes 8 p) (a + of_nat i) = le_bytes 8 p ! i" if "i < 8" for i
    using that by (simp add: wr_def unat_of_nat_u64)
  then have "map (\<lambda>i. wr m a (le_bytes 8 p) (a + of_nat i)) [0..<8] = le_bytes 8 p"
    by (intro nth_equalityI) (simp_all del: upt_Suc)
  then show ?thesis by (simp add: load_ptr_def store_ptr_def le_bytes_8)
qed

lemma store_ptr_at:
  "x < 2 ^ 64 \<Longrightarrow> y + 8 \<le> 2 ^ 64 \<Longrightarrow> x < y \<or> y + 8 \<le> x \<Longrightarrow> store_ptr (b + of_nat y) p m (b + of_nat x) = m (b + of_nat x)"
  by (auto simp: store_ptr_def wr_at)

lemma load_store_other:
  assumes "x + 8 \<le> y \<or> y + 8 \<le> x" "x + 8 \<le> 2 ^ 64" "y + 8 \<le> 2 ^ 64"
  shows "load_ptr (store_ptr (b + of_nat y) p m) (b + of_nat x) = load_ptr m (b + of_nat x)"
proof (rule load_ptr_cong)
  fix i :: nat assume i: "i < 8"
  have "x + i < y \<or> y + 8 \<le> x + i" using assms(1) i by auto
  then show "store_ptr (b + of_nat y) p m (b + of_nat x + of_nat i) = m (b + of_nat x + of_nat i)"
    using store_ptr_at [of "x + i" y b p m] assms(2,3) i by (simp add: add.assoc)
qed

lemma wr_Nil [simp]: "wr m p [] = m"
  by (simp add: wr_def)

lemma cstr_cong: "(\<And>i. i \<le> length w \<Longrightarrow> m' (p + of_nat i) = m (p + of_nat i)) \<Longrightarrow> cstr m' p w = cstr m p w"
  by (auto simp: cstr_def bytes_at_nth less_Suc_eq_le)

lemma str_len_ok:
  assumes "cstr m p xs" "length xs < 2 ^ 31"
  shows "str_len m p = Some (int (length xs))"
proof -
  have "i \<le> length xs \<Longrightarrow> str_len_from m p (int i) = Some (int (length xs))" for i
  proof (induction "length xs - i" arbitrary: i)
    case 0
    then have "i = length xs" by simp
    then show ?case using cstr_nth(2) [OF assms(1)] assms(2) by (subst str_len_from.simps) (simp add: int_ok_nat)
  next
    case (Suc d)
    then have "i < length xs" "str_len_from m p (1 + int i) = Some (int (length xs))" using Suc.hyps(1) [of "Suc i"] by simp_all
    moreover have "m (p + of_nat i) \<noteq> 0" using cstr_nth(1) [OF assms(1), of i] calculation(1) by blast
    ultimately show ?case using assms(2) by (subst str_len_from.simps) (simp add: int_ok_nat add.commute)
  qed
  from this [of 0] show ?thesis by (simp add: str_len_def)
qed

end
