(* ===== verification/Cond_Variable.thy ===== *)
theory Cond_Variable
  imports Timer C_Library
begin

text \<open>
  Condition variables (\<open>Kernel/condVariable.c\<close>): a name, a queue of waiting processes and a mutex that
  protects the queue. The theory shows what waiting, signalling and broadcasting do to the queue,
  the processes and the user's mutex, and that a signal between the queueing and the blocking of
  a process is lost.
\<close>

section \<open>The routines\<close>

definition cond_is_open :: "int \<Rightarrow> kstate \<Rightarrow> bool" where
  "cond_is_open key s \<longleftrightarrow> key \<ge> 0 \<and> key < int MAX_COND_VAR \<and> c_state (open_conds s ! nat key) = OPEN"

definition the_cond :: "int \<Rightarrow> kstate \<Rightarrow> cond_variable" where
  "the_cond key s = open_conds s ! nat key"

definition put_cond :: "int \<Rightarrow> cond_variable \<Rightarrow> kstate \<Rightarrow> kstate" where
  "put_cond key v s = s\<lparr>open_conds := (open_conds s)[nat key := v]\<rparr>"

definition initialize_conditional_variable :: "nat \<Rightarrow> kstate \<Rightarrow> int kres" where
  "initialize_conditional_variable n s =
     bnd (mutex_open n ''__COND_ARRAY_LOCK__'' s) (\<lambda>k s. Ret 1 (s\<lparr>array_lock := k\<rparr>))"

text \<open>The text that \<open>itoa\<close> leaves in a local array.\<close>

definition itoa_string :: "int \<Rightarrow> string" where
  "itoa_string v =
     (case itoa v 0 10 (\<lambda>_. 0) of None \<Rightarrow> []
      | Some (len, m) \<Rightarrow> map (\<lambda>i. char_of (unat (m (of_nat i)))) [0..<nat len])"

definition create_new_cond :: "nat \<Rightarrow> int \<Rightarrow> string \<Rightarrow> kstate \<Rightarrow> unit kres" where
  "create_new_cond n key name s =
     (let aux = itoa_string key @ ''__COND_ARRAY_LOCK__''
      in if length aux \<ge> MUTEX_NAME_LEN then Fault Buffer_Overflow
         else
           bnd (mutex_open n aux s) (\<lambda>k s.
             let s = put_cond key ((the_cond key s)\<lparr>lock_queue := of_int k\<rparr>) s
             in if length name \<ge> COND_NAME_LEN then Fault Buffer_Overflow
                else
                  let s = put_cond key ((the_cond key s)\<lparr>c_name := name, c_state := OPEN\<rparr>) s
                  in bnd (create_queue n s) (\<lambda>q s.
                       Ret () (put_cond key ((the_cond key s)\<lparr>c_queue := q\<rparr>) s))))"

definition cond_open :: "nat \<Rightarrow> string \<Rightarrow> kstate \<Rightarrow> int kres" where
  "cond_open n name s =
     bnd (mutex_lock n (array_lock s) s) (\<lambda>_ s.
       let i = scan MAX_COND_VAR (\<lambda>i. c_state (open_conds s ! i) \<noteq> OPEN \<or> c_name (open_conds s ! i) = name) 0
       in if i < MAX_COND_VAR \<and> c_state (open_conds s ! i) = OPEN
          then bnd (mutex_unlock n (array_lock s) s) (\<lambda>_ s. Ret (int i) s)
          else if i = MAX_COND_VAR
          then bnd (mutex_unlock n (array_lock s) s) (\<lambda>_ s. Ret MAX_COND_OPEN_ERROR s)
          else bnd (create_new_cond n (int i) name s) (\<lambda>_ s.
               bnd (mutex_unlock n (array_lock s) s) (\<lambda>_ s. Ret (int i) s)))"

definition sync_enqueue :: "nat \<Rightarrow> int \<Rightarrow> ptr \<Rightarrow> kstate \<Rightarrow> unit kres" where
  "sync_enqueue n key p s =
     bnd (mutex_lock n (to_int (lock_queue (the_cond key s))) s) (\<lambda>_ s.
     bnd (enqueue n (c_queue (the_cond key s)) p s) (\<lambda>_ s.
     bnd (mutex_unlock n (to_int (lock_queue (the_cond key s))) s) (\<lambda>_ s. Ret () s)))"

definition sync_dequeue :: "nat \<Rightarrow> int \<Rightarrow> kstate \<Rightarrow> ptr kres" where
  "sync_dequeue n key s =
     bnd (mutex_lock n (to_int (lock_queue (the_cond key s))) s) (\<lambda>_ s.
     bnd (is_empty (c_queue (the_cond key s)) s) (\<lambda>e s.
     bnd (if \<not> e then dequeue n (c_queue (the_cond key s)) s else Ret NULL s) (\<lambda>p s.
     bnd (mutex_unlock n (to_int (lock_queue (the_cond key s))) s) (\<lambda>_ s. Ret p s))))"

definition cond_wait :: "nat \<Rightarrow> int \<Rightarrow> int \<Rightarrow> kstate \<Rightarrow> int kres" where
  "cond_wait n cond_key lock_key s =
     (if cond_is_open cond_key s then
        bnd (get_current_process s) (\<lambda>p s.
        bnd (mutex_unlock n lock_key s) (\<lambda>_ s.
        bnd (sync_enqueue n cond_key p s) (\<lambda>_ s.
        bnd (block_process p s) (\<lambda>_ s.
        bnd (yield_process s) (\<lambda>_ s.
        bnd (mutex_lock n lock_key s) (\<lambda>_ s. Ret 1 s))))))
      else Ret NOT_OPEN_ERROR s)"

definition cond_signal :: "nat \<Rightarrow> int \<Rightarrow> kstate \<Rightarrow> int kres" where
  "cond_signal n key s =
     (if cond_is_open key s then
        bnd (sync_dequeue n key s) (\<lambda>p s.
          if p \<noteq> NULL then bnd (unblock_process p s) (\<lambda>_ s. Ret 1 s) else Ret 1 s)
      else Ret NOT_OPEN_ERROR s)"

text \<open>The loop \<open>while (!is_empty(q)) unblock_process(dequeue(q))\<close> is \<open>wake_all\<close>.\<close>

definition cond_broadcast :: "nat \<Rightarrow> int \<Rightarrow> kstate \<Rightarrow> int kres" where
  "cond_broadcast n key s =
     (if cond_is_open key s then
        bnd (mutex_lock n (to_int (lock_queue (the_cond key s))) s) (\<lambda>_ s.
        bnd (wake_all n (c_queue (the_cond key s)) s) (\<lambda>_ s.
        bnd (mutex_unlock n (to_int (lock_queue (the_cond key s))) s) (\<lambda>_ s. Ret 1 s)))
      else Ret NOT_OPEN_ERROR s)"

definition cond_close :: "nat \<Rightarrow> int \<Rightarrow> kstate \<Rightarrow> int kres" where
  "cond_close n key s =
     (if cond_is_open key s then
        bnd (cond_broadcast n key s) (\<lambda>_ s.
        bnd (destroy_queue n (c_queue (the_cond key s)) s) (\<lambda>_ s.
        bnd (mutex_close n (to_int (lock_queue (the_cond key s))) s) (\<lambda>_ s.
          Ret 1 (put_cond key ((the_cond key s)\<lparr>c_state := CLOSED\<rparr>) s))))
      else Ret NOT_OPEN_ERROR s)"

record cond_info =
  ci_name :: string
  ci_key :: int

definition fill_conds_info :: "kstate \<Rightarrow> nat \<Rightarrow> cond_info" where
  "fill_conds_info s k = \<lparr>ci_name = c_name (open_conds s ! k), ci_key = int k\<rparr>"

definition get_conds_info :: "nat \<Rightarrow> kstate \<Rightarrow> cond_info list kres" where
  "get_conds_info n s =
     bnd (mutex_lock n (array_lock s) s) (\<lambda>_ s.
       let infos = map (fill_conds_info s) (filter (\<lambda>k. cond_is_open (int k) s) [0..<MAX_COND_VAR])
       in bnd (mutex_unlock n (array_lock s) s) (\<lambda>_ s. Ret infos s))"

section \<open>Queues under a mutex\<close>

lemma queue_wf_superlock [simp]: "queue_wf q ns (s\<lparr>superlock := l\<rparr>) = queue_wf q ns s"
proof -
  have "queue_at q ns (s\<lparr>superlock := l\<rparr>) = queue_at q ns s" by (rule queue_at_cong) simp_all
  then show ?thesis by (simp add: queue_wf_def in_use_def)
qed

lemma lock_more [simp]:
  "length (open_mutexes (acquired k s)) = length (open_mutexes s)" "memory_mutex_key (acquired k s) = memory_mutex_key s"
  "m_queue (the_mutex j (acquired k s)) = m_queue (the_mutex j s)" "open_conds (acquired k s) = open_conds s"
  "h_queue (acquired k s) = h_queue s"
  "length (open_mutexes (relinquished k s)) = length (open_mutexes s)" "memory_mutex_key (relinquished k s) = memory_mutex_key s"
  "m_queue (the_mutex j (relinquished k s)) = m_queue (the_mutex j s)" "open_conds (relinquished k s) = open_conds s"
  "h_queue (relinquished k s) = h_queue s" "mutex_is_open j (relinquished k s) = mutex_is_open j s"
  "mutex_empty j (relinquished k s) = mutex_empty j s"
  by (simp_all add: acquired_def relinquished_def) (simp_all add: set_locked_def)

lemma queue_wf_set_locked:
  assumes "mutex_is_open k s" "mutex_is_open (mem_key s) s \<longrightarrow> k \<noteq> mem_key s"
  shows "queue_wf q ns (set_locked k l s) = queue_wf q ns s"
proof -
  have "mutex_free (mem_key s) (set_locked k l s) = mutex_free (mem_key s) s"
    using assms by (intro mutex_free_set_locked) auto
  then show ?thesis by (simp add: queue_wf_def pages_inv_def)
qed

definition guarded :: "int \<Rightarrow> ptr \<Rightarrow> kstate \<Rightarrow> bool" where
  "guarded k q s \<longleftrightarrow>
     mutex_free k s \<and> (mutex_is_open (mem_key s) s \<longrightarrow> k \<noteq> mem_key s) \<and> q \<noteq> m_queue (the_mutex k s)"

lemma queue_wf_locked:
  assumes "guarded k q s"
  shows "queue_wf p ns (acquired k s) = queue_wf p ns s"
  using assms queue_wf_set_locked [of k "s\<lparr>superlock := UNLOCKED\<rparr>" p ns LOCKED]
  by (simp add: acquired_def guarded_def)

text \<open>What is left of a lock and an unlock around a step that changes the queue and the allocator only.\<close>

definition beside :: "ptr \<Rightarrow> kstate \<Rightarrow> kstate \<Rightarrow> bool" where
  "beside q s t \<longleftrightarrow> quiet s t \<and> (\<forall>p. p \<noteq> q \<longrightarrow> h_queue t p = h_queue s p) \<and> open_conds t = open_conds s"

lemma released_step:
  assumes "guarded k q s" "beside q (acquired k s) t" "queue_wf p ns t"
  shows "bnd (mutex_unlock (Suc n) k t) (\<lambda>_ u. K u) = K (relinquished k t)" "guarded k q (relinquished k t)"
    "queue_wf p ns (relinquished k t)" "h_proc (relinquished k t) = h_proc s" "open_conds (relinquished k t) = open_conds s"
    "h_snode (relinquished k t) = h_snode s" "cur_node (relinquished k t) = cur_node s"
    "mutex_is_open j s \<Longrightarrow> j \<noteq> k \<Longrightarrow> the_mutex j (relinquished k t) = the_mutex j s"
proof -
  have t: "quiet (acquired k s) t" "\<And>p. p \<noteq> q \<Longrightarrow> h_queue t p = h_queue (acquired k s) p" "open_conds t = open_conds (acquired k s)"
    using assms(2) by (simp_all add: beside_def)
  have op: "mutex_is_open j t = mutex_is_open j s" "mem_key t = mem_key s" "length (open_mutexes t) = length (open_mutexes s)"
    "m_queue (the_mutex j t) = m_queue (the_mutex j s)" for j
    using t(1) quiet_facts [OF t(1), of j] by (simp_all add: quiet_def)
  have emp: "mutex_empty k t" if "mutex_is_open k t"
    using that assms(1) op t(2) [of "m_queue (the_mutex k s)"]
    by (auto simp: guarded_def mutex_free_def mutex_empty_def Let_def)
  show "bnd (mutex_unlock (Suc n) k t) (\<lambda>_ u. K u) = K (relinquished k t)" by (rule unlock_step [OF emp])
  show "queue_wf p ns (relinquished k t)"
    using assms(1,3) op queue_wf_set_locked [of k "t\<lparr>superlock := UNLOCKED\<rparr>" p ns UNLOCKED]
    by (simp add: relinquished_def guarded_def)
  show "h_proc (relinquished k t) = h_proc s" and c: "h_snode (relinquished k t) = h_snode s" "cur_node (relinquished k t) = cur_node s"
    using t(1) by (simp_all add: quiet_def)
  show "open_conds (relinquished k t) = open_conds s" using t(3) by simp
  show "the_mutex j (relinquished k t) = the_mutex j s" if "mutex_is_open j s" "j \<noteq> k"
  proof -
    have "the_mutex j (relinquished k t) = the_mutex j t"
      using that op the_mutex_other [of k "t\<lparr>superlock := UNLOCKED\<rparr>" j UNLOCKED] by (simp add: relinquished_def)
    also have "\<dots> = the_mutex j (acquired k s)" using quiet_facts [OF t(1)] by simp
    also have "\<dots> = the_mutex j s"
      using that the_mutex_other [of k "s\<lparr>superlock := UNLOCKED\<rparr>" j LOCKED] by (simp add: acquired_def)
    finally show ?thesis .
  qed
  have "m_locked (the_mutex k (relinquished k t)) = UNLOCKED" if "mutex_is_open k t" "nat k < length (open_mutexes t)"
    using that the_mutex_set_locked [of k "t\<lparr>superlock := UNLOCKED\<rparr>" UNLOCKED] by (simp add: relinquished_def)
  then show "guarded k q (relinquished k t)"
    using assms(1) op emp c by (simp add: guarded_def mutex_free_def)
qed

lemma conds_frame [simp]:
  "open_conds (paged_out s) = open_conds s" "open_conds (paged_in a s) = open_conds s"
  "open_conds (with_queue q Q N s) = open_conds s" "open_conds (machine P R c l s) = open_conds s"
  "open_conds (put_proc p x s) = open_conds s"
  by (simp_all add: paged_out_def paged_in_def released_def pool_defs with_queue_def machine_def put_proc_def)

lemma beside_queue_ops:
  "beside q s (with_queue q Q N (paged_out s))" "beside q s (paged_in a (with_queue q Q N s))"
  by (simp_all add: beside_def quiet_def)

section \<open>The operations\<close>

text \<open>A condition variable: open, its queue and the mutex of its queue.\<close>

definition cond_wf :: "int \<Rightarrow> (ptr \<times> ptr) list \<Rightarrow> kstate \<Rightarrow> bool" where
  "cond_wf key ns s \<longleftrightarrow>
     cond_is_open key s \<and> queue_wf (c_queue (the_cond key s)) ns s \<and>
     guarded (to_int (lock_queue (the_cond key s))) (c_queue (the_cond key s)) s"

lemma cond_same: "open_conds t = open_conds s \<Longrightarrow> the_cond key t = the_cond key s \<and> cond_is_open key t = cond_is_open key s"
  by (simp add: the_cond_def cond_is_open_def)

lemma cond_wf_proc: "cond_wf key ns s \<Longrightarrow> cond_wf key ns (put_proc p x s)"
proof -
  have "queue_at q ns (put_proc p x s) = queue_at q ns s" for q by (rule queue_at_cong) (simp_all add: put_proc_def)
  moreover have "the_mutex k (put_proc p x s) = the_mutex k s" "mutex_is_open k (put_proc p x s) = mutex_is_open k s"
    "in_use (put_proc p x s) = in_use s" "memory_mutex_key (put_proc p x s) = memory_mutex_key s" for k
    by (simp_all add: put_proc_def the_mutex_def mutex_is_open_def in_use_def free_pages_def)
  moreover assume "cond_wf key ns s"
  ultimately show ?thesis using cond_same [of "put_proc p x s" s key] by (simp add: cond_wf_def queue_wf_def guarded_def)
qed

lemma sync_enqueue_ok:
  assumes wf: "cond_wf key ns s" and room: "free_pages s \<noteq> {}"
  obtains t where "sync_enqueue (Suc n) key p s = Ret () t" "cond_wf key (ns @ [(next_page (acquired (to_int (lock_queue (the_cond key s))) s), p)]) t"
    "h_proc t = h_proc s" "h_snode t = h_snode s" "cur_node t = cur_node s"
    "\<And>j. mutex_is_open j s \<Longrightarrow> j \<noteq> to_int (lock_queue (the_cond key s)) \<Longrightarrow> the_mutex j t = the_mutex j s"
proof -
  let ?v = "the_cond key s" let ?k = "to_int (lock_queue ?v)" and ?q = "c_queue ?v"
  let ?s1 = "acquired ?k s"
  have g: "guarded ?k ?q s" "cond_is_open key s" and qw: "queue_wf ?q ns s" using wf by (simp_all add: cond_wf_def)
  have q1: "queue_wf ?q ns ?s1" using qw queue_wf_locked [OF g(1)] by simp
  have room1: "free_pages ?s1 \<noteq> {}" using room by simp
  obtain Q N where e: "enqueue (Suc n) ?q p ?s1 = Ret () (with_queue ?q Q N (paged_out ?s1))"
    "queue_wf ?q (ns @ [(next_page ?s1, p)]) (with_queue ?q Q N (paged_out ?s1))"
    using enqueue_queue [OF q1 room1, of n p] by metis
  let ?t = "with_queue ?q Q N (paged_out ?s1)"
  note r = released_step [OF g(1) beside_queue_ops(1) e(2)]
  have f: "mutex_free ?k s" using g by (simp add: guarded_def)
  have c: "the_cond key ?s1 = ?v" "the_cond key ?t = ?v" by (simp_all add: the_cond_def)
  have "sync_enqueue (Suc n) key p s = Ret () (relinquished ?k ?t)"
    unfolding sync_enqueue_def lock_step [OF f] c e(1) bnd.simps r(1) ..
  moreover have "cond_wf key (ns @ [(next_page ?s1, p)]) (relinquished ?k ?t)"
    using r(2,3) g(2) cond_same [OF r(5), of key] by (simp add: cond_wf_def)
  ultimately show thesis using that r(4,6,7,8) by blast
qed

lemma sync_dequeue_ok:
  assumes wf: "cond_wf key ns s"
  obtains t where "sync_dequeue (Suc n) key s = Ret (if ns = [] then NULL else snd (hd ns)) t" "cond_wf key (tl ns) t"
    "h_proc t = h_proc s" "h_snode t = h_snode s" "cur_node t = cur_node s"
proof -
  let ?v = "the_cond key s" let ?k = "to_int (lock_queue ?v)" and ?q = "c_queue ?v"
  let ?s1 = "acquired ?k s"
  have g: "guarded ?k ?q s" "cond_is_open key s" and qw: "queue_wf ?q ns s" using wf by (simp_all add: cond_wf_def)
  have q1: "queue_wf ?q ns ?s1" using qw queue_wf_locked [OF g(1)] by simp
  then have emp: "is_empty ?q ?s1 = Ret (ns = []) ?s1" by (simp add: queue_wf_def is_empty_queue)
  obtain t where t: "(if ns \<noteq> [] then dequeue (Suc n) ?q ?s1 else Ret NULL ?s1) = Ret (if ns = [] then NULL else snd (hd ns)) t"
    "queue_wf ?q (tl ns) t" "beside ?q ?s1 t"
  proof (cases ns)
    case Nil
    then show ?thesis using that [of ?s1] q1 by (simp add: beside_def quiet_def)
  next
    case (Cons fe ms)
    obtain f e where fe: "fe = (f, e)" by fastforce
    obtain Q where "dequeue (Suc n) ?q ?s1 = Ret e (paged_in f (with_queue ?q Q (h_qnode ?s1) ?s1))"
      "queue_wf ?q ms (paged_in f (with_queue ?q Q (h_qnode ?s1) ?s1))"
      using dequeue_queue [OF q1 [unfolded Cons fe], of n] by metis
    then show ?thesis using that beside_queue_ops(2) Cons fe by simp
  qed
  note r = released_step [OF g(1) t(3,2)]
  have f: "mutex_free ?k s" using g by (simp add: guarded_def)
  have c: "the_cond key ?s1 = ?v" "the_cond key t = ?v" using t(3) by (simp_all add: the_cond_def beside_def)
  have "sync_dequeue (Suc n) key s = Ret (if ns = [] then NULL else snd (hd ns)) (relinquished ?k t)"
    unfolding sync_dequeue_def lock_step [OF f] c emp bnd.simps t(1) r(1) ..
  moreover have "cond_wf key (tl ns) (relinquished ?k t)"
    using r(2,3) g(2) cond_same [OF r(5), of key] by (simp add: cond_wf_def)
  ultimately show thesis using that r(4,6,7) by blast
qed

text \<open>The loop of a broadcast.\<close>

lemma wake_all_ok:
  assumes "queue_wf q ns s" "\<forall>w \<in> set ns. known s (snd w)" "length ns < n"
  shows "\<exists>t. wake_all (Suc n) q s = Ret () t \<and> queue_wf q [] t \<and> h_proc t = roused (snd ` set ns) (h_proc s) \<and>
    beside q (s\<lparr>h_proc := h_proc t\<rparr>) t"
  using assms
proof (induction ns arbitrary: s n)
  case Nil
  then have "queue_at q [] s" by (simp add: queue_wf_def)
  then show ?case using Nil by (simp add: is_empty_queue beside_def quiet_def)
next
  case (Cons fe ns)
  obtain f e where fe: "fe = (f, e)" by fastforce
  obtain k where k: "n = Suc k" "length ns < k" using Cons.prems(3) by (cases n) auto
  have "queue_at q (fe # ns) s" using Cons.prems by (simp add: queue_wf_def)
  note emp = is_empty_queue [OF this]
  obtain Q where d: "dequeue (Suc k) q s = Ret e (paged_in f (with_queue q Q (h_qnode s) s))"
    and wf: "queue_wf q ns (paged_in f (with_queue q Q (h_qnode s) s))"
    using dequeue_queue [OF Cons.prems(1) [unfolded fe], of k] by metis
  obtain x where x: "e \<noteq> NULL" "h_proc s e = Some x" using Cons.prems(2) fe by (auto simp: known_def)
  let ?s1 = "paged_in f (with_queue q Q (h_qnode s) s)"
  let ?s2 = "put_proc e (ready x) ?s1"
  have u: "unblock_process e ?s1 = Ret () ?s2"
    using x by (auto simp: unblock_process_def ready_def put_proc_def fun_upd_idem)
  have wf2: "queue_wf q ns ?s2"
  proof -
    have "queue_at q ns ?s2 = queue_at q ns ?s1" by (rule queue_at_cong) (simp_all add: put_proc_def)
    moreover have "the_mutex k ?s2 = the_mutex k ?s1" "in_use ?s2 = in_use ?s1" "memory_mutex_key ?s2 = memory_mutex_key ?s1" for k
      by (simp_all add: put_proc_def the_mutex_def in_use_def free_pages_def)
    ultimately show ?thesis using wf by (simp add: queue_wf_def)
  qed
  have "\<forall>w \<in> set ns. known ?s2 (snd w)" using Cons.prems(2) by (auto simp: known_def)
  from Cons.IH [OF wf2 this k(2)] obtain t where t: "wake_all (Suc k) q ?s2 = Ret () t" "queue_wf q [] t"
    "h_proc t = roused (snd ` set ns) (h_proc ?s2)" "beside q (?s2\<lparr>h_proc := h_proc t\<rparr>) t" by blast
  have "h_proc ?s2 = roused {e} (h_proc s)" using x by (auto simp: roused_def fun_eq_iff)
  then have "h_proc t = roused (snd ` set (fe # ns)) (h_proc s)" using t(3) fe by (simp add: roused_roused)
  moreover have "beside q (s\<lparr>h_proc := h_proc t\<rparr>) t"
    using t(4) by (simp add: beside_def quiet_def put_proc_def)
  moreover have "wake_all (Suc n) q s = Ret () t" using emp d u t(1) k(1) by simp
  ultimately show ?case using t(2) by blast
qed

lemma cond_signal_ok:
  assumes wf: "cond_wf key ns s" and kn: "\<forall>w \<in> set ns. known s (snd w)"
  obtains t where "cond_signal (Suc n) key s = Ret 1 t" "cond_wf key (tl ns) t"
    "h_proc t = roused (if ns = [] then {} else {snd (hd ns)}) (h_proc s)"
proof -
  obtain t where t: "sync_dequeue (Suc n) key s = Ret (if ns = [] then NULL else snd (hd ns)) t" "cond_wf key (tl ns) t"
    "h_proc t = h_proc s" by (rule sync_dequeue_ok [OF wf])
  have op: "cond_is_open key s" using wf by (simp add: cond_wf_def)
  show thesis
  proof (cases ns)
    case Nil
    then show ?thesis using that [of t] t op by (simp add: cond_signal_def)
  next
    case (Cons w ws)
    then obtain x where x: "snd w \<noteq> NULL" "h_proc s (snd w) = Some x" using kn by (auto simp: known_def)
    have "unblock_process (snd w) t = Ret () (put_proc (snd w) (ready x) t)"
      using x t(3) by (auto simp: unblock_process_def ready_def put_proc_def fun_upd_idem)
    moreover have "h_proc (put_proc (snd w) (ready x) t) = roused {snd w} (h_proc s)" using x t(3) by (auto simp: roused_def fun_eq_iff)
    ultimately show ?thesis
      using that [of "put_proc (snd w) (ready x) t"] t op Cons x cond_wf_proc [OF t(2)] by (simp add: cond_signal_def)
  qed
qed

lemma cond_broadcast_ok:
  assumes wf: "cond_wf key ns s" and kn: "\<forall>w \<in> set ns. known s (snd w)" and n: "length ns < n"
  obtains t where "cond_broadcast (Suc n) key s = Ret 1 t" "cond_wf key [] t" "h_proc t = roused (snd ` set ns) (h_proc s)"
proof -
  let ?v = "the_cond key s" let ?k = "to_int (lock_queue ?v)" and ?q = "c_queue ?v"
  let ?s1 = "acquired ?k s"
  have g: "guarded ?k ?q s" "cond_is_open key s" and qw: "queue_wf ?q ns s" using wf by (simp_all add: cond_wf_def)
  have q1: "queue_wf ?q ns ?s1" using qw queue_wf_locked [OF g(1)] by simp
  have "\<forall>w \<in> set ns. known ?s1 (snd w)" using kn by (simp add: known_def)
  from wake_all_ok [OF q1 this n] obtain t where t: "wake_all (Suc n) ?q ?s1 = Ret () t" "queue_wf ?q [] t"
    "h_proc t = roused (snd ` set ns) (h_proc s)" "beside ?q (?s1\<lparr>h_proc := h_proc t\<rparr>) t" by auto
  let ?r = "s\<lparr>h_proc := h_proc t\<rparr>"
  have "?s1\<lparr>h_proc := h_proc t\<rparr> = acquired ?k ?r"
    by (simp add: acquired_def set_locked_def mutex_is_open_def the_mutex_def)
  then have b: "beside ?q (acquired ?k ?r) t" using t(4) by simp
  have g': "guarded ?k ?q ?r" using g(1) by (simp add: guarded_def mutex_free_def mutex_is_open_def the_mutex_def mutex_empty_def)
  note r = released_step [OF g' b t(2)]
  have f: "mutex_free ?k s" using g by (simp add: guarded_def)
  have c: "the_cond key ?s1 = ?v" "the_cond key t = ?v" using t(4) by (simp_all add: the_cond_def beside_def)
  have "cond_broadcast (Suc n) key s = Ret 1 (relinquished ?k t)"
    using g(2) unfolding cond_broadcast_def lock_step [OF f] c t(1) bnd.simps r(1) by (rule if_P)
  moreover have "cond_wf key [] (relinquished ?k t)"
    using r(2,3) g(2) cond_same [of "relinquished ?k t" s key] r(5) by (simp add: cond_wf_def)
  ultimately show thesis using that r(4) t(3) by simp
qed

lemma put_cond_frame:
  "queue_wf q ns (put_cond k v s) = queue_wf q ns s" "guarded j q (put_cond k v s) = guarded j q s"
proof -
  have "queue_at q ns (put_cond k v s) = queue_at q ns s" by (rule queue_at_cong) (simp_all add: put_cond_def)
  moreover have "mutex_free i (put_cond k v s) = mutex_free i s" "mutex_is_open i (put_cond k v s) = mutex_is_open i s"
    "the_mutex i (put_cond k v s) = the_mutex i s" "free_pages (put_cond k v s) = free_pages s" for i
    by (simp_all add: put_cond_def mutex_free_def mutex_is_open_def mutex_empty_def the_mutex_def free_pages_def)
  ultimately show "queue_wf q ns (put_cond k v s) = queue_wf q ns s" "guarded j q (put_cond k v s) = guarded j q s"
    by (simp_all add: queue_wf_def guarded_def pages_inv_def in_use_def) (simp_all add: put_cond_def)
qed

text \<open>Waiting, for a mutex that nobody else waits for.\<close>

lemma cond_wf_unlocked:
  assumes "cond_wf key ns s" "mutex_is_open j s" "j \<noteq> to_int (lock_queue (the_cond key s))"
    "mutex_is_open (mem_key s) s \<longrightarrow> j \<noteq> mem_key s"
  shows "cond_wf key ns (relinquished j s)"
proof -
  let ?s = "s\<lparr>superlock := UNLOCKED\<rparr>" and ?v = "the_cond key s"
  have r: "relinquished j s = set_locked j UNLOCKED ?s" using assms(2) by (simp add: relinquished_def)
  have "queue_wf (c_queue ?v) ns (relinquished j s)"
    using assms queue_wf_set_locked [of j ?s "c_queue ?v" ns UNLOCKED] by (simp add: r cond_wf_def)
  moreover have "mutex_free (to_int (lock_queue ?v)) (relinquished j s)"
    using assms mutex_free_set_locked [of j ?s "to_int (lock_queue ?v)" UNLOCKED] by (simp add: r cond_wf_def guarded_def)
  ultimately show ?thesis using assms(1) cond_same [of "relinquished j s" s key] by (simp add: cond_wf_def guarded_def)
qed

lemma cond_wf_machine:
  assumes "cond_wf key ns s" "c \<noteq> NULL" "R c \<noteq> None"
  shows "cond_wf key ns (machine P R c l s)"
proof -
  have "mutex_free k (machine P R c l s)" if "mutex_free k s" for k
    using that assms(2,3) by (simp add: mutex_free_def mutex_empty_def)
  moreover have "pages_inv (machine P R c l s)"
    using assms by (intro pages_inv_machine) (simp_all add: cond_wf_def queue_wf_def)
  ultimately show ?thesis using assms(1) cond_same [of "machine P R c l s" s key] by (simp add: cond_wf_def queue_wf_def guarded_def)
qed

lemma cond_wait_ok:
  assumes wf: "cond_wf key ns s" and room: "free_pages s \<noteq> {}" and run: "running p x s" and nd: "p_st x \<noteq> DELETE"
    and j: "mutex_is_open j s" "nat j < length (open_mutexes s)" "mutex_empty j s" "j \<noteq> to_int (lock_queue (the_cond key s))"
      "mutex_is_open (mem_key s) s \<longrightarrow> j \<noteq> mem_key s"
  obtains t new where "cond_wait (Suc n) key j s = Yld t (\<lambda>t. bnd (mutex_lock (Suc n) j t) (\<lambda>_ u. Ret 1 u))"
    "cond_wf key (ns @ [(new, p)]) t" "m_locked (the_mutex j t) = UNLOCKED" "h_proc t = (h_proc s)(p \<mapsto> x\<lparr>p_st := BLOCKED\<rparr>)"
proof -
  obtain c where c: "cur_node s \<noteq> NULL" "h_snode s (cur_node s) = Some c" "sn_p c = p" "p \<noteq> NULL" "h_proc s p = Some x"
    using run by (auto simp: running_def split: option.splits)
  let ?s1 = "relinquished j s"
  have "cond_wf key ns ?s1" by (rule cond_wf_unlocked [OF wf j(1,4,5)])
  moreover have "free_pages ?s1 \<noteq> {}" using room by simp
  moreover have k: "to_int (lock_queue (the_cond key ?s1)) = to_int (lock_queue (the_cond key s))" by (simp add: the_cond_def)
  ultimately obtain t new where t: "sync_enqueue (Suc n) key p ?s1 = Ret () t" "cond_wf key (ns @ [(new, p)]) t"
    "h_proc t = h_proc s" "h_snode t = h_snode s" "cur_node t = cur_node s" "the_mutex j t = the_mutex j ?s1"
    using sync_enqueue_ok [of key ns ?s1 n p] j(1,4) by (metis lock_more(11) relinquished_frame(1-3))
  let ?x = "x\<lparr>p_st := BLOCKED\<rparr>"
  have b: "block_process p t = Ret () (put_proc p ?x t)" using c t(3) nd by (simp add: block_process_def)
  have "running p ?x (put_proc p ?x t)" using run t(3-5) by (auto simp: running_def put_proc_def split: option.splits)
  then obtain R where y: "yield_process (put_proc p ?x t) =
      Yld (machine (h_proc (put_proc p ?x t)) R (cur_node (put_proc p ?x t)) (superlock (put_proc p ?x t)) (put_proc p ?x t)) (\<lambda>t. Ret () t)"
    "same_ring (h_snode (put_proc p ?x t)) R" by (rule yield_running)
  let ?t = "machine (h_proc (put_proc p ?x t)) R (cur_node (put_proc p ?x t)) (superlock (put_proc p ?x t)) (put_proc p ?x t)"
  have g: "get_current_process s = Ret p s" using c by (simp add: get_current_process_def)
  have op: "cond_is_open key s" using wf by (simp add: cond_wf_def)
  have "cond_wait (Suc n) key j s = Yld ?t (\<lambda>t. bnd (mutex_lock (Suc n) j t) (\<lambda>_ u. Ret 1 u))"
    using op unfolding cond_wait_def g bnd.simps unlock_step [OF j(3)] t(1) b y(1) by (rule if_P)
  moreover have "cond_wf key (ns @ [(new, p)]) ?t"
    using same_ring_defined [OF y(2)] c t(4,5) by (intro cond_wf_machine cond_wf_proc t(2)) simp_all
  moreover have "m_locked (the_mutex j ?t) = UNLOCKED"
    using t(6) j the_mutex_set_locked [of j "s\<lparr>superlock := UNLOCKED\<rparr>" UNLOCKED]
    by (simp add: relinquished_def) (simp add: put_proc_def the_mutex_def)
  moreover have "h_proc ?t = (h_proc s)(p \<mapsto> ?x)" using t(3) by simp
  ultimately show thesis using that by blast
qed

section \<open>Properties\<close>


text \<open>A state with a condition variable (key 0), its queue in a new page, guarded by the user mutex (key 1).\<close>

definition with_cond :: kstate where
  "with_cond = put_cond 0 \<lparr>c_name = ''cond'', c_state = OPEN, lock_queue = 1, c_queue = next_page two_in_table\<rparr>
     (with_queue (next_page two_in_table) \<lparr>q_first = NULL, q_last = NULL\<rparr> (h_qnode two_in_table) (paged_out two_in_table))"

lemma with_cond_wf: "cond_wf 0 [] with_cond"
  "the_cond 0 with_cond = \<lparr>c_name = ''cond'', c_state = OPEN, lock_queue = 1, c_queue = next_page two_in_table\<rparr>"
  "free_pages with_cond = free_pages two_in_table - {next_page two_in_table}"
proof -
  let ?q = "next_page two_in_table" and ?s = "paged_out two_in_table"
  let ?t = "with_queue ?q \<lparr>q_first = NULL, q_last = NULL\<rparr> (h_qnode two_in_table) ?s"
  have inv: "pages_inv two_in_table" and room: "free_pages two_in_table \<noteq> {}"
    using two_in_table_kernel two_processes_pages_inv(2) by (simp_all add: kernel_inv_def)
  note page = get_page_step [OF inv room]
  have q: "?q \<in> free_pages two_in_table" "?q \<noteq> NULL" using page by (simp_all add: next_page_def)
  have ne: "?q \<noteq> queue_0" "?q \<noteq> queue_1"
    using q(1) two_in_table_pages [of 5] two_in_table_pages [of 6] by (auto simp: two_processes_pages in_use_def)
  have mt: "the_mutex k two_in_table = the_mutex k two_processes" "mutex_is_open k two_in_table = mutex_is_open k two_processes" for k
    by (simp_all add: the_mutex_def mutex_is_open_def)
  have m0: "m_queue (the_mutex 0 two_processes) = queue_0" "m_queue (the_mutex 1 two_processes) = queue_1"
    by (simp_all add: the_mutex_def two_processes_mutexes)
  have "pages_inv ?t" using page ne(1) m0(1) mt by (subst pages_inv_with_queue) simp_all
  then have wf: "queue_wf ?q [] ?t"
    using q page ne(1) m0(1) mt data.free_universe [OF inv] by (auto simp: queue_wf_def queue_at_def in_use_def)
  have g: "guarded 1 ?q ?t"
  proof -
    have "mutex_free 1 two_in_table" using two_processes_free(4) by (simp add: mutex_free_def mutex_is_open_def mutex_empty_def the_mutex_def)
    then have "mutex_free 1 ?t" using ne(2) m0(2) mt by (subst mutex_free_with_queue) simp_all
    then show ?thesis using ne(2) m0(2) mt by (simp add: guarded_def)
  qed
  have len: "length (open_conds ?t) = 128"
    by (simp add: two_in_table_def two_processes_def initialize_stack_memory_allocator_def
      initialize_memory_allocator_def power_on_zero_def power_on_def)
  show tc: "the_cond 0 with_cond = \<lparr>c_name = ''cond'', c_state = OPEN, lock_queue = 1, c_queue = ?q\<rparr>"
    using len by (simp add: with_cond_def put_cond_def the_cond_def)
  have "cond_is_open 0 with_cond" "the_cond 0 with_cond = \<lparr>c_name = ''cond'', c_state = OPEN, lock_queue = 1, c_queue = ?q\<rparr>"
    using len by (simp_all add: with_cond_def put_cond_def the_cond_def cond_is_open_def)
  moreover have "queue_wf ?q [] with_cond" "guarded 1 ?q with_cond"
    using wf g unfolding with_cond_def put_cond_frame .
  ultimately show "cond_wf 0 [] with_cond" by (simp add: cond_wf_def)
  show "free_pages with_cond = free_pages two_in_table - {?q}"
    using page by (simp add: with_cond_def put_cond_def free_pages_def)
qed



text \<open>
  The wake-up that comes between the queueing and the blocking of a waiting process is lost:
  once \<open>cond_wait\<close> has queued the process and released the queue's mutex, a signal of another
  process takes it off the queue and marks it ready, and \<open>block_process\<close> then blocks it although
  no queue holds it any more.
\<close>

theorem cond_wakeup_lost:
  assumes "cond_wf key [(f, p)] s" "known s p" "h_proc s p = Some x" "p_st x \<noteq> DELETE"
  shows "\<exists>t u. cond_signal (Suc n) key s = Ret 1 t \<and> block_process p t = Ret () u \<and> cond_wf key [] u \<and> waits u p"
proof -
  obtain t where t: "cond_signal (Suc n) key s = Ret 1 t" "cond_wf key [] t" "h_proc t = roused {p} (h_proc s)"
    using cond_signal_ok [OF assms(1), of n] assms(2) by auto
  have x: "p \<noteq> NULL" "h_proc t p = Some (x\<lparr>p_st := READY\<rparr>)"
    using assms(2-4) t(3) by (simp_all add: known_def roused_def ready_def)
  let ?u = "put_proc p (x\<lparr>p_st := BLOCKED\<rparr>) t"
  have "block_process p t = Ret () ?u" using x by (simp add: block_process_def)
  moreover have "cond_wf key [] ?u" by (rule cond_wf_proc [OF t(2)])
  moreover have "waits ?u p" by (simp add: waits_def)
  ultimately show ?thesis using t(1) by blast
qed

lemma with_cond_frame [simp]:
  "h_proc with_cond = h_proc two_in_table" "h_snode with_cond = h_snode two_in_table" "cur_node with_cond = node_A"
  "open_mutexes with_cond = open_mutexes two_processes" "mem_key with_cond = 0"
  by (simp_all add: with_cond_def put_cond_def)

lemma with_cond_room: "free_pages with_cond \<noteq> {}"
proof -
  let ?ps = "map (\<lambda>i. of_nat (i + 1) :: u8) [0..<254] @ [0]"
  have ps: "pages_stack two_in_table = ?ps"
    using initialize_memory_allocator_pages [OF power_on_zero_frame(1)] by (simp add: two_processes_def)
  have six: "unat (6 :: u8) = 6" by simp
  have "next_page two_in_table = page_address 7"
    unfolding next_page_def ps two_in_table_frame two_processes_frame six by (simp add: nth_append del: upt_rec_numeral)
  moreover have "page_address 0 \<in> free_pages two_in_table"
    unfolding free_pages_def ps two_in_table_frame two_processes_frame six by (simp del: upt_rec_numeral)
  moreover have "page_address 0 \<noteq> page_address 7" by (simp add: page_address_inj)
  ultimately have "page_address 0 \<in> free_pages with_cond" by (simp add: with_cond_wf(3))
  then show ?thesis by blast
qed

text \<open>The same state with a mutex (key 2) that the running process holds.\<close>

definition with_cond_held :: kstate where
  "with_cond_held = with_cond\<lparr>open_mutexes := (open_mutexes with_cond)
     [2 := \<lparr>m_name = ''crit'', m_locked = LOCKED, m_state = OPEN, m_queue = NULL\<rparr>]\<rparr>"

lemma with_cond_held_wf: "cond_wf 0 [] with_cond_held" "free_pages with_cond_held = free_pages with_cond"
proof -
  let ?s = with_cond_held
  have c: "open_conds ?s = open_conds with_cond" by (simp add: with_cond_held_def)
  have q: "queue_at q ns ?s = queue_at q ns with_cond" for q ns by (rule queue_at_cong) (simp_all add: with_cond_held_def)
  have m: "the_mutex k ?s = the_mutex k with_cond" "mutex_is_open k ?s = mutex_is_open k with_cond"
    "mutex_free k ?s = mutex_free k with_cond" if "k \<in> {0, 1}" for k
    using that by (auto simp: with_cond_held_def the_mutex_def mutex_is_open_def mutex_free_def mutex_empty_def)
  have "mem_key ?s = 0" by (simp add: with_cond_held_def)
  show f: "free_pages ?s = free_pages with_cond" by (simp add: with_cond_held_def free_pages_def)
  have ps: "pages_stack ?s = pages_stack with_cond" "current_index ?s = current_index with_cond" by (simp_all add: with_cond_held_def)
  show "cond_wf 0 [] ?s"
    using with_cond_wf(1,2) m [of 0] m [of 1] c q f ps \<open>mem_key ?s = 0\<close>
    by (simp add: cond_wf_def cond_is_open_def the_cond_def queue_wf_def pages_inv_def in_use_def guarded_def)
qed


theorem cond_wakeup_lost_witness:
  "\<exists>s f t u. cond_wf 0 [(f, proc_A)] s \<and> cond_signal 1 0 s = Ret 1 t \<and> block_process proc_A t = Ret () u \<and>
     cond_wf 0 [] u \<and> waits u proc_A"
proof -
  obtain s f where s: "cond_wf 0 [(f, proc_A)] s" "h_proc s = h_proc two_in_table"
    using sync_enqueue_ok [OF with_cond_wf(1) with_cond_room, of 0 proc_A] by (metis append_Nil with_cond_frame(1))
  have "known s proc_A" "h_proc s proc_A = Some process_A" "p_st process_A \<noteq> DELETE" using s(2) by (simp_all add: known_def process_A_def)
  from cond_wakeup_lost [OF s(1) this, of 0] s(1) show ?thesis unfolding One_nat_def by blast
qed

end
