(* ===== verification/Fifo.thy ===== *)
theory Fifo
  imports Cond_Variable
begin

text \<open>
  FIFOs (\<open>Kernel/fifo.c\<close>; the circular buffer itself is in theory \<open>Circular_Buffer\<close>): a named buffer with a
  mutex and a queue of read requests. A reader that finds the buffer empty leaves a request and
  blocks; the next writer copies the bytes straight into the buffer of the request and wakes the
  reader. User memory is \<open>bytes\<close>; a read writes into it with \<open>wr\<close>.
\<close>

section \<open>The routines\<close>

definition the_fifo :: "int \<Rightarrow> kstate \<Rightarrow> fifo" where
  "the_fifo key s = open_fifos s ! nat key"

definition put_fifo :: "int \<Rightarrow> fifo \<Rightarrow> kstate \<Rightarrow> kstate" where
  "put_fifo key f s = s\<lparr>open_fifos := (open_fifos s)[nat key := f]\<rparr>"

definition put_rreq :: "ptr \<Rightarrow> read_request \<Rightarrow> kstate \<Rightarrow> kstate" where
  "put_rreq r x s = s\<lparr>h_rreq := (h_rreq s)(r := Some x)\<rparr>"

definition initialize_fifo_mutex :: "nat \<Rightarrow> kstate \<Rightarrow> unit kres" where
  "initialize_fifo_mutex n s =
     bnd (mutex_open n ''__FIFO_ARRAY_MUTEX__'' s) (\<lambda>k s. Ret () (s\<lparr>fifo_array_lock := k\<rparr>))"

text \<open>A negative key indexes the array out of bounds.\<close>

definition fifo_is_open :: "int \<Rightarrow> kstate \<Rightarrow> bool kres" where
  "fifo_is_open key s =
     (if key \<ge> int MAX_FIFOS then Ret False s
      else if key < 0 then Fault Array_Bounds
      else if f_state (the_fifo key s) \<noteq> OPEN then Ret False s
      else bnd (get_current_process s) (\<lambda>p s. file_is_open p key s))"

definition create_new_fifo :: "nat \<Rightarrow> string \<Rightarrow> kstate \<Rightarrow> fifo kres" where
  "create_new_fifo n name s =
     (if length name \<ge> FIFO_NAME_LEN then Fault Buffer_Overflow
      else
        let b = create_circular_buffer (junk_array s)
        in bnd (mutex_open n name s) (\<lambda>k s.
           bnd (create_queue n s) (\<lambda>q s.
             Ret \<lparr>f_name = name, c_buffer = b, f_state = OPEN, fifo_mutex_key = k, read_queue = q\<rparr> s)))"

definition fifo_open :: "nat \<Rightarrow> string \<Rightarrow> kstate \<Rightarrow> int kres" where
  "fifo_open n name s =
     bnd (mutex_lock n (fifo_array_lock s) s) (\<lambda>_ s.
       let k = scan MAX_FIFOS (\<lambda>k. f_state (open_fifos s ! k) \<noteq> OPEN \<or> name = f_name (open_fifos s ! k)) 0
       in if k < MAX_FIFOS \<and> f_state (open_fifos s ! k) = OPEN
          then bnd (get_current_process s) (\<lambda>p s.
               bnd (set_file_open p (int k) s) (\<lambda>_ s.
               bnd (mutex_unlock n (fifo_array_lock s) s) (\<lambda>_ s. Ret (int k) s)))
          else if k = MAX_FIFOS
          then bnd (mutex_unlock n (fifo_array_lock s) s) (\<lambda>_ s. Ret MAX_FIFOS_OPEN_ERROR s)
          else bnd (create_new_fifo n name s) (\<lambda>f s.
               let s = put_fifo (int k) f s
               in bnd (mutex_unlock n (fifo_array_lock s) s) (\<lambda>_ s.
                  bnd (get_current_process s) (\<lambda>p s.
                  bnd (set_file_open p (int k) s) (\<lambda>_ s. Ret (int k) s)))))"

definition try_read :: "ptr \<Rightarrow> kstate \<Rightarrow> bool kres" where
  "try_read r s =
     rd h_rreq r s (\<lambda>x.
       let f = the_fifo (rr_f x) s
       in if buf_fill (c_buffer f) > 0
          then case read_circular_buffer (c_buffer f) (rr_bytes x) of
                 None \<Rightarrow> Fault Buffer_Overflow
               | Some (k, d, cb) \<Rightarrow>
                   let s = put_fifo (rr_f x) (f\<lparr>c_buffer := cb\<rparr>) s;
                       s = s\<lparr>bytes := wr (bytes s) (rr_buffer x) d\<rparr>
                   in Ret True (put_rreq r (x\<lparr>bytes_read := k\<rparr>) s)
          else Ret False s)"

primrec send_to_readers :: "nat \<Rightarrow> ptr \<Rightarrow> kstate \<Rightarrow> unit kres" where
  "send_to_readers 0 q s = Fault Out_Of_Fuel"
| "send_to_readers (Suc n) q s =
     bnd (is_empty q s) (\<lambda>e s.
       if e then Ret () s
       else bnd (peek q s) (\<lambda>r s.
            bnd (try_read r s) (\<lambda>ok s.
              if \<not> ok then Ret () s
              else bnd (dequeue n q s) (\<lambda>r s.
                   rd h_rreq r s (\<lambda>x.
                   bnd (unblock_process (reader_p x) s) (\<lambda>_ s. send_to_readers n q s))))))"

definition fifo_write :: "nat \<Rightarrow> int \<Rightarrow> u64 \<Rightarrow> int \<Rightarrow> kstate \<Rightarrow> int kres" where
  "fifo_write n key buf b s =
     bnd (fifo_is_open key s) (\<lambda>opn s.
       if opn \<and> b > 0 then
         bnd (mutex_lock n (fifo_mutex_key (the_fifo key s)) s) (\<lambda>_ s.
           case write_circular_buffer (c_buffer (the_fifo key s)) (\<lambda>j. bytes s (buf + of_nat j)) b of
             None \<Rightarrow> Fault Buffer_Overflow
           | Some (w, cb) \<Rightarrow>
               let s = put_fifo key ((the_fifo key s)\<lparr>c_buffer := cb\<rparr>) s
               in bnd (send_to_readers n (read_queue (the_fifo key s)) s) (\<lambda>_ s.
                  bnd (mutex_unlock n (fifo_mutex_key (the_fifo key s)) s) (\<lambda>_ s. Ret w s)))
       else if b \<le> 0 then Ret 0 s else Ret FIFO_NOT_OPEN_ERROR s)"

text \<open>The field \<open>bytes_read\<close> of a new request is not initialised.\<close>

definition create_read_request :: "nat \<Rightarrow> int \<Rightarrow> u64 \<Rightarrow> int \<Rightarrow> kstate \<Rightarrow> ptr kres" where
  "create_read_request n key buf b s =
     bnd (get_page n s) (\<lambda>r s.
       if r = NULL then Fault Null_Deref
       else bnd (get_current_process s) (\<lambda>p s.
              Ret r (put_rreq r \<lparr>rr_bytes = b, bytes_read = junk_bytes_read s r, rr_buffer = buf, rr_f = key, reader_p = p\<rparr> s)))"

definition fifo_read :: "nat \<Rightarrow> int \<Rightarrow> u64 \<Rightarrow> int \<Rightarrow> kstate \<Rightarrow> int kres" where
  "fifo_read n key buf b s =
     bnd (fifo_is_open key s) (\<lambda>opn s.
       if opn \<and> b > 0 then
         bnd (create_read_request n key buf b s) (\<lambda>r s.
         bnd (mutex_lock n (fifo_mutex_key (the_fifo key s)) s) (\<lambda>_ s.
         bnd (is_empty (read_queue (the_fifo key s)) s) (\<lambda>e s.
         bnd (if e then try_read r s else Ret False s) (\<lambda>could_read s.
         bnd (if \<not> could_read
              then bnd (enqueue n (read_queue (the_fifo key s)) r s) (\<lambda>_ s.
                   bnd (mutex_unlock n (fifo_mutex_key (the_fifo key s)) s) (\<lambda>_ s.
                   rd h_rreq r s (\<lambda>x.
                   bnd (block_process (reader_p x) s) (\<lambda>_ s. yield_process s))))
              else bnd (mutex_unlock n (fifo_mutex_key (the_fifo key s)) s) (\<lambda>_ s. Ret () s)) (\<lambda>_ s.
         bnd (fifo_is_open key s) (\<lambda>opn s.
           if \<not> opn then Ret FIFO_NOT_OPEN_ERROR s
           else rd h_rreq r s (\<lambda>x. bnd (store_page n r s) (\<lambda>_ s. Ret (bytes_read x) s))))))))
       else Ret 0 s)"

primrec release_readers :: "nat \<Rightarrow> ptr \<Rightarrow> kstate \<Rightarrow> unit kres" where
  "release_readers 0 q s = Fault Out_Of_Fuel"
| "release_readers (Suc n) q s =
     bnd (is_empty q s) (\<lambda>e s.
       if \<not> e
       then bnd (dequeue n q s) (\<lambda>r s.
            rd h_rreq r s (\<lambda>x.
            bnd (unblock_process (reader_p x) s) (\<lambda>_ s. release_readers n q s)))
       else Ret () s)"

definition fifo_close :: "nat \<Rightarrow> int \<Rightarrow> kstate \<Rightarrow> int kres" where
  "fifo_close n key s =
     bnd (mutex_lock n (fifo_array_lock s) s) (\<lambda>_ s.
     bnd (fifo_is_open key s) (\<lambda>opn s.
       if opn
       then bnd (release_readers n (read_queue (the_fifo key s)) s) (\<lambda>_ s.
            bnd (destroy_queue n (read_queue (the_fifo key s)) s) (\<lambda>_ s.
              let s = put_fifo key ((the_fifo key s)\<lparr>f_state := CLOSED\<rparr>) s
              in bnd (mutex_unlock n (fifo_array_lock s) s) (\<lambda>_ s. Ret 1 s)))
       else bnd (mutex_unlock n (fifo_array_lock s) s) (\<lambda>_ s. Ret FIFO_NOT_OPEN_ERROR s)))"

record fifo_info =
  fi_name :: string
  fi_fds :: int

definition fill_fifo_info :: "kstate \<Rightarrow> nat \<Rightarrow> fifo_info" where
  "fill_fifo_info s k = \<lparr>fi_name = f_name (open_fifos s ! k), fi_fds = int k + FILE_DESCRIPTORS\<rparr>"

definition get_fifos_info :: "nat \<Rightarrow> kstate \<Rightarrow> fifo_info list kres" where
  "get_fifos_info n s =
     bnd (mutex_lock n (fifo_array_lock s) s) (\<lambda>_ s.
       let infos = map (fill_fifo_info s) (filter (\<lambda>k. f_state (open_fifos s ! k) = OPEN) [0..<MAX_FIFOS])
       in bnd (mutex_unlock n (fifo_array_lock s) s) (\<lambda>_ s. Ret infos s))"

section \<open>Frames\<close>

text \<open>States that agree on everything the queues, the mutexes and the page allocator depend on.\<close>

definition same_sync :: "kstate \<Rightarrow> kstate \<Rightarrow> bool" where
  "same_sync s t \<longleftrightarrow>
     open_mutexes t = open_mutexes s \<and> memory_mutex_key t = memory_mutex_key s \<and> h_queue t = h_queue s \<and>
     h_qnode t = h_qnode s \<and> h_snode t = h_snode s \<and> cur_node t = cur_node s \<and>
     pages_stack t = pages_stack s \<and> current_index t = current_index s"

lemma same_sync_facts:
  assumes "same_sync s t"
  shows "queue_wf q ns t = queue_wf q ns s" "guarded k q t = guarded k q s" "pages_inv t = pages_inv s"
    "free_pages t = free_pages s" "next_page t = next_page s" "in_use t = in_use s"
    "mutex_is_open k t = mutex_is_open k s" "mutex_empty k t = mutex_empty k s" "mutex_free k t = mutex_free k s"
proof -
  have q: "queue_at q ns t = queue_at q ns s" using assms by (intro queue_at_cong) (simp_all add: same_sync_def)
  show o: "mutex_is_open k t = mutex_is_open k s" for k using assms by (simp add: same_sync_def mutex_is_open_def)
  show e: "mutex_empty k t = mutex_empty k s" for k using assms by (simp add: same_sync_def mutex_empty_def the_mutex_def)
  show f: "mutex_free k t = mutex_free k s" for k using assms o e by (simp add: same_sync_def mutex_free_def the_mutex_def)
  show p: "free_pages t = free_pages s" using assms by (simp add: same_sync_def free_pages_def)
  show i: "in_use t = in_use s" using p by (simp add: in_use_def)
  show v: "pages_inv t = pages_inv s" using assms f by (simp add: same_sync_def pages_inv_def)
  show "next_page t = next_page s" using assms by (simp add: same_sync_def next_page_def)
  show "queue_wf q ns t = queue_wf q ns s" using assms q v i by (simp add: queue_wf_def same_sync_def the_mutex_def)
  show "guarded k q t = guarded k q s" using assms f o by (simp add: guarded_def same_sync_def the_mutex_def)
qed

lemma same_sync_ops [simp]:
  "same_sync s (put_fifo k f s)" "same_sync s (s\<lparr>bytes := m\<rparr>)" "same_sync s (put_rreq r x s)" "same_sync s (put_proc p y s)"
  by (simp_all add: same_sync_def put_fifo_def put_rreq_def put_proc_def)

lemma same_sync_trans: "same_sync s t \<Longrightarrow> same_sync t u \<Longrightarrow> same_sync s u"
  by (simp add: same_sync_def)

lemma fifo_frame [simp]:
  "open_fifos (acquired k s) = open_fifos s" "open_fifos (relinquished k s) = open_fifos s"
  "open_fifos (paged_out s) = open_fifos s" "open_fifos (paged_in a s) = open_fifos s"
  "open_fifos (with_queue q Q N s) = open_fifos s" "open_fifos (put_proc p y s) = open_fifos s"
  "open_fifos (put_rreq r x s) = open_fifos s"
  "bytes (acquired k s) = bytes s" "bytes (relinquished k s) = bytes s" "bytes (paged_out s) = bytes s"
  "bytes (paged_in a s) = bytes s" "bytes (with_queue q Q N s) = bytes s" "bytes (put_proc p y s) = bytes s"
  "bytes (put_rreq r x s) = bytes s" "bytes (put_fifo j f s) = bytes s"
  "h_rreq (acquired k s) = h_rreq s" "h_rreq (relinquished k s) = h_rreq s" "h_rreq (paged_out s) = h_rreq s"
  "h_rreq (paged_in a s) = h_rreq s" "h_rreq (with_queue q Q N s) = h_rreq s" "h_rreq (put_proc p y s) = h_rreq s"
  "h_rreq (put_rreq r x s) = (h_rreq s)(r \<mapsto> x)" "h_rreq (put_fifo j f s) = h_rreq s"
  "h_proc (put_rreq r x s) = h_proc s" "h_proc (put_fifo j f s) = h_proc s" "h_snode (put_rreq r x s) = h_snode s"
  "h_snode (put_fifo j f s) = h_snode s" "cur_node (put_rreq r x s) = cur_node s" "cur_node (put_fifo j f s) = cur_node s"
  by (simp_all add: acquired_def relinquished_def set_locked_def paged_out_def paged_in_def released_def pool_defs
      with_queue_def put_proc_def put_rreq_def put_fifo_def)

text \<open>Releasing the mutex after a section that changed the queue \<open>q\<close> and things that are not locked.\<close>

lemma released_after:
  assumes g: "guarded k q s" and t: "open_mutexes t = open_mutexes (acquired k s)" "memory_mutex_key t = memory_mutex_key s"
    "h_snode t = h_snode s" "cur_node t = cur_node s" "\<And>p. p \<noteq> q \<Longrightarrow> h_queue t p = h_queue s p" and wf: "queue_wf q ns t"
  shows "bnd (mutex_unlock (Suc n) k t) (\<lambda>_ u. K u) = K (relinquished k t)"
    "guarded k q (relinquished k t)" "queue_wf q ns (relinquished k t)"
proof -
  let ?s = "s\<lparr>h_proc := h_proc t, open_conds := open_conds t\<rparr>"
  have a: "acquired k ?s = (acquired k s)\<lparr>h_proc := h_proc t, open_conds := open_conds t\<rparr>"
    by (simp add: acquired_def set_locked_def mutex_is_open_def the_mutex_def)
  have "guarded k q ?s" using g by (simp add: guarded_def mutex_free_def mutex_is_open_def the_mutex_def mutex_empty_def)
  moreover have "beside q (acquired k ?s) t" using t unfolding a by (simp add: beside_def quiet_def)
  ultimately show "bnd (mutex_unlock (Suc n) k t) (\<lambda>_ u. K u) = K (relinquished k t)"
    "guarded k q (relinquished k t)" "queue_wf q ns (relinquished k t)"
    using released_step [of k q ?s t q ns] wf by blast+
qed

section \<open>Reading and writing\<close>

text \<open>The running process has the FIFO open.\<close>

definition may_use :: "int \<Rightarrow> kstate \<Rightarrow> bool" where
  "may_use key s \<longleftrightarrow>
     0 \<le> key \<and> key < 31 \<and> f_state (the_fifo key s) = OPEN \<and> cur_node s \<noteq> NULL \<and>
     (case h_snode s (cur_node s) of None \<Rightarrow> False
      | Some c \<Rightarrow> sn_p c \<noteq> NULL \<and> (case h_proc s (sn_p c) of None \<Rightarrow> False
          | Some x \<Rightarrow> and (open_fds x) (push_bit (nat key) 1) \<noteq> 0))"

lemma may_use_open: "may_use key s \<Longrightarrow> fifo_is_open key s = Ret True s"
  by (auto simp: may_use_def fifo_is_open_def get_current_process_def file_is_open_def with_fd_bit_def fd_bit_def
      split: option.splits)

lemma may_use_cong:
  assumes "may_use key s" "f_state (the_fifo key t) = OPEN" "h_snode t = h_snode s" "cur_node t = cur_node s" "h_proc t = h_proc s"
  shows "may_use key t"
  using assms by (auto simp: may_use_def split: option.splits)

definition fifo_wf :: "int \<Rightarrow> (ptr \<times> ptr) list \<Rightarrow> kstate \<Rightarrow> bool" where
  "fifo_wf key ns s \<longleftrightarrow>
     may_use key s \<and> nat key < length (open_fifos s) \<and> circ_inv (c_buffer (the_fifo key s)) \<and>
     queue_wf (read_queue (the_fifo key s)) ns s \<and>
     guarded (fifo_mutex_key (the_fifo key s)) (read_queue (the_fifo key s)) s"

definition contents :: "int \<Rightarrow> kstate \<Rightarrow> u8 list" where
  "contents key s = circ_contents (c_buffer (the_fifo key s))"

lemma the_put_fifo [simp]: "nat key < length (open_fifos s) \<Longrightarrow> the_fifo key (put_fifo key f s) = f"
  by (simp add: the_fifo_def put_fifo_def)

lemma the_fifo_cong: "open_fifos t = open_fifos s \<Longrightarrow> the_fifo key t = the_fifo key s"
  by (simp add: the_fifo_def)

lemma circ_contents_length: "circ_inv c \<Longrightarrow> length (circ_contents c) = nat (buf_fill c)"
  by (simp add: circ_contents_def)

lemma fifo_write_start:
  assumes wf: "fifo_wf key ns s" and room: "buf_fill (c_buffer (the_fifo key s)) < BUF_SIZE"
    and b: "0 < b" "buf_fill (c_buffer (the_fifo key s)) + b \<le> INT_MAX"
  obtains cb where "circ_inv cb"
    "circ_contents cb = contents key s @ map (\<lambda>j. bytes s (buf + of_nat j)) [0..<min (nat b) (1024 - length (contents key s))]"
    "fifo_write (Suc n) key buf b s =
      (let f = (the_fifo key s)\<lparr>c_buffer := cb\<rparr>
       in bnd (send_to_readers (Suc n) (read_queue f) (put_fifo key f (acquired (fifo_mutex_key f) s))) (\<lambda>_ t.
          bnd (mutex_unlock (Suc n) (fifo_mutex_key (the_fifo key t)) t) (\<lambda>_ t.
            Ret (int (min (nat b) (1024 - length (contents key s)))) t)))"
proof -
  let ?f = "the_fifo key s" let ?k = "fifo_mutex_key ?f"
  let ?w = "min b (BUF_SIZE - buf_fill (c_buffer ?f))"
  have inv: "circ_inv (c_buffer ?f)" and use: "may_use key s" and len: "nat key < length (open_fifos s)"
    and free: "mutex_free ?k s" using wf by (simp_all add: fifo_wf_def guarded_def)
  have fill: "0 \<le> buf_fill (c_buffer ?f)" using inv by (simp add: circ_inv_def)
  have w: "nat ?w = min (nat b) (1024 - length (contents key s))" "?w = int (min (nat b) (1024 - length (contents key s)))"
    using b(1) room fill circ_contents_length [OF inv] by (simp_all add: contents_def BUF_SIZE_def)
  obtain cb where cb: "write_circular_buffer (c_buffer ?f) (\<lambda>j. bytes s (buf + of_nat j)) b = Some (?w, cb)" "circ_inv cb"
    "circ_contents cb = circ_contents (c_buffer ?f) @ map (\<lambda>j. bytes s (buf + of_nat j)) [0..<nat ?w]"
    using write_circular_buffer_ok [OF inv room b] by blast
  have a: "the_fifo key (acquired ?k s) = ?f" by (rule the_fifo_cong) simp
  have "fifo_write (Suc n) key buf b s =
      (let f = ?f\<lparr>c_buffer := cb\<rparr>
       in bnd (send_to_readers (Suc n) (read_queue f) (put_fifo key f (acquired (fifo_mutex_key f) s))) (\<lambda>_ t.
          bnd (mutex_unlock (Suc n) (fifo_mutex_key (the_fifo key t)) t) (\<lambda>_ t. Ret ?w t)))"
    using b(1) cb(1) len
    unfolding fifo_write_def may_use_open [OF use] bnd.simps lock_step [OF free] a fifo_frame
    by (simp add: Let_def a del: send_to_readers.simps)
  then show thesis using that [OF cb(2)] cb(3) w by (simp add: contents_def)
qed

lemma fifo_write_ok:
  assumes wf: "fifo_wf key [] s" and room: "length (contents key s) < 1024" and b: "0 < b" "1024 + b \<le> INT_MAX"
  obtains t where "fifo_write (Suc n) key buf b s = Ret (int (min (nat b) (1024 - length (contents key s)))) t"
    "fifo_wf key [] t" "bytes t = bytes s"
    "contents key t = contents key s @ map (\<lambda>j. bytes s (buf + of_nat j)) [0..<min (nat b) (1024 - length (contents key s))]"
    "free_pages t = free_pages s"
proof -
  let ?f = "the_fifo key s" let ?k = "fifo_mutex_key ?f" and ?q = "read_queue ?f"
  have f: "may_use key s" "nat key < length (open_fifos s)" "circ_inv (c_buffer ?f)" "queue_wf ?q [] s" "guarded ?k ?q s"
    using wf by (simp_all add: fifo_wf_def)
  have fill: "buf_fill (c_buffer ?f) < BUF_SIZE" "buf_fill (c_buffer ?f) + b \<le> INT_MAX"
    using room b f(3) circ_contents_length [OF f(3)] by (auto simp: contents_def circ_inv_def BUF_SIZE_def)
  obtain cb where cb: "circ_inv cb"
    "circ_contents cb = contents key s @ map (\<lambda>j. bytes s (buf + of_nat j)) [0..<min (nat b) (1024 - length (contents key s))]"
    and w: "fifo_write (Suc n) key buf b s =
      (let f = ?f\<lparr>c_buffer := cb\<rparr>
       in bnd (send_to_readers (Suc n) (read_queue f) (put_fifo key f (acquired (fifo_mutex_key f) s))) (\<lambda>_ t.
          bnd (mutex_unlock (Suc n) (fifo_mutex_key (the_fifo key t)) t) (\<lambda>_ t.
            Ret (int (min (nat b) (1024 - length (contents key s)))) t)))"
    by (rule fifo_write_start [OF wf fill(1) b(1) fill(2)])
  let ?g = "?f\<lparr>c_buffer := cb\<rparr>" let ?s = "put_fifo key ?g (acquired ?k s)"
  have q: "queue_wf ?q [] ?s"
    using f(4) queue_wf_locked [OF f(5)] same_sync_facts(1) [OF same_sync_ops(1)] by simp
  then have e: "is_empty ?q ?s = Ret True ?s" using is_empty_queue [of ?q "[]" ?s] by (simp add: queue_wf_def)
  have g: "the_fifo key ?s = ?g" using f(2) by simp
  have r: "bnd (mutex_unlock (Suc n) ?k ?s) (\<lambda>_ u. K u) = K (relinquished ?k ?s)" "guarded ?k ?q (relinquished ?k ?s)"
    "queue_wf ?q [] (relinquished ?k ?s)" for K :: "kstate \<Rightarrow> int kres"
    using released_after [OF f(5), of ?s "[]"] q by (simp_all add: put_fifo_def)
  have "fifo_write (Suc n) key buf b s = Ret (int (min (nat b) (1024 - length (contents key s)))) (relinquished ?k ?s)"
    unfolding w Let_def using e g r(1) by simp
  moreover have t: "the_fifo key (relinquished ?k ?s) = ?g" by (rule trans [OF the_fifo_cong g]) (rule fifo_frame(2))
  moreover have "fifo_wf key [] (relinquished ?k ?s)"
  proof -
    have "may_use key (relinquished ?k ?s)" by (rule may_use_cong [OF f(1)]) (use t f(1) in \<open>simp_all add: may_use_def\<close>)
    then show ?thesis using f(2) r(2,3) cb(1) t by (simp add: fifo_wf_def) (simp add: put_fifo_def)
  qed
  moreover have "free_pages (relinquished ?k ?s) = free_pages s" by (simp add: same_sync_facts [OF same_sync_ops(1)])
  ultimately show thesis using that cb(2) by (simp add: contents_def)
qed

text \<open>A request is served from the buffer.\<close>

lemma try_read_ok:
  assumes "r \<noteq> NULL" "h_rreq s r = Some x" "rr_f x = key" "nat key < length (open_fifos s)"
    "circ_inv (c_buffer (the_fifo key s))" "contents key s \<noteq> []" "0 < rr_bytes x"
  obtains cb where "circ_inv cb" "circ_contents cb = drop (nat (rr_bytes x)) (contents key s)"
    "try_read r s = Ret True (put_rreq r (x\<lparr>bytes_read := int (min (nat (rr_bytes x)) (length (contents key s)))\<rparr>)
       ((put_fifo key ((the_fifo key s)\<lparr>c_buffer := cb\<rparr>) s)
         \<lparr>bytes := wr (bytes s) (rr_buffer x) (take (nat (rr_bytes x)) (contents key s))\<rparr>))"
proof -
  let ?c = "c_buffer (the_fifo key s)"
  have fill: "length (contents key s) = nat (buf_fill ?c)" "0 < buf_fill ?c"
  proof -
    show l: "length (contents key s) = nat (buf_fill ?c)" using circ_contents_length [OF assms(5)] by (simp add: contents_def)
    have "length (contents key s) \<noteq> 0" using assms(6) by (simp only: length_0_conv not_False_eq_True)
    then show "0 < buf_fill ?c" using l by simp
  qed
  obtain cb where cb: "read_circular_buffer ?c (rr_bytes x) =
      Some (min (rr_bytes x) (buf_fill ?c), take (nat (rr_bytes x)) (circ_contents ?c), cb)" "circ_inv cb"
    "circ_contents cb = drop (nat (rr_bytes x)) (circ_contents ?c)"
    using read_circular_buffer_ok [OF assms(5) fill(2) assms(7)] by blast
  have "min (rr_bytes x) (buf_fill ?c) = int (min (nat (rr_bytes x)) (length (contents key s)))"
    using fill assms(7) by simp
  then show thesis using that [OF cb(2)] cb(1,3) fill(2) assms(1-3) by (simp add: try_read_def contents_def Let_def)
qed

lemma guarded_paged_out:
  assumes "guarded k q s" shows "guarded k q (paged_out s)"
  using assms by (simp add: guarded_def)

lemma queue_wf_paged_out:
  assumes "queue_wf q ns s" "free_pages s \<noteq> {}" shows "queue_wf q ns (paged_out s)"
proof -
  have "pages_inv s" using assms(1) by (simp add: queue_wf_def)
  note page = get_page_step [OF this assms(2)]
  have "queue_at q ns (paged_out s) = queue_at q ns s" by (rule queue_at_cong) simp_all
  moreover have "in_use s \<subseteq> in_use (paged_out s)" using page by (auto simp: in_use_def)
  ultimately show ?thesis using assms(1) page by (auto simp: queue_wf_def)
qed

lemma fifo_read_steps:
  assumes "fifo_is_open key s = Ret True s" "0 < b" "create_read_request n key buf b s = Ret r s1"
    "\<And>K :: kstate \<Rightarrow> int kres. bnd (mutex_lock n (fifo_mutex_key (the_fifo key s1)) s1) (\<lambda>_ t. K t) = K s2"
    "is_empty (read_queue (the_fifo key s2)) s2 = Ret True s2" "try_read r s2 = Ret True s3"
    "\<And>K :: kstate \<Rightarrow> int kres. bnd (mutex_unlock n (fifo_mutex_key (the_fifo key s3)) s3) (\<lambda>_ t. K t) = K s4"
    "fifo_is_open key s4 = Ret True s4" "r \<noteq> NULL" "h_rreq s4 r = Some x" "store_page n r s4 = Ret v t"
  shows "fifo_read n key buf b s = Ret (bytes_read x) t"
  using assms by (simp add: fifo_read_def bnd_assoc)

lemma fifo_read_ok:
  assumes wf: "fifo_wf key [] s" and some: "contents key s \<noteq> []" and b: "0 < b" and room: "free_pages s \<noteq> {}"
  obtains t where "fifo_read (Suc n) key buf b s = Ret (int (min (nat b) (length (contents key s)))) t"
    "bytes t = wr (bytes s) buf (take (nat b) (contents key s))" "contents key t = drop (nat b) (contents key s)"
    "fifo_wf key [] t" "free_pages t = free_pages s"
proof -
  let ?f = "the_fifo key s" let ?k = "fifo_mutex_key ?f" and ?q = "read_queue ?f" and ?r = "next_page s"
  have f: "may_use key s" "nat key < length (open_fifos s)" "circ_inv (c_buffer ?f)" "queue_wf ?q [] s" "guarded ?k ?q s"
    using wf by (simp_all add: fifo_wf_def)
  have inv: "pages_inv s" using f(4) by (simp add: queue_wf_def)
  note page = get_page_step [OF inv room, of n]
  have rn: "?r \<noteq> NULL" by (simp add: next_page_def)
  obtain c y where c: "cur_node s \<noteq> NULL" "h_snode s (cur_node s) = Some c" using f(1) by (auto simp: may_use_def split: option.splits)
  let ?x = "\<lparr>rr_bytes = b, bytes_read = junk_bytes_read (paged_out s) ?r, rr_buffer = buf, rr_f = key, reader_p = sn_p c\<rparr>"
  let ?s1 = "put_rreq ?r ?x (paged_out s)"
  have cr: "create_read_request (Suc n) key buf b s = Ret ?r ?s1"
    using page rn c by (simp add: create_read_request_def get_current_process_def)
  have ss1: "same_sync (paged_out s) ?s1" by simp
  have q1: "queue_wf ?q [] ?s1" "guarded ?k ?q ?s1"
    using queue_wf_paged_out [OF f(4) room] guarded_paged_out [OF f(5)] same_sync_facts(1,2) [OF ss1] by simp_all
  have t1: "the_fifo key ?s1 = ?f" by (rule the_fifo_cong) simp
  let ?s2 = "acquired ?k ?s1"
  have t2: "the_fifo key ?s2 = ?f" by (rule the_fifo_cong) simp
  have q2: "queue_wf ?q [] ?s2" using q1 queue_wf_locked [OF q1(2)] by simp
  then have e: "is_empty ?q ?s2 = Ret True ?s2" using is_empty_queue [of ?q "[]" ?s2] by (simp add: queue_wf_def)
  have c2: "contents key ?s2 = contents key s" by (simp add: contents_def t2)
  obtain cb where cb: "circ_inv cb" "circ_contents cb = drop (nat b) (contents key s)"
    "try_read ?r ?s2 = Ret True (put_rreq ?r (?x\<lparr>bytes_read := int (min (nat b) (length (contents key s)))\<rparr>)
       ((put_fifo key (?f\<lparr>c_buffer := cb\<rparr>) ?s2)\<lparr>bytes := wr (bytes s) buf (take (nat b) (contents key s))\<rparr>))"
    using try_read_ok [OF rn, of ?s2 ?x key] f(2,3) some b t2 c2 by auto
  let ?x3 = "?x\<lparr>bytes_read := int (min (nat b) (length (contents key s)))\<rparr>"
  let ?g = "?f\<lparr>c_buffer := cb\<rparr>" let ?m = "wr (bytes s) buf (take (nat b) (contents key s))"
  let ?s3 = "put_rreq ?r ?x3 ((put_fifo key ?g ?s2)\<lparr>bytes := ?m\<rparr>)"
  have ss3: "same_sync ?s2 ?s3" by (simp add: same_sync_def put_rreq_def put_fifo_def)
  have q3: "queue_wf ?q [] ?s3" using q2 same_sync_facts(1) [OF ss3] by simp
  have t3: "the_fifo key ?s3 = ?g" using f(2) by (simp add: the_fifo_def put_fifo_def)
  have m3: "open_mutexes ?s3 = open_mutexes (acquired ?k ?s1)" "memory_mutex_key ?s3 = memory_mutex_key ?s1"
    "h_snode ?s3 = h_snode ?s1" "cur_node ?s3 = cur_node ?s1" "\<And>p. p \<noteq> ?q \<Longrightarrow> h_queue ?s3 p = h_queue ?s1 p"
    using ss3 by (simp_all add: same_sync_def)
  note r = released_after [OF q1(2) m3 q3]
  let ?s4 = "relinquished ?k ?s3"
  have t4: "the_fifo key ?s4 = ?g" by (rule trans [OF the_fifo_cong t3]) (rule fifo_frame(2))
  have use4: "may_use key ?s4" by (rule may_use_cong [OF f(1)]) (use t4 f(1) in \<open>simp_all add: may_use_def\<close>)
  have h4: "h_rreq ?s4 ?r = Some ?x3" by simp
  have fr4: "free_pages ?s4 = free_pages s - {?r}"
    using page same_sync_facts(4) [OF ss3] same_sync_facts(4) [OF ss1] by simp
  have "?r \<in> data_pages" using page data.free_universe [OF inv] by auto
  then have in4: "?r \<in> in_use ?s4" using fr4 by (simp add: in_use_def)
  have inv4: "pages_inv ?s4" using r(3) by (simp add: queue_wf_def)
  note st = store_page_step [OF inv4 in4, of n]
  let ?t = "paged_in ?r ?s4"
  have fp: "free_pages ?t = free_pages s"
  proof -
    have "free_pages ?t = insert ?r (free_pages ?s4)" "?r \<in> free_pages s" using st page by blast+
    then show ?thesis unfolding fr4 insert_Diff_single by (simp only: insert_absorb)
  qed
  have "fifo_read (Suc n) key buf b s = Ret (int (min (nat b) (length (contents key s)))) ?t"
  proof -
    have fr: "mutex_free ?k ?s1" using q1(2) by (simp add: guarded_def)
    have o: "fifo_is_open key s = Ret True s" "fifo_is_open key ?s4 = Ret True ?s4"
      by (rule may_use_open [OF f(1)]) (rule may_use_open [OF use4])
    have "fifo_read (Suc n) key buf b s = Ret (bytes_read ?x3) ?t"
    proof (rule fifo_read_steps [OF o(1) b cr])
      show "bnd (mutex_lock (Suc n) (fifo_mutex_key (the_fifo key ?s1)) ?s1) (\<lambda>_ t. K t) = K ?s2" for K :: "kstate \<Rightarrow> int kres"
        unfolding t1 by (rule lock_step [OF fr])
      show "is_empty (read_queue (the_fifo key ?s2)) ?s2 = Ret True ?s2" unfolding t2 by (rule e)
      show "try_read ?r ?s2 = Ret True ?s3" by (rule cb(3))
      show "bnd (mutex_unlock (Suc n) (fifo_mutex_key (the_fifo key ?s3)) ?s3) (\<lambda>_ t. K t) = K ?s4" for K :: "kstate \<Rightarrow> int kres"
        unfolding t3 using r(1) by simp
      show "store_page (Suc n) ?r ?s4 = Ret 1 ?t" using st by blast
    qed (rule o(2) rn h4)+
    then show ?thesis by simp
  qed
  moreover have "contents key ?t = drop (nat b) (contents key s)"
    using cb(2) t4 the_fifo_cong [of ?t ?s4 key] by (simp add: contents_def)
  moreover have "fifo_wf key [] ?t"
  proof -
    have tt: "the_fifo key ?t = ?g" using t4 the_fifo_cong [of ?t ?s4 key] by simp
    have "may_use key ?t" by (rule may_use_cong [OF use4]) (use tt use4 t4 in \<open>simp_all add: may_use_def\<close>)
    moreover have "queue_wf ?q [] ?t"
    proof -
      have "queue_at ?q [] ?t = queue_at ?q [] ?s4" by (rule queue_at_cong) simp_all
      moreover have "?q \<in> in_use s" using f(4) by (simp add: queue_wf_def)
      then have "?q \<in> in_use ?t" unfolding in_use_def fp .
      moreover have "pages_inv ?t" using st by blast
      ultimately show ?thesis using r(3) by (simp add: queue_wf_def)
    qed
    moreover have "guarded ?k ?q ?t" using r(2) by (simp add: guarded_def)
    moreover have "nat key < length (open_fifos ?t)" using f(2) by (simp add: put_fifo_def)
    ultimately show ?thesis using cb(1) tt by (simp add: fifo_wf_def)
  qed
  moreover have "bytes ?t = ?m" by simp
  ultimately show thesis using that fp by blast
qed

text \<open>A writer serves the reader that waits alone on an empty FIFO.\<close>

lemma send_to_readers_one:
  assumes wf: "queue_wf q [(f, r)] s" and r: "r \<noteq> NULL" "h_rreq s r = Some x" "rr_f x = key" "0 < rr_bytes x"
    and k: "nat key < length (open_fifos s)" "circ_inv (c_buffer (the_fifo key s))" "contents key s \<noteq> []"
    and p: "reader_p x \<noteq> NULL" "h_proc s (reader_p x) = Some y"
  obtains cb Q where "circ_inv cb" "circ_contents cb = drop (nat (rr_bytes x)) (contents key s)"
    "send_to_readers (Suc (Suc n)) q s = Ret () (put_proc (reader_p x) (ready y) (paged_in f (with_queue q Q (h_qnode s)
       (put_rreq r (x\<lparr>bytes_read := int (min (nat (rr_bytes x)) (length (contents key s)))\<rparr>)
         ((put_fifo key ((the_fifo key s)\<lparr>c_buffer := cb\<rparr>) s)
           \<lparr>bytes := wr (bytes s) (rr_buffer x) (take (nat (rr_bytes x)) (contents key s))\<rparr>)))))"
    "queue_wf q [] (put_proc (reader_p x) (ready y) (paged_in f (with_queue q Q (h_qnode s)
       (put_rreq r (x\<lparr>bytes_read := int (min (nat (rr_bytes x)) (length (contents key s)))\<rparr>)
         ((put_fifo key ((the_fifo key s)\<lparr>c_buffer := cb\<rparr>) s)
           \<lparr>bytes := wr (bytes s) (rr_buffer x) (take (nat (rr_bytes x)) (contents key s))\<rparr>)))))"
proof -
  obtain cb where cb: "circ_inv cb" "circ_contents cb = drop (nat (rr_bytes x)) (contents key s)"
    "try_read r s = Ret True (put_rreq r (x\<lparr>bytes_read := int (min (nat (rr_bytes x)) (length (contents key s)))\<rparr>)
       ((put_fifo key ((the_fifo key s)\<lparr>c_buffer := cb\<rparr>) s)
         \<lparr>bytes := wr (bytes s) (rr_buffer x) (take (nat (rr_bytes x)) (contents key s))\<rparr>))" (is "_ = Ret True ?s1")
    by (rule try_read_ok [OF r(1-3) k r(4)])
  have ss: "same_sync s ?s1" by (simp add: same_sync_def put_rreq_def put_fifo_def)
  have qn: "h_qnode ?s1 = h_qnode s" using ss by (simp add: same_sync_def)
  have at: "queue_at q [(f, r)] s" using wf by (simp add: queue_wf_def)
  have wf1: "queue_wf q [(f, r)] ?s1" using wf same_sync_facts(1) [OF ss] by simp
  obtain Q where d: "dequeue (Suc n) q ?s1 = Ret r (paged_in f (with_queue q Q (h_qnode s) ?s1))"
    "queue_wf q [] (paged_in f (with_queue q Q (h_qnode s) ?s1))"
    using dequeue_queue [OF wf1, of n] unfolding qn by metis
  let ?s2 = "paged_in f (with_queue q Q (h_qnode s) ?s1)"
  let ?s3 = "put_proc (reader_p x) (ready y) ?s2"
  have u: "unblock_process (reader_p x) ?s2 = Ret () ?s3"
    using p by (auto simp: unblock_process_def ready_def put_proc_def fun_upd_idem)
  have wf3: "queue_wf q [] ?s3" using d(2) same_sync_facts(1) [OF same_sync_ops(4)] by simp
  have e: "is_empty q s = Ret False s" "peek q s = Ret r s" "is_empty q ?s3 = Ret True ?s3"
    using is_empty_queue [OF at] peek_queue [OF at] is_empty_queue [of q "[]" ?s3] wf3 by (simp_all add: queue_wf_def)
  have rdr: "rd h_rreq r ?s2 K = K (x\<lparr>bytes_read := int (min (nat (rr_bytes x)) (length (contents key s)))\<rparr>)" for K :: "read_request \<Rightarrow> unit kres"
    using r(1) by simp
  have last: "send_to_readers (Suc n) q ?s3 = Ret () ?s3" using e(3) by simp
  have "send_to_readers (Suc (Suc n)) q s = Ret () ?s3"
    using last u unfolding send_to_readers.simps(2) [of "Suc n"] e(1,2) cb(3) d(1) bnd.simps rdr by (simp only: if_False if_True bnd.simps simp_thms rdr d(1)) simp
  then show thesis using that cb(1,2) wf3 by blast
qed

lemma fifo_write_reader:
  assumes wf: "fifo_wf key [(f, r)] s" and emp: "contents key s = []"
    and r: "r \<noteq> NULL" "h_rreq s r = Some x" "rr_f x = key" "0 < rr_bytes x"
    and p: "reader_p x \<noteq> NULL" "h_proc s (reader_p x) = Some y" and b: "0 < b" "1024 + b \<le> INT_MAX"
    and data: "data = map (\<lambda>j. bytes s (buf + of_nat j)) [0..<min (nat b) 1024]"
  obtains t where "fifo_write (Suc (Suc n)) key buf b s = Ret (int (min (nat b) 1024)) t"
    "h_proc t = (h_proc s)(reader_p x \<mapsto> ready y)" "bytes t = wr (bytes s) (rr_buffer x) (take (nat (rr_bytes x)) data)"
    "h_rreq t r = Some (x\<lparr>bytes_read := int (min (nat (rr_bytes x)) (length data))\<rparr>)"
    "contents key t = drop (nat (rr_bytes x)) data" "queue_wf (read_queue (the_fifo key t)) [] t"
proof -
  let ?f = "the_fifo key s" let ?k = "fifo_mutex_key ?f" and ?q = "read_queue ?f"
  have g: "nat key < length (open_fifos s)" "circ_inv (c_buffer ?f)" "queue_wf ?q [(f, r)] s" "guarded ?k ?q s"
    using wf by (simp_all add: fifo_wf_def)
  have "buf_fill (c_buffer ?f) = 0" using circ_contents_length [OF g(2)] emp g(2) by (simp add: contents_def circ_inv_def)
  then obtain cb where cb: "circ_inv cb" "circ_contents cb = data"
    and w: "fifo_write (Suc (Suc n)) key buf b s =
      (let f = ?f\<lparr>c_buffer := cb\<rparr>
       in bnd (send_to_readers (Suc (Suc n)) (read_queue f) (put_fifo key f (acquired (fifo_mutex_key f) s))) (\<lambda>_ t.
          bnd (mutex_unlock (Suc (Suc n)) (fifo_mutex_key (the_fifo key t)) t) (\<lambda>_ t. Ret (int (min (nat b) 1024)) t)))"
    using fifo_write_start [OF wf _ b(1), of buf "Suc n"] emp b(2) data by (auto simp: BUF_SIZE_def)
  let ?g = "?f\<lparr>c_buffer := cb\<rparr>" let ?s = "put_fifo key ?g (acquired ?k s)"
  have tf: "the_fifo key ?s = ?g" using g(1) by simp
  have c: "contents key ?s = data" by (simp add: contents_def tf cb(2))
  have ne: "contents key ?s \<noteq> []" unfolding c using data b(1) by simp
  have q: "queue_wf ?q [(f, r)] ?s"
    using g(3) queue_wf_locked [OF g(4)] same_sync_facts(1) [OF same_sync_ops(1)] by simp
  have pre: "h_rreq ?s r = Some x" "nat key < length (open_fifos ?s)" "circ_inv (c_buffer (the_fifo key ?s))" "h_proc ?s (reader_p x) = Some y"
    using r(2) g(1) cb(1) p(2) tf by simp_all (simp add: put_fifo_def)
  obtain cb' Q where s': "circ_inv cb'" "circ_contents cb' = drop (nat (rr_bytes x)) data"
    and send: "send_to_readers (Suc (Suc n)) ?q ?s = Ret () (put_proc (reader_p x) (ready y) (paged_in f (with_queue ?q Q (h_qnode ?s)
       (put_rreq r (x\<lparr>bytes_read := int (min (nat (rr_bytes x)) (length data))\<rparr>)
         ((put_fifo key (?g\<lparr>c_buffer := cb'\<rparr>) ?s)\<lparr>bytes := wr (bytes s) (rr_buffer x) (take (nat (rr_bytes x)) data)\<rparr>)))))"
    and qt: "queue_wf ?q [] (put_proc (reader_p x) (ready y) (paged_in f (with_queue ?q Q (h_qnode ?s)
       (put_rreq r (x\<lparr>bytes_read := int (min (nat (rr_bytes x)) (length data))\<rparr>)
         ((put_fifo key (?g\<lparr>c_buffer := cb'\<rparr>) ?s)\<lparr>bytes := wr (bytes s) (rr_buffer x) (take (nat (rr_bytes x)) data)\<rparr>)))))"
    (is "queue_wf _ _ ?t")
    using send_to_readers_one [OF q r(1) pre(1) r(3,4) pre(2,3) ne p(1) pre(4), of n] unfolding c tf by (simp only: fifo_frame) blast
  have t: "open_mutexes ?t = open_mutexes (acquired ?k s)" "memory_mutex_key ?t = memory_mutex_key s" "h_snode ?t = h_snode s"
    "cur_node ?t = cur_node s" "\<And>e. e \<noteq> ?q \<Longrightarrow> h_queue ?t e = h_queue s e"
    by (simp_all add: put_proc_def put_rreq_def put_fifo_def)
  note rl = released_after [OF g(4) t qt]
  have tt: "the_fifo key ?t = ?g\<lparr>c_buffer := cb'\<rparr>" using g(1) by (simp add: the_fifo_def put_fifo_def)
  have tr: "the_fifo key (relinquished ?k ?t) = ?g\<lparr>c_buffer := cb'\<rparr>" by (rule trans [OF the_fifo_cong tt]) (rule fifo_frame(2))
  have "fifo_write (Suc (Suc n)) key buf b s = Ret (int (min (nat b) 1024)) (relinquished ?k ?t)"
  proof -
    have k: "fifo_mutex_key (the_fifo key ?t) = ?k" unfolding tt by simp
    have "fifo_mutex_key ?g = ?k" "read_queue ?g = ?q" by simp_all
    then show ?thesis unfolding w Let_def by (simp only: send bnd.simps k) (rule rl(1))
  qed
  moreover have "queue_wf (read_queue (the_fifo key (relinquished ?k ?t))) [] (relinquished ?k ?t)" unfolding tr using rl(3) by simp
  ultimately show thesis using that s'(2) tr by (simp add: contents_def)
qed

section \<open>Properties\<close>

text \<open>
  C18. What is written to a FIFO is what is read from it: after a process has written bytes that fit
  into an empty FIFO, a read of as many bytes returns their number and leaves exactly these
  bytes, in order, in the reader's buffer; the FIFO is empty again and no page is lost.
\<close>

theorem fifo_write_read:
  assumes "fifo_wf key [] s" "contents key s = []" "0 < b" "b \<le> 1024" "free_pages s \<noteq> {}"
  shows "\<exists>t u. fifo_write (Suc n) key buf b s = Ret b t \<and> fifo_read (Suc n) key dst b t = Ret b u \<and>
    bytes u = (\<lambda>a. if unat (a - dst) < nat b then bytes s (buf + (a - dst)) else bytes s a) \<and>
    contents key u = [] \<and> fifo_wf key [] u \<and> free_pages u = free_pages s"
proof -
  let ?xs = "map (\<lambda>j. bytes s (buf + of_nat j)) [0..<nat b]"
  have m: "min (nat b) 1024 = nat b" using assms(3,4) by simp
  obtain t where t: "fifo_write (Suc n) key buf b s = Ret b t" "fifo_wf key [] t" "bytes t = bytes s"
    "contents key t = ?xs" "free_pages t = free_pages s"
    using fifo_write_ok [OF assms(1) _ assms(3), of n buf] assms(2-4) m by (auto simp: INT_MAX_def)
  have "contents key t \<noteq> []" "length (contents key t) = nat b" using t(4) assms(3) by simp_all
  then obtain u where u: "fifo_read (Suc n) key dst b t = Ret b u" "bytes u = wr (bytes s) dst ?xs"
    "contents key u = []" "fifo_wf key [] u" "free_pages u = free_pages s"
    using fifo_read_ok [OF t(2) _ assms(3), of n dst] t(3-5) assms(3,5) by auto
  have "wr (bytes s) dst ?xs = (\<lambda>a. if unat (a - dst) < nat b then bytes s (buf + (a - dst)) else bytes s a)"
    by (auto simp: wr_def fun_eq_iff)
  then show ?thesis using t(1) u by auto
qed

text \<open>A state with a FIFO (key 0) that the running process has open.\<close>

definition with_fifo :: kstate where
  "with_fifo = put_fifo 0 \<lparr>f_name = ''pipe'', c_buffer = create_circular_buffer (replicate 1024 0), f_state = OPEN,
       fifo_mutex_key = 1, read_queue = next_page two_in_table\<rparr>
     (put_proc proc_A (process_A\<lparr>open_fds := 1\<rparr>) with_cond)"

lemma with_fifo_wf: "fifo_wf 0 [] with_fifo" "contents 0 with_fifo = []" "free_pages with_fifo \<noteq> {}"
  "h_proc with_fifo = [proc_A \<mapsto> process_A\<lparr>open_fds := 1\<rparr>, proc_B \<mapsto> process_B]"
proof -
  let ?q = "next_page two_in_table"
  have len: "length (open_fifos with_cond) = 128"
    by (simp add: with_cond_def put_cond_def two_in_table_def two_processes_def initialize_stack_memory_allocator_def
      initialize_memory_allocator_def power_on_zero_def power_on_def)
  have ss: "same_sync with_cond with_fifo" by (simp add: same_sync_def with_fifo_def put_fifo_def put_proc_def)
  have f: "the_fifo 0 with_fifo = \<lparr>f_name = ''pipe'', c_buffer = create_circular_buffer (replicate 1024 0), f_state = OPEN,
       fifo_mutex_key = 1, read_queue = ?q\<rparr>" using len by (simp add: with_fifo_def the_fifo_def put_fifo_def put_proc_def)
  show p: "h_proc with_fifo = [proc_A \<mapsto> process_A\<lparr>open_fds := 1\<rparr>, proc_B \<mapsto> process_B]"
    by (simp add: with_fifo_def fun_upd_twist)
  have use: "may_use 0 with_fifo" unfolding may_use_def f p by (simp add: with_fifo_def)
  have "queue_wf ?q [] with_cond" "guarded 1 ?q with_cond" using with_cond_wf(1,2) by (simp_all add: cond_wf_def)
  then have "queue_wf ?q [] with_fifo" "guarded 1 ?q with_fifo" using same_sync_facts(1,2) [OF ss] by simp_all
  moreover have "length (open_fifos with_fifo) = 128" using len by (simp add: with_fifo_def put_fifo_def)
  ultimately show "fifo_wf 0 [] with_fifo" using use f circ_inv_create [of "replicate 1024 0"]
    by (simp add: fifo_wf_def del: length_greater_0_conv)
  show "contents 0 with_fifo = []" by (simp add: contents_def f)
  show "free_pages with_fifo \<noteq> {}" using with_cond_room same_sync_facts(4) [OF ss] by simp
qed

theorem fifo_write_read_witness:
  "\<exists>t u. fifo_write 1 0 0x1000 5 with_fifo = Ret 5 t \<and> fifo_read 1 0 0x2000 5 t = Ret 5 u \<and> contents 0 u = []"
proof -
  have "0 < (5 :: int)" "(5 :: int) \<le> 1024" by simp_all
  from fifo_write_read [OF with_fifo_wf(1,2) this with_fifo_wf(3), of 0 "0x1000" "0x2000"]
  show ?thesis unfolding One_nat_def by blast
qed

text \<open>
  C19. A write to an empty FIFO on which a process waits to read serves that process: the bytes go
  straight into the buffer of its request, as many as it asked for, the request records their
  number, the process is woken, and only the rest stays in the FIFO.
\<close>

theorem fifo_write_serves_reader:
  assumes "fifo_wf key [(f, r)] s" "contents key s = []" "r \<noteq> NULL" "h_rreq s r = Some x" "rr_f x = key" "0 < rr_bytes x"
    and "reader_p x \<noteq> NULL" "h_proc s (reader_p x) = Some y" "0 < b" "1024 + b \<le> INT_MAX"
    and "data = map (\<lambda>j. bytes s (buf + of_nat j)) [0..<min (nat b) 1024]"
  shows "\<exists>t. fifo_write (Suc (Suc n)) key buf b s = Ret (int (min (nat b) 1024)) t \<and>
    h_proc t = (h_proc s)(reader_p x \<mapsto> ready y) \<and>
    bytes t = wr (bytes s) (rr_buffer x) (take (nat (rr_bytes x)) data) \<and>
    h_rreq t r = Some (x\<lparr>bytes_read := int (min (nat (rr_bytes x)) (length data))\<rparr>) \<and>
    contents key t = drop (nat (rr_bytes x)) data \<and> queue_wf (read_queue (the_fifo key t)) [] t"
  using fifo_write_reader [OF assms, of n] by metis

text \<open>A request of process B for 10 bytes waits in the FIFO.\<close>

lemma waiting_reader:
  obtains s f r where "fifo_wf 0 [(f, r)] s" "contents 0 s = []" "r \<noteq> NULL"
    "h_rreq s r = Some \<lparr>rr_bytes = 10, bytes_read = 0, rr_buffer = 0x2000, rr_f = 0, reader_p = proc_B\<rparr>"
    "h_proc s proc_B = Some process_B"
proof -
  let ?x = "\<lparr>rr_bytes = 10, bytes_read = 0, rr_buffer = 0x2000, rr_f = 0, reader_p = proc_B\<rparr>" and ?r = "page_address 100"
  let ?s = "put_rreq ?r ?x with_fifo" let ?q = "read_queue (the_fifo 0 with_fifo)" and ?k = "fifo_mutex_key (the_fifo 0 with_fifo)"
  have w: "may_use 0 with_fifo" "0 < length (open_fifos with_fifo)" "circ_inv (c_buffer (the_fifo 0 with_fifo))"
    "queue_wf ?q [] with_fifo" "guarded ?k ?q with_fifo" using with_fifo_wf(1) by (simp_all add: fifo_wf_def)
  have ss: "same_sync with_fifo ?s" by simp
  have q: "queue_wf ?q [] ?s" "free_pages ?s \<noteq> {}" using w(4) with_fifo_wf(3) same_sync_facts [OF ss] by simp_all
  obtain Q N where e: "queue_wf ?q ([] @ [(next_page ?s, ?r)]) (with_queue ?q Q N (paged_out ?s))"
    using enqueue_queue [OF q, of 0 ?r] by metis
  let ?t = "with_queue ?q Q N (paged_out ?s)"
  have f: "the_fifo 0 ?t = the_fifo 0 with_fifo" by (rule the_fifo_cong) simp
  have "guarded ?k ?q ?s" using w(5) same_sync_facts(2) [OF ss] by simp
  then have "guarded ?k ?q ?t" by (auto simp: guarded_def mutex_free_with_queue)
  moreover have "may_use 0 ?t" by (rule may_use_cong [OF w(1)]) (use f w(1) in \<open>simp_all add: may_use_def\<close>)
  ultimately have "fifo_wf 0 [(next_page ?s, ?r)] ?t" using e w(2,3) f by (simp add: fifo_wf_def)
  moreover have "contents 0 ?t = []" using with_fifo_wf(2) by (simp add: contents_def f)
  ultimately show thesis using that [of "next_page ?s" ?r ?t] with_fifo_wf(4) by simp
qed

theorem fifo_write_serves_reader_witness:
  "\<exists>s t. fifo_write 2 0 0x1000 4 s = Ret 4 t \<and> h_proc t proc_B = Some (ready process_B) \<and> contents 0 t = []"
proof -
  obtain s f r where s: "fifo_wf 0 [(f, r)] s" "contents 0 s = []" "r \<noteq> NULL"
    "h_rreq s r = Some \<lparr>rr_bytes = 10, bytes_read = 0, rr_buffer = 0x2000, rr_f = 0, reader_p = proc_B\<rparr>"
    "h_proc s proc_B = Some process_B" by (rule waiting_reader)
  obtain t where "fifo_write (Suc (Suc 0)) 0 0x1000 4 s = Ret 4 t" "h_proc t proc_B = Some (ready process_B)" "contents 0 t = []"
    using fifo_write_serves_reader [OF s(1-4), of process_B 4 _ "0x1000" 0] s(5) by (auto simp: INT_MAX_def)
  then show ?thesis unfolding numeral_2_eq_2 by blast
qed

end
