(* ===== verification/System_Calls.thy ===== *)
theory System_Calls
  imports Fifo
begin

text \<open>
  The system calls (\<open>systemCalls.c\<close>), the description of a process that one of them returns
  (\<open>process_info.c\<close>), and the handlers of the timer and the keyboard interrupts (\<open>handlers.c\<close>,
  \<open>store_scancode\<close> of \<open>keyboardDriver.c\<close>).

  \<open>n\<close> and \<open>m\<close> are the fuel of the routines of the other components. The clock is read by routines in
  assembler, so its values are arguments. What a call stores in an array of structures at a pointer of the
  caller is part of its result.
\<close>

section \<open>Interrupt handlers\<close>

definition store_scancode :: "u8 \<Rightarrow> kstate \<Rightarrow> unit kres" where
  "store_scancode key s =
     (case scancode_event key (keyboard s) of
        (No_Effect, kb) \<Rightarrow> Ret () (s\<lparr>keyboard := kb\<rparr>)
      | (Escape_Pressed, kb) \<Rightarrow>
          bnd (ppid_process (get_foreground_process s) s) (\<lambda>ppid s.
          bnd (get_process_by_pid ppid s) (\<lambda>p s. set_foreground_force_process p s))
      | (Key_Stored, kb) \<Rightarrow>
          bnd (unblock_read_process (get_foreground_process s) (s\<lparr>keyboard := kb\<rparr>)) (\<lambda>_ s. Ret () s))"

definition int_20 :: "nat \<Rightarrow> nat \<Rightarrow> kstate \<Rightarrow> unit kres" where
  "int_20 n m s = timer_handler n m s"

definition int_21 :: "u8 \<Rightarrow> kstate \<Rightarrow> unit kres" where
  "int_21 key s = store_scancode key s"

definition irqDispatcher :: "nat \<Rightarrow> nat \<Rightarrow> u8 \<Rightarrow> u64 \<Rightarrow> kstate \<Rightarrow> unit kres" where
  "irqDispatcher n m key irq s = (if irq = 0 then int_20 n m s else if irq = 1 then int_21 key s else Ret () s)"

section \<open>Information on a process\<close>

datatype run_state = Running | Ready | Blocked

record process_info =
  is_foreground :: bool
  pi_st :: run_state
  pi_pid :: u64
  pi_ppid :: u64
  pi_name :: string
  stack_addr :: u64
  mem_pages :: "ptr list"

definition get_process_info :: "ptr \<Rightarrow> kstate \<Rightarrow> process_info kres" where
  "get_process_info p s =
     bnd (assign_quantum s) (\<lambda>_ s.
     bnd (get_current_process s) (\<lambda>c s.
     bnd (is_blocked_process p s) (\<lambda>b s.
     bnd (pid_process p s) (\<lambda>pid s.
     bnd (ppid_process p s) (\<lambda>ppid s.
     bnd (get_name_process p s) (\<lambda>name s.
     bnd (stack_page_process p s) (\<lambda>stack s.
     bnd (data_pages_process p s) (\<lambda>pages s.
     bnd (unassign_quantum s) (\<lambda>_ s.
       Ret \<lparr>is_foreground = (get_foreground_process s = p), pi_st = (if p = c then Running else if b then Blocked else Ready),
            pi_pid = pid, pi_ppid = ppid, pi_name = name, stack_addr = stack, mem_pages = pages\<rparr> s)))))))))"

definition get_process_info_by_pid :: "u64 \<Rightarrow> kstate \<Rightarrow> process_info option kres" where
  "get_process_info_by_pid pid s =
     bnd (get_process_by_pid pid s) (\<lambda>p s.
       if p = NULL then Ret None s else bnd (get_process_info p s) (\<lambda>pi s. Ret (Some pi) s))"

section \<open>Files\<close>

abbreviation STDOUT :: u64 where "STDOUT \<equiv> 0"
abbreviation STDIN :: u64 where "STDIN \<equiv> 1"
abbreviation STDERR :: u64 where "STDERR \<equiv> 2"

definition fifo_to_fds :: "int \<Rightarrow> u32" where
  "fifo_to_fds key = of_int (key + FILE_DESCRIPTORS)"

definition fds_to_fifo :: "u32 \<Rightarrow> int" where
  "fds_to_fifo fds = sint (fds - of_int FILE_DESCRIPTORS)"

text \<open>The loop of \<open>sys_read\<close> on the keyboard. A character is stored, or the process waits for the next key.\<close>

primrec read_keys :: "nat \<Rightarrow> u64 \<Rightarrow> u64 \<Rightarrow> u32 \<Rightarrow> kstate \<Rightarrow> u32 kres" where
  "read_keys 0 buf len i s = Fault Out_Of_Fuel"
| "read_keys (Suc n) buf len i s =
     (if ucast i < len
      then let (k, kb) = get_char (keyboard s); s = s\<lparr>keyboard := kb\<rparr>; c = of_int k :: u8
           in if c \<noteq> - 1 then read_keys n buf len (i + 1) (s\<lparr>bytes := (bytes s)(buf + ucast i := c)\<rparr>)
              else bnd (get_current_process s) (\<lambda>p s.
                   bnd (block_read_process p s) (\<lambda>_ s.
                   bnd (yield_process s) (\<lambda>_ s. read_keys n buf len i s)))
      else Ret i s)"

definition sys_read :: "nat \<Rightarrow> u64 \<Rightarrow> u64 \<Rightarrow> u64 \<Rightarrow> kstate \<Rightarrow> u64 kres" where
  "sys_read n fds buf len s =
     (if fds = STDIN
      then bnd (get_current_process s) (\<lambda>c s.
           bnd (if c \<noteq> get_foreground_process s
                then bnd (block_foreground_process c s) (\<lambda>_ s. yield_process s)
                else Ret () s) (\<lambda>_ s.
           bnd (read_keys n buf len 0 s) (\<lambda>i s. Ret (ucast i) s)))
      else if fds \<ge> of_int FILE_DESCRIPTORS
      then bnd (fifo_read n (fds_to_fifo (ucast fds)) buf (to_int len) s) (\<lambda>i s. Ret (ucast (of_int i :: u32)) s)
      else Ret 0 s)"

definition chars_at :: "u64 \<Rightarrow> u64 \<Rightarrow> kstate \<Rightarrow> int list" where
  "chars_at str len s = map (\<lambda>i. sint (bytes s (str + of_nat i))) [0..<unat len]"

text \<open>For any other descriptor below 3 the result is a variable that was never set.\<close>

definition sys_write :: "nat \<Rightarrow> u64 \<Rightarrow> u64 \<Rightarrow> u64 \<Rightarrow> kstate \<Rightarrow> u64 kres" where
  "sys_write n fds str len s =
     (if fds = STDERR then
        let (r, g, b) = current_char_color (screen s);
            v = snd (set_char_color 255 0 0 (screen s));
            v = put (chars_at str len s) (to_int len) v;
            v = snd (set_char_color (ucast r) (ucast g) (ucast b) v)
        in Ret (ucast (ucast len :: u32)) (s\<lparr>screen := v\<rparr>)
      else if fds = STDOUT then Ret len (s\<lparr>screen := put (chars_at str len s) (to_int len) (screen s)\<rparr>)
      else if fds \<ge> of_int FILE_DESCRIPTORS
      then bnd (fifo_write n (fds_to_fifo (ucast fds)) str (to_int len) s) (\<lambda>k s. Ret (ucast (of_int k :: u32)) s)
      else Fault Uninitialised)"

section \<open>Screen, clock and memory\<close>

record rtc =
  rtc_seconds :: u32
  rtc_minutes :: u32
  rtc_hour :: u32

definition sys_time :: "rtc \<Rightarrow> u64 \<Rightarrow> u64" where
  "sys_time t selection =
     (if selection = 0 then ucast (rtc_seconds t) else if selection = 1 then ucast (rtc_minutes t)
      else if selection = 2 then ucast (rtc_hour t) else - 1)"

definition sys_paint :: "u64 \<Rightarrow> u64 \<Rightarrow> u64 \<Rightarrow> kstate \<Rightarrow> u64 kres" where
  "sys_paint color x y s =
     (let (ok, v) = fill (ucast (and (drop_bit 16 color) 0xFF)) (ucast (and (drop_bit 8 color) 0xFF)) (ucast (and color 0xFF))
            (to_int x) (to_int y) (screen s)
      in Ret (of_int ok) (s\<lparr>screen := v\<rparr>))"

definition sys_wait :: "nat \<Rightarrow> u64 \<Rightarrow> kstate \<Rightarrow> u64 kres" where
  "sys_wait n milliseconds s = bnd (sleep n milliseconds s) (\<lambda>r s. Ret (of_int r) s)"

definition sys_screen_res :: "u64 \<Rightarrow> kstate \<Rightarrow> u64 kres" where
  "sys_screen_res selection s =
     Ret (if selection = 0 then of_int (scr_x_res (screen s)) else if selection = 1 then of_int (scr_y_res (screen s)) else - 1) s"

definition sys_text_space :: "u64 \<Rightarrow> kstate \<Rightarrow> u64 kres" where
  "sys_text_space selection s =
     Ret (if selection = 0 then of_int (text_rows (screen s)) else if selection = 1 then of_int (text_cols (screen s)) else - 1) s"

text \<open>The size is not used: every request gets one page.\<close>

definition sys_malloc :: "nat \<Rightarrow> u64 \<Rightarrow> kstate \<Rightarrow> u64 kres" where
  "sys_malloc n amount s =
     bnd (get_page n s) (\<lambda>page s.
     bnd (get_current_process s) (\<lambda>p s.
     bnd (add_data_page p page s) (\<lambda>_ s. Ret page s)))"

definition sys_free :: "nat \<Rightarrow> u64 \<Rightarrow> kstate \<Rightarrow> u64 kres" where
  "sys_free n address s =
     bnd (get_current_process s) (\<lambda>p s.
     bnd (remove_data_page p address s) (\<lambda>_ s. store_page n address s))"

definition sys_data_address :: u64 where "sys_data_address = 0x500000"

definition sys_set_char_color :: "u64 \<Rightarrow> u64 \<Rightarrow> u64 \<Rightarrow> kstate \<Rightarrow> u64 kres" where
  "sys_set_char_color r g b s =
     (let (ok, v) = set_char_color r g b (screen s) in Ret (of_int ok) (s\<lparr>screen := v\<rparr>))"

definition sys_set_bg_color :: "u64 \<Rightarrow> u64 \<Rightarrow> u64 \<Rightarrow> kstate \<Rightarrow> u64 kres" where
  "sys_set_bg_color r g b s =
     (let (ok, v) = set_bg_color r g b (screen s) in Ret (of_int ok) (s\<lparr>screen := v\<rparr>))"

section \<open>Processes\<close>

definition sys_exec :: "nat \<Rightarrow> u64 \<Rightarrow> u64 \<Rightarrow> string \<Rightarrow> kstate \<Rightarrow> u64 or_switch kres" where
  "sys_exec n rip params name s =
     bnd (create_process n rip params name s) (\<lambda>p s.
     bnd (exec_process n p s) (\<lambda>r s.
       Ret (case r of Returns pid \<Rightarrow> Returns (of_int pid) | Switch_To rsp \<Rightarrow> Switch_To rsp) s))"

definition sys_end :: "nat \<Rightarrow> nat \<Rightarrow> kstate \<Rightarrow> u64 or_switch kres" where
  "sys_end n m s =
     bnd (end_process n m s) (\<lambda>r s. Ret (case r of Returns _ \<Rightarrow> Returns 1 | Switch_To rsp \<Rightarrow> Switch_To rsp) s)"

definition sys_yield :: "kstate \<Rightarrow> u64 kres" where
  "sys_yield s = bnd (yield_process s) (\<lambda>_ s. Ret 1 s)"

definition sys_set_foreground :: "u64 \<Rightarrow> kstate \<Rightarrow> u64 kres" where
  "sys_set_foreground pid s =
     bnd (get_process_by_pid pid s) (\<lambda>p s.
       if p = NULL then Ret 0 s else bnd (set_foreground_process p s) (\<lambda>_ s. Ret 1 s))"

definition sys_kill :: "u64 \<Rightarrow> kstate \<Rightarrow> u64 kres" where
  "sys_kill pid s =
     (if pid \<noteq> 0 \<and> pid \<noteq> 1
      then bnd (get_process_by_pid pid s) (\<lambda>p s. bnd (kill_process p s) (\<lambda>v s. Ret (of_int v) s))
      else Ret 0 s)"

definition sys_pid :: "kstate \<Rightarrow> u64 kres" where
  "sys_pid s = bnd (get_current_process s) (\<lambda>p s. pid_process p s)"

definition sys_ppid :: "kstate \<Rightarrow> u64 kres" where
  "sys_ppid s = bnd (get_current_process s) (\<lambda>p s. ppid_process p s)"

definition sys_process_info :: "u64 \<Rightarrow> kstate \<Rightarrow> process_info option kres" where
  "sys_process_info pid s = get_process_info_by_pid pid s"

section \<open>Synchronisation\<close>

definition ret_int :: "int kres \<Rightarrow> u64 kres" where
  "ret_int r = bnd r (\<lambda>x s. Ret (of_int x) s)"

definition sys_mutex_op :: "nat \<Rightarrow> string \<Rightarrow> kstate \<Rightarrow> u64 kres" where
  "sys_mutex_op n name s = ret_int (mutex_open n name s)"

definition sys_mutex_cl :: "nat \<Rightarrow> u64 \<Rightarrow> kstate \<Rightarrow> u64 kres" where
  "sys_mutex_cl n key s = ret_int (mutex_close n (to_int key) s)"

definition sys_mutex_lock :: "nat \<Rightarrow> u64 \<Rightarrow> kstate \<Rightarrow> u64 kres" where
  "sys_mutex_lock n key s = ret_int (mutex_lock n (to_int key) s)"

definition sys_mutex_unlock :: "nat \<Rightarrow> u64 \<Rightarrow> kstate \<Rightarrow> u64 kres" where
  "sys_mutex_unlock n key s = ret_int (mutex_unlock n (to_int key) s)"

definition sys_fifo_op :: "nat \<Rightarrow> string \<Rightarrow> kstate \<Rightarrow> u64 kres" where
  "sys_fifo_op n name s = bnd (fifo_open n name s) (\<lambda>k s. Ret (ucast (fifo_to_fds k)) s)"

definition sys_fifo_cl :: "nat \<Rightarrow> u64 \<Rightarrow> kstate \<Rightarrow> u64 kres" where
  "sys_fifo_cl n fds s = ret_int (fifo_close n (fds_to_fifo (ucast fds)) s)"

definition sys_cond_open :: "nat \<Rightarrow> string \<Rightarrow> kstate \<Rightarrow> u64 kres" where
  "sys_cond_open n name s = ret_int (cond_open n name s)"

definition sys_cond_wait :: "nat \<Rightarrow> int \<Rightarrow> int \<Rightarrow> kstate \<Rightarrow> u64 kres" where
  "sys_cond_wait n cond_key lock_key s = ret_int (cond_wait n cond_key lock_key s)"

definition sys_cond_signal :: "nat \<Rightarrow> int \<Rightarrow> kstate \<Rightarrow> u64 kres" where
  "sys_cond_signal n key s = ret_int (cond_signal n key s)"

definition sys_cond_broadcast :: "nat \<Rightarrow> int \<Rightarrow> kstate \<Rightarrow> u64 kres" where
  "sys_cond_broadcast n key s = ret_int (cond_broadcast n key s)"

definition sys_cond_close :: "nat \<Rightarrow> int \<Rightarrow> kstate \<Rightarrow> u64 kres" where
  "sys_cond_close n key s = ret_int (cond_close n key s)"

definition sys_get_pids :: "nat \<Rightarrow> kstate \<Rightarrow> (int \<times> int list) kres" where
  "sys_get_pids n s = get_current_pids n s"

definition sys_get_conds_info :: "nat \<Rightarrow> kstate \<Rightarrow> cond_info list kres" where
  "sys_get_conds_info n s = get_conds_info n s"

definition sys_get_mutexes_info :: "nat \<Rightarrow> kstate \<Rightarrow> mutex_info list kres" where
  "sys_get_mutexes_info n s = get_mutexes_info n s"

definition sys_get_fifos_info :: "nat \<Rightarrow> kstate \<Rightarrow> fifo_info list kres" where
  "sys_get_fifos_info n s = get_fifos_info n s"

section \<open>The table of system calls\<close>

text \<open>
  The wrappers drop the arguments that a call does not have and convert the others. A name is the string
  at a pointer of the caller; \<open>n\<close> bounds its length.
\<close>

primrec string_at :: "nat \<Rightarrow> mem \<Rightarrow> u64 \<Rightarrow> string option" where
  "string_at 0 b p = None"
| "string_at (Suc n) b p =
     (if b p = 0 then Some [] else map_option (\<lambda>cs. char_of (unat (b p)) # cs) (string_at n b (p + 1)))"

definition with_name :: "nat \<Rightarrow> u64 \<Rightarrow> (string \<Rightarrow> kstate \<Rightarrow> 'a kres) \<Rightarrow> kstate \<Rightarrow> 'a kres" where
  "with_name n p f s = (case string_at n (bytes s) p of None \<Rightarrow> Fault Out_Of_Fuel | Some name \<Rightarrow> f name s)"

datatype sys_out =
    Nothing
  | Pids "int list"
  | Conds "cond_info list"
  | Mutexes "mutex_info list"
  | Fifos "fifo_info list"
  | Process process_info

type_synonym answer = "(u64 \<times> sys_out) or_switch"

definition answered :: "u64 kres \<Rightarrow> answer kres" where
  "answered r = bnd r (\<lambda>x s. Ret (Returns (x, Nothing)) s)"

definition switched :: "u64 or_switch kres \<Rightarrow> answer kres" where
  "switched r = bnd r (\<lambda>x s. Ret (case x of Returns v \<Rightarrow> Returns (v, Nothing) | Switch_To rsp \<Rightarrow> Switch_To rsp) s)"

definition listed :: "('a list \<Rightarrow> sys_out) \<Rightarrow> 'a list kres \<Rightarrow> answer kres" where
  "listed f r = bnd r (\<lambda>xs s. Ret (Returns (of_nat (length xs), f xs)) s)"

definition sys_read_wr :: "nat \<Rightarrow> u64 \<Rightarrow> u64 \<Rightarrow> u64 \<Rightarrow> kstate \<Rightarrow> answer kres" where
  "sys_read_wr n fds buffer len s = answered (sys_read n fds buffer len s)"

definition sys_write_wr :: "nat \<Rightarrow> u64 \<Rightarrow> u64 \<Rightarrow> u64 \<Rightarrow> kstate \<Rightarrow> answer kres" where
  "sys_write_wr n fds str len s = answered (sys_write n fds str len s)"

definition sys_time_wr :: "rtc \<Rightarrow> u64 \<Rightarrow> u64 \<Rightarrow> u64 \<Rightarrow> kstate \<Rightarrow> answer kres" where
  "sys_time_wr t selection u1 u2 s = answered (Ret (sys_time t selection) s)"

definition sys_paint_wr :: "u64 \<Rightarrow> u64 \<Rightarrow> u64 \<Rightarrow> kstate \<Rightarrow> answer kres" where
  "sys_paint_wr color x y s = answered (sys_paint color x y s)"

definition sys_wait_wr :: "nat \<Rightarrow> u64 \<Rightarrow> u64 \<Rightarrow> u64 \<Rightarrow> kstate \<Rightarrow> answer kres" where
  "sys_wait_wr n milliseconds u1 u2 s = answered (sys_wait n milliseconds s)"

definition sys_screen_res_wr :: "u64 \<Rightarrow> u64 \<Rightarrow> u64 \<Rightarrow> kstate \<Rightarrow> answer kres" where
  "sys_screen_res_wr selection u1 u2 s = answered (sys_screen_res selection s)"

definition sys_text_space_wr :: "u64 \<Rightarrow> u64 \<Rightarrow> u64 \<Rightarrow> kstate \<Rightarrow> answer kres" where
  "sys_text_space_wr selection u1 u2 s = answered (sys_text_space selection s)"

definition sys_malloc_wr :: "nat \<Rightarrow> u64 \<Rightarrow> u64 \<Rightarrow> u64 \<Rightarrow> kstate \<Rightarrow> answer kres" where
  "sys_malloc_wr n amount u1 u2 s = answered (sys_malloc n amount s)"

definition sys_free_wr :: "nat \<Rightarrow> u64 \<Rightarrow> u64 \<Rightarrow> u64 \<Rightarrow> kstate \<Rightarrow> answer kres" where
  "sys_free_wr n address u2 u3 s = answered (sys_free n address s)"

definition sys_data_address_wr :: "u64 \<Rightarrow> u64 \<Rightarrow> u64 \<Rightarrow> kstate \<Rightarrow> answer kres" where
  "sys_data_address_wr u1 u2 u3 s = answered (Ret sys_data_address s)"

definition sys_set_char_color_wr :: "u64 \<Rightarrow> u64 \<Rightarrow> u64 \<Rightarrow> kstate \<Rightarrow> answer kres" where
  "sys_set_char_color_wr r g b s = answered (sys_set_char_color r g b s)"

definition sys_set_bg_color_wr :: "u64 \<Rightarrow> u64 \<Rightarrow> u64 \<Rightarrow> kstate \<Rightarrow> answer kres" where
  "sys_set_bg_color_wr r g b s = answered (sys_set_bg_color r g b s)"

definition sys_exec_wr :: "nat \<Rightarrow> u64 \<Rightarrow> u64 \<Rightarrow> u64 \<Rightarrow> kstate \<Rightarrow> answer kres" where
  "sys_exec_wr n rip params name s = with_name n name (\<lambda>name s. switched (sys_exec n rip params name s)) s"

definition sys_end_wr :: "nat \<Rightarrow> nat \<Rightarrow> u64 \<Rightarrow> u64 \<Rightarrow> u64 \<Rightarrow> kstate \<Rightarrow> answer kres" where
  "sys_end_wr n m u1 u2 u3 s = switched (sys_end n m s)"

definition sys_yield_wr :: "u64 \<Rightarrow> u64 \<Rightarrow> u64 \<Rightarrow> kstate \<Rightarrow> answer kres" where
  "sys_yield_wr u1 u2 u3 s = answered (sys_yield s)"

definition sys_mutex_op_wr :: "nat \<Rightarrow> u64 \<Rightarrow> u64 \<Rightarrow> u64 \<Rightarrow> kstate \<Rightarrow> answer kres" where
  "sys_mutex_op_wr n nameptr u2 u3 s = with_name n nameptr (\<lambda>name s. answered (sys_mutex_op n name s)) s"

definition sys_mutex_cl_wr :: "nat \<Rightarrow> u64 \<Rightarrow> u64 \<Rightarrow> u64 \<Rightarrow> kstate \<Rightarrow> answer kres" where
  "sys_mutex_cl_wr n key u2 u3 s = answered (sys_mutex_cl n key s)"

definition sys_mutex_lock_wr :: "nat \<Rightarrow> u64 \<Rightarrow> u64 \<Rightarrow> u64 \<Rightarrow> kstate \<Rightarrow> answer kres" where
  "sys_mutex_lock_wr n key u2 u3 s = answered (sys_mutex_lock n key s)"

definition sys_mutex_unlock_wr :: "nat \<Rightarrow> u64 \<Rightarrow> u64 \<Rightarrow> u64 \<Rightarrow> kstate \<Rightarrow> answer kres" where
  "sys_mutex_unlock_wr n key u2 u3 s = answered (sys_mutex_unlock n key s)"

definition sys_set_foreground_wr :: "u64 \<Rightarrow> u64 \<Rightarrow> u64 \<Rightarrow> kstate \<Rightarrow> answer kres" where
  "sys_set_foreground_wr pid u2 u3 s = answered (sys_set_foreground pid s)"

definition sys_fifo_op_wr :: "nat \<Rightarrow> u64 \<Rightarrow> u64 \<Rightarrow> u64 \<Rightarrow> kstate \<Rightarrow> answer kres" where
  "sys_fifo_op_wr n nameptr u2 u3 s = with_name n nameptr (\<lambda>name s. answered (sys_fifo_op n name s)) s"

definition sys_fifo_cl_wr :: "nat \<Rightarrow> u64 \<Rightarrow> u64 \<Rightarrow> u64 \<Rightarrow> kstate \<Rightarrow> answer kres" where
  "sys_fifo_cl_wr n fds u2 u3 s = answered (sys_fifo_cl n fds s)"

definition sys_kill_wr :: "u64 \<Rightarrow> u64 \<Rightarrow> u64 \<Rightarrow> kstate \<Rightarrow> answer kres" where
  "sys_kill_wr pid u2 u3 s = answered (sys_kill pid s)"

definition sys_pid_wr :: "u64 \<Rightarrow> u64 \<Rightarrow> u64 \<Rightarrow> kstate \<Rightarrow> answer kres" where
  "sys_pid_wr u1 u2 u3 s = answered (sys_pid s)"

definition sys_ppid_wr :: "u64 \<Rightarrow> u64 \<Rightarrow> u64 \<Rightarrow> kstate \<Rightarrow> answer kres" where
  "sys_ppid_wr u1 u2 u3 s = answered (sys_ppid s)"

definition sys_process_info_wr :: "u64 \<Rightarrow> u64 \<Rightarrow> u64 \<Rightarrow> kstate \<Rightarrow> answer kres" where
  "sys_process_info_wr pid pi u3 s = bnd (sys_process_info pid s) (\<lambda>r s.
       Ret (Returns (case r of None \<Rightarrow> (0, Nothing) | Some x \<Rightarrow> (1, Process x))) s)"

definition sys_cond_open_wr :: "nat \<Rightarrow> u64 \<Rightarrow> u64 \<Rightarrow> u64 \<Rightarrow> kstate \<Rightarrow> answer kres" where
  "sys_cond_open_wr n name u2 u3 s = with_name n name (\<lambda>name s. answered (sys_cond_open n name s)) s"

definition sys_cond_wait_wr :: "nat \<Rightarrow> u64 \<Rightarrow> u64 \<Rightarrow> u64 \<Rightarrow> kstate \<Rightarrow> answer kres" where
  "sys_cond_wait_wr n cond_key lock_key u3 s = answered (sys_cond_wait n (to_int cond_key) (to_int lock_key) s)"

definition sys_cond_signal_wr :: "nat \<Rightarrow> u64 \<Rightarrow> u64 \<Rightarrow> u64 \<Rightarrow> kstate \<Rightarrow> answer kres" where
  "sys_cond_signal_wr n key u2 u3 s = answered (sys_cond_signal n (to_int key) s)"

definition sys_cond_broadcast_wr :: "nat \<Rightarrow> u64 \<Rightarrow> u64 \<Rightarrow> u64 \<Rightarrow> kstate \<Rightarrow> answer kres" where
  "sys_cond_broadcast_wr n key u2 u3 s = answered (sys_cond_broadcast n (to_int key) s)"

definition sys_cond_close_wr :: "nat \<Rightarrow> u64 \<Rightarrow> u64 \<Rightarrow> u64 \<Rightarrow> kstate \<Rightarrow> answer kres" where
  "sys_cond_close_wr n key u2 u3 s = answered (sys_cond_close n (to_int key) s)"

definition sys_get_pids_wr :: "nat \<Rightarrow> u64 \<Rightarrow> u64 \<Rightarrow> u64 \<Rightarrow> kstate \<Rightarrow> answer kres" where
  "sys_get_pids_wr n pid_array u2 u3 s = bnd (sys_get_pids n s) (\<lambda>(count, pids) s. Ret (Returns (of_int count, Pids pids)) s)"

definition sys_get_conds_info_wr :: "nat \<Rightarrow> u64 \<Rightarrow> u64 \<Rightarrow> u64 \<Rightarrow> kstate \<Rightarrow> answer kres" where
  "sys_get_conds_info_wr n info_array u2 u3 s = listed Conds (sys_get_conds_info n s)"

definition sys_get_mutexes_info_wr :: "nat \<Rightarrow> u64 \<Rightarrow> u64 \<Rightarrow> u64 \<Rightarrow> kstate \<Rightarrow> answer kres" where
  "sys_get_mutexes_info_wr n info_array u2 u3 s = listed Mutexes (sys_get_mutexes_info n s)"

definition sys_get_fifos_info_wr :: "nat \<Rightarrow> u64 \<Rightarrow> u64 \<Rightarrow> u64 \<Rightarrow> kstate \<Rightarrow> answer kres" where
  "sys_get_fifos_info_wr n info_array u2 u3 s = listed Fifos (sys_get_fifos_info n s)"

text \<open>The vector \<open>syscalls\<close>: the first three entries are reserved.\<close>

definition syscalls :: "nat \<Rightarrow> nat \<Rightarrow> rtc \<Rightarrow> (u64 \<Rightarrow> u64 \<Rightarrow> u64 \<Rightarrow> kstate \<Rightarrow> answer kres) option list" where
  "syscalls n m t =
     [None, None, None,
      Some (sys_read_wr n), Some (sys_write_wr n), Some (sys_time_wr t), Some sys_paint_wr, Some (sys_wait_wr n),
      Some sys_screen_res_wr, Some sys_text_space_wr, Some (sys_malloc_wr n), Some (sys_free_wr n), Some
      sys_data_address_wr, Some sys_set_char_color_wr, Some sys_set_bg_color_wr, Some (sys_exec_wr n), Some
      (sys_end_wr n m), Some sys_yield_wr, Some (sys_mutex_op_wr n), Some (sys_mutex_cl_wr n), Some
      (sys_mutex_lock_wr n), Some (sys_mutex_unlock_wr n), Some sys_set_foreground_wr, Some (sys_fifo_op_wr n), Some
      (sys_fifo_cl_wr n), Some sys_kill_wr, Some sys_pid_wr, Some sys_ppid_wr, Some sys_process_info_wr, Some
      (sys_cond_open_wr n), Some (sys_cond_wait_wr n), Some (sys_cond_signal_wr n), Some (sys_cond_broadcast_wr n),
      Some (sys_cond_close_wr n), Some (sys_get_pids_wr n), Some (sys_get_conds_info_wr n), Some
      (sys_get_mutexes_info_wr n), Some (sys_get_fifos_info_wr n)]"

definition syscallDispatcher :: "nat \<Rightarrow> nat \<Rightarrow> rtc \<Rightarrow> u64 \<Rightarrow> u64 \<Rightarrow> u64 \<Rightarrow> u64 \<Rightarrow> kstate \<Rightarrow> answer kres" where
  "syscallDispatcher n m t rax rbx rdx rcx s =
     (if unat rax < length (syscalls n m t) \<and> rax \<ge> 3
      then case syscalls n m t ! unat rax of None \<Rightarrow> Fault Null_Deref | Some f \<Rightarrow> f rbx rcx rdx s
      else Ret (Returns (0, Nothing)) s)"

end
