(* ===== verification/Syscall_Laws.thy ===== *)
theory Syscall_Laws
  imports System_Calls
begin

text \<open>
  Properties of the system calls: reading from the keyboard across the interrupt that wakes the reader,
  allocating and freeing memory for a process, killing, and the descriptors of FIFOs.
\<close>

section \<open>The keyboard and a waiting reader\<close>

lemma kbd_tables_ascii: "i < 128 \<Longrightarrow> kbdus ! i < 128 \<and> shiftkbdus ! i < 128 \<and> capskbdus ! i < 128"
proof -
  assume i: "i < 128"
  have "list_all (\<lambda>b. b < 128) kbdus" "list_all (\<lambda>b. b < 128) shiftkbdus" "list_all (\<lambda>b. b < 128) capskbdus"
    by (simp_all add: kbdus_def shiftkbdus_def capskbdus_def) (simp_all add: list_all_iff)
  moreover have "length kbdus = 128" "length shiftkbdus = 128" "length capskbdus = 128"
    by (simp_all add: kbdus_def shiftkbdus_def capskbdus_def)
  ultimately show ?thesis using i by (simp add: list_all_length)
qed

text \<open>A scan code of a key that gives a character.\<close>

definition char_key :: "u8 \<Rightarrow> bool" where
  "char_key key \<longleftrightarrow> 0 < sint key \<and> sint key \<noteq> ESCAPE \<and> sint key \<noteq> CAPSLOCK \<and> \<not> isShiftKey (sint key) \<and> key_of kbdus (sint key) \<noteq> 0"

lemma u8_positive: "0 < sint (k :: u8) \<Longrightarrow> uint k = sint k \<and> uint k < 128"
proof -
  assume "0 < sint k"
  moreover have "sint k < 128" using sint_lt [of k] by simp
  ultimately show ?thesis using uint_sint [of k] by (simp add: take_bit_int_eq_self)
qed

lemma chooseKeyboard_char:
  assumes "char_key key"
  shows "(of_int (chooseKeyboard (sint key) kb) :: u8) \<noteq> - 1"
proof -
  have k: "nat (sint key) < 128" using assms u8_positive [of key] by (simp add: char_key_def nat_less_iff)
  have t: "0 \<le> key_of t (sint key) \<and> key_of t (sint key) < 128" if "t \<in> {kbdus, shiftkbdus, capskbdus}" for t
    using that kbd_tables_ascii [OF k] by (auto simp: key_of_def word_less_def)
  then have "0 \<le> chooseKeyboard (sint key) kb \<and> chooseKeyboard (sint key) kb < 128"
    using assms by (simp add: chooseKeyboard_def char_key_def)
  then have "uint (of_int (chooseKeyboard (sint key) kb) :: u8) < 128"
    by (simp add: unsigned_of_int take_bit_int_eq_self)
  then show ?thesis by (auto simp: unsigned_minus_1_eq_mask mask_eq_exp_minus_1)
qed

lemma key_pressed:
  assumes "kbd_inv kb" "buff_size kb = 0" "char_key key"
  shows "\<exists>kb' kb''. scancode_event key kb = (Key_Stored, kb') \<and> get_char kb' = (chooseKeyboard (sint key) kb, kb'') \<and> buff_size kb'' = 0"
proof -
  have k: "0 < sint key" "sint key < 128" "uint key = sint key" using u8_positive [of key] assms(3) by (simp_all add: char_key_def)
  have i: "store_index kb = ret_index kb" "ret_index kb < length (k_buffer kb)" using assms(1,2) by (simp_all add: kbd_inv_def)
  have sp: "processKeyScanCode (sint key) kb = (False, kb)"
    using assms(3) by (simp add: char_key_def processKeyScanCode_def isShiftKey_def)
  let ?kb = "wrap_store_index (push_scancode key kb)"
  have "scancode_event key kb = (Key_Stored, ?kb)"
    using assms(2,3) k sp by (simp add: scancode_event_def char_key_def Let_def)
  moreover have "buff_size ?kb = 1" "k_buffer ?kb ! ret_index ?kb = key"
    "shiftPressed ?kb = shiftPressed kb" "capsLockActivated ?kb = capsLockActivated kb"
    using i assms(2) by (simp_all add: wrap_store_index_def push_scancode_def)
  ultimately show ?thesis using k by (simp add: get_char_def take_scancode_def Let_def chooseKeyboard_def)
qed

lemma read_keys_waits:
  assumes "running p x s" "buff_size (keyboard s) = 0" "ucast i < len"
  shows "\<exists>t. read_keys (Suc n) buf len i s = Yld t (\<lambda>u. read_keys n buf len i u) \<and>
    h_proc t = (h_proc s)(p \<mapsto> x\<lparr>p_st := BLOCKED_READ\<rparr>) \<and> keyboard t = keyboard s \<and> foreground t = foreground s \<and>
    bytes t = bytes s \<and> process_table t = process_table s"
proof -
  let ?s = "put_proc p (x\<lparr>p_st := BLOCKED_READ\<rparr>) s"
  have p: "p \<noteq> NULL" "h_proc s p = Some x" "get_current_process s = Ret p s"
    using assms(1) by (auto simp: running_def get_current_process_def rd_def split: option.splits)
  have "running p (x\<lparr>p_st := BLOCKED_READ\<rparr>) ?s"
    using assms(1) by (auto simp: running_def put_proc_def split: option.splits)
  then obtain R where R: "yield_process ?s = Yld (machine (h_proc ?s) R (cur_node ?s) (superlock ?s) ?s) (\<lambda>t. Ret () t)"
    by (rule yield_running)
  have g: "get_char (keyboard s) = (- 1, keyboard s)" using assms(2) by (simp add: get_char_def)
  have "block_read_process p s = Ret () ?s" using p by (simp add: block_read_process_def)
  then have "read_keys (Suc n) buf len i s = bnd (yield_process ?s) (\<lambda>_ s. read_keys n buf len i s)"
    using assms(3) p(3) g by simp
  also have "\<dots> = Yld (machine (h_proc ?s) R (cur_node ?s) (superlock ?s) ?s) (\<lambda>u. read_keys n buf len i u)"
    unfolding R by (simp only: bnd.simps)
  finally show ?thesis by (simp add: machine_def put_proc_def)
qed

text \<open>
  C29. Reading a character from the keyboard. The foreground process finds the buffer empty: \<open>sys_read\<close> marks it as waiting for a key
  and gives up the processor. When later, in whatever state, the interrupt of a character key comes while the process still waits in
  the foreground, the handler makes the process ready again, and whenever the process then gets the processor with the key still
  buffered, \<open>sys_read\<close> returns 1 with the character of that key, chosen by the state of shift and caps lock, in the buffer.
\<close>

theorem keyboard_wakes_reader:
  assumes "running p x s" "foreground s = p" "kbd_inv (keyboard s)" "buff_size (keyboard s) = 0"
  shows "\<exists>t k. sys_read (Suc (Suc (Suc n))) STDIN buf 1 s = Yld t k \<and> keyboard t = keyboard s \<and> foreground t = p \<and>
    h_proc t p = Some (x\<lparr>p_st := BLOCKED_READ\<rparr>) \<and>
    (\<forall>u y key. keyboard u = keyboard t \<and> foreground u = p \<and> h_proc u p = Some y \<and> p_st y = BLOCKED_READ \<and> char_key key \<longrightarrow>
       (\<exists>v. store_scancode key u = Ret () v \<and> h_proc v p = Some (y\<lparr>p_st := READY\<rparr>) \<and>
         (\<forall>w. keyboard w = keyboard v \<longrightarrow> (\<exists>z. k w = Ret 1 z \<and> buff_size (keyboard z) = 0 \<and>
            bytes z = (bytes w)(buf := of_int (chooseKeyboard (sint key) (keyboard s)))))))"
proof -
  have p: "p \<noteq> NULL" "get_current_process s = Ret p s"
    using assms(1) by (auto simp: running_def get_current_process_def rd_def split: option.splits)
  obtain t where t: "read_keys (Suc (Suc (Suc n))) buf 1 0 s = Yld t (\<lambda>u. read_keys (Suc (Suc n)) buf 1 0 u)"
      "h_proc t = (h_proc s)(p \<mapsto> x\<lparr>p_st := BLOCKED_READ\<rparr>)" "keyboard t = keyboard s" "foreground t = foreground s"
    using read_keys_waits [OF assms(1,4), of 0 1 "Suc (Suc n)" buf] by auto
  let ?k = "\<lambda>u. bnd (read_keys (Suc (Suc n)) buf 1 0 u) (\<lambda>i s. Ret (ucast i) s)"
  have r: "sys_read (Suc (Suc (Suc n))) STDIN buf 1 s = Yld t ?k"
    using p(2) assms(2) t(1) by (simp add: sys_read_def get_foreground_process_def del: read_keys.simps)
  have main: "\<exists>v. store_scancode key u = Ret () v \<and> h_proc v p = Some (y\<lparr>p_st := READY\<rparr>) \<and>
      (\<forall>w. keyboard w = keyboard v \<longrightarrow> (\<exists>z. ?k w = Ret 1 z \<and> buff_size (keyboard z) = 0 \<and>
         bytes z = (bytes w)(buf := of_int (chooseKeyboard (sint key) (keyboard s)))))"
    if u: "keyboard u = keyboard t" "foreground u = p" "h_proc u p = Some y" "p_st y = BLOCKED_READ" and key: "char_key key" for u y key
  proof -
    obtain kb' kb'' where k: "scancode_event key (keyboard s) = (Key_Stored, kb')"
        "get_char kb' = (chooseKeyboard (sint key) (keyboard s), kb'')" "buff_size kb'' = 0"
      using key_pressed [OF assms(3,4) key] by auto
    let ?v = "put_proc p (y\<lparr>p_st := READY\<rparr>) (u\<lparr>keyboard := kb'\<rparr>)"
    have "store_scancode key u = Ret () ?v"
      using u p(1) k(1) t(3) by (simp add: store_scancode_def get_foreground_process_def unblock_read_process_def unblock_process_def)
    moreover have "\<exists>z. ?k w = Ret 1 z \<and> buff_size (keyboard z) = 0 \<and>
        bytes z = (bytes w)(buf := of_int (chooseKeyboard (sint key) (keyboard s)))" if "keyboard w = keyboard ?v" for w
    proof (intro exI conjI)
      show "?k w = Ret 1 (w\<lparr>keyboard := kb'', bytes := (bytes w)(buf := of_int (chooseKeyboard (sint key) (keyboard s)))\<rparr>)"
        using that k(2) chooseKeyboard_char [OF key] by (simp add: put_proc_def)
    qed (use k(3) in simp_all)
    moreover have "h_proc ?v p = Some (y\<lparr>p_st := READY\<rparr>)" by (simp add: put_proc_def)
    ultimately show ?thesis by blast
  qed
  show ?thesis
  proof (rule exI [of _ t], rule exI [of _ ?k], intro conjI allI impI)
    show "sys_read (Suc (Suc (Suc n))) STDIN buf 1 s = Yld t ?k" by (rule r)
    show "keyboard t = keyboard s" by (rule t(3))
    show "foreground t = p" using t(4) assms(2) by simp
    show "h_proc t p = Some (x\<lparr>p_st := BLOCKED_READ\<rparr>)" using t(2) by simp
  qed (use main in blast)
qed

lemma keyboard_wakes_reader_witness:
  "\<exists>t k. sys_read 3 STDIN 0x1000 1 (two_in_table\<lparr>foreground := proc_A\<rparr>) = Yld t k \<and>
     (\<exists>v. store_scancode 30 t = Ret () v \<and> (\<exists>z. k v = Ret 1 z \<and> bytes z 0x1000 = 97))"
proof -
  let ?s = "two_in_table\<lparr>foreground := proc_A\<rparr>"
  have kb: "keyboard ?s = kbd_init" by (simp add: two_in_table_def two_processes_def initialize_stack_memory_allocator_def
      initialize_memory_allocator_def power_on_zero_def power_on_def)
  have run: "running proc_A process_A ?s" by (simp add: running_def process_A_def)
  have key: "char_key 30" by (simp add: char_key_def isShiftKey_def key_of_def kbdus_def)
  have c: "chooseKeyboard (sint (30 :: u8)) kbd_init = 97" by (simp add: chooseKeyboard_def kbd_init_def key_of_def kbdus_def)
  obtain t k where t: "sys_read 3 STDIN 0x1000 1 ?s = Yld t k" "keyboard t = keyboard ?s" "foreground t = proc_A"
      "h_proc t proc_A = Some (process_A\<lparr>p_st := BLOCKED_READ\<rparr>)"
    and all: "\<forall>u y key. keyboard u = keyboard t \<and> foreground u = proc_A \<and> h_proc u proc_A = Some y \<and> p_st y = BLOCKED_READ \<and> char_key key \<longrightarrow>
       (\<exists>v. store_scancode key u = Ret () v \<and> h_proc v proc_A = Some (y\<lparr>p_st := READY\<rparr>) \<and>
         (\<forall>w. keyboard w = keyboard v \<longrightarrow> (\<exists>z. k w = Ret 1 z \<and> buff_size (keyboard z) = 0 \<and>
            bytes z = (bytes w)(0x1000 := of_int (chooseKeyboard (sint key) (keyboard ?s))))))"
    using keyboard_wakes_reader [OF run, of 0 "0x1000"] kbd_inv_init unfolding kb numeral_3_eq_3 by (auto simp: kbd_init_def)
  have "keyboard t = keyboard t \<and> foreground t = proc_A \<and> h_proc t proc_A = Some (process_A\<lparr>p_st := BLOCKED_READ\<rparr>) \<and>
      p_st (process_A\<lparr>p_st := BLOCKED_READ\<rparr>) = BLOCKED_READ \<and> char_key 30" using t(3,4) key by simp
  then obtain v z where "store_scancode 30 t = Ret () v" "k v = Ret 1 z" "bytes z = (bytes v)(0x1000 := of_int (chooseKeyboard (sint (30 :: u8)) (keyboard ?s)))"
    using all by blast
  then show ?thesis using t(1) c unfolding kb by (intro exI [of _ t] exI [of _ k]) auto
qed

section \<open>Memory of a process\<close>

lemma free_pages_sub: "pages_inv s \<Longrightarrow> free_pages s \<subseteq> data_pages"
  by (auto simp: pages_inv_def free_pages_def data_pages_def)

text \<open>
  \<open>sys_malloc\<close> gives the running process a page that was free and enters it in the list of pages of the process, and
  \<open>sys_free\<close> of that page undoes both: the allocator has the same free pages and the process the same list as before.
\<close>

theorem malloc_free:
  assumes "running p x s" "pages_counted x" "length (owned_pages x) < MAX_DATA_PAGES" "pages_inv s" "free_pages s \<noteq> {}"
  shows "\<exists>a t y. sys_malloc (Suc n) amount s = Ret a t \<and> a \<in> free_pages s \<and> pages_inv t \<and> free_pages t = free_pages s - {a} \<and>
    h_proc t p = Some y \<and> pages_counted y \<and> mset (owned_pages y) = add_mset a (mset (owned_pages x)) \<and>
    (\<exists>u z. sys_free (Suc n) a t = Ret 1 u \<and> pages_inv u \<and> free_pages u = free_pages s \<and>
       h_proc u p = Some z \<and> pages_counted z \<and> mset (owned_pages z) = mset (owned_pages x))"
proof -
  let ?a = "next_page s" and ?s = "paged_out s"
  have p: "p \<noteq> NULL" "h_proc s p = Some x" using assms(1) by (auto simp: running_def)
  have cur: "get_current_process t = Ret p t" if "h_snode t = h_snode s" "cur_node t = cur_node s" for t
    using assms(1) that by (auto simp: running_def get_current_process_def rd_def split: option.splits)
  have g: "get_page (Suc n) s = Ret ?a ?s" "pages_inv ?s" "?a \<in> free_pages s" "free_pages ?s = free_pages s - {?a}"
    using get_page_step [OF assms(4,5), of n] by auto
  have a: "?a \<noteq> NULL" by (simp add: next_page_def)
  obtain y where y: "add_data_page p ?a ?s = Ret () (put_proc p y ?s)" "pages_counted y"
      "mset (owned_pages y) = add_mset ?a (mset (owned_pages x))"
    using add_data_page_ok [OF p(1) _ assms(2,3) a, of ?s] p(2) by (metis paged_frame(3))
  let ?t = "put_proc p y ?s"
  have m: "sys_malloc (Suc n) amount s = Ret ?a ?t" using g(1) y(1) cur [of ?s] by (simp add: sys_malloc_def)
  have t: "pages_inv ?t" "free_pages ?t = free_pages s - {?a}" "h_proc ?t p = Some y" using g by simp_all
  have "?a \<in># mset (owned_pages y)" unfolding y(3) by simp
  then obtain z where z: "remove_data_page p ?a ?t = Ret () (put_proc p z ?t)" "pages_counted z"
      "mset (owned_pages z) = mset (owned_pages y) - {#?a#}" using remove_data_page_ok [OF p(1) t(3) y(2)] by blast
  let ?u = "put_proc p z ?s"
  have "?a \<in> in_use ?u" using g(3,4) free_pages_sub [OF assms(4)] by (auto simp: in_use_def)
  then have st: "store_page (Suc n) ?a ?u = Ret 1 (paged_in ?a ?u)" "pages_inv (paged_in ?a ?u)" "free_pages (paged_in ?a ?u) = free_pages s"
    using store_page_step [of ?u ?a n] g by auto
  have "sys_free (Suc n) ?a ?t = Ret 1 (paged_in ?a ?u)" using z(1) st(1) cur [of ?t] by (simp add: sys_free_def)
  then show ?thesis using m g(3) t y(2,3) st(2,3) z(2,3) by (intro exI [of _ ?a] exI [of _ ?t] exI [of _ y]) auto
qed

lemma malloc_free_witness:
  "\<exists>a t u. sys_malloc 1 100 two_in_table = Ret a t \<and> sys_free 1 a t = Ret 1 u \<and> free_pages u = free_pages two_in_table"
proof -
  have e: "owned_pages process_A = []" "pages_counted process_A"
    by (simp_all add: pages_counted_def owned_pages_def process_A_def zero_process_def)
  have "running proc_A process_A two_in_table" by (simp add: running_def process_A_def)
  moreover have "pages_inv two_in_table" using two_in_table_kernel(1) by (simp add: kernel_inv_def)
  moreover have "free_pages two_in_table \<noteq> {}" using two_in_table_kernel(2) two_processes_pages_inv(2) by simp
  ultimately show ?thesis using malloc_free [of proc_A process_A two_in_table 0 100] e unfolding One_nat_def by fastforce
qed

section \<open>Killing\<close>

text \<open>
  \<open>sys_kill\<close> never marks \<open>init\<close> or the shell, and otherwise marks exactly the live process with that number for deletion and returns
  1, or returns 0 and changes nothing when there is none.
\<close>

theorem sys_kill_marks:
  assumes "table_ok s"
  shows "\<exists>r t. sys_kill pid s = Ret r t \<and>
    (if pid \<noteq> 0 \<and> pid \<noteq> 1 \<and> unat pid < MAX_PROCESSES \<and> process_table s ! unat pid \<noteq> NULL \<and> \<not> dead s (process_table s ! unat pid)
     then r = 1 \<and> t = put_proc (process_table s ! unat pid) ((the (h_proc s (process_table s ! unat pid)))\<lparr>p_st := DELETE\<rparr>) s
     else r = 0 \<and> t = s)"
proof (cases "pid \<noteq> 0 \<and> pid \<noteq> 1 \<and> unat pid < MAX_PROCESSES \<and> process_table s ! unat pid \<noteq> NULL")
  case True
  let ?p = "process_table s ! unat pid"
  obtain x where x: "h_proc s ?p = Some x" "p_pid x = pid"
    using assms True by (auto simp: table_ok_def)
  have g: "get_process_by_pid pid s = Ret (if p_st x = DELETE then NULL else ?p) s"
    using True x(1) by (simp add: get_process_by_pid_def is_delete_process_def)
  show ?thesis
  proof (cases "p_st x = DELETE")
    case dead: True
    then show ?thesis using True x g by (simp add: sys_kill_def kill_process_def dead_def)
  next
    case alive: False
    then show ?thesis using True x g by (simp add: sys_kill_def kill_process_def dead_def)
  qed
next
  case False
  have "get_process_by_pid pid s = Ret NULL s" if "\<not> (unat pid < MAX_PROCESSES \<and> process_table s ! unat pid \<noteq> NULL)"
    using that by (auto simp: get_process_by_pid_def)
  then show ?thesis using False by (auto simp: sys_kill_def kill_process_def)
qed

section \<open>Descriptors of FIFOs\<close>

lemma fds_round: "0 \<le> key \<Longrightarrow> key < 128 \<Longrightarrow> fds_to_fifo (fifo_to_fds key) = key"
  by (simp add: fds_to_fifo_def fifo_to_fds_def) (simp add: signed_of_int signed_take_bit_int_eq_self)

text \<open>
  When the table of FIFOs is full, \<open>sys_fifo_op\<close> does not return an error: the code of the error, shifted by the three standard
  descriptors, is 1, the descriptor of the standard input.
\<close>

theorem fifo_op_full_is_stdin:
  assumes "\<forall>k < MAX_FIFOS. f_state (open_fifos s ! k) = OPEN \<and> f_name (open_fifos s ! k) \<noteq> name" "mutex_free (fifo_array_lock s) s"
  shows "\<exists>t. sys_fifo_op (Suc n) name s = Ret STDIN t"
proof -
  let ?k = "fifo_array_lock s" let ?t = "acquired ?k s"
  have f: "open_fifos ?t = open_fifos s" "fifo_array_lock ?t = ?k" by (simp_all add: acquired_def set_locked_def)
  have full: "scan MAX_FIFOS (\<lambda>k. f_state (open_fifos ?t ! k) \<noteq> OPEN \<or> name = f_name (open_fifos ?t ! k)) 0 = MAX_FIFOS"
    unfolding f scan_0_full_iff using assms(1) by blast
  have "fifo_open (Suc n) name s = bnd (mutex_unlock (Suc n) ?k ?t) (\<lambda>_ s. Ret MAX_FIFOS_OPEN_ERROR s)"
    unfolding fifo_open_def lock_step [OF assms(2)] Let_def full f(2) by simp
  also have "\<dots> = Ret MAX_FIFOS_OPEN_ERROR (relinquished ?k ?t)"
    by (rule unlock_step) (use assms(2) in \<open>simp add: mutex_free_def\<close>)
  finally show ?thesis by (simp add: sys_fifo_op_def fifo_to_fds_def)
qed

lemma fifo_op_full_is_stdin_witness:
  "\<exists>t. sys_fifo_op 1 ''pipe'' (power_on_zero\<lparr>open_fifos := replicate 128 (zero_fifo\<lparr>f_name := ''x'', f_state := OPEN\<rparr>)\<rparr>) = Ret STDIN t"
  using fifo_op_full_is_stdin [of "power_on_zero\<lparr>open_fifos := replicate 128 (zero_fifo\<lparr>f_name := ''x'', f_state := OPEN\<rparr>)\<rparr>" "''pipe''" 0]
  unfolding One_nat_def
  by (simp add: mutex_free_def mutex_is_open_def power_on_zero_def power_on_def zero_mutex_def the_mutex_def)

lemma sys_kill_marks_witness:
  "\<exists>t. sys_kill 1 two_in_table = Ret 0 t"
  using sys_kill_marks [OF two_in_table_ok, of 1] by auto

end
