(* ===== verification/Module_Image.thy ===== *)
theory Module_Image
  imports C_Library
begin

text \<open>
  The kernel image and its modules: the packer that appends the modules to the kernel
  (\<open>Toolchain/ModulePacker/main.c\<close>), the text console of the boot phase (\<open>naiveConsole.c\<close>), the loader that
  copies the modules to their addresses (\<open>moduleLoader.c\<close>), and the start of the kernel binary in
  \<open>kernel.c\<close> and \<open>idtLoader.c\<close>.

  Memory is a function from addresses to bytes. The console writes to it at \<open>currentVideo\<close>; its digit
  buffer is a list of its own.
\<close>

section \<open>The packer\<close>

abbreviation BUFFER_SIZE :: nat where "BUFFER_SIZE \<equiv> 128"

definition le32 :: "u32 \<Rightarrow> u8 list" where
  "le32 w = [ucast w, ucast (drop_bit 8 w), ucast (drop_bit 16 w), ucast (drop_bit 24 w)]"

text \<open>\<open>feof\<close> holds once a read has met the end of the file; a file whose length is a multiple of the buffer takes one more, empty read.\<close>

function write_file :: "u8 list \<Rightarrow> u8 list \<Rightarrow> u8 list" where
  "write_file target source =
     (let chunk = take BUFFER_SIZE source; target = target @ chunk
      in if length chunk < BUFFER_SIZE then target else write_file target (drop BUFFER_SIZE source))"
  by pat_completeness auto
termination
  by (relation "measure (\<lambda>(target, source). length source)") auto

declare write_file.simps [simp del]

definition write_size :: "u8 list \<Rightarrow> u8 list \<Rightarrow> u8 list" where
  "write_size target file = target @ le32 (of_nat (length file))"

fun write_modules :: "u8 list \<Rightarrow> u8 list list \<Rightarrow> u8 list" where
  "write_modules target [] = target"
| "write_modules target (f # fs) = write_modules (write_file (write_size target f) f) fs"

definition buildImage :: "u8 list list \<Rightarrow> u8 list" where
  "buildImage fileArray =
     (let target = write_file [] (hd fileArray);
          extraBinaries = length fileArray - 1
      in write_modules (target @ le32 (of_nat extraBinaries)) (tl fileArray))"

section \<open>The boot console\<close>

abbreviation video :: u64 where "video \<equiv> 0xB8000"
abbreviation width :: u32 where "width \<equiv> 80"
abbreviation height :: u32 where "height \<equiv> 25"

record boot =
  memory :: mem
  currentVideo :: u64

definition ncPrintChar :: "u8 \<Rightarrow> boot \<Rightarrow> boot" where
  "ncPrintChar c b = b\<lparr>memory := (memory b)(currentVideo b := c), currentVideo := currentVideo b + 2\<rparr>"

primrec ncPrint :: "u8 list \<Rightarrow> boot \<Rightarrow> boot" where
  "ncPrint [] b = b"
| "ncPrint (c # cs) b = ncPrint cs (ncPrintChar c b)"

definition text_bytes :: "string \<Rightarrow> u8 list" where
  "text_bytes s = map of_char s"

text \<open>The loop ends when the position is a multiple of a line; it never does from an odd offset.\<close>

partial_function (option) ncNewline :: "boot \<Rightarrow> boot option" where
  [code]: "ncNewline b =
     (let b = ncPrintChar 32 b
      in if (currentVideo b - video) mod 160 \<noteq> 0 then ncNewline b else Some b)"

text \<open>
  The digits of a number, least significant first, and their reversal in place. The console uses the bases
  2, 10 and 16; the loop of the source never ends for base 1.
\<close>

function base_digits :: "u64 \<Rightarrow> u32 \<Rightarrow> u8 list" where
  "base_digits v base =
     (let remainder = v mod ucast base;
          c = (if remainder < 10 then ucast remainder + 48 else ucast remainder + 65 - 10);
          v' = v div ucast base
      in if v' \<noteq> 0 \<and> 2 \<le> base then c # base_digits v' base else [c])"
  by pat_completeness auto
termination
proof (relation "measure (\<lambda>(v, base). unat v)", goal_cases)
  case (2 v base r c v')
  then have "v \<noteq> 0" "2 \<le> unat base" by (auto simp: word_le_nat_alt)
  moreover have "unat (ucast base :: u64) = unat base"
    using unsigned_less [of base, where ?'a = nat] by (simp add: unsigned_ucast_eq take_bit_nat_eq_self)
  ultimately show ?case using 2 by (simp add: unat_div unat_gt_0)
qed simp

declare base_digits.simps [simp del]

function swap_loop :: "nat \<Rightarrow> nat \<Rightarrow> 'a list \<Rightarrow> 'a list" where
  "swap_loop i j xs = (if i < j then swap_loop (i + 1) (j - 1) (xs[i := xs ! j, j := xs ! i]) else xs)"
  by pat_completeness auto
termination
  by (relation "measure (\<lambda>(i, j, xs). j - i)") auto

declare swap_loop.simps [simp del]

definition uintToBase :: "u64 \<Rightarrow> u32 \<Rightarrow> u8 list" where
  "uintToBase v base = (let ds = base_digits v base in swap_loop 0 (length ds - 1) ds)"

definition ncPrintBase :: "u64 \<Rightarrow> u32 \<Rightarrow> boot \<Rightarrow> boot" where
  "ncPrintBase v base b = ncPrint (uintToBase v base) b"

definition ncPrintDec :: "u64 \<Rightarrow> boot \<Rightarrow> boot" where "ncPrintDec v b = ncPrintBase v 10 b"
definition ncPrintHex :: "u64 \<Rightarrow> boot \<Rightarrow> boot" where "ncPrintHex v b = ncPrintBase v 16 b"
definition ncPrintBin :: "u64 \<Rightarrow> boot \<Rightarrow> boot" where "ncPrintBin v b = ncPrintBase v 2 b"

primrec clear_cells :: "nat \<Rightarrow> mem \<Rightarrow> mem" where
  "clear_cells 0 m = m"
| "clear_cells (Suc n) m = (clear_cells n m)(video + of_nat n * 2 := 32)"

definition ncClear :: "boot \<Rightarrow> boot" where
  "ncClear b = b\<lparr>memory := clear_cells (unat (height * width)) (memory b), currentVideo := video\<rparr>"

section \<open>The loader\<close>

definition readUint32 :: "mem \<Rightarrow> u64 \<Rightarrow> u32 \<times> u64" where
  "readUint32 m a =
     (or (ucast (m a)) (or (push_bit 8 (ucast (m (a + 1)))) (or (push_bit 16 (ucast (m (a + 2)))) (push_bit 24 (ucast (m (a + 3)))))),
      a + 4)"

definition loadModule :: "u64 \<Rightarrow> u64 \<Rightarrow> boot \<Rightarrow> (u64 \<times> boot) option" where
  "loadModule module target b =
     (let (moduleSize, module) = readUint32 (memory b) module;
          b = ncPrint (text_bytes ''  Will copy module at 0x'') b;
          b = ncPrintHex module b;
          b = ncPrint (text_bytes '' to 0x'') b;
          b = ncPrintHex target b;
          b = ncPrint (text_bytes '' ('') b;
          b = ncPrintDec (ucast moduleSize) b;
          b = ncPrint (text_bytes '' bytes)'') b;
          b = b\<lparr>memory := memcpy target module (ucast moduleSize) (memory b)\<rparr>;
          module = module + ucast moduleSize;
          b = ncPrint (text_bytes '' [Done]'') b
      in Option.bind (ncNewline b) (\<lambda>b. Some (module, b)))"

text \<open>\<open>targetModuleAddress\<close> has one entry per module; the loop faults beyond it.\<close>

primrec load_loop :: "nat \<Rightarrow> u64 list \<Rightarrow> u64 \<Rightarrow> boot \<Rightarrow> boot option" where
  "load_loop 0 targets module b = Some b"
| "load_loop (Suc n) targets module b =
     (case targets of
        [] \<Rightarrow> None
      | t # ts \<Rightarrow> Option.bind (loadModule module t b) (\<lambda>(module, b). load_loop n ts module b))"

definition loadModules :: "u64 \<Rightarrow> u64 list \<Rightarrow> boot \<Rightarrow> boot option" where
  "loadModules payloadStart targets b =
     (let (moduleCount, currentModule) = readUint32 (memory b) payloadStart
      in load_loop (unat moduleCount) targets currentModule b)"

section \<open>The start of the kernel binary\<close>

definition clearBSS :: "u64 \<Rightarrow> u64 \<Rightarrow> mem \<Rightarrow> mem" where
  "clearBSS bssAddress bssSize m = memset bssAddress 0 bssSize m"

definition getStackBase :: "u64 \<Rightarrow> u64" where
  "getStackBase endOfKernel = endOfKernel + 0x1000 * 8 - 8"

text \<open>The addresses of the sections are given by the linker.\<close>

record sections =
  s_text :: u64
  s_rodata :: u64
  s_data :: u64
  s_bss :: u64
  endOfKernelBinary :: u64
  endOfKernel :: u64

definition print_line :: "u8 list \<Rightarrow> boot \<Rightarrow> boot option" where
  "print_line cs b = ncNewline (ncPrint cs b)"

definition print_section :: "string \<Rightarrow> u64 \<Rightarrow> boot \<Rightarrow> boot option" where
  "print_section name a b = ncNewline (ncPrintHex a (ncPrint (text_bytes name) b))"

text \<open>\<open>vendor\<close> is what the routine \<open>cpuVendor\<close> in assembler has stored.\<close>

definition initializeKernelBinary :: "sections \<Rightarrow> u8 list \<Rightarrow> boot \<Rightarrow> (u64 \<times> boot) option" where
  "initializeKernelBinary k vendor b =
     Option.bind (print_line (text_bytes ''[x64BareBones]'') b) (\<lambda>b.
     Option.bind (print_line vendor (ncPrint (text_bytes ''CPU Vendor:'') b)) (\<lambda>b.
     Option.bind (print_line (text_bytes ''[Loading modules]'') b) (\<lambda>b.
     Option.bind (loadModules (endOfKernelBinary k) [0x400000, 0x500000] b) (\<lambda>b.
     Option.bind (print_line (text_bytes ''[Done]'') b) (\<lambda>b.
     Option.bind (ncNewline b) (\<lambda>b.
     Option.bind (print_line (text_bytes (''[Initializing kernel'' @ CHR 0x27 # ''s binary]'')) b) (\<lambda>b.
     let b = b\<lparr>memory := clearBSS (s_bss k) (endOfKernel k - s_bss k) (memory b)\<rparr> in
     Option.bind (print_section ''  text: 0x'' (s_text k) b) (\<lambda>b.
     Option.bind (print_section ''  rodata: 0x'' (s_rodata k) b) (\<lambda>b.
     Option.bind (print_section ''  data: 0x'' (s_data k) b) (\<lambda>b.
     Option.bind (print_section ''  bss: 0x'' (s_bss k) b) (\<lambda>b.
     Option.bind (print_line (text_bytes ''[Done]'') b) (\<lambda>b.
     Option.bind (ncNewline b) (\<lambda>b.
     Some (getStackBase (endOfKernel k), b))))))))))))))"

text \<open>Interrupt descriptors.\<close>

record DESCR_INT =
  offset_l :: u16
  selector :: u16
  cero :: u8
  access :: u8
  offset_m :: u16
  offset_h :: u32
  other_cero :: u32

definition setup_IDT_entry :: "nat \<Rightarrow> u8 \<Rightarrow> u64 \<Rightarrow> u8 \<Rightarrow> DESCR_INT list \<Rightarrow> DESCR_INT list" where
  "setup_IDT_entry index sel offset acc idt =
     idt[index := \<lparr>offset_l = ucast (and offset 0xFFFF), selector = ucast sel, cero = 0, access = acc,
       offset_m = ucast (and (drop_bit 16 offset) 0xFFFF), offset_h = ucast (and (drop_bit 32 offset) 0xFFFFFFFF), other_cero = 0\<rparr>]"

abbreviation ACS_INT :: u8 where "ACS_INT \<equiv> 0x8E"

text \<open>The handlers are routines in assembler; the register \<open>idtr\<close>, the masks of the interrupt controllers and the interrupt flag belong to the processor.\<close>

definition load_idt :: "u64 \<Rightarrow> u64 \<Rightarrow> u64 \<Rightarrow> u64 \<Rightarrow> DESCR_INT list \<Rightarrow> DESCR_INT list" where
  "load_idt irq00 irq01 syscall yield idt =
     setup_IDT_entry 0x70 0x08 yield ACS_INT (setup_IDT_entry 0x80 0x08 syscall ACS_INT
       (setup_IDT_entry 0x21 0x08 irq01 ACS_INT (setup_IDT_entry 0x20 0x08 irq00 ACS_INT idt)))"

section \<open>The format of the image\<close>

lemma write_file_eq: "write_file target source = target @ source"
proof (induction target source rule: write_file.induct)
  case (1 target source)
  show ?case
  proof (cases "length (take BUFFER_SIZE source) < BUFFER_SIZE")
    case True
    then show ?thesis by (subst write_file.simps) (simp add: Let_def min_def split: if_splits)
  next
    case False
    then have "write_file (target @ take BUFFER_SIZE source) (drop BUFFER_SIZE source) = target @ source" using 1 by simp
    then show ?thesis using False by (subst write_file.simps) (simp add: Let_def)
  qed
qed

definition record_of :: "u8 list \<Rightarrow> u8 list" where
  "record_of f = le32 (of_nat (length f)) @ f"

lemma write_modules_eq: "write_modules target fs = target @ concat (map record_of fs)"
  by (induction fs arbitrary: target) (simp_all add: write_file_eq write_size_def record_of_def)

lemma buildImage_eq: "buildImage (k # fs) = k @ le32 (of_nat (length fs)) @ concat (map record_of fs)"
  by (simp add: buildImage_def write_file_eq write_modules_eq Let_def)

lemma readUint32_le32:
  assumes "bytes_at m a (le32 w)"
  shows "readUint32 m a = (w, a + 4)"
proof -
  have "m a = ucast w" "m (a + 1) = ucast (drop_bit 8 w)" "m (a + 2) = ucast (drop_bit 16 w)" "m (a + 3) = ucast (drop_bit 24 w)"
    using assms by (simp_all add: le32_def add.assoc)
  moreover have "bit (or (take_bit 8 w) (or (push_bit 8 (take_bit 8 (drop_bit 8 w))) (or (push_bit 16 (take_bit 8 (drop_bit 16 w)))
      (push_bit 24 (take_bit 8 (drop_bit 24 w)))))) n = bit w n" if "n < 32" for n
  proof -
    consider "n < 8" | "8 \<le> n" "n < 16" | "16 \<le> n" "n < 24" | "24 \<le> n" by linarith
    then show ?thesis using that by cases (auto simp: bit_simps)
  qed
  moreover have "ucast (ucast x :: u8) = take_bit 8 x" for x :: u32 by (rule bit_eqI) (auto simp: bit_simps)
  ultimately show ?thesis by (simp add: readUint32_def) (rule bit_eqI, simp)
qed

section \<open>The console stays in its area\<close>

definition area :: "u64 \<Rightarrow> nat \<Rightarrow> u64 set" where
  "area a n = (\<lambda>i. a + of_nat i) ` {..<n}"

lemma area_sub: "i + n \<le> N \<Longrightarrow> area (a + of_nat i) n \<subseteq> area a N"
proof
  fix x assume "i + n \<le> N" "x \<in> area (a + of_nat i) n"
  then obtain j where "j < n" "x = a + of_nat (i + j)" by (auto simp: area_def add.assoc)
  then show "x \<in> area a N" using \<open>i + n \<le> N\<close> by (auto simp: area_def simp del: of_nat_add intro!: image_eqI [where x = "i + j"])
qed

lemma bytes_at_frame:
  assumes "bytes_at m p xs" "\<And>a. a \<in> area p (length xs) \<Longrightarrow> m' a = m a"
  shows "bytes_at m' p xs"
  using assms by (auto simp: bytes_at_nth area_def)

definition prints :: "nat \<Rightarrow> boot \<Rightarrow> boot \<Rightarrow> bool" where
  "prints n b b' \<longleftrightarrow> currentVideo b' = currentVideo b + of_nat (2 * n) \<and>
     (\<forall>a. a \<notin> area (currentVideo b) (2 * n) \<longrightarrow> memory b' a = memory b a)"

lemma prints_trans:
  assumes "prints n b b'" "prints k b' b''"
  shows "prints (n + k) b b''"
proof -
  have "area (currentVideo b) (2 * n) \<subseteq> area (currentVideo b) (2 * (n + k))" using area_sub [of 0 "2 * n"] by simp
  moreover have "area (currentVideo b') (2 * k) \<subseteq> area (currentVideo b) (2 * (n + k))"
    using assms(1) area_sub [of "2 * n" "2 * k" "2 * (n + k)" "currentVideo b"] by (simp add: prints_def)
  ultimately have "memory b'' a = memory b a" if "a \<notin> area (currentVideo b) (2 * (n + k))" for a
    using assms that unfolding prints_def by (metis subsetD)
  then show ?thesis using assms by (simp add: prints_def algebra_simps)
qed

lemma prints_0: "prints 0 b b"
  by (simp add: prints_def)

lemma prints_char: "prints 1 b (ncPrintChar c b)"
proof -
  have "currentVideo b \<in> area (currentVideo b) 2" by (auto simp: area_def intro!: image_eqI [where x = 0])
  then show ?thesis by (auto simp: prints_def ncPrintChar_def)
qed

lemma prints_text: "prints (length cs) b (ncPrint cs b)"
proof (induction cs arbitrary: b)
  case (Cons c cs)
  from prints_trans [OF prints_char Cons.IH] show ?case by simp
qed (simp add: prints_0)

text \<open>A number has at most 64 digits.\<close>

lemma base_digits_length: "2 \<le> base \<Longrightarrow> unat v < 2 ^ n \<Longrightarrow> 0 < n \<Longrightarrow> length (base_digits v base) \<le> n"
proof (induction v base arbitrary: n rule: base_digits.induct)
  case (1 v base)
  let ?v = "v div ucast base"
  have b: "2 \<le> unat base" "unat (ucast base :: u64) = unat base"
    using 1(2) unsigned_less [of base, where ?'a = nat]
    by (simp_all add: word_le_nat_alt unsigned_ucast_eq take_bit_nat_eq_self)
  show ?case
  proof (cases "?v = 0")
    case True
    then show ?thesis using 1(4) by (subst base_digits.simps) (simp add: Let_def)
  next
    case False
    have "unat ?v \<le> unat v div 2" using b div_le_mono2 [of 2 "unat base" "unat v"] by (simp add: unat_div)
    then have lt: "unat ?v < 2 ^ (n - 1)" using 1(3,4) by (cases n) auto
    moreover have "0 < unat ?v" using False by (simp add: unat_gt_0)
    ultimately have "0 < n - 1" by (cases "n - 1") auto
    then have "length (base_digits ?v base) \<le> n - 1" using 1(1) [OF refl refl refl _ 1(2) lt] False 1(2) by simp
    then show ?thesis using 1(4) False 1(2) by (subst base_digits.simps) (simp add: Let_def)
  qed
qed

lemma length_swap_loop: "length (swap_loop i j xs) = length xs"
  by (induction i j xs rule: swap_loop.induct) (subst swap_loop.simps, simp)

lemma uintToBase_length: "2 \<le> base \<Longrightarrow> length (uintToBase v base) \<le> 64"
  using base_digits_length [of base v 64] unsigned_less [of v, where ?'a = nat]
  by (simp add: uintToBase_def Let_def length_swap_loop)

lemma prints_le: "prints n b b' \<Longrightarrow> prints k b' b'' \<Longrightarrow> n \<le> N \<Longrightarrow> k \<le> K \<Longrightarrow> \<exists>m \<le> N + K. prints m b b''"
  using prints_trans add_mono by blast

text \<open>A new line takes at most 80 characters from an even offset.\<close>

definition room :: "nat \<Rightarrow> boot \<Rightarrow> bool" where
  "room n b \<longleftrightarrow> even (unat (currentVideo b - video)) \<and> unat (currentVideo b - video) + n < 2 ^ 64"

lemma room_mono: "room n b \<Longrightarrow> k \<le> n \<Longrightarrow> room k b"
  by (auto simp: room_def)

lemma room_prints:
  assumes "room n b" "prints k b b'" "2 * k \<le> n"
  shows "room (n - 2 * k) b'" "unat (currentVideo b' - video) = unat (currentVideo b - video) + 2 * k"
proof -
  let ?x = "currentVideo b - video"
  have e: "currentVideo b' - video = ?x + of_nat (2 * k)" using assms(2) by (simp add: prints_def)
  have lt: "unat ?x + 2 * k < 2 ^ 64" using assms(1,3) by (simp add: room_def)
  then have "unat (of_nat (2 * k) :: u64) = 2 * k" by (intro unat_of_nat_u64) simp
  then show u: "unat (currentVideo b' - video) = unat ?x + 2 * k" unfolding e using lt by (simp add: unat_word_ariths)
  then show "room (n - 2 * k) b'" using assms(1,3) by (simp add: room_def)
qed

lemma ncNewline_ends:
  assumes "room (2 * k) b" "0 < k" "(unat (currentVideo b - video) + 2 * k) mod 160 = 0"
  shows "\<exists>b' n. ncNewline b = Some b' \<and> n \<le> k \<and> prints n b b'"
  using assms
proof (induction k arbitrary: b)
  case (Suc k)
  let ?c = "ncPrintChar 32 b"
  have u: "room (2 * Suc k - 2 * 1) ?c" "unat (currentVideo ?c - video) = unat (currentVideo b - video) + 2 * 1"
    using room_prints [OF Suc.prems(1) prints_char, of 32] by simp_all
  have m: "(currentVideo ?c - video) mod 160 = 0 \<longleftrightarrow> (unat (currentVideo b - video) + 2) mod 160 = 0"
    using u(2) by (simp add: word_unat_eq_iff unat_mod)
  show ?case
  proof (cases "(currentVideo ?c - video) mod 160 = 0")
    case True
    then show ?thesis using prints_char [of b 32] by (subst ncNewline.simps) (auto simp: Let_def)
  next
    case False
    then have "0 < k" using m Suc.prems(3) by (cases k) auto
    moreover have "room (2 * k) ?c" "(unat (currentVideo ?c - video) + 2 * k) mod 160 = 0" using u Suc.prems(3) by simp_all
    ultimately obtain b' n where b': "ncNewline ?c = Some b'" "n \<le> k" "prints n ?c b'" using Suc.IH [of ?c] by metis
    have "ncNewline b = ncNewline ?c" using False by (subst ncNewline.simps) (simp add: Let_def)
    then show ?thesis using b' prints_trans [OF prints_char b'(3)] by fastforce
  qed
qed simp

lemma ncNewline_ok:
  assumes "room 160 b"
  shows "\<exists>b' n. ncNewline b = Some b' \<and> n \<le> 80 \<and> prints n b b'"
proof -
  let ?x = "unat (currentVideo b - video)"
  have ev: "even ?x" and lt: "?x + 160 < 2 ^ 64" using assms by (simp_all add: room_def)
  define q where "q = ?x div 160"
  define r where "r = ?x mod 160"
  define k where "k = 80 - r div 2"
  have xr: "?x = 160 * q + r" "r < 160" "even r" using ev by (simp_all add: q_def r_def dvd_mod_iff)
  obtain d where "r = 2 * d" using xr(3) by (auto elim: evenE)
  then have x: "?x + 2 * k = 160 * (q + 1)" and k: "0 < k" "k \<le> 80" using xr(1,2) by (simp_all add: k_def)
  then have "(?x + 2 * k) mod 160 = 0" by (simp only: mod_mult_self1_is_0)
  moreover have "room (2 * k) b" using ev lt k by (simp add: room_def)
  ultimately show ?thesis using ncNewline_ends [of k b] k by (meson le_trans)
qed

section \<open>Loading a module\<close>

lemma apart_areas:
  assumes "area d n \<inter> area s n = {}"
  shows "apart d s n"
proof (cases "n = 0")
  case False
  have "s \<in> area s n" "d \<in> area d n" using False by (auto simp: area_def intro!: image_eqI [where x = 0])
  moreover have "s \<in> area d n" if "unat (s - d) < n" using that by (auto simp: area_def intro!: image_eqI [where x = "unat (s - d)"])
  moreover have "d \<in> area s n" if "unat (d - s) < n" using that by (auto simp: area_def intro!: image_eqI [where x = "unat (d - s)"])
  ultimately show ?thesis using assms by (force simp: apart_def)
qed (simp add: apart_def)

lemma memcpy_module:
  assumes "bytes_at m s xs" "area d (length xs) \<inter> area s (length xs) = {}" "length xs < 2 ^ 32"
  shows "bytes_at (memcpy d s (of_nat (length xs)) m) d xs"
    "a \<notin> area d (length xs) \<Longrightarrow> memcpy d s (of_nat (length xs)) m a = m a"
proof -
  have n: "unat (of_nat (length xs) :: u64) = length xs" using assms(3) by (intro unat_of_nat_u64) simp
  have eq: "memcpy d s (of_nat (length xs)) m = (\<lambda>a. if unat (a - d) < length xs then m (s + (a - d)) else m a)"
    using memcpy_eq [of d s "of_nat (length xs)" m] apart_areas [OF assms(2)] n by simp
  have "unat (of_nat i :: u64) = i" if "i < length xs" for i using that assms(3) by (intro unat_of_nat_u64) simp
  then show "bytes_at (memcpy d s (of_nat (length xs)) m) d xs" using assms(1) unfolding eq by (simp add: bytes_at_nth)
  show "memcpy d s (of_nat (length xs)) m a = m a" if "a \<notin> area d (length xs)"
  proof -
    have "\<not> unat (a - d) < length xs" using that by (force simp: area_def)
    then show ?thesis by (simp add: eq)
  qed
qed

text \<open>The text printed before and after the copy has at most 238 and 87 characters.\<close>

definition announced :: "u64 \<Rightarrow> u64 \<Rightarrow> u32 \<Rightarrow> boot \<Rightarrow> boot" where
  "announced module target sz b =
     ncPrint (text_bytes '' bytes)'') (ncPrintDec (ucast sz) (ncPrint (text_bytes '' ('') (ncPrintHex target
       (ncPrint (text_bytes '' to 0x'') (ncPrintHex module (ncPrint (text_bytes ''  Will copy module at 0x'') b))))))"

lemma prints_base: "2 \<le> base \<Longrightarrow> \<exists>n \<le> 64. prints n b (ncPrintBase v base b)"
  using prints_text uintToBase_length unfolding ncPrintBase_def by blast

lemma announced_prints: "\<exists>n \<le> 238. prints n b (announced module target sz b)"
proof -
  let ?b1 = "ncPrint (text_bytes ''  Will copy module at 0x'') b" and ?t2 = "text_bytes '' to 0x''" and ?t3 = "text_bytes '' (''"
  let ?b2 = "ncPrintHex module ?b1" let ?b3 = "ncPrint ?t2 ?b2" let ?b4 = "ncPrintHex target ?b3" let ?b5 = "ncPrint ?t3 ?b4"
  let ?b6 = "ncPrintDec (ucast sz) ?b5"
  obtain n2 where n2: "n2 \<le> 64" "prints n2 ?b1 ?b2" using prints_base [of 16] unfolding ncPrintHex_def by auto
  obtain n4 where n4: "n4 \<le> 64" "prints n4 ?b3 ?b4" using prints_base [of 16] unfolding ncPrintHex_def by auto
  obtain n6 where n6: "n6 \<le> 64" "prints n6 ?b5 ?b6" using prints_base [of 10] unfolding ncPrintDec_def by auto
  have l: "length (text_bytes ''  Will copy module at 0x'') = 24" "length ?t2 = 6" "length ?t3 = 2" "length (text_bytes '' bytes)'') = 7"
    by (simp_all add: text_bytes_def)
  have "prints (24 + n2 + 6 + n4 + 2 + n6 + 7) b (announced module target sz b)"
    using prints_trans [OF prints_trans [OF prints_trans [OF prints_trans [OF prints_trans [OF prints_trans
    [OF prints_text [of "text_bytes ''  Will copy module at 0x''" b] n2(2)] prints_text [of ?t2 ?b2]] n4(2)] prints_text [of ?t3 ?b4]] n6(2)]
      prints_text [of "text_bytes '' bytes)''" ?b6]] unfolding l announced_def .
  then show ?thesis using n2(1) n4(1) n6(1) by (intro exI conjI) auto
qed

lemma loadModule_eq:
  assumes "bytes_at (memory b) module (record_of f)" "length f < 2 ^ 32"
  shows "loadModule module target b =
     (let b = announced (module + 4) target (of_nat (length f)) b;
          b = ncPrint (text_bytes '' [Done]'') (b\<lparr>memory := memcpy target (module + 4) (of_nat (length f)) (memory b)\<rparr>)
      in Option.bind (ncNewline b) (\<lambda>b. Some (module + 4 + of_nat (length f), b)))"
proof -
  have "unat (of_nat (length f) :: u32) = length f" using assms(2) by (simp add: unat_of_nat)
  then have u: "ucast (of_nat (length f) :: u32) = (of_nat (length f) :: u64)" using assms(2)
    by (simp add: word_unat_eq_iff unsigned_ucast_eq unat_of_nat take_bit_nat_eq_self)
  have "bytes_at (memory b) module (le32 (of_nat (length f)))" using assms(1) by (simp add: record_of_def bytes_at_append)
  from readUint32_le32 [OF this] show ?thesis unfolding loadModule_def announced_def Let_def by (simp only: prod.case u)
qed

lemma area_le: "n \<le> N \<Longrightarrow> area a n \<subseteq> area a N"
  using area_sub [of 0 n N a] by simp

lemma loadModule_ok:
  assumes "bytes_at (memory b) module (record_of f @ rest)" "length f < 2 ^ 32" "room 650 b"
    and "area (currentVideo b) 650 \<inter> area module (length (record_of f @ rest)) = {}"
    and "area t (length f) \<inter> (area (currentVideo b) 650 \<union> area module (length (record_of f @ rest))) = {}"
  shows "\<exists>b' n. loadModule module t b = Some (module + of_nat (length (record_of f)), b') \<and> n \<le> 325 \<and>
     currentVideo b' = currentVideo b + of_nat (2 * n) \<and> bytes_at (memory b') t f \<and>
     (\<forall>a. a \<notin> area (currentVideo b) 650 \<union> area t (length f) \<longrightarrow> memory b' a = memory b a)"
proof -
  let ?V = "area (currentVideo b) 650" and ?T = "area t (length f)" and ?m = "module + 4"
  have l: "length (record_of f) = 4 + length f" by (simp add: record_of_def le32_def)
  have r: "bytes_at (memory b) module (record_of f)" "bytes_at (memory b) ?m f"
    using assms(1) by (simp_all add: record_of_def bytes_at_append le32_def add.assoc)
  have P: "area ?m (length f) \<subseteq> area module (length (record_of f @ rest))"
    using area_sub [of 4 "length f" _ module] l by simp
  define b1 where "b1 = announced ?m t (of_nat (length f)) b"
  obtain n1 where n1: "n1 \<le> 238" "prints n1 b b1" using announced_prints unfolding b1_def by blast
  define b2 where "b2 = b1\<lparr>memory := memcpy t ?m (of_nat (length f)) (memory b1)\<rparr>"
  define b3 where "b3 = ncPrint (text_bytes '' [Done]'') b2"
  have cv: "currentVideo b2 = currentVideo b + of_nat (2 * n1)" using n1(2) by (simp add: b2_def prints_def)
  have "length (text_bytes '' [Done]'') = 7" by (simp add: text_bytes_def)
  then have p3: "prints 7 b2 b3" using prints_text unfolding b3_def by metis
  have "room (650 - 2 * n1) b2" using room_prints(1) [OF assms(3) n1(2)] n1(1) by (simp add: b2_def room_def)
  then have "room (650 - 2 * n1 - 2 * 7) b3" using room_prints(1) [OF _ p3, of "650 - 2 * n1"] n1(1) by simp
  then have "room 160 b3" by (rule room_mono) (use n1(1) in simp)
  then obtain b4 n4 where n4: "ncNewline b3 = Some b4" "n4 \<le> 80" "prints n4 b3 b4" using ncNewline_ok by blast
  have p4: "prints (7 + n4) b2 b4" by (rule prints_trans [OF p3 n4(3)])
  have V1: "area (currentVideo b) (2 * n1) \<subseteq> ?V" using n1(1) by (intro area_le) simp
  have V2: "area (currentVideo b2) (2 * (7 + n4)) \<subseteq> ?V" unfolding cv using n1(1) n4(2) by (intro area_sub) simp
  have m1: "memory b1 a = memory b a" if "a \<notin> ?V" for a using that n1(2) V1 by (auto simp: prints_def)
  have f1: "bytes_at (memory b1) ?m f" using bytes_at_frame [OF r(2)] m1 P assms(4) by blast
  have "?T \<inter> area ?m (length f) = {}" using assms(5) P by blast
  note c = memcpy_module [OF f1 this assms(2)]
  have m4: "memory b4 a = memory b2 a" if "a \<notin> ?V" for a using that p4 V2 by (auto simp: prints_def)
  have "bytes_at (memory b4) t f"
    using bytes_at_frame [of "memory b2" t f "memory b4"] c(1) m4 assms(5) unfolding b2_def by (auto simp: disjoint_iff)
  moreover have "memory b4 a = memory b a" if "a \<notin> ?V \<union> ?T" for a
    using that m4 [of a] c(2) [of a] m1 [of a] by (simp add: b2_def)
  moreover have "currentVideo b4 = currentVideo b + of_nat (2 * (n1 + (7 + n4)))"
    using p4 cv by (simp add: prints_def algebra_simps)
  moreover have "loadModule module t b = Some (module + of_nat (length (record_of f)), b4)"
    using loadModule_eq [OF r(1) assms(2), of t] n4(1) l by (simp add: Let_def b1_def b2_def b3_def add.assoc)
  ultimately show ?thesis using n1(1) n4(2) by (intro exI [of _ b4] exI [of _ "n1 + (7 + n4)"]) simp
qed

section \<open>Loading all modules\<close>

text \<open>The targets of the modules, and that they, the payload and the console do not overlap.\<close>

definition target_areas :: "u64 list \<Rightarrow> u8 list list \<Rightarrow> u64 set list" where
  "target_areas ts fs = map (\<lambda>(t, f). area t (length f)) (zip ts fs)"

definition separate :: "u64 list \<Rightarrow> u8 list list \<Rightarrow> u64 set \<Rightarrow> u64 set \<Rightarrow> bool" where
  "separate ts fs payload console \<longleftrightarrow>
     payload \<inter> console = {} \<and> sorted_wrt (\<lambda>A B. A \<inter> B = {}) (target_areas ts fs) \<and>
     (\<forall>A \<in> set (target_areas ts fs). A \<inter> (payload \<union> console) = {})"

lemma separate_mono:
  assumes "separate (t # ts) (f # fs) P V" "P' \<subseteq> P" "V' \<subseteq> V"
  shows "separate ts fs P' V'" "area t (length f) \<inter> (P \<union> V) = {}" "\<And>A. A \<in> set (target_areas ts fs) \<Longrightarrow> A \<inter> area t (length f) = {}"
  using assms unfolding separate_def target_areas_def by (auto 0 4)

lemma load_loop_ok:
  assumes "length ts = length fs" "\<forall>f \<in> set fs. length f < 2 ^ 32" "bytes_at (memory b) module (concat (map record_of fs))"
    "room (650 * length fs) b" "separate ts fs (area module (length (concat (map record_of fs)))) (area (currentVideo b) (650 * length fs))"
  shows "\<exists>b'. load_loop (length fs) ts module b = Some b' \<and> (\<forall>i < length fs. bytes_at (memory b') (ts ! i) (fs ! i)) \<and>
     (\<forall>a. a \<notin> area (currentVideo b) (650 * length fs) \<union> \<Union> (set (target_areas ts fs)) \<longrightarrow> memory b' a = memory b a)"
  using assms
proof (induction ts fs arbitrary: b module rule: list_induct2)
  case (Cons t ts f fs)
  let ?rest = "concat (map record_of fs)" and ?n = "650 * length fs"
  let ?V = "area (currentVideo b) (650 * Suc (length fs))" and ?P = "area module (length (record_of f @ ?rest))"
  have V: "area (currentVideo b) 650 \<subseteq> ?V" by (intro area_le) simp
  have sep: "separate (t # ts) (f # fs) ?P ?V" and by_r: "bytes_at (memory b) module (record_of f @ ?rest)" and rm: "room (650 * Suc (length fs)) b"
    using Cons.prems by simp_all
  have PV: "?P \<inter> ?V = {}" using sep by (simp add: separate_def)
  have d: "area (currentVideo b) 650 \<inter> ?P = {}" "area t (length f) \<inter> (area (currentVideo b) 650 \<union> ?P) = {}"
    using PV V separate_mono(2) [OF sep subset_refl subset_refl] by blast+
  have len: "length f < 2 ^ 32" using Cons.prems(1) by simp
  obtain b' n where b': "loadModule module t b = Some (module + of_nat (length (record_of f)), b')" "n \<le> 325"
      "currentVideo b' = currentVideo b + of_nat (2 * n)" "bytes_at (memory b') t f"
      "\<forall>a. a \<notin> area (currentVideo b) 650 \<union> area t (length f) \<longrightarrow> memory b' a = memory b a"
    using loadModule_ok [OF by_r len room_mono [OF rm] d] by auto
  let ?m = "module + of_nat (length (record_of f))"
  have P': "area ?m (length ?rest) \<subseteq> ?P" by (rule area_sub) simp
  have V': "area (currentVideo b') ?n \<subseteq> ?V" unfolding b'(3) using b'(2) by (intro area_sub) simp
  have keep: "memory b' a = memory b a" if "a \<in> ?P" for a
    using b'(5) that PV V separate_mono(2) [OF sep subset_refl subset_refl] by blast
  have "bytes_at (memory b) ?m ?rest" using by_r by (simp add: bytes_at_append)
  then have "bytes_at (memory b') ?m ?rest" by (rule bytes_at_frame) (use keep P' in blast)
  moreover have "prints n b (b\<lparr>currentVideo := currentVideo b'\<rparr>)" using b'(3) by (simp add: prints_def)
  from room_prints(1) [OF rm this] b'(2) have "room (650 * Suc (length fs) - 2 * n) (b\<lparr>currentVideo := currentVideo b'\<rparr>)" by simp
  then have "room ?n (b\<lparr>currentVideo := currentVideo b'\<rparr>)" by (rule room_mono) (use b'(2) in simp)
  then have "room ?n b'" by (simp add: room_def)
  moreover have "separate ts fs (area ?m (length ?rest)) (area (currentVideo b') ?n)" by (rule separate_mono(1) [OF sep P' V'])
  moreover have "\<forall>f \<in> set fs. length f < 2 ^ 32" using Cons.prems(1) by simp
  ultimately obtain c where c: "load_loop (length fs) ts ?m b' = Some c" "\<forall>i < length fs. bytes_at (memory c) (ts ! i) (fs ! i)"
      "\<forall>a. a \<notin> area (currentVideo b') ?n \<union> \<Union> (set (target_areas ts fs)) \<longrightarrow> memory c a = memory b' a"
    using Cons.IH [of b' ?m] by blast
  have "bytes_at (memory c) t f"
    by (rule bytes_at_frame [OF b'(4)]) (use c(3) V' separate_mono(2,3) [OF sep subset_refl subset_refl] in blast)
  then have "\<forall>i < length (f # fs). bytes_at (memory c) ((t # ts) ! i) ((f # fs) ! i)" using c(2) by (auto simp: less_Suc_eq_0_disj)
  moreover have "load_loop (length (f # fs)) (t # ts) module b = Some c" using b'(1) c(1) by simp
  moreover have "memory c a = memory b a" if "a \<notin> ?V \<union> \<Union> (set (target_areas (t # ts) (f # fs)))" for a
  proof -
    have "a \<notin> area (currentVideo b') ?n \<union> \<Union> (set (target_areas ts fs))" "a \<notin> area (currentVideo b) 650 \<union> area t (length f)"
      using that V V' by (auto simp: target_areas_def)
    then show ?thesis using c(3) b'(5) by metis
  qed
  ultimately show ?case by auto
qed simp

text \<open>
  C30. The loader undoes the packer: when the memory behind the kernel holds what \<open>buildImage\<close> appended to it, and the payload, the
  console and the targets do not overlap, \<open>loadModules\<close> ends and has copied every module byte for byte to
  its target, whatever the sizes of the modules; it changes nothing else but console cells.
\<close>

theorem load_packed_modules:
  assumes "length ts = length fs" "length fs < 2 ^ 32" "\<forall>f \<in> set fs. length f < 2 ^ 32"
    and "bytes_at (memory b) payload (drop (length k) (buildImage (k # fs)))" "room (650 * length fs) b"
    and "separate ts fs (area payload (length (buildImage (k # fs)) - length k)) (area (currentVideo b) (650 * length fs))"
  shows "\<exists>b'. loadModules payload ts b = Some b' \<and> (\<forall>i < length fs. bytes_at (memory b') (ts ! i) (fs ! i)) \<and>
     (\<forall>a. a \<notin> area (currentVideo b) (650 * length fs) \<union> \<Union> (set (target_areas ts fs)) \<longrightarrow> memory b' a = memory b a)"
proof -
  let ?w = "of_nat (length fs) :: u32" and ?c = "concat (map record_of fs)"
  have d: "drop (length k) (buildImage (k # fs)) = le32 ?w @ ?c" "length (buildImage (k # fs)) - length k = 4 + length ?c"
    by (simp_all add: buildImage_eq le32_def)
  have r: "bytes_at (memory b) payload (le32 ?w)" "bytes_at (memory b) (payload + 4) ?c"
    using assms(4) unfolding d by (simp_all add: bytes_at_append le32_def add.assoc)
  have "unat ?w = length fs" using assms(2) by (simp add: unat_of_nat)
  then have "loadModules payload ts b = load_loop (length fs) ts (payload + 4) b"
    using readUint32_le32 [OF r(1)] by (simp add: loadModules_def)
  moreover have "area (payload + 4) (length ?c) \<subseteq> area payload (4 + length ?c)" using area_sub [of 4 "length ?c" _ payload] by simp
  then have "separate ts fs (area (payload + 4) (length ?c)) (area (currentVideo b) (650 * length fs))"
    using assms(6) unfolding d(2) separate_def by blast
  ultimately show ?thesis using load_loop_ok [OF assms(1,3) r(2) assms(5)] by simp
qed

text \<open>A kernel with two modules, of five bytes and of one byte, at the addresses of the code and of the data module.\<close>

definition packed :: "u8 list" where
  "packed = buildImage [[9], [1, 2, 3, 4, 5], [7]]"

definition booted :: boot where
  "booted = \<lparr>memory = wr (\<lambda>_. 0) 0x100000 packed, currentVideo = video\<rparr>"

lemma area_bounds: "x \<in> area a n \<Longrightarrow> unat a + n < 2 ^ 64 \<Longrightarrow> unat a \<le> unat x \<and> unat x < unat a + n"
proof -
  assume x: "x \<in> area a n" and lt: "unat a + n < 2 ^ 64"
  then obtain i where i: "i < n" "x = a + of_nat i" by (auto simp: area_def)
  then have "unat (of_nat i :: u64) = i" using lt by (intro unat_of_nat_u64) simp
  then show ?thesis using i lt by (simp add: unat_word_ariths)
qed

lemma area_apart: "unat a + n < 2 ^ 64 \<Longrightarrow> unat c + k < 2 ^ 64 \<Longrightarrow> unat a + n \<le> unat c \<or> unat c + k \<le> unat a \<Longrightarrow> area a n \<inter> area c k = {}"
  using area_bounds [of _ a n] area_bounds [of _ c k] by (meson disjoint_iff leD le_trans less_le_trans)

lemma load_packed_modules_witness:
  "\<exists>b. loadModules 0x100001 [0x400000, 0x500000] booted = Some b \<and> bytes_at (memory b) 0x400000 [1, 2, 3, 4, 5] \<and> bytes_at (memory b) 0x500000 [7]"
proof -
  let ?fs = "[[1, 2, 3, 4, 5], [7]] :: u8 list list" and ?ts = "[0x400000, 0x500000] :: u64 list"
  have p: "packed = [9, 2, 0, 0, 0, 5, 0, 0, 0, 1, 2, 3, 4, 5, 1, 0, 0, 0, 7]" unfolding packed_def buildImage_eq record_of_def le32_def by simp
  have "bytes_at (memory booted) 0x100001 (drop (length [9 :: u8]) (buildImage [[9], [1, 2, 3, 4, 5], [7]]))"
    unfolding packed_def [symmetric] p by (simp add: booted_def wr_def p)
  moreover have "room (650 * length ?fs) booted" by (simp add: room_def booted_def)
  moreover have "separate ?ts ?fs (area 0x100001 (length (buildImage [[9], [1, 2, 3, 4, 5], [7]]) - length [9 :: u8])) (area (currentVideo booted) (650 * length ?fs))"
    unfolding packed_def [symmetric] p separate_def target_areas_def by (simp add: booted_def area_apart Int_Un_distrib)
  ultimately show ?thesis using load_packed_modules [where ts = ?ts and fs = ?fs and b = booted and payload = "0x100001" and k = "[9]"] by (auto simp: less_Suc_eq_0_disj)
qed

end
