(* ===== verification/Bmfs.thy ===== *)
theory Bmfs
  imports Prelude
begin

text \<open>
  The disk image tool (\<open>Bootloader/BMFS/bmfs.c\<close>): a directory of 64 entries at offset 4096 of the image,
  files in consecutive blocks of 2 MiB. The image is a function from offsets to bytes with a length.
  The directory in memory is the list of its 64 structures; flushing encodes it to 4096 bytes and
  opening the image decodes it. Local files are a map from names to contents. Each command returns
  what it tells the user.

  Strings are C strings without their terminator; \<open>FileName\<close> is the array of 32 characters. A name
  that does not fit there overruns the structure (\<open>Overrun\<close>). \<open>qsort\<close> is modelled by insertion.
\<close>

section \<open>Data\<close>

abbreviation END_MARK :: char where "END_MARK \<equiv> CHR 0x00"
abbreviation DEL_MARK :: char where "DEL_MARK \<equiv> CHR 0x01"
abbreviation BLOCK :: nat where "BLOCK \<equiv> 2097152"

record BMFSEntry =
  FileName :: string
  StartingBlock :: u64
  ReservedBlocks :: u64
  FileSize :: u64
  Unused :: u64

record bmfs =
  disk :: "nat \<Rightarrow> u8"
  disk_len :: nat
  disksize :: u32
  DiskInfo :: "u8 list"
  Directory :: "BMFSEntry list"

datatype message =
    Done
  | File_Not_Found
  | File_Exists
  | No_Free_Entries
  | Cannot_Create
  | Not_Enough_Space
  | No_Local_File
  | Overrun
  | Listing "(string \<times> u64 \<times> u64) list"
  | Contents "u8 list"
  | Usage
  | No_Disk
  | Not_Formatted
  | Format_Aborted
  | No_File_Name
  | Invalid_Size
  | Short_Boot_Record
  | Null_Name
  | Size_Too_Large
  | Size_Too_Small
  | Unknown_Command

text \<open>The bytes of a structure: 32 characters and four little-endian numbers.\<close>

definition encode_entry :: "BMFSEntry \<Rightarrow> u8 list" where
  "encode_entry e =
     map of_char (FileName e) @ le_bytes 8 (StartingBlock e) @ le_bytes 8 (ReservedBlocks e) @
     le_bytes 8 (FileSize e) @ le_bytes 8 (Unused e)"

definition decode_entry :: "u8 list \<Rightarrow> BMFSEntry" where
  "decode_entry bs =
     \<lparr>FileName = map (\<lambda>b. char_of (unat b)) (take 32 bs), StartingBlock = of_le_bytes (take 8 (drop 32 bs)),
      ReservedBlocks = of_le_bytes (take 8 (drop 40 bs)), FileSize = of_le_bytes (take 8 (drop 48 bs)),
      Unused = of_le_bytes (take 8 (drop 56 bs))\<rparr>"

definition read_disk :: "(nat \<Rightarrow> u8) \<Rightarrow> nat \<Rightarrow> nat \<Rightarrow> u8 list" where
  "read_disk d off n = map (\<lambda>i. d (off + i)) [0..<n]"

definition write_disk :: "(nat \<Rightarrow> u8) \<Rightarrow> nat \<Rightarrow> u8 list \<Rightarrow> nat \<Rightarrow> u8" where
  "write_disk d off bs = (\<lambda>a. if off \<le> a \<and> a < off + length bs then bs ! (a - off) else d a)"

definition decode_directory :: "u8 list \<Rightarrow> BMFSEntry list" where
  "decode_directory bs = map (\<lambda>i. decode_entry (take 64 (drop (64 * i) bs))) [0..<64]"

text \<open>A write behind the end extends the image.\<close>

definition put_disk :: "nat \<Rightarrow> u8 list \<Rightarrow> bmfs \<Rightarrow> bmfs" where
  "put_disk off bs b = b\<lparr>disk := write_disk (disk b) off bs, disk_len := max (disk_len b) (off + length bs)\<rparr>"

text \<open>\<open>fseek(disk, 4096, SEEK_SET); fwrite(Directory, 4096, 1, disk)\<close>.\<close>

definition flush_directory :: "bmfs \<Rightarrow> bmfs" where
  "flush_directory b = put_disk 4096 (concat (map encode_entry (Directory b))) b"

section \<open>Commands on an open image\<close>

definition mark :: "BMFSEntry \<Rightarrow> char" where
  "mark e = hd (FileName e)"

definition name_of :: "BMFSEntry \<Rightarrow> string" where
  "name_of e = takeWhile (\<lambda>c. c \<noteq> END_MARK) (FileName e)"

fun find_from :: "string \<Rightarrow> nat \<Rightarrow> BMFSEntry list \<Rightarrow> (BMFSEntry \<times> nat) option" where
  "find_from name i [] = None"
| "find_from name i (e # es) =
     (if mark e = END_MARK then None
      else if mark e = DEL_MARK then find_from name (Suc i) es
      else if name = name_of e then Some (e, i) else find_from name (Suc i) es)"

definition findfile :: "string \<Rightarrow> BMFSEntry list \<Rightarrow> (BMFSEntry \<times> nat) option" where
  "findfile name dir = find_from name 0 dir"

fun list_from :: "BMFSEntry list \<Rightarrow> (string \<times> u64 \<times> u64) list" where
  "list_from [] = []"
| "list_from (e # es) =
     (if mark e = END_MARK then []
      else if mark e = DEL_MARK then list_from es
      else (name_of e, FileSize e, ReservedBlocks e * 2) # list_from es)"

definition bmfs_list :: "bmfs \<Rightarrow> message" where
  "bmfs_list b = Listing (list_from (Directory b))"

definition zero_entry :: BMFSEntry where
  "zero_entry = \<lparr>FileName = replicate 32 END_MARK, StartingBlock = 0, ReservedBlocks = 0, FileSize = 0, Unused = 0\<rparr>"

definition fs_tag :: "u8 list" where
  "fs_tag = map of_char ''BMFS''"

definition bmfs_format :: "bmfs \<Rightarrow> bmfs" where
  "bmfs_format b =
     (let info = fs_tag @ replicate 508 0
      in flush_directory (put_disk 1024 info (b\<lparr>DiskInfo := info, Directory := replicate 64 zero_entry\<rparr>)))"

text \<open>The comparison of two entries; the difference is converted to \<open>int\<close>.\<close>

definition StartingBlockCmp :: "BMFSEntry \<Rightarrow> BMFSEntry \<Rightarrow> int" where
  "StartingBlockCmp ea eb =
     (if mark ea = DEL_MARK then 1
      else if mark eb = DEL_MARK then - 1
      else to_int (StartingBlock ea - StartingBlock eb))"

fun insert_cmp :: "BMFSEntry \<Rightarrow> BMFSEntry list \<Rightarrow> BMFSEntry list" where
  "insert_cmp x [] = [x]"
| "insert_cmp x (y # ys) = (if StartingBlockCmp x y \<le> 0 then x # y # ys else y # insert_cmp x ys)"

definition qsort :: "BMFSEntry list \<Rightarrow> BMFSEntry list" where
  "qsort es = foldr insert_cmp es []"

text \<open>The first loop of \<open>create\<close>: \<open>num_used_entries\<close> and \<open>first_free_entry\<close> (-1 is \<open>None\<close>).\<close>

fun count_entries :: "nat \<Rightarrow> nat option \<Rightarrow> BMFSEntry list \<Rightarrow> nat \<times> nat option" where
  "count_entries i free [] = (0, free)"
| "count_entries i free (e # es) =
     (if mark e = END_MARK then (i, if free = None then Some i else free)
      else if mark e = DEL_MARK then count_entries (Suc i) (if free = None then Some i else free) es
      else count_entries (Suc i) free es)"

text \<open>The second loop: the gaps between the files in the order of their blocks, and the last one.\<close>

fun find_gap :: "u64 \<Rightarrow> u64 \<Rightarrow> u64 \<Rightarrow> BMFSEntry list \<Rightarrow> u64" where
  "find_gap num_blocks blocks_requested prev_file_end [] =
     (if num_blocks - 1 - prev_file_end \<ge> blocks_requested then prev_file_end else 0)"
| "find_gap num_blocks blocks_requested prev_file_end (e # es) =
     (let this_file_start = (if mark e = DEL_MARK then num_blocks - 1 else StartingBlock e)
      in if this_file_start - prev_file_end \<ge> blocks_requested then prev_file_end
         else find_gap num_blocks blocks_requested (StartingBlock e + ReservedBlocks e) es)"

text \<open>\<open>strcpy\<close> into the array: the rest of the array keeps its contents.\<close>

definition set_name :: "string \<Rightarrow> string \<Rightarrow> string" where
  "set_name name arr = name @ END_MARK # drop (Suc (length name)) arr"

definition create :: "string \<Rightarrow> u64 \<Rightarrow> bmfs \<Rightarrow> message \<times> bmfs" where
  "create name maxsize b =
     (let maxsize = (if maxsize mod 2 \<noteq> 0 then maxsize + 1 else maxsize)
      in case findfile name (Directory b) of
           Some _ \<Rightarrow> (File_Exists, b)
         | None \<Rightarrow>
             let blocks_requested = maxsize div 2;
                 num_blocks = ucast (disksize b div 2) :: u64;
                 (num_used_entries, first_free_entry) = count_entries 0 None (Directory b)
             in case first_free_entry of
                  None \<Rightarrow> (No_Free_Entries, b)
                | Some slot \<Rightarrow>
                    let new_file_start = find_gap num_blocks blocks_requested 1 (qsort (take num_used_entries (Directory b)))
                    in if new_file_start = 0 then (Cannot_Create, b)
                       else if length name \<ge> 32 then (Overrun, b)
                       else
                         let e = Directory b ! slot;
                             dir = (Directory b)[slot := e\<lparr>StartingBlock := new_file_start, ReservedBlocks := blocks_requested,
                               FileSize := 0, FileName := set_name name (FileName e)\<rparr>];
                             dir = (if slot = num_used_entries \<and> num_used_entries + 1 < 64
                               then dir[num_used_entries + 1 := (dir ! (num_used_entries + 1))
                                      \<lparr>FileName := (FileName (dir ! (num_used_entries + 1)))[0 := END_MARK]\<rparr>]
                               else dir)
                         in (Done, flush_directory (b\<lparr>Directory := dir\<rparr>)))"

text \<open>
  \<open>read\<close> and \<open>write\<close> copy byte by byte with an \<open>int\<close> counter; beyond \<open>INT_MAX\<close> bytes it overflows
  (\<open>Overrun\<close>). \<open>getc\<close> behind the end of the image is \<open>EOF\<close>, stored as 255. \<open>write\<close> sets the field \<open>FileSize\<close>, at offset 48 of the entry.
\<close>

definition getc_disk :: "bmfs \<Rightarrow> nat \<Rightarrow> u8" where
  "getc_disk b a = (if a < disk_len b then disk b a else 255)"

definition bmfs_read :: "string \<Rightarrow> bmfs \<Rightarrow> message" where
  "bmfs_read name b =
     (case findfile name (Directory b) of
        None \<Rightarrow> File_Not_Found
      | Some (e, _) \<Rightarrow>
          if unat (FileSize e) \<ge> 2 ^ 31 then Overrun
          else Contents (map (\<lambda>i. getc_disk b (unat (StartingBlock e * of_nat BLOCK) + i)) [0..<unat (FileSize e)]))"

definition bmfs_write :: "(string \<rightharpoonup> u8 list) \<Rightarrow> string \<Rightarrow> bmfs \<Rightarrow> message \<times> bmfs" where
  "bmfs_write files name b =
     (case findfile name (Directory b) of
        None \<Rightarrow> (File_Not_Found, b)
      | Some (e, slot) \<Rightarrow>
          case files name of
            None \<Rightarrow> (No_Local_File, b)
          | Some bs \<Rightarrow>
              let tempfilesize = of_nat (length bs) :: u64
              in if ReservedBlocks e * of_nat BLOCK < tempfilesize then (Not_Enough_Space, b)
                 else if length bs \<ge> 2 ^ 31 then (Overrun, b)
                 else
                   let b = put_disk (unat (StartingBlock e * of_nat BLOCK)) bs b
                   in (Done, flush_directory (b\<lparr>Directory := (Directory b)[slot := (Directory b ! slot)
                        \<lparr>FileSize := tempfilesize\<rparr>]\<rparr>)))"

definition bmfs_delete :: "string \<Rightarrow> bmfs \<Rightarrow> message \<times> bmfs" where
  "bmfs_delete name b =
     (case findfile name (Directory b) of
        None \<Rightarrow> (File_Not_Found, b)
      | Some (_, slot) \<Rightarrow>
          (Done, flush_directory (b\<lparr>Directory := (Directory b)[slot := (Directory b ! slot)
             \<lparr>FileName := (FileName (Directory b ! slot))[0 := DEL_MARK]\<rparr>]\<rparr>)))"

section \<open>Creating an image\<close>

text \<open>
  The size argument: digits and an optional unit at the end. The result is the number and the power
  of 1024.
\<close>

definition unit_factor :: "char \<Rightarrow> nat option" where
  "unit_factor c =
     (if c \<in> {CHR ''K'', CHR ''k''} then Some 1 else if c \<in> {CHR ''M'', CHR ''m''} then Some 2
      else if c \<in> {CHR ''G'', CHR ''g''} then Some 3 else if c \<in> {CHR ''T'', CHR ''t''} then Some 4
      else if c \<in> {CHR ''P'', CHR ''p''} then Some 5 else None)"

definition digit_value :: "char \<Rightarrow> nat option" where
  "digit_value c = (if 48 \<le> (of_char c :: nat) \<and> (of_char c :: nat) \<le> 57 then Some (of_char c - 48) else None)"

fun parse_size :: "bool \<Rightarrow> u64 \<Rightarrow> string \<Rightarrow> message + u64 \<times> nat" where
  "parse_size first diskSize [] = Inr (diskSize, 0)"
| "parse_size first diskSize (c # cs) =
     (case digit_value c of
        Some n \<Rightarrow>
          if diskSize * 10 > diskSize then parse_size False (diskSize * 10 + of_nat n) cs
          else if diskSize = 0 then parse_size False (diskSize + of_nat n) cs
          else Inl Size_Too_Large
      | None \<Rightarrow>
          if first then Inl Invalid_Size
          else case unit_factor c of
                 None \<Rightarrow> Inl Invalid_Size
               | Some f \<Rightarrow> if cs \<noteq> [] then Inl Invalid_Size else Inr (diskSize, f))"

fun scale_size :: "u64 \<Rightarrow> nat \<Rightarrow> message + u64" where
  "scale_size diskSize 0 = Inr diskSize"
| "scale_size diskSize (Suc f) =
     (if diskSize * 1024 > diskSize then scale_size (diskSize * 1024) f else Inl Size_Too_Large)"

abbreviation minimumDiskSize :: u64 where "minimumDiskSize \<equiv> 6291456"
abbreviation bufferSize :: nat where "bufferSize \<equiv> 51200"

definition disk_size :: "string \<Rightarrow> message + u64" where
  "disk_size sz =
     (case parse_size True 0 sz of
        Inl e \<Rightarrow> Inl e
      | Inr (diskSize, factor) \<Rightarrow>
          case (if diskSize > 0 \<and> factor > 0 then scale_size diskSize factor else Inr diskSize) of
            Inl e \<Rightarrow> Inl e
          | Inr diskSize \<Rightarrow> if diskSize < minimumDiskSize then Inl Size_Too_Small else Inr diskSize)"

text \<open>Filling the image with zeros, \<open>bufferSize\<close> bytes at a time.\<close>

lemma u64_diff_less:
  assumes "w < (n :: u64)" "0 < c" "c \<le> unat (n - w)"
  shows "unat (n - (w + of_nat c)) < unat (n - w)"
proof -
  have c: "unat (of_nat c :: u64) = c"
    using assms unsigned_less [of "n - w", where ?'a = nat] by (intro unat_of_nat_u64) simp
  have "unat (n - w - of_nat c) = unat (n - w) - c"
    using assms c by (simp add: unat_sub word_le_nat_alt)
  then show ?thesis using assms by (simp add: diff_diff_add)
qed

function zero_fill :: "u64 \<Rightarrow> u64 \<Rightarrow> bmfs \<Rightarrow> bmfs" where
  "zero_fill writeSize diskSize b =
     (if writeSize < diskSize
      then let chunkSize = min bufferSize (unat (diskSize - writeSize))
           in zero_fill (writeSize + of_nat chunkSize) diskSize (put_disk (unat writeSize) (replicate chunkSize 0) b)
      else b)"
  by pat_completeness auto
termination
proof (relation "measure (\<lambda>(w, n, b). unat (n - w))", goal_cases)
  case (2 w n b c)
  then have "unat n - unat w = unat (n - w)" "unat w < unat n" by (simp_all add: unat_sub word_less_nat_alt word_le_nat_alt)
  then show ?case using 2 u64_diff_less [of w n c] by simp
qed simp

declare zero_fill.simps [simp del]

text \<open>Copying a boot file, \<open>bufferSize\<close> bytes at a time; the result is the position behind it.\<close>

function copy_file :: "nat \<Rightarrow> u8 list \<Rightarrow> bmfs \<Rightarrow> nat \<times> bmfs" where
  "copy_file pos bs b =
     (if bs = [] then (pos, b)
      else copy_file (pos + length (take bufferSize bs)) (drop bufferSize bs) (put_disk pos (take bufferSize bs) b))"
  by pat_completeness auto
termination
  by (relation "measure (\<lambda>(pos, bs, b). length bs)") (simp_all add: length_greater_0_conv [symmetric] del: length_greater_0_conv)

declare copy_file.simps [simp del]

text \<open>
  \<open>initialize\<close>. The optional arguments name local files; an argument that names no file is an error before
  the image is touched. The calls to the host succeed otherwise.
\<close>

definition opened :: "(string \<rightharpoonup> u8 list) \<Rightarrow> string option \<Rightarrow> bool" where
  "opened files f \<longleftrightarrow> (case f of None \<Rightarrow> True | Some name \<Rightarrow> files name \<noteq> None)"

definition file_bytes :: "(string \<rightharpoonup> u8 list) \<Rightarrow> string option \<Rightarrow> u8 list option" where
  "file_bytes files f = Option.bind f files"

definition empty_image :: bmfs where
  "empty_image = \<lparr>disk = (\<lambda>_. 0), disk_len = 0, disksize = 0, DiskInfo = replicate 512 0, Directory = replicate 64 zero_entry\<rparr>"

definition write_system :: "u8 list option \<Rightarrow> u8 list option \<Rightarrow> nat \<Rightarrow> bmfs \<Rightarrow> bmfs" where
  "write_system boot kern pos b =
     (let (pos, b) = (case boot of None \<Rightarrow> (pos, b) | Some bs \<Rightarrow> copy_file 8192 bs b)
      in case kern of None \<Rightarrow> b | Some bs \<Rightarrow> snd (copy_file pos bs b))"

definition initialize :: "(string \<rightharpoonup> u8 list) \<Rightarrow> string \<Rightarrow> string option \<Rightarrow> string option \<Rightarrow> string option \<Rightarrow>
    message \<times> bmfs option" where
  "initialize files sz mbr boot kern =
     (case disk_size sz of
        Inl e \<Rightarrow> (e, None)
      | Inr diskSize \<Rightarrow>
          if \<not> (opened files mbr \<and> opened files boot \<and> opened files kern) then (No_Local_File, None)
          else
            let b = bmfs_format (zero_fill 0 diskSize empty_image)
            in case file_bytes files mbr of
                 Some bs \<Rightarrow>
                   if length bs < 512 then (Short_Boot_Record, Some b)
                   else
                     let b = put_disk 0 (take 512 bs) b
                     in (Done, Some (write_system (file_bytes files boot) (file_bytes files kern) 512 b))
               | None \<Rightarrow> (Done, Some (write_system (file_bytes files boot) (file_bytes files kern) 8192 b)))"

section \<open>The command line\<close>

text \<open>
  The host holds the image, if it exists, and the local files. \<open>atoi\<close> of the host has no value beyond the
  range of \<open>int\<close>. \<open>filename\<close> is a null pointer when there is no third argument.
\<close>

record host =
  image :: "((nat \<Rightarrow> u8) \<times> nat) option"
  files :: "string \<rightharpoonup> u8 list"

definition to_lower :: "char \<Rightarrow> char" where
  "to_lower c = (if 65 \<le> (of_char c :: nat) \<and> (of_char c :: nat) \<le> 90 then char_of (of_char c + 32 :: nat) else c)"

definition strcasecmp :: "string \<Rightarrow> string \<Rightarrow> bool" where
  "strcasecmp s t \<longleftrightarrow> map to_lower s \<noteq> map to_lower t"

fun digits_value :: "int \<Rightarrow> string \<Rightarrow> int" where
  "digits_value n [] = n"
| "digits_value n (c # cs) = (case digit_value c of Some d \<Rightarrow> digits_value (10 * n + int d) cs | None \<Rightarrow> n)"

definition atoi_host :: "string \<Rightarrow> int option" where
  "atoi_host s =
     (let s = dropWhile (\<lambda>c. c \<in> {CHR '' '', CHR 0x09, CHR 0x0A, CHR 0x0B, CHR 0x0C, CHR 0x0D}) s;
          n = (case s of [] \<Rightarrow> 0
               | c # cs \<Rightarrow> if c = CHR ''-'' then - digits_value 0 cs else if c = CHR ''+'' then digits_value 0 cs
                           else digits_value 0 s)
      in if - (2 ^ 31) \<le> n \<and> n < 2 ^ 31 then Some n else None)"

definition cstring :: "u8 list \<Rightarrow> string" where
  "cstring bs = map (\<lambda>b. char_of (unat b)) (takeWhile (\<lambda>b. b \<noteq> 0) bs)"

definition open_image :: "(nat \<Rightarrow> u8) \<times> nat \<Rightarrow> bmfs" where
  "open_image im =
     \<lparr>disk = fst im, disk_len = snd im, disksize = of_nat (snd im div 1048576),
      DiskInfo = read_disk (fst im) 1024 512, Directory = decode_directory (read_disk (fst im) 4096 4096)\<rparr>"

definition keep :: "host \<Rightarrow> message \<times> bmfs \<Rightarrow> message \<times> host" where
  "keep h r = (fst r, h\<lparr>image := Some (disk (snd r), disk_len (snd r))\<rparr>)"

text \<open>A null pointer reaches \<open>strcmp\<close> at the first valid entry.\<close>

definition with_name :: "bmfs \<Rightarrow> string option \<Rightarrow> (string \<Rightarrow> message \<times> host) \<Rightarrow> host \<Rightarrow> message \<times> host" where
  "with_name b name f h =
     (case name of
        Some n \<Rightarrow> f n
      | None \<Rightarrow> (if list_from (Directory b) = [] then File_Not_Found else Null_Name, h))"

definition create_sized :: "bmfs \<Rightarrow> string \<Rightarrow> string list \<Rightarrow> string \<Rightarrow> host \<Rightarrow> message \<times> host" where
  "create_sized b name args line h =
     (if length args > 4
      then case atoi_host (args ! 4) of
             None \<Rightarrow> (Overrun, h)
           | Some filesize \<Rightarrow>
               if filesize \<ge> 1 then keep h (create name (of_int filesize) b) else (Invalid_Size, h)
      else case atoi_host (take 31 line) of
             None \<Rightarrow> (Overrun, h)
           | Some n \<Rightarrow>
               let filesize = of_int n :: u32
               in if filesize \<ge> 1 then keep h (create name (ucast filesize) b) else (Invalid_Size, h))"

definition dispatch :: "bmfs \<Rightarrow> string list \<Rightarrow> string \<Rightarrow> host \<Rightarrow> message \<times> host" where
  "dispatch b args line h =
     (let command = args ! 2;
          filename = (if length args > 3 then Some (args ! 3) else None)
      in if \<not> strcasecmp ''list'' command then (bmfs_list b, h)
         else if \<not> strcasecmp ''format'' command then
           (if length args > 3 \<and> \<not> strcasecmp (args ! 3) ''/FORCE'' then keep h (Done, bmfs_format b) else (Format_Aborted, h))
         else if \<not> strcasecmp ''create'' command then
           (case filename of None \<Rightarrow> (No_File_Name, h) | Some name \<Rightarrow> create_sized b name args line h)
         else if \<not> strcasecmp ''read'' command then
           with_name b filename (\<lambda>name. case bmfs_read name b of
               Contents bs \<Rightarrow> (Done, h\<lparr>files := (files h)(name \<mapsto> bs)\<rparr>) | m \<Rightarrow> (m, h)) h
         else if \<not> strcasecmp ''write'' command then
           with_name b filename (\<lambda>name. keep h (bmfs_write (files h) name b)) h
         else if \<not> strcasecmp ''delete'' command then
           with_name b filename (\<lambda>name. keep h (bmfs_delete name b)) h
         else (Unknown_Command, h))"

definition bmfs_main :: "string list \<Rightarrow> string \<Rightarrow> host \<Rightarrow> message \<times> host" where
  "bmfs_main args line h =
     (if length args < 3 then (Usage, h)
      else if \<not> strcasecmp ''initialize'' (args ! 2) then
        (if length args \<ge> 4 then
           let arg = (\<lambda>i. if length args > i then Some (args ! i) else None);
               (m, b) = initialize (files h) (args ! 3) (arg 4) (arg 5) (arg 6)
           in (m, case b of None \<Rightarrow> h | Some b \<Rightarrow> h\<lparr>image := Some (disk b, disk_len b)\<rparr>)
         else (Usage, h))
      else case image h of
             None \<Rightarrow> (No_Disk, h)
           | Some im \<Rightarrow>
               let b = open_image im
               in if strcasecmp (cstring (DiskInfo b)) ''BMFS'' then
                    (if \<not> strcasecmp ''format'' (args ! 2) then keep h (Done, bmfs_format b) else (Not_Formatted, h))
                  else dispatch b args line h)"

end
