(* ===== verification/Bmfs_Files.thy ===== *)
theory Bmfs_Files
  imports Bmfs "HOL-Library.Multiset"
begin

text \<open>
  The files of a disk image: \<open>create\<close> allocates a free area of blocks whenever there is one and keeps the files
  apart, \<open>write\<close> and \<open>read\<close> store and return contents without touching other files, and the
  directory survives closing and opening the image.
\<close>

section \<open>Directories\<close>

definition used :: "bmfs \<Rightarrow> BMFSEntry list" where
  "used b = takeWhile (\<lambda>e. mark e \<noteq> END_MARK) (Directory b)"

definition block_end :: "BMFSEntry \<Rightarrow> nat" where
  "block_end e = unat (StartingBlock e) + unat (ReservedBlocks e)"

definition extent :: "BMFSEntry \<Rightarrow> nat set" where
  "extent e = {unat (StartingBlock e) ..< block_end e}"

text \<open>The blocks that files may use: neither block 0, which holds the directory, nor the last block.\<close>

definition last_block :: "bmfs \<Rightarrow> nat" where
  "last_block b = unat (disksize b div 2) - 1"

definition placed :: "nat \<Rightarrow> BMFSEntry \<Rightarrow> bool" where
  "placed l e \<longleftrightarrow> 1 \<le> unat (StartingBlock e) \<and> 1 \<le> unat (ReservedBlocks e) \<and> block_end e \<le> l"

definition dir_wf :: "bmfs \<Rightarrow> bool" where
  "dir_wf b \<longleftrightarrow>
     2 \<le> unat (disksize b div 2) \<and> length (Directory b) = 64 \<and> (\<forall>e \<in> set (Directory b). length (FileName e) = 32) \<and>
     (\<forall>e \<in> set (used b). mark e \<noteq> DEL_MARK \<and> placed (last_block b) e) \<and>
     sorted_wrt (\<lambda>e f. extent e \<inter> extent f = {}) (used b)"

section \<open>Searching a gap\<close>

text \<open>The files in the order of their blocks, from block \<open>p\<close> to block \<open>l\<close>.\<close>

fun laid :: "nat \<Rightarrow> nat \<Rightarrow> BMFSEntry list \<Rightarrow> bool" where
  "laid l p [] \<longleftrightarrow> p \<le> l"
| "laid l p (e # es) \<longleftrightarrow> p \<le> unat (StartingBlock e) \<and> mark e \<noteq> DEL_MARK \<and> placed l e \<and> laid l (block_end e) es"

lemma laid_le: "laid l p es \<Longrightarrow> p \<le> l"
  by (induction es arbitrary: p) (auto simp: placed_def block_end_def)

lemma laid_starts: "laid l p es \<Longrightarrow> e \<in> set es \<Longrightarrow> p \<le> unat (StartingBlock e)"
proof (induction es arbitrary: p)
  case (Cons f es)
  then show ?case by (cases "e = f") (force simp: block_end_def)+
qed simp

definition free_area :: "nat \<Rightarrow> nat \<Rightarrow> nat \<Rightarrow> BMFSEntry list \<Rightarrow> bool" where
  "free_area l n g es \<longleftrightarrow> g + n \<le> l \<and> (\<forall>e \<in> set es. {g ..< g + n} \<inter> extent e = {})"

lemma disjoint_intervals:
  assumes "{g ..< g + n} \<inter> {s ..< t} = {}" "0 < n" "s < (t :: nat)"
  shows "g + n \<le> s \<or> t \<le> g"
proof (rule ccontr)
  assume "\<not> ?thesis"
  then have "max g s \<in> {g ..< g + n} \<inter> {s ..< t}" using assms by auto
  then show False using assms(1) by blast
qed

lemma unat_block_end:
  assumes "placed l e" "l < 2 ^ 32"
  shows "unat (StartingBlock e + ReservedBlocks e) = block_end e"
  using assms by (simp add: placed_def block_end_def unat_word_ariths)

lemma find_gap_finds:
  assumes "laid l (unat p) es" "unat n = Suc l" "l < 2 ^ 32" "1 \<le> unat p" "1 \<le> unat r"
  shows "let g = find_gap n r p es in
     (if g = 0 then \<forall>g \<ge> unat p. \<not> free_area l (unat r) g es
      else unat p \<le> unat g \<and> free_area l (unat r) (unat g) es)"
  using assms(1,4)
proof (induction es arbitrary: p)
  case Nil
  then have "unat (n - 1 - p) = l - unat p"
    using assms(2) by (simp add: unat_sub word_le_nat_alt unat_pred_word)
  then have "n - 1 - p \<ge> r \<longleftrightarrow> unat r \<le> l - unat p" by (simp add: word_le_nat_alt)
  then show ?case using Nil assms(5) by (auto simp: free_area_def Let_def)
next
  case (Cons e es)
  let ?s = "StartingBlock e"
  have s: "unat p \<le> unat ?s" "placed l e" "laid l (block_end e) es" and m: "mark e \<noteq> DEL_MARK" using Cons.prems by auto
  have d: "?s - p \<ge> r \<longleftrightarrow> unat p + unat r \<le> unat ?s"
    using s(1) by (simp add: unat_sub word_le_nat_alt le_diff_conv2 add.commute)
  have e: "unat (?s + ReservedBlocks e) = block_end e" by (rule unat_block_end [OF s(2) assms(3)])
  have later: "block_end e \<le> unat (StartingBlock f)" if "f \<in> set es" for f using laid_starts [OF s(3) that] .
  have le: "unat ?s < block_end e" "block_end e \<le> l" using s(2) by (auto simp: placed_def block_end_def)
  show ?case
  proof (cases "?s - p \<ge> r")
    case True
    then have "p \<noteq> 0" "unat p + unat r \<le> unat ?s" using Cons.prems d by auto
    then show ?thesis using True m later le by (fastforce simp: free_area_def extent_def Let_def)
  next
    case False
    let ?g = "find_gap n r (?s + ReservedBlocks e) es"
    have g: "find_gap n r p (e # es) = ?g" using False m by simp
    have IH: "if ?g = 0 then \<forall>g \<ge> block_end e. \<not> free_area l (unat r) g es
        else block_end e \<le> unat ?g \<and> free_area l (unat r) (unat ?g) es"
      using Cons.IH [of "?s + ReservedBlocks e"] s(3) e le by (cases "?g = 0") (simp_all add: Let_def)
    show ?thesis
    proof (cases "?g = 0")
      case True
      have "\<not> free_area l (unat r) h (e # es)" if "unat p \<le> h" for h
      proof
        assume a: "free_area l (unat r) h (e # es)"
        then have "{h ..< h + unat r} \<inter> {unat ?s ..< block_end e} = {}" by (simp add: free_area_def extent_def)
        then have "h + unat r \<le> unat ?s \<or> block_end e \<le> h" using disjoint_intervals assms(5) le by simp
        then have "block_end e \<le> h" using False d that by linarith
        moreover have "free_area l (unat r) h es" using a by (simp add: free_area_def)
        ultimately show False using IH True by simp
      qed
      then show ?thesis using g True by (simp add: Let_def)
    next
      case F: False
      then have "block_end e \<le> unat ?g" "free_area l (unat r) (unat ?g) es" using IH by auto
      then show ?thesis using F g le s(1) by (auto simp: free_area_def extent_def Let_def)
    qed
  qed
qed

section \<open>Sorting by the first block\<close>

definition earlier :: "BMFSEntry \<Rightarrow> BMFSEntry \<Rightarrow> bool" where
  "earlier e f \<longleftrightarrow> unat (StartingBlock e) \<le> unat (StartingBlock f)"

lemma to_int_of_int:
  assumes "- 2147483648 \<le> i" "i < 2147483648"
  shows "to_int (word_of_int i) = i"
  using assms unfolding to_int_def
  by transfer (simp add: signed_take_bit_take_bit signed_take_bit_int_eq_self)

lemma StartingBlockCmp_le:
  assumes "placed l e" "placed l f" "mark e \<noteq> DEL_MARK" "mark f \<noteq> DEL_MARK" "l < 2 ^ 31"
  shows "StartingBlockCmp e f \<le> 0 \<longleftrightarrow> earlier e f"
proof -
  let ?a = "unat (StartingBlock e)" and ?b = "unat (StartingBlock f)"
  have ab: "?a < 2147483648" "?b < 2147483648" using assms by (auto simp: placed_def block_end_def)
  have eq: "StartingBlock e - StartingBlock f = word_of_int (int ?a - int ?b)" by simp
  have "to_int (StartingBlock e - StartingBlock f) = int ?a - int ?b"
    unfolding eq by (rule to_int_of_int) (use ab in linarith)+
  then show ?thesis using assms
    by (simp add: StartingBlockCmp_def earlier_def word_le_nat_alt [symmetric] word_le_def [symmetric])
qed

lemma qsort_sorts:
  assumes "\<forall>e \<in> set es. mark e \<noteq> DEL_MARK \<and> placed l e" "l < 2 ^ 31"
  shows "set (qsort es) = set es \<and> mset (qsort es) = mset es \<and> sorted_wrt earlier (qsort es)"
proof -
  have ins: "mset (insert_cmp x ys) = add_mset x (mset ys) \<and> sorted_wrt earlier (insert_cmp x ys)"
    if "mark x \<noteq> DEL_MARK \<and> placed l x" "\<forall>e \<in> set ys. mark e \<noteq> DEL_MARK \<and> placed l e" "sorted_wrt earlier ys" for x ys
    using that
  proof (induction ys)
    case (Cons y ys)
    have c: "StartingBlockCmp x y \<le> 0 \<longleftrightarrow> earlier x y" using Cons.prems assms(2) by (intro StartingBlockCmp_le) auto
    have "mset (insert_cmp x ys) = add_mset x (mset ys)" using Cons by simp
    then have "set (insert_cmp x ys) = insert x (set ys)" by (metis set_mset_mset set_mset_add_mset_insert)
    then show ?case using Cons c by (auto simp: earlier_def)
  qed simp
  have "mset (qsort es) = mset es \<and> sorted_wrt earlier (qsort es)"
    using assms(1)
  proof (induction es)
    case (Cons e es)
    then have "mset (qsort es) = mset es" by simp
    then have "set (qsort es) = set es" by (rule mset_eq_setD)
    then show ?case using Cons ins [of e "qsort es"] by (auto simp: qsort_def)
  qed (simp add: qsort_def)
  then show ?thesis by (auto dest: mset_eq_setD)
qed

lemma laid_sorted:
  assumes "sorted_wrt earlier es" "\<forall>e \<in> set es. mark e \<noteq> DEL_MARK \<and> placed l e"
    "sorted_wrt (\<lambda>e f. extent e \<inter> extent f = {}) es" "p \<le> l" "\<forall>e \<in> set es. p \<le> unat (StartingBlock e)"
  shows "laid l p es"
  using assms
proof (induction es arbitrary: p)
  case (Cons e es)
  have "block_end e \<le> unat (StartingBlock f)" if f: "f \<in> set es" for f
  proof -
    have ne: "unat (StartingBlock f) < block_end f" "unat (StartingBlock f) \<in> extent f"
      using Cons.prems(2) f by (auto simp: placed_def block_end_def extent_def)
    then have "unat (StartingBlock f) \<notin> extent e" "earlier e f" using Cons.prems(1,3) f by auto
    then show ?thesis by (auto simp: extent_def earlier_def)
  qed
  moreover have "block_end e \<le> l" using Cons.prems(2) by (simp add: placed_def)
  ultimately show ?case using Cons by simp
qed simp

lemma sorted_wrt_perm:
  assumes "mset xs = mset ys" "sorted_wrt P xs" "\<And>x y. P x y \<Longrightarrow> P y x"
  shows "sorted_wrt P ys"
  using assms(1,2)
proof (induction xs arbitrary: ys)
  case (Cons x xs)
  then have "x \<in> set ys" by (metis list.set_intros(1) mset_eq_setD)
  then obtain us vs where ys: "ys = us @ x # vs" by (meson split_list)
  then have m: "mset xs = mset (us @ vs)" using Cons.prems(1) by simp
  have "sorted_wrt P (us @ vs)" using Cons.IH [OF m] Cons.prems(2) by simp
  moreover have "\<forall>y \<in> set (us @ vs). P x y" using Cons.prems(2) mset_eq_setD [OF m] by simp
  ultimately show ?case using ys assms(3) by (auto simp: sorted_wrt_append)
qed simp

section \<open>Creating a file\<close>

lemma count_entries_used:
  assumes "\<forall>e \<in> set (takeWhile (\<lambda>e. mark e \<noteq> END_MARK) es). mark e \<noteq> DEL_MARK"
  shows "count_entries i None es =
     (let n = length (takeWhile (\<lambda>e. mark e \<noteq> END_MARK) es) in if n < length es then (i + n, Some (i + n)) else (0, None))"
  using assms by (induction es arbitrary: i) (auto simp: Let_def)

definition rounded :: "u64 \<Rightarrow> u64" where
  "rounded n = (if n mod 2 \<noteq> 0 then n + 1 else n)"

definition new_entry :: "string \<Rightarrow> u64 \<Rightarrow> u64 \<Rightarrow> BMFSEntry \<Rightarrow> BMFSEntry" where
  "new_entry name start n e =
     e\<lparr>StartingBlock := start, ReservedBlocks := n, FileSize := 0, FileName := set_name name (FileName e)\<rparr>"

definition gap_for :: "u64 \<Rightarrow> bmfs \<Rightarrow> u64" where
  "gap_for maxsize b = find_gap (ucast (disksize b div 2)) (rounded maxsize div 2) 1 (qsort (used b))"

text \<open>The directory with an entry behind the used ones and the end mark behind it.\<close>

definition end_at :: "nat \<Rightarrow> BMFSEntry list \<Rightarrow> BMFSEntry list" where
  "end_at i d = (if i < 64 then d[i := (d ! i)\<lparr>FileName := (FileName (d ! i))[0 := END_MARK]\<rparr>] else d)"

definition extended :: "string \<Rightarrow> u64 \<Rightarrow> u64 \<Rightarrow> bmfs \<Rightarrow> BMFSEntry list" where
  "extended name start n b =
     (let u = length (used b) in end_at (u + 1) ((Directory b)[u := new_entry name start n (Directory b ! u)]))"

lemma takeWhile_stop: "xs = ys @ y # zs \<Longrightarrow> \<forall>x \<in> set ys. P x \<Longrightarrow> \<not> P y \<Longrightarrow> takeWhile P xs = ys"
  by simp

lemma end_at_names:
  assumes "length d = 64" "\<forall>e \<in> set d. length (FileName e) = 32"
  shows "\<forall>e \<in> set (end_at i d). length (FileName e) = 32"
  using assms by (auto simp: end_at_def all_set_conv_all_nth nth_list_update)

lemma create_eq:
  assumes "dir_wf b"
  shows "create name maxsize b =
     (if findfile name (Directory b) \<noteq> None then (File_Exists, b)
      else if length (used b) = 64 then (No_Free_Entries, b)
      else if gap_for maxsize b = 0 then (Cannot_Create, b)
      else if length name \<ge> 32 then (Overrun, b)
      else (Done, flush_directory (b\<lparr>Directory := extended name (gap_for maxsize b) (rounded maxsize div 2) b\<rparr>)))"
proof -
  let ?u = "length (used b)"
  have len: "length (Directory b) = 64" using assms by (simp add: dir_wf_def)
  have u: "?u \<le> 64" using length_takeWhile_le [of "\<lambda>e. mark e \<noteq> END_MARK" "Directory b"] len by (simp add: used_def)
  have c: "count_entries 0 None (Directory b) = (if ?u < 64 then (?u, Some ?u) else (0, None))"
    using count_entries_used [of "Directory b" 0] assms len by (simp add: dir_wf_def used_def Let_def)
  have t: "take ?u (Directory b) = used b" by (simp add: used_def takeWhile_eq_take [symmetric])
  show ?thesis
  proof (cases "findfile name (Directory b) = None \<and> ?u < 64")
    case True
    then show ?thesis
      by (simp add: create_def Let_def c t rounded_def gap_for_def extended_def new_entry_def end_at_def)
  next
    case False
    then show ?thesis using u c by (auto simp: create_def Let_def split: option.splits)
  qed
qed

lemma used_extended:
  assumes "dir_wf b" "length (used b) < 64" "name \<noteq> []" "hd name \<notin> {END_MARK, DEL_MARK}" "length name < 32"
  shows "takeWhile (\<lambda>e. mark e \<noteq> END_MARK) (extended name g n b) =
      used b @ [new_entry name g n (Directory b ! length (used b))]"
    "length (extended name g n b) = 64" "\<forall>e \<in> set (extended name g n b). length (FileName e) = 32"
proof -
  let ?u = "length (used b)" and ?N = "new_entry name g n (Directory b ! length (used b))"
  let ?d = "(Directory b)[?u := ?N]"
  have len: "length (Directory b) = 64" "\<forall>e \<in> set (Directory b). length (FileName e) = 32" using assms by (auto simp: dir_wf_def)
  have N: "length (FileName ?N) = 32" "mark ?N = hd name"
    using len assms(2,3,5) by (simp_all add: new_entry_def set_name_def mark_def hd_append)
  have d: "length ?d = 64" "\<forall>e \<in> set ?d. length (FileName e) = 32"
    using len N set_update_subset_insert [of "Directory b" ?u ?N] by auto
  show l: "length (extended name g n b) = 64" using len by (simp add: extended_def end_at_def Let_def)
  show "\<forall>e \<in> set (extended name g n b). length (FileName e) = 32"
    using end_at_names [of ?d "?u + 1"] d unfolding extended_def Let_def by blast
  have t: "take ?u (Directory b) = used b" by (simp add: used_def takeWhile_eq_take [symmetric])
  have tk: "take (?u + 1) (extended name g n b) = used b @ [?N]"
    using len assms(2) t by (simp add: extended_def end_at_def Let_def take_Suc_conv_app_nth)
  have rest: "mark (extended name g n b ! (?u + 1)) = END_MARK" if "?u + 1 < 64"
    using that d len(1) nth_mem [of "?u + 1" ?d]
    by (subst mark_def, subst hd_conv_nth) (auto simp: extended_def end_at_def Let_def)
  have all: "\<forall>e \<in> set (used b @ [?N]). mark e \<noteq> END_MARK"
    using N assms(4) by (auto simp: used_def dest: set_takeWhileD)
  show "takeWhile (\<lambda>e. mark e \<noteq> END_MARK) (extended name g n b) = used b @ [?N]"
  proof (cases "?u + 1 < 64")
    case True
    have "extended name g n b = (used b @ [?N]) @ (extended name g n b ! (?u + 1)) # drop (?u + 2) (extended name g n b)"
      using tk True l id_take_nth_drop [of "?u + 1" "extended name g n b"] by simp
    then show ?thesis by (rule takeWhile_stop) (use rest [OF True] all in auto)
  next
    case False
    then have eq: "extended name g n b = used b @ [?N]" using tk l assms(2) by simp
    show ?thesis unfolding eq using all by (simp only: takeWhile_eq_all_conv)
  qed
qed

text \<open>Flushing changes the bytes of the image, not the directory in memory.\<close>

lemma flush_directory_frame [simp]:
  "Directory (flush_directory b) = Directory b" "disksize (flush_directory b) = disksize b"
  "used (flush_directory b) = used b" "dir_wf (flush_directory b) = dir_wf b"
  by (simp_all add: flush_directory_def put_disk_def used_def dir_wf_def last_block_def)

lemma half_disksize: "unat (ucast (disksize b div 2) :: u64) = unat (disksize b div 2)" "unat (disksize b div 2) < 2 ^ 31"
proof -
  have "unat (disksize b) < 2 ^ 32" using unsigned_less [of "disksize b", where ?'a = nat] by simp
  then show h: "unat (disksize b div 2) < 2 ^ 31" by (simp add: unat_div less_mult_imp_div_less)
  then show "unat (ucast (disksize b div 2) :: u64) = unat (disksize b div 2)"
    by (simp add: unsigned_ucast_eq take_bit_nat_eq_self)
qed

lemma gap_for_finds:
  assumes "dir_wf b" "1 \<le> unat (rounded maxsize div 2)"
  shows "if gap_for maxsize b = 0 then \<forall>g \<ge> 1. \<not> free_area (last_block b) (unat (rounded maxsize div 2)) g (used b)
     else 1 \<le> unat (gap_for maxsize b) \<and> free_area (last_block b) (unat (rounded maxsize div 2)) (unat (gap_for maxsize b)) (used b)"
proof -
  let ?l = "last_block b" and ?q = "qsort (used b)"
  have N: "2 \<le> unat (disksize b div 2)" "unat (disksize b div 2) = Suc ?l" "?l < 2 ^ 31"
    using assms(1) half_disksize(2) [of b] by (auto simp: dir_wf_def last_block_def)
  have e: "\<forall>e \<in> set (used b). mark e \<noteq> DEL_MARK \<and> placed ?l e" and d: "sorted_wrt (\<lambda>e f. extent e \<inter> extent f = {}) (used b)"
    using assms(1) by (auto simp: dir_wf_def)
  have q: "set ?q = set (used b)" "mset ?q = mset (used b)" "sorted_wrt earlier ?q" using qsort_sorts [OF e N(3)] by auto
  have "sorted_wrt (\<lambda>e f. extent e \<inter> extent f = {}) ?q"
    using sorted_wrt_perm [OF q(2) [symmetric] d] by blast
  then have "laid ?l 1 ?q" using e q N by (intro laid_sorted) (auto simp: placed_def)
  then have "let g = gap_for maxsize b in
     (if g = 0 then \<forall>g \<ge> unat (1 :: u64). \<not> free_area ?l (unat (rounded maxsize div 2)) g ?q
      else unat (1 :: u64) \<le> unat g \<and> free_area ?l (unat (rounded maxsize div 2)) (unat g) ?q)"
    unfolding gap_for_def using N half_disksize(1) [of b] assms(2) by (intro find_gap_finds) auto
  moreover have "free_area ?l k g ?q = free_area ?l k g (used b)" for k g using q(1) by (simp add: free_area_def)
  ultimately show ?thesis by (simp only: Let_def unsigned_1)
qed

definition valid_name :: "string \<Rightarrow> bool" where
  "valid_name name \<longleftrightarrow> name \<noteq> [] \<and> hd name \<noteq> DEL_MARK \<and> END_MARK \<notin> set name"

lemma valid_name_hd: "valid_name name \<Longrightarrow> name \<noteq> []" "valid_name name \<Longrightarrow> hd name \<notin> {END_MARK, DEL_MARK}"
  by (cases name; auto simp: valid_name_def)+

lemma rounded_half:
  assumes "maxsize \<noteq> 0" "maxsize \<noteq> - 1"
  shows "unat (rounded maxsize div 2) = (unat maxsize + 1) div 2" "1 \<le> (unat maxsize + 1) div 2"
proof -
  have "unat (maxsize + 1) = Suc (unat maxsize)" using assms(2) by (simp add: unat_Suc_word)
  then show "unat (rounded maxsize div 2) = (unat maxsize + 1) div 2"
    by (auto simp: rounded_def unat_div word_unat_eq_iff unat_mod)
  show "1 \<le> (unat maxsize + 1) div 2" using assms(1) by (simp add: unat_gt_0 Suc_le_eq div_greater_zero_iff)
qed

lemma new_entry_fields [simp]:
  "StartingBlock (new_entry name g n e) = g" "ReservedBlocks (new_entry name g n e) = n" "FileSize (new_entry name g n e) = 0"
  by (simp_all add: new_entry_def)

lemma name_of_new: "valid_name name \<Longrightarrow> name_of (new_entry name g n e) = name"
  unfolding name_of_def by (rule takeWhile_stop) (auto simp: new_entry_def set_name_def valid_name_def)

lemma mark_new: "valid_name name \<Longrightarrow> mark (new_entry name g n e) = hd name"
  by (auto simp: mark_def new_entry_def set_name_def valid_name_def hd_append)

lemma dir_wf_extended:
  assumes "dir_wf b" "valid_name name" "length name < 32" "length (used b) < 64" "1 \<le> unat n" "1 \<le> unat g"
    "free_area (last_block b) (unat n) (unat g) (used b)"
  shows "dir_wf (b\<lparr>Directory := extended name g n b\<rparr>)"
    "used (b\<lparr>Directory := extended name g n b\<rparr>) = used b @ [new_entry name g n (Directory b ! length (used b))]"
proof -
  let ?b = "b\<lparr>Directory := extended name g n b\<rparr>" and ?N = "new_entry name g n (Directory b ! length (used b))"
  note ext = used_extended [OF assms(1,4) valid_name_hd [OF assms(2)] assms(3), of g n]
  show u: "used ?b = used b @ [?N]" using ext(1) by (simp add: used_def)
  have "placed (last_block b) ?N" "mark ?N \<noteq> DEL_MARK"
    using assms by (auto simp: placed_def block_end_def free_area_def mark_new valid_name_def)
  moreover have "\<forall>e \<in> set (used b). extent e \<inter> extent ?N = {}"
    using assms(7) by (auto simp: free_area_def extent_def [of ?N] block_end_def)
  moreover have "\<forall>e \<in> set (used b). mark e \<noteq> DEL_MARK \<and> placed (last_block b) e"
    and "sorted_wrt (\<lambda>e f. extent e \<inter> extent f = {}) (used b)" and "2 \<le> unat (disksize b div 2)" "last_block ?b = last_block b"
    using assms(1) by (auto simp: dir_wf_def last_block_def)
  ultimately show "dir_wf ?b" unfolding dir_wf_def [of ?b] using ext(2,3) u by (simp add: sorted_wrt_append)
qed


text \<open>An empty directory on a disk of 24 MiB.\<close>

definition blank :: bmfs where
  "blank = empty_image\<lparr>disksize := 24, disk_len := 25165824\<rparr>"

lemma blank_wf: "used blank = []" "dir_wf blank" "last_block blank = 11" "findfile name (Directory blank) = None"
proof -
  have z: "replicate 64 zero_entry = zero_entry # replicate 63 zero_entry" by (simp flip: replicate_Suc)
  have m: "mark zero_entry = END_MARK" "length (FileName zero_entry) = 32" by (simp_all add: mark_def zero_entry_def)
  show u: "used blank = []" using m by (simp add: used_def blank_def empty_image_def z)
  show "last_block blank = 11" by (simp add: last_block_def blank_def)
  show "dir_wf blank" using m by (simp add: dir_wf_def u) (simp add: blank_def empty_image_def)
  show "findfile name (Directory blank) = None" using m by (simp add: findfile_def blank_def empty_image_def z)
qed


section \<open>The directory on the disk\<close>

lemma char_of_byte: "char_of (unat (of_char c :: u8)) = c"
proof -
  have "unat (of_nat (of_char c) :: u8) = of_char c" by (simp add: unat_of_nat)
  then show ?thesis by (metis of_nat_of_char char_of_char)
qed

lemma decode_encode: "length (FileName e) = 32 \<Longrightarrow> decode_entry (encode_entry e) = e"
  by (cases e) (simp add: decode_entry_def encode_entry_def le_bytes_8 char_of_byte comp_def)

lemma length_encode: "length (FileName e) = 32 \<Longrightarrow> length (encode_entry e) = 64"
  by (simp add: encode_entry_def)

lemma concat_blocks:
  assumes "\<forall>e \<in> set es. length (f e) = k" "i < length es"
  shows "take k (drop (k * i) (concat (map f es))) = f (es ! i)"
  using assms
proof (induction es arbitrary: i)
  case (Cons e es)
  then show ?case by (cases i) simp_all
qed simp

lemma length_concat_entries: "\<forall>e \<in> set es. length (f e) = k \<Longrightarrow> length (concat (map f es)) = k * length es"
  by (induction es) simp_all

lemma decode_directory_encode:
  assumes "length es = 64" "\<forall>e \<in> set es. length (FileName e) = 32"
  shows "decode_directory (concat (map encode_entry es)) = es"
proof (rule nth_equalityI)
  fix i assume "i < length (decode_directory (concat (map encode_entry es)))"
  then have i: "i < 64" by (simp add: decode_directory_def)
  have "take 64 (drop (64 * i) (concat (map encode_entry es))) = encode_entry (es ! i)"
    using assms i by (intro concat_blocks) (simp_all add: length_encode)
  then show "decode_directory (concat (map encode_entry es)) ! i = es ! i"
    using assms i by (simp add: decode_directory_def decode_encode)
qed (simp add: decode_directory_def assms)

lemma read_write_disk: "read_disk (write_disk d off bs) off (length bs) = bs"
  by (rule nth_equalityI) (simp_all add: read_disk_def write_disk_def)

text \<open>The bytes of the directory.\<close>

definition dir_bytes :: "bmfs \<Rightarrow> bool" where
  "dir_bytes b \<longleftrightarrow> length (Directory b) = 64 \<and> (\<forall>e \<in> set (Directory b). length (FileName e) = 32)"

lemma flush_directory_stored:
  assumes "dir_bytes b"
  shows "decode_directory (read_disk (disk (flush_directory b)) 4096 4096) = Directory b"
    "a < 4096 \<or> 8192 \<le> a \<Longrightarrow> disk (flush_directory b) a = disk b a"
    "disk_len (flush_directory b) = max (disk_len b) 8192"
proof -
  have l: "length (concat (map encode_entry (Directory b))) = 4096"
    using length_concat_entries [of "Directory b" encode_entry 64] assms by (simp add: dir_bytes_def length_encode)
  show "decode_directory (read_disk (disk (flush_directory b)) 4096 4096) = Directory b"
    using read_write_disk [of "disk b" 4096 "concat (map encode_entry (Directory b))"] l assms decode_directory_encode
    by (simp add: flush_directory_def put_disk_def dir_bytes_def)
  show "a < 4096 \<or> 8192 \<le> a \<Longrightarrow> disk (flush_directory b) a = disk b a"
    using l by (auto simp: flush_directory_def put_disk_def write_disk_def)
  show "disk_len (flush_directory b) = max (disk_len b) 8192" using l by (simp add: flush_directory_def put_disk_def)
qed

section \<open>Writing and reading a file\<close>

definition image_wf :: "bmfs \<Rightarrow> bool" where
  "image_wf b \<longleftrightarrow> dir_wf b \<and> unat (disksize b) * 1048576 \<le> disk_len b \<and>
     (\<forall>e \<in> set (used b). unat (FileSize e) \<le> unat (ReservedBlocks e) * BLOCK)"

lemma image_dir_bytes: "dir_wf b \<Longrightarrow> dir_bytes b"
  by (simp add: dir_wf_def dir_bytes_def)

lemma find_from_used:
  assumes "find_from name i es = Some (e, k)"
  shows "i \<le> k \<and> k - i < length (takeWhile (\<lambda>e. mark e \<noteq> END_MARK) es) \<and> e = es ! (k - i) \<and> name_of e = name"
  using assms
proof (induction es arbitrary: i)
  case (Cons f es)
  consider "mark f = END_MARK" | "mark f \<noteq> END_MARK" "mark f \<noteq> DEL_MARK" "name = name_of f"
    | "mark f \<noteq> END_MARK" "find_from name i (f # es) = find_from name (Suc i) es"
    by (metis find_from.simps(2))
  then show ?case
  proof cases
    case 3
    then have "find_from name (Suc i) es = Some (e, k)" using Cons.prems by metis
    from Cons.IH [OF this] have "Suc i \<le> k \<and> k - Suc i < length (takeWhile (\<lambda>e. mark e \<noteq> END_MARK) es) \<and>
        e = es ! (k - Suc i) \<and> name_of e = name" .
    then show ?thesis using 3(1) by (auto simp: nth_Cons' less_Suc_eq_le Suc_le_eq)
  qed (use Cons.prems in auto)
qed simp

lemma findfile_used:
  assumes "findfile name (Directory b) = Some (e, k)"
  shows "k < length (used b)" "k < length (Directory b)" "Directory b ! k = e" "used b ! k = e" "e \<in> set (used b)" "name_of e = name"
proof -
  have f: "k < length (used b) \<and> Directory b ! k = e \<and> name_of e = name"
    using find_from_used [OF assms [unfolded findfile_def]] by (auto simp: used_def)
  then show "k < length (used b)" "Directory b ! k = e" "name_of e = name" by auto
  show "used b ! k = e" using f by (simp add: used_def takeWhile_nth)
  then show "e \<in> set (used b)" using f nth_mem by blast
  show "k < length (Directory b)"
    using f length_takeWhile_le [of "\<lambda>e. mark e \<noteq> END_MARK" "Directory b"] by (simp add: used_def)
qed

lemma find_from_update:
  assumes "FileName e' = FileName (es ! k)" "k < length es"
  shows "find_from name i (es[k := e']) =
    map_option (\<lambda>(e, j). (if j = i + k then e' else e, j)) (find_from name i es)"
  using assms
proof (induction es arbitrary: i k)
  case (Cons f es)
  show ?case
  proof (cases k)
    case 0
    then have m: "mark e' = mark f" "name_of e' = name_of f" using Cons.prems by (simp_all add: mark_def name_of_def)
    have "find_from name (Suc i) es = map_option (\<lambda>(e, j). (if j = i then e' else e, j)) (find_from name (Suc i) es)"
      by (cases "find_from name (Suc i) es") (auto dest!: find_from_used)
    then show ?thesis using 0 m by simp
  next
    case (Suc j)
    then show ?thesis using Cons.prems Cons.IH [of j "Suc i"] by simp
  qed
qed simp

lemma block_offset:
  assumes "placed l e" "l < 2 ^ 31"
  shows "unat (StartingBlock e * of_nat BLOCK) = unat (StartingBlock e) * BLOCK" "8192 \<le> unat (StartingBlock e) * BLOCK"
    "unat (ReservedBlocks e * of_nat BLOCK) = unat (ReservedBlocks e) * BLOCK"
  using assms by (auto simp: placed_def block_end_def unat_word_ariths)

lemma last_block_less: "last_block b < 2 ^ 31"
  using half_disksize(2) [of b] by (simp add: last_block_def)

lemma image_placed: "image_wf b \<Longrightarrow> e \<in> set (used b) \<Longrightarrow> placed (last_block b) e"
  by (simp add: image_wf_def dir_wf_def)

lemma files_apart:
  assumes "image_wf b" "j < length (used b)" "k < length (used b)" "j \<noteq> k"
  shows "extent (used b ! j) \<inter> extent (used b ! k) = {}"
proof -
  have s: "sorted_wrt (\<lambda>e f. extent e \<inter> extent f = {}) (used b)" using assms(1) by (simp add: image_wf_def dir_wf_def)
  show ?thesis
    using sorted_wrt_nth_less [OF s, of j k] sorted_wrt_nth_less [OF s, of k j] assms(2-4) by (cases "j < k") auto
qed

lemma placed_in_image:
  assumes "image_wf b" "e \<in> set (used b)" "i < unat (FileSize e)"
  shows "unat (StartingBlock e) * BLOCK + i < disk_len b"
    "(unat (StartingBlock e) * BLOCK + i) div BLOCK \<in> extent e"
proof -
  have e: "placed (last_block b) e" "unat (FileSize e) \<le> unat (ReservedBlocks e) * BLOCK" "unat (disksize b) * 1048576 \<le> disk_len b"
    using assms(1,2) by (auto simp: image_wf_def dir_wf_def)
  have i: "unat (StartingBlock e) * BLOCK + i < block_end e * BLOCK"
    using e(2) assms(3) by (simp add: block_end_def add_mult_distrib)
  have "block_end e * BLOCK \<le> last_block b * BLOCK" using e(1) by (simp add: placed_def)
  also have "\<dots> \<le> (unat (disksize b) div 2) * BLOCK" by (simp add: last_block_def unat_div)
  also have "\<dots> \<le> unat (disksize b) * 1048576" by simp
  finally show "unat (StartingBlock e) * BLOCK + i < disk_len b" using i e(3) by linarith
  have "(unat (StartingBlock e) * BLOCK + i) div BLOCK < block_end e" using i by (simp add: less_mult_imp_div_less)
  then show "(unat (StartingBlock e) * BLOCK + i) div BLOCK \<in> extent e" by (simp add: extent_def)
qed

definition file_at :: "bmfs \<Rightarrow> BMFSEntry \<Rightarrow> u8 list" where
  "file_at b e = map (\<lambda>i. getc_disk b (unat (StartingBlock e) * BLOCK + i)) [0..<unat (FileSize e)]"

lemma bmfs_read_eq:
  assumes "image_wf b"
  shows "bmfs_read name b = (case findfile name (Directory b) of None \<Rightarrow> File_Not_Found
     | Some (e, _) \<Rightarrow> if unat (FileSize e) \<ge> 2 ^ 31 then Overrun else Contents (file_at b e))"
proof (cases "findfile name (Directory b)")
  case (Some r)
  obtain e k where r: "r = (e, k)" by (cases r)
  have "e \<in> set (used b)" using findfile_used(5) Some r by blast
  then have "placed (last_block b) e" using assms by (simp add: image_wf_def dir_wf_def)
  then show ?thesis using Some r block_offset(1) last_block_less by (simp add: bmfs_read_def file_at_def)
qed (simp add: bmfs_read_def)

text \<open>The image with the contents of an entry replaced.\<close>

definition stored :: "BMFSEntry \<Rightarrow> nat \<Rightarrow> u8 list \<Rightarrow> bmfs \<Rightarrow> bmfs" where
  "stored e k bs b = flush_directory ((put_disk (unat (StartingBlock e) * BLOCK) bs b)
     \<lparr>Directory := (Directory b)[k := (Directory b ! k)\<lparr>FileSize := of_nat (length bs)\<rparr>]\<rparr>)"

lemma bmfs_write_eq:
  assumes "image_wf b" "findfile name (Directory b) = Some (e, k)" "fs name = Some bs" "length bs < 2 ^ 31"
  shows "bmfs_write fs name b =
     (if unat (ReservedBlocks e) * BLOCK < length bs then (Not_Enough_Space, b) else (Done, stored e k bs b))"
proof -
  have "e \<in> set (used b)" by (rule findfile_used(5) [OF assms(2)])
  then have p: "placed (last_block b) e" using assms(1) by (simp add: image_wf_def dir_wf_def)
  have "ReservedBlocks e * of_nat BLOCK < of_nat (length bs) \<longleftrightarrow> unat (ReservedBlocks e) * BLOCK < length bs"
    using block_offset(3) [OF p last_block_less] unat_of_nat_u64 [of "length bs"] assms(4) by (simp add: word_less_nat_alt)
  then show ?thesis
    using assms block_offset(1) [OF p last_block_less] by (simp add: bmfs_write_def stored_def Let_def put_disk_def)
qed

lemma used_update:
  assumes "FileName e' = FileName (es ! k)"
  shows "takeWhile (\<lambda>e. mark e \<noteq> END_MARK) (es[k := e']) = (takeWhile (\<lambda>e. mark e \<noteq> END_MARK) es)[k := e']"
  using assms
proof (induction es arbitrary: k)
  case (Cons f es)
  then show ?case by (cases k) (auto simp: mark_def)
qed simp

lemma sorted_wrt_update:
  assumes "sorted_wrt P xs" "\<And>y. P y y' = P y (xs ! k)" "\<And>y. P y' y = P (xs ! k) y"
  shows "sorted_wrt P (xs[k := y'])"
proof (unfold sorted_wrt_iff_nth_less, intro allI impI)
  fix i j assume ij: "i < j" "j < length (xs[k := y'])"
  then have "P (xs ! i) (xs ! j)" using assms(1) by (simp add: sorted_wrt_iff_nth_less)
  then show "P (xs[k := y'] ! i) (xs[k := y'] ! j)"
    using ij assms(2,3) by (cases "i = k"; cases "j = k") auto
qed

lemma dir_wf_update:
  assumes "dir_wf b" "k < length (used b)" "FileName e' = FileName (used b ! k)"
    "StartingBlock e' = StartingBlock (used b ! k)" "ReservedBlocks e' = ReservedBlocks (used b ! k)"
    "Directory c = (Directory b)[k := e']" "disksize c = disksize b"
  shows "dir_wf c" "used c = (used b)[k := e']"
proof -
  let ?o = "used b ! k"
  have o: "Directory b ! k = ?o" using assms(2) by (simp add: used_def takeWhile_nth)
  have o': "?o \<in> set (used b)" using assms(2) by simp
  show u: "used c = (used b)[k := e']" using o assms(3,6) by (simp add: used_def used_update)
  have same: "placed l e' = placed l ?o" "extent e' = extent ?o" "mark e' = mark ?o" for l
    using assms(3-5) by (simp_all add: placed_def extent_def block_end_def mark_def)
  have "\<forall>e \<in> set (Directory c). length (FileName e) = 32"
    using assms(1,3,6) o' set_update_subset_insert [of "Directory b" k e'] set_takeWhileD [of ?o _ "Directory b"]
    by (auto simp: dir_wf_def used_def)
  moreover have "\<forall>e \<in> insert e' (set (used b)). mark e \<noteq> DEL_MARK \<and> placed (last_block c) e"
    using assms(1,7) o' same by (simp add: dir_wf_def last_block_def)
  then have "\<forall>e \<in> set (used c). mark e \<noteq> DEL_MARK \<and> placed (last_block c) e"
    using set_update_subset_insert [of "used b" k e'] unfolding u by blast
  moreover have "sorted_wrt (\<lambda>e f. extent e \<inter> extent f = {}) (used c)"
    unfolding u by (rule sorted_wrt_update) (use assms(1) same in \<open>auto simp: dir_wf_def\<close>)
  ultimately show "dir_wf c" using assms(1,6,7) by (simp add: dir_wf_def)
qed

lemma image_wf_stored:
  assumes "image_wf b" "findfile name (Directory b) = Some (e, k)" "length bs \<le> unat (ReservedBlocks e) * BLOCK" "length bs < 2 ^ 31"
  shows "image_wf (stored e k bs b)"
    "Directory (stored e k bs b) = (Directory b)[k := e\<lparr>FileSize := of_nat (length bs)\<rparr>]"
    "disk_len b \<le> disk_len (stored e k bs b)"
    "8192 \<le> a \<Longrightarrow> disk (stored e k bs b) a = write_disk (disk b) (unat (StartingBlock e) * BLOCK) bs a"
    "decode_directory (read_disk (disk (stored e k bs b)) 4096 4096) = Directory (stored e k bs b)"
proof -
  note f = findfile_used [OF assms(2)]
  let ?e = "e\<lparr>FileSize := of_nat (length bs)\<rparr>"
  let ?c = "(put_disk (unat (StartingBlock e) * BLOCK) bs b)\<lparr>Directory := (Directory b)[k := ?e]\<rparr>"
  have st: "stored e k bs b = flush_directory ?c" using f(3) by (simp add: stored_def)
  have wf: "dir_wf b" using assms(1) by (simp add: image_wf_def)
  show "Directory (stored e k bs b) = (Directory b)[k := ?e]" by (simp add: st)
  have d: "dir_wf ?c" "used ?c = (used b)[k := ?e]"
    using dir_wf_update [OF wf f(1), of ?e ?c] f(4) by (simp_all add: put_disk_def)
  note fl = flush_directory_stored [OF image_dir_bytes [OF d(1)]]
  show "decode_directory (read_disk (disk (stored e k bs b)) 4096 4096) = Directory (stored e k bs b)" using fl(1) by (simp add: st)
  show len: "disk_len b \<le> disk_len (stored e k bs b)" by (simp add: st fl(3)) (simp add: put_disk_def)
  show "8192 \<le> a \<Longrightarrow> disk (stored e k bs b) a = write_disk (disk b) (unat (StartingBlock e) * BLOCK) bs a"
    using fl(2) [of a] by (simp add: st) (simp add: put_disk_def)
  have "unat (of_nat (length bs) :: u64) = length bs" using assms(4) by (intro unat_of_nat_u64) simp
  then have "\<forall>x \<in> set ((used b)[k := ?e]). unat (FileSize x) \<le> unat (ReservedBlocks x) * BLOCK"
    using assms(1,3) set_update_subset_insert [of "used b" k ?e] by (auto simp: image_wf_def)
  moreover have "disksize ?c = disksize b" by (simp add: put_disk_def)
  ultimately show "image_wf (stored e k bs b)"
    using d assms(1) len unfolding image_wf_def st by simp
qed

lemma block_of: "s * BLOCK \<le> a \<Longrightarrow> a < t * BLOCK \<Longrightarrow> a div BLOCK \<in> {s ..< t}"
  using div_le_mono [of "s * BLOCK" a BLOCK] by (simp add: less_mult_imp_div_less)

lemma file_at_stored:
  assumes "image_wf b" "findfile name (Directory b) = Some (e, k)" "length bs \<le> unat (ReservedBlocks e) * BLOCK" "length bs < 2 ^ 31"
  shows "file_at (stored e k bs b) (e\<lparr>FileSize := of_nat (length bs)\<rparr>) = bs"
    "\<And>f. f \<in> set (used b) \<Longrightarrow> extent f \<inter> extent e = {} \<Longrightarrow> file_at (stored e k bs b) f = file_at b f"
proof -
  note st = image_wf_stored [OF assms] and f = findfile_used [OF assms(2)]
  let ?e = "e\<lparr>FileSize := of_nat (length bs)\<rparr>"
  have n: "unat (of_nat (length bs) :: u64) = length bs" using assms(4) by (intro unat_of_nat_u64) simp
  have p: "8192 \<le> unat (StartingBlock g) * BLOCK" if "g \<in> set (used b)" for g
    by (rule block_offset(2) [OF image_placed [OF assms(1) that] last_block_less])
  have "?e \<in> set (used (stored e k bs b))"
    using st(2) f(1,3) used_update [of ?e "Directory b" k]
    by (simp add: used_def) (metis length_list_update nth_list_update_eq nth_mem)
  then have "unat (StartingBlock e) * BLOCK + i < disk_len (stored e k bs b)" if "i < length bs" for i
    using placed_in_image(1) [OF st(1), of ?e i] that n by simp
  then show "file_at (stored e k bs b) ?e = bs"
    using st(4) p [OF f(5)] n by (intro nth_equalityI) (simp_all add: file_at_def getc_disk_def write_disk_def)
  fix g assume g: "g \<in> set (used b)" "extent g \<inter> extent e = {}"
  have "getc_disk (stored e k bs b) (unat (StartingBlock g) * BLOCK + i) = getc_disk b (unat (StartingBlock g) * BLOCK + i)"
    if i: "i < unat (FileSize g)" for i
  proof -
    let ?a = "unat (StartingBlock g) * BLOCK + i"
    have in_g: "?a < disk_len b" "?a div BLOCK \<in> extent g" using placed_in_image [OF assms(1) g(1) i] by simp_all
    have out: "\<not> (unat (StartingBlock e) * BLOCK \<le> ?a \<and> ?a < unat (StartingBlock e) * BLOCK + length bs)"
    proof
      assume a: "unat (StartingBlock e) * BLOCK \<le> ?a \<and> ?a < unat (StartingBlock e) * BLOCK + length bs"
      then have "?a < block_end e * BLOCK" using assms(3) by (simp add: block_end_def add_mult_distrib)
      then have "?a div BLOCK \<in> extent e" unfolding extent_def using a block_of by blast
      then show False using in_g(2) g(2) by blast
    qed
    have "8192 \<le> ?a" using p [OF g(1)] by linarith
    then have "disk (stored e k bs b) ?a = disk b ?a" using st(4) [of ?a] out unfolding write_disk_def by (simp only: if_False)
    then show ?thesis using in_g(1) st(3) by (simp add: getc_disk_def)
  qed
  then show "file_at (stored e k bs b) g = file_at b g" by (simp add: file_at_def)
qed

text \<open>
  C27. On a well-formed image \<open>write\<close> of a local file succeeds exactly when it fits into the reserved blocks of its
  entry. Then \<open>read\<close> returns the bytes of the file, every other file reads as before, the image is
  well-formed, and the directory read back from the image when it is opened next is the one in memory.
\<close>

theorem write_read_file:
  assumes "image_wf b" "findfile name (Directory b) = Some (e, k)" "fs name = Some bs" "length bs < 2 ^ 31"
  shows "let (m, b') = bmfs_write fs name b
    in (m = Done \<longleftrightarrow> length bs \<le> unat (ReservedBlocks e) * BLOCK) \<and> (m \<noteq> Done \<longrightarrow> b' = b) \<and>
       (m = Done \<longrightarrow> bmfs_read name b' = Contents bs \<and> (\<forall>other. other \<noteq> name \<longrightarrow> bmfs_read other b' = bmfs_read other b) \<and>
          image_wf b' \<and> Directory (open_image (disk b', disk_len b')) = Directory b')"
proof (cases "length bs \<le> unat (ReservedBlocks e) * BLOCK")
  case True
  let ?b = "stored e k bs b" and ?e = "e\<lparr>FileSize := of_nat (length bs)\<rparr>"
  note st = image_wf_stored [OF assms(1,2) True assms(4)] and f = findfile_used [OF assms(2)]
    and at = file_at_stored [OF assms(1,2) True assms(4)]
  have w: "bmfs_write fs name b = (Done, ?b)" using bmfs_write_eq [of b name e k fs bs] assms True by simp
  have find: "findfile other (Directory ?b) = map_option (\<lambda>(g, j). (if j = k then ?e else g, j)) (findfile other (Directory b))" for other
    using find_from_update [of ?e "Directory b" k other 0] f(2,3) st(2) by (simp add: findfile_def)
  have n: "unat (of_nat (length bs) :: u64) = length bs" using assms(4) by (intro unat_of_nat_u64) simp
  have "bmfs_read name ?b = Contents bs"
    using bmfs_read_eq [OF st(1), of name] find [of name] assms(2,4) at(1) n by simp
  moreover have "bmfs_read other ?b = bmfs_read other b" if "other \<noteq> name" for other
  proof (cases "findfile other (Directory b)")
    case None
    then show ?thesis using bmfs_read_eq [OF st(1), of other] bmfs_read_eq [OF assms(1), of other] find [of other] by simp
  next
    case (Some r)
    obtain g j where r: "r = (g, j)" by (cases r)
    note g = findfile_used [OF Some [unfolded r]]
    have jk: "j \<noteq> k" using that f(3,6) g(3,6) by auto
    then have "extent g \<inter> extent e = {}" using files_apart [OF assms(1) g(1) f(1)] f(4) g(4) by simp
    then show ?thesis
      using bmfs_read_eq [OF st(1), of other] bmfs_read_eq [OF assms(1), of other] find [of other] Some r jk at(2) [OF g(5)] by simp
  qed
  moreover have "Directory (open_image (disk ?b, disk_len ?b)) = Directory ?b"
    using st(5) by (simp add: open_image_def)
  ultimately show ?thesis using w st(1) True by simp
next
  case False
  then show ?thesis using bmfs_write_eq [of b name e k fs bs] assms by simp
qed

text \<open>A disk with the file \<open>a\<close> of one block.\<close>

definition one_entry :: BMFSEntry where
  "one_entry = zero_entry\<lparr>FileName := CHR ''a'' # replicate 31 END_MARK, StartingBlock := 1, ReservedBlocks := 1\<rparr>"

definition one_file :: bmfs where
  "one_file = blank\<lparr>Directory := one_entry # replicate 63 zero_entry\<rparr>"

lemma one_file_wf: "used one_file = [one_entry]" "image_wf one_file" "findfile ''a'' (Directory one_file) = Some (one_entry, 0)"
proof -
  have z: "replicate 63 zero_entry = zero_entry # replicate 62 zero_entry" by (simp flip: replicate_Suc)
  have m: "mark zero_entry = END_MARK" "length (FileName zero_entry) = 32" "mark one_entry = CHR ''a''"
    "length (FileName one_entry) = 32" "name_of one_entry = ''a''" "placed 11 one_entry" "FileSize one_entry = 0"
    by (simp_all add: mark_def zero_entry_def one_entry_def name_of_def placed_def block_end_def numeral_eq_Suc)
  show u: "used one_file = [one_entry]" using m by (simp add: used_def one_file_def z)
  have l: "disksize one_file = 24" "disk_len one_file = 25165824" "last_block one_file = 11"
    by (simp_all add: one_file_def blank_def last_block_def)
  have "dir_wf one_file" unfolding dir_wf_def l u using m by (auto simp: one_file_def)
  then show "image_wf one_file" unfolding image_wf_def l u using m by simp
  show "findfile ''a'' (Directory one_file) = Some (one_entry, 0)" using m by (simp add: findfile_def one_file_def)
qed

lemma write_read_file_witness:
  "fst (bmfs_write [''a'' \<mapsto> [1, 2, 3]] ''a'' one_file) = Done \<and>
   bmfs_read ''a'' (snd (bmfs_write [''a'' \<mapsto> [1, 2, 3]] ''a'' one_file)) = Contents [1, 2, 3]"
  using write_read_file [OF one_file_wf(2,3), of "[''a'' \<mapsto> [1, 2, 3]]" "[1, 2, 3]"]
  by (auto simp: one_entry_def Let_def split_beta)

section \<open>Deleted entries\<close>

text \<open>
  With deleted entries the search for a gap is wrong: the blocks of a deleted entry count as the end of the
  previous file. Let the file \<open>f\<close> follow a deleted one \<open>d\<close>. When the new file fits neither before \<open>f\<close> nor
  behind \<open>f\<close>, but would fit if \<open>f\<close> were not there, \<open>create\<close> reports success and places it on the blocks of \<open>f\<close>.
\<close>

theorem create_overlaps:
  assumes "Directory b = d # f # z # rest" "mark d = DEL_MARK" "mark f \<notin> {END_MARK, DEL_MARK}" "mark z = END_MARK"
    and "placed (last_block b) f" "StartingBlock d + ReservedBlocks d = StartingBlock f"
    and "name \<noteq> name_of f" "length name < 32" "maxsize \<noteq> 0" "maxsize \<noteq> - 1"
    and "unat (StartingBlock f) - 1 < (unat maxsize + 1) div 2" "last_block b - block_end f < (unat maxsize + 1) div 2"
    and "unat (StartingBlock f) + (unat maxsize + 1) div 2 \<le> last_block b"
  shows "fst (create name maxsize b) = Done \<and>
    Directory (snd (create name maxsize b)) ! 1 = f \<and>
    extent (Directory (snd (create name maxsize b)) ! 0) \<inter> extent f \<noteq> {}"
proof -
  let ?n = "rounded maxsize div 2" and ?N = "ucast (disksize b div 2) :: u64" and ?s = "StartingBlock f"
  have n: "unat ?n = (unat maxsize + 1) div 2" using rounded_half(1) [OF assms(9,10)] .
  have p: "1 \<le> unat ?s" "?s \<noteq> 0" "unat ?s < block_end f" "block_end f \<le> last_block b"
    using assms(5) by (auto simp: placed_def block_end_def)
  have "unat ?N \<noteq> 0" using half_disksize(1) [of b] p(3,4) by (simp add: last_block_def)
  then have N: "unat (?N - 1) = last_block b"
    using half_disksize(1) [of b] by (subst unat_pred_word) (auto simp: last_block_def)
  have e: "unat (?s + ReservedBlocks f) = block_end f"
    using unat_block_end [OF assms(5)] last_block_less [of b] by simp
  have g1: "\<not> ?n \<le> ?s - 1" using p(1,2) assms(11) n by (simp add: word_le_nat_alt unat_pred_word)
  have g2: "\<not> ?n \<le> ?N - 1 - (?s + ReservedBlocks f)"
    using N e p(4) assms(12) n by (simp add: word_le_nat_alt unat_sub)
  have g3: "?n \<le> ?N - 1 - ?s" using N p assms(13) n by (simp add: word_le_nat_alt unat_sub)
  have q: "qsort [d, f] = [f, d]" using assms(2) by (simp add: qsort_def StartingBlockCmp_def)
  have gap: "find_gap ?N ?n 1 (qsort [d, f]) = ?s"
    unfolding q using g1 g2 g3 assms(2,3,6) by (simp add: Let_def)
  have "findfile name (Directory b) = None" using assms(1-4,7) by (simp add: findfile_def)
  then have "create name maxsize b = (Done, flush_directory (b\<lparr>Directory := new_entry name ?s ?n d # f # z # rest\<rparr>))"
    using gap p(2) assms(1-4,8) by (simp add: create_def Let_def rounded_def new_entry_def)
  moreover have "unat ?s \<in> extent (new_entry name ?s ?n d) \<inter> extent f"
    using p(3) n rounded_half(2) [OF assms(9,10)] by (simp add: extent_def block_end_def)
  ultimately show ?thesis by auto
qed

text \<open>Files \<open>x\<close> (deleted) on block 1 and \<open>a\<close> on blocks 2 to 8 of a disk with 12 blocks; the new file has 5 blocks.\<close>

definition deleted_entry :: BMFSEntry where
  "deleted_entry = one_entry\<lparr>FileName := DEL_MARK # replicate 31 END_MARK\<rparr>"

definition big_entry :: BMFSEntry where
  "big_entry = one_entry\<lparr>StartingBlock := 2, ReservedBlocks := 7\<rparr>"

definition after_delete :: bmfs where
  "after_delete = blank\<lparr>Directory := deleted_entry # big_entry # zero_entry # replicate 61 zero_entry\<rparr>"

lemma create_overlaps_witness:
  "fst (create ''c'' 10 after_delete) = Done \<and>
   extent (Directory (snd (create ''c'' 10 after_delete)) ! 0) \<inter> extent big_entry \<noteq> {}"
proof -
  have "Directory after_delete = deleted_entry # big_entry # zero_entry # replicate 61 zero_entry" "last_block after_delete = 11"
    by (simp_all add: after_delete_def blank_def last_block_def)
  moreover have "mark deleted_entry = DEL_MARK" "mark big_entry \<notin> {END_MARK, DEL_MARK}" "mark zero_entry = END_MARK"
    "placed 11 big_entry" "block_end big_entry = 9" "''c'' \<noteq> name_of big_entry" "StartingBlock big_entry = 2"
    "StartingBlock deleted_entry + ReservedBlocks deleted_entry = StartingBlock big_entry"
    by (simp_all add: mark_def deleted_entry_def big_entry_def one_entry_def zero_entry_def placed_def block_end_def name_of_def takeWhile_replicate)
  ultimately show ?thesis
    using create_overlaps [of after_delete deleted_entry big_entry zero_entry "replicate 61 zero_entry" "''c''" 10] by simp
qed

end
