(* ===== verification/Bmfs_Image.thy ===== *)
theory Bmfs_Image
  imports Bmfs_Files
begin

text \<open>
  Creating a disk image with \<open>initialize\<close>: the size argument, the loops that fill the image and copy the boot
  files, and what the resulting image holds.
\<close>

section \<open>The size argument\<close>

text \<open>The value of a string of digits.\<close>

definition dec_value :: "string \<Rightarrow> nat" where
  "dec_value ds = foldl (\<lambda>n c. 10 * n + (of_char c - 48)) 0 ds"

lemma foldl_dec_mono: "n \<le> foldl (\<lambda>n c. 10 * n + (of_char c - 48 :: nat)) n ds"
proof (induction ds arbitrary: n)
  case (Cons c ds)
  have "n \<le> 10 * n + (of_char c - 48)" by simp
  then show ?case using Cons [of "10 * n + (of_char c - 48)"] by simp
qed simp

lemma parse_size_digits:
  assumes "\<forall>c \<in> set ds. digit_value c \<noteq> None" "foldl (\<lambda>n c. 10 * n + (of_char c - 48)) (unat n) ds < 2 ^ 64"
  shows "parse_size first n ds = Inr (of_nat (foldl (\<lambda>n c. 10 * n + (of_char c - 48)) (unat n) ds), 0)"
  using assms
proof (induction ds arbitrary: first n)
  case (Cons c ds)
  let ?d = "of_char c - 48 :: nat"
  have d: "digit_value c = Some ?d" using Cons.prems(1) by (auto simp: digit_value_def split: if_splits)
  have le: "10 * unat n + ?d < 2 ^ 64" using Cons.prems(2) foldl_dec_mono [of "10 * unat n + ?d" ds] by simp
  have m: "unat (n * 10) = 10 * unat n" using le by (simp add: unat_word_ariths)
  have a: "unat (n * 10 + of_nat ?d) = 10 * unat n + ?d"
    using le m by (simp add: unat_word_ariths unat_of_nat)
  show ?case
  proof (cases "n = 0")
    case True
    have "unat (of_nat ?d :: u64) = ?d" using le by (intro unat_of_nat_u64) simp
    then show ?thesis using Cons.IH [of "of_nat ?d" False] Cons.prems d True by simp
  next
    case False
    then have "n * 10 > n" using m by (simp add: word_less_nat_alt unat_gt_0)
    then show ?thesis using Cons.IH [of "n * 10 + of_nat ?d" False] Cons.prems d a by simp
  qed
qed simp

text \<open>
  A size in bytes that fits into 64 bits and is at least 6 MiB is accepted with its value.
\<close>

theorem disk_size_value:
  assumes "\<forall>c \<in> set ds. digit_value c \<noteq> None" "dec_value ds < 2 ^ 64" "6291456 \<le> dec_value ds"
  shows "disk_size ds = Inr (of_nat (dec_value ds))"
proof -
  have "parse_size True 0 ds = Inr (of_nat (dec_value ds), 0)"
    using parse_size_digits [of ds 0] assms by (simp add: dec_value_def)
  moreover have "unat (of_nat (dec_value ds) :: u64) = dec_value ds" by (rule unat_of_nat_u64 [OF assms(2)])
  ultimately show ?thesis using assms(3) by (simp add: disk_size_def word_less_nat_alt)
qed

text \<open>The check for an overflow misses values whose product with ten wraps around to something larger.\<close>

lemma disk_size_overflow: "disk_size ''30000000000000000000'' = Inr 11553255926290448384"
  by code_simp

section \<open>The loops\<close>

lemma write_disk_append:
  "write_disk (write_disk d off bs) (off + length bs) cs = write_disk d off (bs @ cs)"
  by (auto simp: write_disk_def nth_append fun_eq_iff)

lemma copy_file_eq:
  "bs \<noteq> [] \<Longrightarrow> copy_file pos bs b = (pos + length bs, put_disk pos bs b)"
proof (induction pos bs b rule: copy_file.induct)
  case (1 pos bs b)
  let ?c = "take bufferSize bs" and ?r = "drop bufferSize bs"
  have l: "length ?c + length ?r = length bs" "?c @ ?r = bs" by simp_all
  have c: "copy_file pos bs b = copy_file (pos + length ?c) ?r (put_disk pos ?c b)"
    using 1(2) by (subst copy_file.simps) simp
  show ?case
  proof (cases "?r = []")
    case True
    then show ?thesis using c l by (simp add: copy_file.simps)
  next
    case False
    then have "copy_file pos bs b = (pos + length ?c + length ?r, put_disk (pos + length ?c) ?r (put_disk pos ?c b))"
      using c 1(1) [OF 1(2)] by simp
    moreover have "put_disk (pos + length ?c) ?r (put_disk pos ?c b) = put_disk pos (?c @ ?r) b"
      using write_disk_append [of "disk b" pos ?c ?r] by (simp add: put_disk_def)
    ultimately show ?thesis using l by simp
  qed
qed

lemma write_zeros: "write_disk (\<lambda>_. 0) off (replicate c 0) = (\<lambda>_. 0)"
  by (rule ext) (simp add: write_disk_def less_diff_conv2)

lemma zero_fill_eq:
  assumes "disk b = (\<lambda>_. 0)" "disk_len b = unat w" "w \<le> n"
  shows "zero_fill w n b = b\<lparr>disk_len := unat n\<rparr>"
  using assms
proof (induction w n b rule: zero_fill.induct)
  case (1 w n b)
  show ?case
  proof (cases "w < n")
    case True
    let ?c = "min bufferSize (unat (n - w))"
    have d: "unat (n - w) = unat n - unat w" "unat w < unat n" using True by (simp_all add: unat_sub word_less_nat_alt word_le_nat_alt)
    have c: "unat w + ?c \<le> unat n" using d by simp
    then have "unat w + ?c < 2 ^ 64" using unsigned_less [of n, where ?'a = nat] by simp
    then have u: "unat (w + of_nat ?c) = unat w + ?c" by (simp add: unat_word_ariths unat_of_nat)
    let ?b = "put_disk (unat w) (replicate ?c 0) b"
    have "disk ?b = (\<lambda>_. 0)" "disk_len ?b = unat (w + of_nat ?c)"
      using 1(2,3) u by (simp_all add: put_disk_def write_zeros)
    then have "zero_fill (w + of_nat ?c) n ?b = ?b\<lparr>disk_len := unat n\<rparr>"
      using 1(1) [OF True refl] u c by (simp add: word_le_nat_alt)
    moreover have "?b\<lparr>disk_len := unat n\<rparr> = b\<lparr>disk_len := unat n\<rparr>"
      using 1(2) by (simp add: put_disk_def write_zeros)
    ultimately show ?thesis using True by (subst zero_fill.simps) (simp add: Let_def)
  next
    case False
    then have "w = n" using 1(4) by simp
    then show ?thesis using 1(3) by (subst zero_fill.simps) simp
  qed
qed

section \<open>The image\<close>

lemma disk_size_min: "disk_size sz = Inr n \<Longrightarrow> 6291456 \<le> unat n"
  by (auto simp: disk_size_def word_less_nat_alt split: sum.splits prod.splits if_splits)

lemma read_disk_other: "off + n \<le> p \<or> p + length bs \<le> off \<Longrightarrow> read_disk (write_disk d p bs) off n = read_disk d off n"
  by (auto simp: read_disk_def write_disk_def)

lemma read_disk_write: "n = length bs \<Longrightarrow> read_disk (write_disk d off bs) off n = bs"
  by (simp add: read_write_disk)

lemma length_zero_bytes: "length (concat (map encode_entry (replicate 64 zero_entry))) = 4096"
  using length_concat_entries [of "replicate 64 zero_entry" encode_entry 64] by (simp add: encode_entry_def zero_entry_def)

lemma formatted_frame:
  assumes "8192 \<le> disk_len b"
  shows "disk_len (bmfs_format b) = disk_len b" "read_disk (disk (bmfs_format b)) 1024 512 = fs_tag @ replicate 508 0"
    "decode_directory (read_disk (disk (bmfs_format b)) 4096 4096) = replicate 64 zero_entry"
proof -
  let ?z = "concat (map encode_entry (replicate 64 zero_entry))"
  have t: "length fs_tag = 4" by (simp add: fs_tag_def)
  have d: "disk (bmfs_format b) = write_disk (write_disk (disk b) 1024 (fs_tag @ replicate 508 0)) 4096 ?z"
    "disk_len (bmfs_format b) = disk_len b"
    using assms t length_zero_bytes by (simp_all add: bmfs_format_def flush_directory_def put_disk_def Let_def)
  show "disk_len (bmfs_format b) = disk_len b" by (rule d(2))
  show "read_disk (disk (bmfs_format b)) 1024 512 = fs_tag @ replicate 508 0"
    unfolding d(1) using length_zero_bytes t by (simp add: read_disk_other read_disk_write)
  have "read_disk (disk (bmfs_format b)) 4096 4096 = ?z"
    unfolding d(1) using length_zero_bytes by (simp only: read_disk_write)
  moreover have "decode_directory ?z = replicate 64 zero_entry"
    by (rule decode_directory_encode) (simp_all add: zero_entry_def)
  ultimately show "decode_directory (read_disk (disk (bmfs_format b)) 4096 4096) = replicate 64 zero_entry" by simp
qed

text \<open>
  C28. \<open>initialize\<close> with a valid size and readable boot files creates an image that opens as an empty formatted disk of that
  size (larger when the boot files do not fit), with the boot record in its first sector and the loader and the kernel,
  one after the other, behind the directory.
\<close>

theorem initialize_image:
  assumes "disk_size sz = Inr n" "fs mbr = Some ms" "fs boot = Some bs" "fs kern = Some ks"
    and "512 \<le> length ms" "bs \<noteq> []" "ks \<noteq> []"
  shows "\<exists>b. initialize fs sz (Some mbr) (Some boot) (Some kern) = (Done, Some b) \<and>
    disk_len b = max (unat n) (8192 + length bs + length ks) \<and>
    read_disk (disk b) 0 512 = take 512 ms \<and> read_disk (disk b) 8192 (length bs + length ks) = bs @ ks \<and>
    cstring (DiskInfo (open_image (disk b, disk_len b))) = ''BMFS'' \<and>
    Directory (open_image (disk b, disk_len b)) = replicate 64 zero_entry"
proof -
  let ?f = "bmfs_format (zero_fill 0 n empty_image)"
  have z: "disk_len (zero_fill 0 n empty_image) = unat n" by (subst zero_fill_eq) (simp_all add: empty_image_def)
  have n: "8192 \<le> unat n" using disk_size_min [OF assms(1)] by simp
  note f = formatted_frame [of "zero_fill 0 n empty_image", unfolded z, OF n]
  let ?b = "put_disk (8192 + length bs) ks (put_disk 8192 bs (put_disk 0 (take 512 ms) ?f))"
  have "initialize fs sz (Some mbr) (Some boot) (Some kern) = (Done, Some ?b)"
    using assms by (simp add: initialize_def opened_def file_bytes_def write_system_def copy_file_eq Let_def)
  moreover have d: "disk ?b = write_disk (write_disk (disk ?f) 0 (take 512 ms)) 8192 (bs @ ks)"
    by (simp add: put_disk_def write_disk_append)
  moreover have "disk_len ?b = max (unat n) (8192 + length bs + length ks)" using f(1) n assms(5) by (simp add: put_disk_def)
  moreover have "read_disk (disk ?b) 0 512 = take 512 ms" unfolding d using assms(5) by (simp add: read_disk_other read_disk_write)
  moreover have "read_disk (disk ?b) 8192 (length bs + length ks) = bs @ ks" unfolding d by (simp add: read_disk_write)
  moreover have "read_disk (disk ?b) 1024 512 = fs_tag @ replicate 508 0" unfolding d using assms(5) f(2) by (simp add: read_disk_other)
  moreover have "decode_directory (read_disk (disk ?b) 4096 4096) = replicate 64 zero_entry"
    unfolding d using assms(5) f(3) by (simp add: read_disk_other)
  moreover have "cstring (fs_tag @ replicate 508 0) = ''BMFS''"
    by (simp add: cstring_def fs_tag_def takeWhile_replicate char_of_def bit_iff_odd)
  ultimately show ?thesis by (auto simp: open_image_def)
qed

lemma initialize_image_witness:
  "\<exists>b. initialize [''m'' \<mapsto> replicate 512 7, ''l'' \<mapsto> [1, 2], ''k'' \<mapsto> [3]] ''6m'' (Some ''m'') (Some ''l'') (Some ''k'') = (Done, Some b) \<and>
     read_disk (disk b) 8192 3 = [1, 2, 3] \<and> Directory (open_image (disk b, disk_len b)) = replicate 64 zero_entry"
proof -
  have s: "disk_size ''6m'' = Inr 6291456" by code_simp
  show ?thesis using initialize_image [OF s, of "[''m'' \<mapsto> replicate 512 7, ''l'' \<mapsto> [1, 2], ''k'' \<mapsto> [3]]" "''m''" "replicate 512 7" "''l''" "[1, 2]" "''k''" "[3]"]
    by (auto simp: numeral_3_eq_3)
qed

lemma disk_size_value_witness: "disk_size ''10000000'' = Inr 10000000"
proof -
  have "dec_value ''10000000'' = 10000000" by (simp add: dec_value_def)
  moreover have "\<forall>c \<in> set ''10000000''. digit_value c \<noteq> None" by (simp add: digit_value_def)
  ultimately show ?thesis using disk_size_value [of "''10000000''"] by simp
qed

end
