(* ===== verification/Philosophers.thy ===== *)
theory Philosophers
  imports C_Library
begin

text \<open>
  The dining philosophers of \<open>Kernel/philo.c\<close>: a table that philosophers join and leave while the
  others go on. Every routine that touches the table runs with \<open>critical_m\<close> locked, so the model
  takes the section between \<open>mutex_lock(critical_m)\<close> and \<open>mutex_unlock(critical_m)\<close>, or up to a
  \<open>cond_wait\<close>, as one step; that the mutex excludes the others is theorem \<open>mutex_exclusion\<close> of
  theory \<open>Kernel_Mutex\<close>. The processes are program counters (\<open>activity\<close>, \<open>main_pc\<close>), and
  \<open>philo_step\<close> and \<open>add_step\<close> interleave their sections.

  The mutex \<open>mut\<close> of a philosopher is the flag \<open>ph_mut\<close>: \<open>mutex_unlock\<close> sets it, and \<open>mutex_lock\<close>
  waits for it and clears it. What \<open>render\<close> prints is kept in \<open>shown\<close>.
\<close>

section \<open>The table\<close>

abbreviation MAX_PHILOSOPHERS :: nat where "MAX_PHILOSOPHERS \<equiv> 16"

definition LEFT :: "nat \<Rightarrow> nat \<Rightarrow> nat" where
  "LEFT x N = (x + N - 1) mod (if N \<noteq> 0 then N else 1)"

definition RIGHT :: "nat \<Rightarrow> nat \<Rightarrow> nat" where
  "RIGHT x N = (x + 1) mod (if N \<noteq> 0 then N else 1)"

datatype philo_state = THINKING | HUNGRY | EATING | DYING

definition stateStrings :: "philo_state \<Rightarrow> string" where
  "stateStrings st = (case st of THINKING \<Rightarrow> ''THINKING'' | HUNGRY \<Rightarrow> ''HUNGRY'' | EATING \<Rightarrow> ''EATING'' | DYING \<Rightarrow> ''DYING'')"

text \<open>\<open>ph_signalled\<close>: \<open>cond_die\<close> has been signalled since the philosopher waits on it.\<close>

record philosopher_data =
  ph_state :: philo_state
  ph_mut :: bool
  ph_die :: bool
  ph_signalled :: bool

record philo_table =
  philo_array :: "philosopher_data list"
  philosopherCount :: nat
  shown :: string

definition phil :: "philo_table \<Rightarrow> nat \<Rightarrow> philosopher_data" where
  "phil T i = philo_array T ! i"

definition set_phil :: "nat \<Rightarrow> philosopher_data \<Rightarrow> philo_table \<Rightarrow> philo_table" where
  "set_phil i x T = T\<lparr>philo_array := (philo_array T)[i := x]\<rparr>"

fun decimal :: "nat \<Rightarrow> string" where
  "decimal n = (if n < 10 then [char_of (48 + n)] else decimal (n div 10) @ [char_of (48 + n mod 10)])"

definition renderText :: "philosopher_data list \<Rightarrow> nat \<Rightarrow> string" where
  "renderText philos count =
     (if count = 0 then ''There are no philosophers left'' @ [CHR 0x0A]
      else concat (map (\<lambda>i. ''Philosopher '' @ decimal i @ '': '' @ stateStrings (ph_state (philos ! i)) @ [CHR 0x0A]) [0..<count]) @ [CHR 0x0A])"

definition render :: "philo_table \<Rightarrow> philo_table" where
  "render T = T\<lparr>shown := shown T @ renderText (philo_array T) (philosopherCount T)\<rparr>"

definition setState :: "nat \<Rightarrow> philo_state \<Rightarrow> philo_table \<Rightarrow> philo_table" where
  "setState i st T = render (set_phil i ((phil T i)\<lparr>ph_state := st\<rparr>) T)"

definition test :: "nat \<Rightarrow> philo_table \<Rightarrow> philo_table" where
  "test i T =
     (if ph_state (phil T i) = HUNGRY \<and>
         ph_state (phil T (LEFT i (philosopherCount T))) \<noteq> EATING \<and>
         ph_state (phil T (RIGHT i (philosopherCount T))) \<noteq> EATING
      then let T = setState i EATING T in set_phil i ((phil T i)\<lparr>ph_mut := True\<rparr>) T
      else T)"

text \<open>\<open>take_forks\<close> up to the release of \<open>critical_m\<close>; the philosopher then waits for its own mutex.\<close>

definition take_forks :: "nat \<Rightarrow> philo_table \<Rightarrow> philo_table" where
  "take_forks i T = test i (setState i HUNGRY T)"

definition signal_die :: "nat \<Rightarrow> philo_table \<Rightarrow> philo_table" where
  "signal_die i T = set_phil i ((phil T i)\<lparr>ph_signalled := True\<rparr>) T"

definition put_forks :: "nat \<Rightarrow> philo_table \<Rightarrow> philo_table" where
  "put_forks i T =
     (let T = setState i THINKING T;
          T = test (LEFT i (philosopherCount T)) T;
          T = signal_die (LEFT i (philosopherCount T)) T;
          T = test (RIGHT i (philosopherCount T)) T
      in signal_die (RIGHT i (philosopherCount T)) T)"

text \<open>\<open>should_die\<close> goes on, waits for a neighbour, or takes the philosopher off the table.\<close>

datatype verdict = Lives | Waits | Dies

definition retire :: "nat \<Rightarrow> philo_table \<Rightarrow> verdict \<times> philo_table" where
  "retire i T =
     (if ph_state (phil T (LEFT i (philosopherCount T))) = EATING \<and> ph_state (phil T (RIGHT i (philosopherCount T))) = EATING
      then (Waits, set_phil i ((phil T i)\<lparr>ph_signalled := False\<rparr>) T)
      else (Dies, render ((set_phil i ((phil T i)\<lparr>ph_die := False\<rparr>) T)\<lparr>philosopherCount := philosopherCount T - 1\<rparr>)))"

definition should_die :: "nat \<Rightarrow> philo_table \<Rightarrow> verdict \<times> philo_table" where
  "should_die i T = (if ph_die (phil T i) then retire i (setState i DYING T) else (Lives, T))"

definition add_philosopher :: "philo_table \<Rightarrow> philo_table" where
  "add_philosopher T =
     (if philosopherCount T < MAX_PHILOSOPHERS
      then set_phil (philosopherCount T) \<lparr>ph_state = THINKING, ph_mut = False, ph_die = False, ph_signalled = False\<rparr>
             (T\<lparr>philosopherCount := philosopherCount T + 1\<rparr>)
      else T)"

text \<open>\<open>remove_philosopher\<close> up to the wait for \<open>modify_cond_var\<close>.\<close>

definition mark_last :: "philo_table \<Rightarrow> philo_table" where
  "mark_last T =
     (if philosopherCount T > 0
      then set_phil (philosopherCount T - 1) ((phil T (philosopherCount T - 1))\<lparr>ph_die := True\<rparr>) T
      else T)"

section \<open>The processes\<close>

text \<open>
  Where a philosopher is in its loop: asleep before \<open>should_die\<close>, between \<open>should_die\<close> and
  \<open>take_forks\<close>, waiting for its mutex at the end of \<open>take_forks\<close>, asleep before \<open>put_forks\<close>,
  waiting in \<open>should_die\<close>, or ended.
\<close>

datatype activity = Thinks | Checked | Awaits | Eats | Leaves | Gone

text \<open>
  The process that started the problem: still adding \<open>k\<close> philosophers, reading commands, waiting in
  \<open>remove_philosopher\<close> since there were \<open>c\<close> philosophers (with \<open>k\<close> more to remove when it is in
  \<open>slow_die\<close>), about to remove the next one in \<open>slow_die\<close>, or done.
\<close>

datatype main_pc = Starting nat | Listening | Removing nat "nat option" | Dismissing nat | Finished

record dinner =
  table :: philo_table
  act :: "nat \<Rightarrow> activity"
  main :: main_pc
  paused :: bool

definition line :: "string \<Rightarrow> string" where
  "line t = t @ [CHR 0x0A]"

definition commands_text :: string where
  "commands_text =
     concat (map line
      [[], ''Commands'',
       ''h     Prints this help.'',
       ''w     Adds a philosopher.'',
       ''s     Removes a philosopher.'',
       ''e     Removes all philosophers instantly. Terminates philosophers problem.'',
       ''q     Removes philosophers one by one. Terminates philosophers problem.'',
       ''p     Toggles pause. Philosophers may not be modified during pause.'', []])"

definition start_dinner :: "philosopher_data list \<Rightarrow> int \<Rightarrow> dinner" where
  "start_dinner old philoNumber =
     \<lparr>table = \<lparr>philo_array = old, philosopherCount = 0, shown = commands_text\<rparr>, act = (\<lambda>_. Gone),
      main = Starting (nat (if philoNumber > int MAX_PHILOSOPHERS then int MAX_PHILOSOPHERS else philoNumber)), paused = False\<rparr>"

text \<open>Adding: the new philosopher is a process at the start of its loop.\<close>

definition added :: "dinner \<Rightarrow> dinner" where
  "added d =
     (if philosopherCount (table d) < MAX_PHILOSOPHERS
      then d\<lparr>table := add_philosopher (table d), act := (act d)(philosopherCount (table d) := Thinks)\<rparr>
      else d)"

text \<open>\<open>remove_philosopher\<close> returns at once when there is none.\<close>

definition removal :: "nat option \<Rightarrow> dinner \<Rightarrow> dinner" where
  "removal k d =
     (if philosopherCount (table d) > 0
      then d\<lparr>table := mark_last (table d), main := Removing (philosopherCount (table d)) k\<rparr>
      else d\<lparr>main := (case k of None \<Rightarrow> Listening | Some j \<Rightarrow> Dismissing j)\<rparr>)"

definition say :: "string \<Rightarrow> dinner \<Rightarrow> dinner" where
  "say t d = d\<lparr>table := (table d)\<lparr>shown := shown (table d) @ t\<rparr>\<rparr>"

definition pause_philosophers :: "dinner \<Rightarrow> dinner" where
  "pause_philosophers d =
     (if \<not> paused d then say (line ''PAUSED'') (d\<lparr>paused := True\<rparr>) else say (line ''RESUMED'') (d\<lparr>paused := False\<rparr>))"

definition remove_all_philosophers :: "dinner \<Rightarrow> dinner" where
  "remove_all_philosophers d = d\<lparr>act := (\<lambda>_. Gone)\<rparr>"

definition slow_die :: "dinner \<Rightarrow> dinner" where
  "slow_die d = d\<lparr>main := Dismissing (philosopherCount (table d))\<rparr>"

text \<open>\<open>listen_commands\<close>, for one character. The character \<open>w\<close> is in \<open>add_step\<close>.\<close>

definition command :: "int \<Rightarrow> dinner \<Rightarrow> dinner" where
  "command c d =
     (if c = 0 then d\<lparr>main := Finished\<rparr>
      else if isspace c then d
      else if c = 104 then say commands_text d
      else if c = 101 then (if \<not> paused d then (remove_all_philosophers d)\<lparr>main := Finished\<rparr> else d)
      else if c = 115 then (if \<not> paused d then removal None d else d)
      else if c = 112 then pause_philosophers d
      else if c = 113 then (if \<not> paused d then slow_die d else d)
      else say (line (''Invalid command '' @ [char_of (nat (c mod 256))]) @ commands_text) d)"

lemmas command_defs = command_def say_def pause_philosophers_def remove_all_philosophers_def slow_die_def

inductive philo_step :: "dinner \<Rightarrow> dinner \<Rightarrow> bool" where
  lives: "act d i = Thinks \<Longrightarrow> \<not> paused d \<Longrightarrow> should_die i (table d) = (Lives, T) \<Longrightarrow>
     philo_step d (d\<lparr>table := T, act := (act d)(i := Checked)\<rparr>)"
| waits: "act d i = Thinks \<Longrightarrow> \<not> paused d \<Longrightarrow> should_die i (table d) = (Waits, T) \<Longrightarrow>
     philo_step d (d\<lparr>table := T, act := (act d)(i := Leaves)\<rparr>)"
| dies: "act d i = Thinks \<Longrightarrow> \<not> paused d \<Longrightarrow> should_die i (table d) = (Dies, T) \<Longrightarrow>
     philo_step d (d\<lparr>table := T, act := (act d)(i := Gone)\<rparr>)"
| takes: "act d i = Checked \<Longrightarrow> \<not> paused d \<Longrightarrow>
     philo_step d (d\<lparr>table := take_forks i (table d), act := (act d)(i := Awaits)\<rparr>)"
| eats: "act d i = Awaits \<Longrightarrow> ph_mut (phil (table d) i) \<Longrightarrow>
     philo_step d (d\<lparr>table := set_phil i ((phil (table d) i)\<lparr>ph_mut := False\<rparr>) (table d), act := (act d)(i := Eats)\<rparr>)"
| puts: "act d i = Eats \<Longrightarrow> \<not> paused d \<Longrightarrow>
     philo_step d (d\<lparr>table := put_forks i (table d), act := (act d)(i := Thinks)\<rparr>)"
| stays: "act d i = Leaves \<Longrightarrow> \<not> paused d \<Longrightarrow> ph_signalled (phil (table d) i) \<Longrightarrow> retire i (table d) = (Waits, T) \<Longrightarrow>
     philo_step d (d\<lparr>table := T\<rparr>)"
| leaves: "act d i = Leaves \<Longrightarrow> \<not> paused d \<Longrightarrow> ph_signalled (phil (table d) i) \<Longrightarrow> retire i (table d) = (Dies, T) \<Longrightarrow>
     philo_step d (d\<lparr>table := T, act := (act d)(i := Gone)\<rparr>)"
| listens: "main d = Listening \<Longrightarrow> c \<noteq> 119 \<Longrightarrow> philo_step d (command c d)"
| started: "main d = Starting 0 \<Longrightarrow> philo_step d (d\<lparr>main := Listening\<rparr>)"
| removed: "main d = Removing c k \<Longrightarrow> \<not> paused d \<Longrightarrow> philosopherCount (table d) \<noteq> c \<Longrightarrow>
     philo_step d (d\<lparr>main := (case k of None \<Rightarrow> Listening | Some j \<Rightarrow> Dismissing j)\<rparr>)"
| dismisses: "main d = Dismissing (Suc k) \<Longrightarrow> \<not> paused d \<Longrightarrow> philo_step d (removal (Some k) d)"
| dismissed: "main d = Dismissing 0 \<Longrightarrow> philo_step d (d\<lparr>main := Finished\<rparr>)"

inductive add_step :: "dinner \<Rightarrow> dinner \<Rightarrow> bool" where
  starts: "main d = Starting (Suc k) \<Longrightarrow> add_step d ((added d)\<lparr>main := Starting k\<rparr>)"
| adds: "main d = Listening \<Longrightarrow> add_step d (if paused d then d else added d)"

inductive served :: "philosopher_data list \<Rightarrow> int \<Rightarrow> dinner \<Rightarrow> bool" for old n where
  begins: "length old = MAX_PHILOSOPHERS \<Longrightarrow> served old n (start_dinner old n)"
| acts: "served old n d \<Longrightarrow> philo_step d e \<Longrightarrow> served old n e"
| joins: "served old n d \<Longrightarrow> add_step d e \<Longrightarrow> served old n e"

section \<open>What the sections do to the table\<close>

lemma LEFT_eq: "i < n \<Longrightarrow> LEFT i n = (if i = 0 then n - 1 else i - 1)"
proof (cases "i = 0")
  case False
  assume "i < n"
  then have "(i + n - 1) mod n = ((i - 1) + n) mod n" using False by simp
  also have "\<dots> = i - 1" using \<open>i < n\<close> by (simp only: mod_add_self2) simp
  finally show ?thesis using False \<open>i < n\<close> by (simp add: LEFT_def)
qed (simp add: LEFT_def)

lemma RIGHT_eq: "i < n \<Longrightarrow> RIGHT i n = (if Suc i = n then 0 else Suc i)"
  by (simp add: RIGHT_def)

lemma neighbours:
  "i < n \<Longrightarrow> LEFT i n < n" "i < n \<Longrightarrow> RIGHT i n < n"
  "i < n \<Longrightarrow> RIGHT (LEFT i n) n = i" "i < n \<Longrightarrow> LEFT (RIGHT i n) n = i"
  by (auto simp: LEFT_eq RIGHT_eq)

definition sized :: "philo_table \<Rightarrow> bool" where
  "sized T \<longleftrightarrow> length (philo_array T) = MAX_PHILOSOPHERS \<and> philosopherCount T \<le> MAX_PHILOSOPHERS"

lemma table_frame [simp]:
  "philosopherCount (set_phil i x T) = philosopherCount T" "philosopherCount (render T) = philosopherCount T"
  "philosopherCount (setState i st T) = philosopherCount T" "philosopherCount (signal_die i T) = philosopherCount T"
  "phil (render T) = phil T" "sized (render T) = sized T" "sized (set_phil i x T) = sized T"
  "sized (setState i st T) = sized T" "sized (signal_die i T) = sized T"
  by (simp_all add: set_phil_def render_def setState_def signal_die_def phil_def fun_eq_iff sized_def)

lemma phil_set [simp]: "sized T \<Longrightarrow> i < MAX_PHILOSOPHERS \<Longrightarrow> phil (set_phil i x T) = (phil T)(i := x)"
  by (auto simp: phil_def set_phil_def sized_def)

lemma phil_setState [simp]:
  "sized T \<Longrightarrow> i < MAX_PHILOSOPHERS \<Longrightarrow> phil (setState i st T) = (phil T)(i := (phil T i)\<lparr>ph_state := st\<rparr>)"
  by (simp add: setState_def)

lemma phil_signal [simp]:
  "sized T \<Longrightarrow> i < MAX_PHILOSOPHERS \<Longrightarrow> phil (signal_die i T) = (phil T)(i := (phil T i)\<lparr>ph_signalled := True\<rparr>)"
  by (simp add: signal_die_def)

definition eating :: "philo_table \<Rightarrow> nat \<Rightarrow> bool" where
  "eating T i \<longleftrightarrow> ph_state (phil T i) = EATING"

definition may_eat :: "nat \<Rightarrow> philo_table \<Rightarrow> bool" where
  "may_eat i T \<longleftrightarrow> ph_state (phil T i) = HUNGRY \<and> \<not> eating T (LEFT i (philosopherCount T)) \<and> \<not> eating T (RIGHT i (philosopherCount T))"

lemma phil_test:
  assumes "sized T" "i < MAX_PHILOSOPHERS"
  shows "phil (test i T) = (if may_eat i T then (phil T)(i := (phil T i)\<lparr>ph_state := EATING, ph_mut := True\<rparr>) else phil T)"
  using assms by (simp add: test_def may_eat_def eating_def Let_def)

lemma test_frame [simp]: "philosopherCount (test i T) = philosopherCount T" "sized (test i T) = sized T"
  by (simp_all add: test_def Let_def)

text \<open>No two neighbours eat, and whoever is hungry among \<open>A\<close> has a neighbour that eats.\<close>

definition excl :: "philo_table \<Rightarrow> bool" where
  "excl T \<longleftrightarrow> (\<forall>i < philosopherCount T. eating T i \<and> eating T (RIGHT i (philosopherCount T)) \<longrightarrow> RIGHT i (philosopherCount T) = i)"

definition hungry_wait :: "nat set \<Rightarrow> philo_table \<Rightarrow> bool" where
  "hungry_wait A T \<longleftrightarrow> (\<forall>i \<in> A. i < philosopherCount T \<and> ph_state (phil T i) = HUNGRY \<longrightarrow>
     eating T (LEFT i (philosopherCount T)) \<or> eating T (RIGHT i (philosopherCount T)))"

lemma excl_fewer: "excl T \<Longrightarrow> philosopherCount U = philosopherCount T \<Longrightarrow> (\<And>i. eating U i \<Longrightarrow> eating T i) \<Longrightarrow> excl U"
  by (auto simp: excl_def)

lemma excl_test:
  assumes "sized T" "i < philosopherCount T" "excl T" shows "excl (test i T)"
proof -
  let ?n = "philosopherCount T"
  have i: "i < MAX_PHILOSOPHERS" using assms by (simp add: sized_def)
  have e: "eating (test i T) k \<longleftrightarrow> eating T k \<or> (k = i \<and> may_eat i T)" for k
    using phil_test [OF assms(1) i] by (auto simp: eating_def may_eat_def)
  have "RIGHT j ?n = j" if j: "j < ?n" "eating (test i T) j" "eating (test i T) (RIGHT j ?n)" for j
    using j assms(3) neighbours [OF j(1)] unfolding e by (auto simp: excl_def may_eat_def)
  then show ?thesis by (simp add: excl_def)
qed

lemma hungry_wait_test:
  assumes "sized T" "i < philosopherCount T" "hungry_wait A T" shows "hungry_wait (insert i A) (test i T)"
proof -
  have i: "i < MAX_PHILOSOPHERS" using assms by (simp add: sized_def)
  have e: "eating (test i T) k \<longleftrightarrow> eating T k \<or> (k = i \<and> may_eat i T)" for k
    using phil_test [OF assms(1) i] by (auto simp: eating_def may_eat_def)
  have h: "ph_state (phil (test i T) k) = HUNGRY \<longleftrightarrow> ph_state (phil T k) = HUNGRY \<and> \<not> (k = i \<and> may_eat i T)" for k
    using phil_test [OF assms(1) i] by (auto simp: may_eat_def)
  show ?thesis using assms(2,3) unfolding hungry_wait_def e h by (auto simp: may_eat_def)
qed

lemma hungry_wait_mono: "hungry_wait A T \<Longrightarrow> B \<subseteq> A \<Longrightarrow> hungry_wait B T"
  by (auto simp: hungry_wait_def)

lemma hungry_wait_cong:
  "hungry_wait A T \<Longrightarrow> philosopherCount U = philosopherCount T \<Longrightarrow> (\<And>i. ph_state (phil U i) = ph_state (phil T i)) \<Longrightarrow> hungry_wait A U"
  by (simp add: hungry_wait_def eating_def)

section \<open>The invariant of the dinner\<close>

text \<open>What the entry of a philosopher says while its process is at some point of its loop.\<close>

fun agrees :: "activity \<Rightarrow> philosopher_data \<Rightarrow> bool" where
  "agrees Thinks x \<longleftrightarrow> ph_state x = THINKING \<and> \<not> ph_mut x"
| "agrees Checked x \<longleftrightarrow> ph_state x = THINKING \<and> \<not> ph_mut x"
| "agrees Awaits x \<longleftrightarrow> ph_state x = HUNGRY \<and> \<not> ph_mut x \<or> ph_state x = EATING \<and> ph_mut x"
| "agrees Eats x \<longleftrightarrow> ph_state x = EATING \<and> \<not> ph_mut x"
| "agrees Leaves x \<longleftrightarrow> ph_state x = DYING \<and> \<not> ph_mut x \<and> ph_die x"
| "agrees Gone x \<longleftrightarrow> True"

text \<open>Only the last philosopher may be marked, and only while the main process waits for it to leave.\<close>

definition seats :: "philo_table \<Rightarrow> (nat \<Rightarrow> activity) \<Rightarrow> main_pc \<Rightarrow> bool" where
  "seats T a m \<longleftrightarrow>
     sized T \<and> excl T \<and> (\<forall>i. agrees (a i) (phil T i)) \<and>
     (\<forall>i. a i \<noteq> Gone \<longrightarrow> i < philosopherCount T \<and>
        (ph_die (phil T i) \<longrightarrow> Suc i = philosopherCount T \<and> (\<exists>k. m = Removing (philosopherCount T) k)))"

lemma seated:
  assumes "seats T a m" "a i \<noteq> Gone"
  shows "sized T" "excl T" "i < philosopherCount T" "i < MAX_PHILOSOPHERS" "agrees (a i) (phil T i)"
  using assms by (auto simp: seats_def sized_def)

lemma agrees_test:
  "sized T \<Longrightarrow> i < MAX_PHILOSOPHERS \<Longrightarrow> agrees b (phil T k) \<Longrightarrow> agrees b (phil (test i T) k)"
  by (cases b) (auto simp: phil_test may_eat_def)

lemma die_test: "sized T \<Longrightarrow> i < MAX_PHILOSOPHERS \<Longrightarrow> ph_die (phil (test i T) k) = ph_die (phil T k)"
  by (simp add: phil_test)

text \<open>A section of a philosopher that stays.\<close>

lemma seats_step:
  assumes "seats T a m" "a i \<noteq> Gone" "sized U" "excl U" "philosopherCount U = philosopherCount T"
    and agr: "\<And>k. agrees ((a(i := b)) k) (phil U k)" and die: "\<And>k. ph_die (phil U k) = ph_die (phil T k)"
  shows "seats U (a(i := b)) m"
proof -
  have "k < philosopherCount T \<and> (ph_die (phil T k) \<longrightarrow> Suc k = philosopherCount T \<and> (\<exists>j. m = Removing (philosopherCount T) j))"
    if "(a(i := b)) k \<noteq> Gone" for k
  proof -
    have "a k \<noteq> Gone" using that assms(2) by (cases "k = i") simp_all
    then show ?thesis using assms(1) unfolding seats_def by blast
  qed
  then show ?thesis unfolding seats_def die assms(5) using assms(3,4) agr by blast
qed

lemma agrees_seat: "seats T a m \<Longrightarrow> agrees (a k) (phil T k)"
  by (simp add: seats_def)

lemma seats_take:
  assumes "seats T a m" "a i = Checked" shows "seats (take_forks i T) (a(i := Awaits)) m"
proof -
  note i = seated [OF assms(1), of i, unfolded assms(2), simplified]
  let ?U = "setState i HUNGRY T"
  have u: "agrees ((a(i := Awaits)) k) (phil ?U k)" "ph_die (phil ?U k) = ph_die (phil T k)" for k
    using agrees_seat [OF assms(1)] i by simp_all
  have "excl ?U" by (rule excl_fewer [OF i(2)]) (use i in \<open>auto simp: eating_def split: if_splits\<close>)
  then show ?thesis unfolding take_forks_def
    using i assms(2) u by (intro seats_step [OF assms(1)] excl_test) (simp_all only: agrees_test die_test table_frame test_frame, simp_all)
qed

lemma signal_die_seat:
  "sized T \<Longrightarrow> i < MAX_PHILOSOPHERS \<Longrightarrow> agrees b (phil (signal_die i T) k) = agrees b (phil T k)"
  "sized T \<Longrightarrow> i < MAX_PHILOSOPHERS \<Longrightarrow> ph_die (phil (signal_die i T) k) = ph_die (phil T k)"
  "sized T \<Longrightarrow> i < MAX_PHILOSOPHERS \<Longrightarrow> ph_state (phil (signal_die i T) k) = ph_state (phil T k)"
  by (cases b, simp_all)

lemma excl_signal: "sized T \<Longrightarrow> i < MAX_PHILOSOPHERS \<Longrightarrow> excl (signal_die i T) = excl T"
  by (simp add: excl_def eating_def signal_die_seat(3) del: phil_signal)

lemma put_forks_parts:
  "put_forks i T = signal_die (RIGHT i (philosopherCount T)) (test (RIGHT i (philosopherCount T))
     (signal_die (LEFT i (philosopherCount T)) (test (LEFT i (philosopherCount T)) (setState i THINKING T))))"
  by (simp add: put_forks_def Let_def)

lemma neighbours_16:
  assumes "sized T" "i < philosopherCount T"
  shows "LEFT i (philosopherCount T) < MAX_PHILOSOPHERS" "RIGHT i (philosopherCount T) < MAX_PHILOSOPHERS"
  using neighbours [OF assms(2)] assms(1) by (auto simp: sized_def)

lemma seats_put:
  assumes "seats T a m" "a i = Eats" shows "seats (put_forks i T) (a(i := Thinks)) m"
proof -
  note i = seated [OF assms(1), of i, unfolded assms(2), simplified]
  note l = neighbours [OF i(3)] and l16 = neighbours_16 [OF i(1,3)]
  let ?U = "setState i THINKING T"
  have u: "agrees ((a(i := Thinks)) k) (phil ?U k)" "ph_die (phil ?U k) = ph_die (phil T k)" for k
    using agrees_seat [OF assms(1)] i by simp_all
  have "excl ?U" by (rule excl_fewer [OF i(2)]) (use i in \<open>auto simp: eating_def split: if_splits\<close>)
  then have "excl (put_forks i T)" unfolding put_forks_parts using i(1) l l16 by (simp only: excl_signal excl_test table_frame test_frame)
  moreover have "agrees ((a(i := Thinks)) k) (phil (put_forks i T) k)" for k
    unfolding put_forks_parts using i(1) l16 u(1) by (simp only: signal_die_seat agrees_test table_frame test_frame)
  moreover have "ph_die (phil (put_forks i T) k) = ph_die (phil T k)" for k
    unfolding put_forks_parts using i(1) l16 u(2) by (simp only: signal_die_seat die_test table_frame test_frame)
  ultimately show ?thesis
    by (intro seats_step [OF assms(1)]) (use i assms(2) in \<open>simp_all only: put_forks_parts table_frame test_frame, simp\<close>)
qed

lemma seats_eat:
  assumes "seats T a m" "a i = Awaits" "ph_mut (phil T i)"
  shows "seats (set_phil i ((phil T i)\<lparr>ph_mut := False\<rparr>) T) (a(i := Eats)) m"
proof -
  note i = seated [OF assms(1), of i, unfolded assms(2), simplified]
  have "excl (set_phil i ((phil T i)\<lparr>ph_mut := False\<rparr>) T)"
    by (rule excl_fewer [OF i(2)]) (use i in \<open>auto simp: eating_def split: if_splits\<close>)
  then show ?thesis
    by (intro seats_step [OF assms(1)]) (use i assms agrees_seat [OF assms(1)] in \<open>simp_all\<close>)
qed

text \<open>A philosopher that leaves: the others close the gap.\<close>

lemma excl_shrink:
  assumes n: "sized T" "Suc i = philosopherCount T" "\<not> (eating T (LEFT i (Suc i)) \<and> eating T (RIGHT i (Suc i)))"
    and excl: "excl T" and U: "philosopherCount U = i" "\<And>k. k \<noteq> i \<Longrightarrow> eating U k = eating T k"
  shows "excl U"
proof -
  have "RIGHT j i = j" if j: "j < i" "eating U j" "eating U (RIGHT j i)" for j
  proof (cases "Suc j = i")
    case True
    have "RIGHT j (Suc i) = i" using True by (simp add: RIGHT_def)
    then have l: "LEFT i (Suc i) = j" using neighbours(4) [of j "Suc i"] j(1) by simp
    have r: "RIGHT i (Suc i) = 0" "RIGHT j i = 0" using True by (simp_all add: RIGHT_def)
    have "eating T j" "eating T 0" using j r U(2) by auto
    then show ?thesis using n(3) unfolding l r by simp
  next
    case False
    have "RIGHT j i = Suc j" "RIGHT j (Suc i) = Suc j" "Suc j < i" using j(1) False by (simp_all add: RIGHT_def)
    moreover have "eating T j" "eating T (RIGHT j i)" "j < philosopherCount T" using j U(2) n(2) calculation by auto
    ultimately show ?thesis using excl n(2) unfolding excl_def by metis
  qed
  then show ?thesis using U(1) by (simp add: excl_def)
qed

lemma seats_retire:
  assumes s: "seats T a m" and i: "a i \<in> {Thinks, Leaves}" "ph_die (phil T i)"
    and U: "sized U" "philosopherCount U = philosopherCount T" "phil U = (phil T)(i := x)" "ph_die x" "ph_state x = DYING" "\<not> ph_mut x"
  shows "retire i U = (Waits, V) \<Longrightarrow> seats V (a(i := Leaves)) m"
    and "retire i U = (Dies, V) \<Longrightarrow> seats V (a(i := Gone)) m"
proof -
  have act: "a i \<noteq> Gone" using i(1) by auto
  note t = seated [OF s act]
  have last: "Suc i = philosopherCount T" using s act i(2) by (auto simp: seats_def)
  have e: "eating U k \<longleftrightarrow> eating T k \<and> k \<noteq> i" for k
    using t(5) i(1) U(3,5) by (auto simp: eating_def)
  have ex: "excl U" by (rule excl_fewer [OF t(2) U(2)]) (simp add: e)
  show "seats V (a(i := Leaves)) m" if r: "retire i U = (Waits, V)"
  proof (rule seats_step [OF s act])
    have V: "V = set_phil i ((phil U i)\<lparr>ph_signalled := False\<rparr>) U" using r by (simp add: retire_def split: if_splits)
    have p: "phil V = (phil T)(i := x\<lparr>ph_signalled := False\<rparr>)" using V U(1,3) t(4) by simp
    show "sized V" "philosopherCount V = philosopherCount T" using V U by simp_all
    show "excl V" by (rule excl_fewer [OF ex]) (use V U p in \<open>auto simp: eating_def\<close>)
    show "agrees ((a(i := Leaves)) k) (phil V k)" for k using p U(4-6) agrees_seat [OF s] by simp
    show "ph_die (phil V k) = ph_die (phil T k)" for k using p U(4) i(2) by simp
  qed
  show "seats V (a(i := Gone)) m" if r: "retire i U = (Dies, V)"
  proof -
    let ?W = "set_phil i ((phil U i)\<lparr>ph_die := False\<rparr>) U"
    have V: "V = render (?W\<lparr>philosopherCount := philosopherCount U - 1\<rparr>)"
      and free: "\<not> (eating U (LEFT i (Suc i)) \<and> eating U (RIGHT i (Suc i)))"
      using r last U(2) by (auto simp: retire_def eating_def split: if_splits)
    have "phil V = phil ?W" unfolding V by (simp add: phil_def fun_eq_iff)
    then have p: "phil V = (phil T)(i := x\<lparr>ph_die := False\<rparr>)" using U(1,3) t(4) by simp
    have c: "philosopherCount V = i" using V U(2) last by simp
    have "excl V"
      by (rule excl_shrink [OF U(1) _ free ex c]) (use last U(2) p in \<open>simp_all add: e\<close>, simp add: eating_def)
    moreover have "sized V" using V U(1,2) t(1) by (auto simp: sized_def set_phil_def render_def)
    moreover have "agrees ((a(i := Gone)) k) (phil V k)" for k using p agrees_seat [OF s] by simp
    moreover have "k < i \<and> \<not> ph_die (phil V k)" if "(a(i := Gone)) k \<noteq> Gone" for k
    proof -
      have k: "k \<noteq> i" "a k \<noteq> Gone" using that by (auto split: if_splits)
      then have "k < philosopherCount T" "ph_die (phil T k) \<longrightarrow> Suc k = philosopherCount T" using s by (auto simp: seats_def)
      then show ?thesis using k last p by auto
    qed
    ultimately show ?thesis using c by (auto simp: seats_def)
  qed
qed

lemma seats_main:
  "seats T a m \<Longrightarrow> \<forall>k c. m = Removing c k \<longrightarrow> c \<noteq> philosopherCount T \<Longrightarrow> seats T a m'"
  by (auto simp: seats_def)

lemma seats_gone: "seats T a m \<Longrightarrow> seats T (\<lambda>_. Gone) m'"
  by (auto simp: seats_def)

lemma seats_mark:
  assumes "seats T a m" "philosopherCount T > 0" "\<forall>k c. m = Removing c k \<longrightarrow> c \<noteq> philosopherCount T"
  shows "seats (mark_last T) a (Removing (philosopherCount T) k)"
proof -
  let ?i = "philosopherCount T - 1"
  have t: "sized T" "excl T" "?i < MAX_PHILOSOPHERS" using assms(1,2) by (auto simp: seats_def sized_def)
  have p: "phil (mark_last T) = (phil T)(?i := (phil T ?i)\<lparr>ph_die := True\<rparr>)" "philosopherCount (mark_last T) = philosopherCount T" "sized (mark_last T)"
    using assms(2) t by (simp_all add: mark_last_def)
  have "excl (mark_last T)" by (rule excl_fewer [OF t(2) p(2)]) (use p(1) in \<open>auto simp: eating_def split: if_splits\<close>)
  moreover have "agrees (a j) (phil (mark_last T) j)" for j
    using agrees_seat [OF assms(1), of j] p(1) by (cases "a j") auto
  moreover have "j < philosopherCount T \<and> (ph_die (phil (mark_last T) j) \<longrightarrow> Suc j = philosopherCount T)" if "a j \<noteq> Gone" for j
    using that assms p(1) by (auto simp: seats_def)
  ultimately show ?thesis using p(2,3) by (auto simp: seats_def)
qed

lemma seats_add:
  assumes "seats T a m" "philosopherCount T < MAX_PHILOSOPHERS" "\<forall>k c. m = Removing c k \<longrightarrow> c \<noteq> philosopherCount T"
  shows "seats (add_philosopher T) (a(philosopherCount T := Thinks)) m'"
proof -
  let ?n = "philosopherCount T"
  have t: "sized T" "excl T" using assms(1) by (simp_all add: seats_def)
  let ?x = "\<lparr>ph_state = THINKING, ph_mut = False, ph_die = False, ph_signalled = False\<rparr>"
  have p: "phil (add_philosopher T) = (phil T)(?n := ?x)" "philosopherCount (add_philosopher T) = Suc ?n" "sized (add_philosopher T)"
    using assms(2) t(1) by (simp_all add: add_philosopher_def phil_def set_phil_def sized_def fun_eq_iff)
  have e: "eating (add_philosopher T) k \<longleftrightarrow> eating T k \<and> k \<noteq> ?n" for k using p(1) by (simp add: eating_def)
  have "RIGHT j (Suc ?n) = j" if j: "j < Suc ?n" "eating (add_philosopher T) j" "eating (add_philosopher T) (RIGHT j (Suc ?n))" for j
  proof -
    have "j < ?n" "RIGHT j (Suc ?n) \<noteq> ?n" "eating T j" "eating T (RIGHT j (Suc ?n))" using j e by auto
    moreover from this have "RIGHT j (Suc ?n) = Suc j" "RIGHT j ?n = Suc j" by (auto simp: RIGHT_def)
    ultimately show ?thesis using t(2) by (auto simp: excl_def)
  qed
  then have "excl (add_philosopher T)" using p(2) by (simp add: excl_def)
  moreover have "agrees ((a(?n := Thinks)) j) (phil (add_philosopher T) j)" for j using p(1) agrees_seat [OF assms(1)] by simp
  moreover have "j < Suc ?n \<and> \<not> ph_die (phil (add_philosopher T) j)" if "(a(?n := Thinks)) j \<noteq> Gone" for j
  proof (cases "j = ?n")
    case False
    then have "a j \<noteq> Gone" using that by simp
    then show ?thesis using assms(1,3) p(1) False by (auto simp: seats_def)
  qed (simp add: p(1))
  ultimately show ?thesis using p(2,3) by (auto simp: seats_def)
qed

lemma should_die_cases:
  assumes "should_die i T = (v, U)"
  obtains "\<not> ph_die (phil T i)" "v = Lives" "U = T" | "ph_die (phil T i)" "retire i (setState i DYING T) = (v, U)" "v \<noteq> Lives"
  using assms by (auto simp: should_die_def retire_def split: if_splits)

lemma seats_removal:
  assumes "seats (table d) (act d) (main d)" "\<forall>k c. main d = Removing c k \<longrightarrow> c \<noteq> philosopherCount (table d)"
  shows "seats (table (removal k d)) (act (removal k d)) (main (removal k d))"
  using assms seats_mark [OF assms(1) _ assms(2)] seats_main [OF assms] by (simp add: removal_def)

lemma shown_frame [simp]:
  "seats (T\<lparr>shown := t\<rparr>) a m = seats T a m" "hungry_wait A (T\<lparr>shown := t\<rparr>) = hungry_wait A T"
  by (simp_all add: seats_def sized_def excl_def eating_def hungry_wait_def phil_def)

lemma seats_command:
  assumes "seats (table d) (act d) (main d)" "main d = Listening"
  shows "seats (table (command c d)) (act (command c d)) (main (command c d))"
  using assms seats_main [OF assms(1)] seats_gone [OF assms(1)] seats_removal [OF assms(1)] by (simp add: command_defs)

lemma seats_philo_step:
  assumes "philo_step d e" "seats (table d) (act d) (main d)" shows "seats (table e) (act e) (main e)"
  using assms
proof (induction rule: philo_step.induct)
  case (lives d i T)
  then have T: "T = table d" by (auto elim: should_die_cases)
  have "agrees (((act d)(i := Checked)) k) (phil (table d) k)" for k
    using agrees_seat [OF lives(4), of k] lives(1) by (cases "k = i") auto
  then have "seats (table d) ((act d)(i := Checked)) (main d)"
    using lives(1) seated [OF lives(4), of i] by (intro seats_step [OF lives(4), of i]) simp_all
  then show ?case by (simp add: T fun_upd_def)
next
  case (waits d i T)
  from waits(3) show ?case
  proof (cases rule: should_die_cases)
    case 2
    then show ?thesis using waits seated [OF waits(4), of i]
        seats_retire(1) [OF waits(4), of i "setState i DYING (table d)" "(phil (table d) i)\<lparr>ph_state := DYING\<rparr>" T]
      by (simp add: fun_upd_def)
  qed simp
next
  case (dies d i T)
  from dies(3) show ?case
  proof (cases rule: should_die_cases)
    case 2
    then show ?thesis using dies seated [OF dies(4), of i]
        seats_retire(2) [OF dies(4), of i "setState i DYING (table d)" "(phil (table d) i)\<lparr>ph_state := DYING\<rparr>" T]
      by (simp add: fun_upd_def)
  qed simp
next
  case (stays d i T)
  note t = seated [OF stays(5), of i]
  have "seats T ((act d)(i := Leaves)) (main d)"
    using stays t seats_retire(1) [OF stays(5), of i "table d" "phil (table d) i" T] by simp
  moreover have "(act d)(i := Leaves) = act d" using stays(1) by auto
  ultimately show ?case by simp
next
  case (leaves d i T)
  note t = seated [OF leaves(5), of i]
  show ?case using leaves t seats_retire(2) [OF leaves(5), of i "table d" "phil (table d) i" T] by (simp add: fun_upd_def)
qed (auto simp: fun_upd_def [symmetric] seats_take seats_eat seats_put seats_command seats_removal elim: seats_main)

lemma seats_add_step:
  assumes "add_step d e" "seats (table d) (act d) (main d)" shows "seats (table e) (act e) (main e)"
  using assms by (induction rule: add_step.induct) (auto simp: added_def seats_add elim: seats_main)

lemma seats_served: "served old n d \<Longrightarrow> seats (table d) (act d) (main d)"
proof (induction rule: served.induct)
  case begins
  then show ?case by (simp add: start_dinner_def seats_def sized_def excl_def)
qed (auto intro: seats_philo_step seats_add_step)

section \<open>Hungry philosophers wait for a neighbour\<close>

lemma hungry_shrink:
  assumes n: "Suc i = philosopherCount T" "\<not> eating T i" and h: "hungry_wait UNIV T"
    and U: "philosopherCount U = i" "\<And>k. k \<noteq> i \<Longrightarrow> ph_state (phil U k) = ph_state (phil T k)"
  shows "hungry_wait UNIV U"
proof -
  have "eating U (LEFT k i) \<or> eating U (RIGHT k i)" if k: "k < i" "ph_state (phil U k) = HUNGRY" for k
  proof -
    have "k < philosopherCount T" "ph_state (phil T k) = HUNGRY" using k n(1) U(2) [of k] by auto
    then consider "eating T (LEFT k (Suc i))" | "eating T (RIGHT k (Suc i))" using h n(1) unfolding hungry_wait_def by auto
    then show ?thesis
    proof cases
      case 1
      then have "k \<noteq> 0" using n(2) k(1) by (cases "k = 0") (auto simp: LEFT_eq)
      then have "LEFT k (Suc i) = k - 1" "LEFT k i = k - 1" using k(1) by (simp_all add: LEFT_eq)
      then show ?thesis using 1 U(2) [of "k - 1"] k(1) by (auto simp: eating_def)
    next
      case 2
      then have "Suc k \<noteq> i" using n(2) k(1) by (auto simp: RIGHT_eq)
      then have "RIGHT k (Suc i) = Suc k" "RIGHT k i = Suc k" "Suc k < i" using k(1) by (simp_all add: RIGHT_eq)
      then show ?thesis using 2 U(2) [of "Suc k"] by (auto simp: eating_def)
    qed
  qed
  then show ?thesis using U(1) by (simp add: hungry_wait_def)
qed

lemma hungry_change:
  assumes "hungry_wait UNIV T" "philosopherCount U = philosopherCount T" "ph_state (phil T i) \<noteq> EATING"
    "\<And>k. k \<noteq> i \<Longrightarrow> ph_state (phil U k) = ph_state (phil T k)"
  shows "hungry_wait (- {i}) U"
proof -
  have "eating T k \<Longrightarrow> eating U k" for k using assms(3,4) by (cases "k = i") (auto simp: eating_def)
  then show ?thesis using assms unfolding hungry_wait_def by (metis Compl_iff UNIV_I insertI1)
qed

lemma hungry_take:
  assumes "seats T a m" "a i = Checked" "hungry_wait UNIV T" shows "hungry_wait UNIV (take_forks i T)"
proof -
  note t = seated [OF assms(1), of i, unfolded assms(2), simplified]
  have "hungry_wait (- {i}) (setState i HUNGRY T)" using t by (intro hungry_change [OF assms(3)]) simp_all
  then have "hungry_wait (insert i (- {i})) (take_forks i T)" unfolding take_forks_def using t by (intro hungry_wait_test) simp_all
  then show ?thesis by (rule hungry_wait_mono) auto
qed

lemma hungry_put:
  assumes "seats T a m" "a i = Eats" "hungry_wait UNIV T" shows "hungry_wait UNIV (put_forks i T)"
proof -
  note t = seated [OF assms(1), of i, unfolded assms(2), simplified]
  let ?n = "philosopherCount T" let ?l = "LEFT i ?n" and ?r = "RIGHT i ?n" and ?U = "setState i THINKING T"
  note l = neighbours [OF t(3)] and l16 = neighbours_16 [OF t(1,3)]
  have sig: "hungry_wait A (signal_die j X) = hungry_wait A X" if "sized X" "j < MAX_PHILOSOPHERS" for A j X
    using that by (simp add: hungry_wait_def eating_def signal_die_seat(3) del: phil_signal)
  have st: "ph_state (phil ?U k) = (if k = i then THINKING else ph_state (phil T k))" for k using t by simp
  have "eating T (LEFT k ?n) \<or> eating T (RIGHT k ?n)" "LEFT k ?n \<noteq> i" "RIGHT k ?n \<noteq> i"
    if "k < ?n" "k \<notin> {?l, ?r}" "ph_state (phil ?U k) = HUNGRY" for k
    using that assms(3) neighbours [OF that(1)] unfolding st by (auto simp: hungry_wait_def split: if_splits)
  then have "hungry_wait (- {?l, ?r}) ?U" unfolding hungry_wait_def eating_def table_frame st by fastforce
  then have "hungry_wait (insert ?l (- {?l, ?r})) (signal_die ?l (test ?l ?U))"
    using t(1) l l16 by (simp only: sig table_frame test_frame hungry_wait_test)
  then have "hungry_wait (insert ?r (insert ?l (- {?l, ?r}))) (put_forks i T)"
    unfolding put_forks_parts using t(1) l l16 by (simp only: sig table_frame test_frame hungry_wait_test)
  then show ?thesis by (rule hungry_wait_mono) auto
qed

lemma hungry_dying:
  assumes "seats T a m" "a i = Thinks" "hungry_wait UNIV T" shows "hungry_wait UNIV (setState i DYING T)"
proof -
  note t = seated [OF assms(1), of i, unfolded assms(2), simplified]
  have "hungry_wait (- {i}) (setState i DYING T)" using t by (intro hungry_change [OF assms(3)]) simp_all
  then show ?thesis using t by (auto simp: hungry_wait_def)
qed

lemma hungry_retire:
  assumes "sized T" "Suc i = philosopherCount T" "ph_state (phil T i) = DYING" "hungry_wait UNIV T" "retire i T = (v, U)"
  shows "hungry_wait UNIV U"
proof (cases "v = Waits")
  case True
  have i: "i < MAX_PHILOSOPHERS" using assms(1,2) by (simp add: sized_def)
  have "U = set_phil i ((phil T i)\<lparr>ph_signalled := False\<rparr>) T" using assms(5) True by (simp add: retire_def split: if_splits)
  then show ?thesis using assms(1) i by (intro hungry_wait_cong [OF assms(4)]) simp_all
next
  case False
  let ?W = "set_phil i ((phil T i)\<lparr>ph_die := False\<rparr>) T"
  have i: "i < MAX_PHILOSOPHERS" using assms(1,2) by (simp add: sized_def)
  have U: "U = render (?W\<lparr>philosopherCount := philosopherCount T - 1\<rparr>)" using assms(5) False by (auto simp: retire_def split: if_splits)
  have "phil U = phil ?W" unfolding U by (simp add: phil_def fun_eq_iff)
  then have "ph_state (phil U k) = ph_state (phil T k)" for k using assms(1) i by simp
  moreover have "philosopherCount U = i" using U assms(2) by simp
  ultimately show ?thesis using assms(3) by (intro hungry_shrink [OF assms(2) _ assms(4)]) (simp_all add: eating_def)
qed

lemma mark_last_state: "sized T \<Longrightarrow> ph_state (phil (mark_last T) k) = ph_state (phil T k)" "philosopherCount (mark_last T) = philosopherCount T"
  by (auto simp: mark_last_def sized_def phil_def set_phil_def nth_list_update)

lemma hungry_removal: "sized (table d) \<Longrightarrow> hungry_wait UNIV (table d) \<Longrightarrow> hungry_wait UNIV (table (removal k d))"
  by (auto simp: removal_def mark_last_state intro: hungry_wait_cong)

lemma hungry_command: "sized (table d) \<Longrightarrow> hungry_wait UNIV (table d) \<Longrightarrow> hungry_wait UNIV (table (command c d))"
  by (simp add: command_defs hungry_removal)

lemma hungry_philo_step:
  assumes "philo_step d e" "seats (table d) (act d) (main d)" "hungry_wait UNIV (table d)"
  shows "hungry_wait UNIV (table e)"
  using assms
proof (induction rule: philo_step.induct)
  case (lives d i T)
  then show ?case by (auto elim: should_die_cases)
next
  case (waits d i T)
  then have "Suc i = philosopherCount (table d)" if "ph_die (phil (table d) i)" using that by (auto simp: seats_def)
  then show ?case using waits seated [OF waits(4), of i]
    by (auto elim!: should_die_cases intro!: hungry_retire [OF _ _ _ hungry_dying [OF waits(4,1,5)]])
next
  case (dies d i T)
  then have "Suc i = philosopherCount (table d)" if "ph_die (phil (table d) i)" using that by (auto simp: seats_def)
  then show ?case using dies seated [OF dies(4), of i]
    by (auto elim!: should_die_cases intro!: hungry_retire [OF _ _ _ hungry_dying [OF dies(4,1,5)]])
next
  case (eats d i)
  then show ?case using seated [OF eats(3), of i] by (auto intro: hungry_wait_cong)
next
  case (stays d i T)
  then have "Suc i = philosopherCount (table d)" using seated [OF stays(5), of i] by (auto simp: seats_def)
  then show ?case using stays seated [OF stays(5), of i] by (auto intro: hungry_retire)
next
  case (leaves d i T)
  then have "Suc i = philosopherCount (table d)" using seated [OF leaves(5), of i] by (auto simp: seats_def)
  then show ?case using leaves seated [OF leaves(5), of i] by (auto intro: hungry_retire)
qed (auto simp: hungry_take hungry_put seats_def intro: hungry_command hungry_removal)

section \<open>Properties\<close>

text \<open>
  C31. However philosophers think, get hungry, eat, join and leave, and whatever the user types: two neighbours at the table
  never eat at the same time.
\<close>

theorem philosophers_exclusion:
  assumes "served old n d" "act d i = Eats" "RIGHT i (philosopherCount (table d)) \<noteq> i"
  shows "act d (RIGHT i (philosopherCount (table d))) \<noteq> Eats"
proof
  assume r: "act d (RIGHT i (philosopherCount (table d))) = Eats"
  note s = seats_served [OF assms(1)]
  have "eating (table d) i" "eating (table d) (RIGHT i (philosopherCount (table d)))" "i < philosopherCount (table d)"
    using seated [OF s, of i] seated [OF s, OF r [THEN ssubst, of "\<lambda>a. a \<noteq> Gone"]] assms(2) r by (auto simp: eating_def)
  then show False using s assms(3) by (auto simp: seats_def excl_def)
qed

text \<open>The processes of the philosophers at the table.\<close>

definition present :: "dinner \<Rightarrow> bool" where
  "present d \<longleftrightarrow> (main d \<noteq> Finished \<longrightarrow> (\<forall>i < philosopherCount (table d). act d i \<noteq> Gone))"

lemma count_should_die:
  "should_die i T = (v, U) \<Longrightarrow> philosopherCount U = (if v = Dies then philosopherCount T - 1 else philosopherCount T)"
  "retire i T = (v, U) \<Longrightarrow> philosopherCount U = (if v = Dies then philosopherCount T - 1 else philosopherCount T)"
  by (auto simp: should_die_def retire_def split: if_splits)

lemma present_step:
  assumes "philo_step d e" "seats (table d) (act d) (main d)" "present d" shows "present e"
  using assms
proof (induction rule: philo_step.induct)
  case (dies d i T)
  from dies(3) have "ph_die (phil (table d) i)" by (auto elim: should_die_cases)
  then have "Suc i = philosopherCount (table d)" using dies(1,4) by (auto simp: seats_def)
  then show ?case using dies count_should_die(1) [OF dies(3)] by (auto simp: present_def)
next
  case (leaves d i T)
  have "Suc i = philosopherCount (table d)" using seated [OF leaves(5), of i] leaves(1,5) by (auto simp: seats_def)
  then show ?case using leaves count_should_die(2) [OF leaves(4)] by (auto simp: present_def)
qed (auto simp: present_def count_should_die take_forks_def put_forks_parts command_defs removal_def mark_last_def dest: count_should_die)

lemma present_add: "add_step d e \<Longrightarrow> present d \<Longrightarrow> present e"
  by (induction rule: add_step.induct) (auto simp: present_def added_def add_philosopher_def)

lemma present_served: "served old n d \<Longrightarrow> present d"
proof (induction rule: served.induct)
  case begins
  then show ?case by (simp add: present_def start_dinner_def)
qed (auto intro: present_step present_add seats_served)

lemma hungry_steps:
  assumes "philo_step\<^sup>*\<^sup>* d e" "served old n d" "hungry_wait UNIV (table d)"
  shows "served old n e \<and> hungry_wait UNIV (table e)"
  using assms by (induction rule: rtranclp_induct) (auto intro: served.acts hungry_philo_step seats_served)


section \<open>Three philosophers\<close>

definition idle_philosopher :: philosopher_data where
  "idle_philosopher = \<lparr>ph_state = THINKING, ph_mut = False, ph_die = False, ph_signalled = False\<rparr>"

definition no_philosophers :: "philosopher_data list" where
  "no_philosophers = replicate 16 idle_philosopher"

lemma three_thinking:
  "\<exists>d. served no_philosophers 3 d \<and> main d = Listening \<and> \<not> paused d \<and> philosopherCount (table d) = 3 \<and>
    sized (table d) \<and> (\<forall>i < 3. act d i = Thinks \<and> phil (table d) i = idle_philosopher)"
proof -
  let ?d0 = "start_dinner no_philosophers 3"
  let ?add = "\<lambda>d k. (added d)\<lparr>main := Starting k\<rparr>"
  let ?d3 = "?add (?add (?add ?d0 2) 1) 0"
  have "served no_philosophers 3 ?d0" by (rule served.begins) (simp add: no_philosophers_def)
  then have "served no_philosophers 3 (?add ?d0 2)" by (rule served.joins) (rule add_step.starts, simp add: start_dinner_def)
  then have "served no_philosophers 3 (?add (?add ?d0 2) 1)" by (rule served.joins) (rule add_step.starts, simp)
  then have "served no_philosophers 3 ?d3" by (rule served.joins) (rule add_step.starts, simp)
  then have "served no_philosophers 3 (?d3\<lparr>main := Listening\<rparr>)" by (rule served.acts) (rule philo_step.started, simp)
  moreover have "sized (table ?d0)" by (simp add: start_dinner_def sized_def no_philosophers_def)
  ultimately show ?thesis
    by (intro exI [of _ "?d3\<lparr>main := Listening\<rparr>"])
      (auto simp: start_dinner_def added_def add_philosopher_def phil_def set_phil_def sized_def no_philosophers_def
        idle_philosopher_def less_Suc_eq numeral_3_eq_3 numeral_2_eq_2)
qed

lemma thinker_takes:
  assumes "act d i = Thinks" "\<not> paused d" "\<not> ph_die (phil (table d) i)"
  shows "philo_step\<^sup>*\<^sup>* d (d\<lparr>table := take_forks i (table d), act := (act d)(i := Awaits)\<rparr>)"
proof -
  let ?d = "d\<lparr>table := table d, act := (act d)(i := Checked)\<rparr>"
  have "philo_step d ?d" using assms by (intro philo_step.lives) (simp_all add: should_die_def)
  moreover have "philo_step ?d (?d\<lparr>table := take_forks i (table ?d), act := (act ?d)(i := Awaits)\<rparr>)"
    using assms(2) by (intro philo_step.takes) simp_all
  then have "philo_step ?d (d\<lparr>table := take_forks i (table d), act := (act d)(i := Awaits)\<rparr>)" by simp
  ultimately show ?thesis by (meson converse_rtranclp_into_rtranclp r_into_rtranclp)
qed

text \<open>Philosopher 0 has its forks, and philosopher 2 waits for them.\<close>

lemma two_waits:
  "\<exists>d e. served no_philosophers 3 d \<and> hungry_wait UNIV (table d) \<and> philo_step\<^sup>*\<^sup>* d e \<and> main e = Listening \<and> \<not> paused e \<and>
    philosopherCount (table e) = 3 \<and> sized (table e) \<and> act e 0 = Awaits \<and> act e 2 = Awaits \<and>
    ph_mut (phil (table e) 0) \<and> ph_state (phil (table e) 0) = EATING \<and>
    phil (table e) 1 = idle_philosopher \<and> ph_state (phil (table e) 2) = HUNGRY"
proof -
  obtain d where d: "served no_philosophers 3 d" "main d = Listening" "\<not> paused d" "philosopherCount (table d) = 3"
    "sized (table d)" "\<And>i. i < 3 \<Longrightarrow> act d i = Thinks \<and> phil (table d) i = idle_philosopher"
    using three_thinking by blast
  let ?e = "d\<lparr>table := take_forks 0 (table d), act := (act d)(0 := Awaits)\<rparr>"
  let ?f = "?e\<lparr>table := take_forks 2 (table ?e), act := (act ?e)(2 := Awaits)\<rparr>"
  have h: "hungry_wait UNIV (table d)" using d(4,6) by (auto simp: hungry_wait_def idle_philosopher_def)
  have n: "LEFT 0 3 = 2" "RIGHT 0 3 = 1" "LEFT 2 3 = 1" "RIGHT 2 3 = 0" by (simp_all add: LEFT_def RIGHT_def)
  have i: "phil (table d) 0 = idle_philosopher" "phil (table d) 1 = idle_philosopher" "phil (table d) 2 = idle_philosopher"
    "act d 0 = Thinks" "act d 2 = Thinks" using d(6) by simp_all
  have T: "phil (take_forks 0 (table d)) = (phil (table d))(0 := idle_philosopher\<lparr>ph_state := EATING, ph_mut := True\<rparr>)"
    using d(4,5) i by (simp add: take_forks_def phil_test may_eat_def eating_def n) (simp add: idle_philosopher_def)
  have c: "philosopherCount (take_forks 0 (table d)) = 3" "sized (take_forks 0 (table d))" using d(4,5) by (simp_all add: take_forks_def)
  have U: "phil (table ?f) = (phil (table d))(0 := idle_philosopher\<lparr>ph_state := EATING, ph_mut := True\<rparr>, 2 := idle_philosopher\<lparr>ph_state := HUNGRY\<rparr>)"
    using c i by (simp add: take_forks_def [of 2] phil_test may_eat_def eating_def n T)
  have "philo_step\<^sup>*\<^sup>* d ?e" by (rule thinker_takes) (use d(3) i in \<open>simp_all add: idle_philosopher_def\<close>)
  moreover have "philo_step\<^sup>*\<^sup>* ?e ?f"
    by (rule thinker_takes) (use d(3) i T in \<open>simp_all add: idle_philosopher_def\<close>)
  ultimately have "philo_step\<^sup>*\<^sup>* d ?f" by (rule rtranclp_trans)
  moreover have "philosopherCount (table ?f) = 3" "sized (table ?f)" using c by (simp_all add: take_forks_def [of 2])
  moreover have "main ?f = Listening" "\<not> paused ?f" "act ?f 0 = Awaits" "act ?f 2 = Awaits" using d(2,3) by simp_all
  moreover have "ph_mut (phil (table ?f) 0)" "ph_state (phil (table ?f) 0) = EATING"
    "phil (table ?f) 1 = idle_philosopher" "ph_state (phil (table ?f) 2) = HUNGRY" unfolding U using i by simp_all
  ultimately show ?thesis using d(1) h by blast
qed

lemma philosophers_exclusion_witness:
  "\<exists>d. served no_philosophers 3 d \<and> act d 0 = Eats \<and> act d 1 \<noteq> Eats"
proof -
  obtain d e where e: "served no_philosophers 3 d" "hungry_wait UNIV (table d)" "philo_step\<^sup>*\<^sup>* d e" "philosopherCount (table e) = 3"
    "act e 0 = Awaits" "ph_mut (phil (table e) 0)" using two_waits by blast
  let ?e = "e\<lparr>table := set_phil 0 ((phil (table e) 0)\<lparr>ph_mut := False\<rparr>) (table e), act := (act e)(0 := Eats)\<rparr>"
  have "served no_philosophers 3 e" using hungry_steps [OF e(3,1,2)] by simp
  then have s: "served no_philosophers 3 ?e" by (rule served.acts) (rule philo_step.eats [OF e(5,6)])
  have "RIGHT 0 (philosopherCount (table ?e)) = 1" "act ?e 0 = Eats" using e(4) by (simp_all add: RIGHT_def)
  then show ?thesis using philosophers_exclusion [OF s, of 0] s by (metis zero_neq_one)
qed


text \<open>
  Joining can leave a philosopher hungry with both forks free: the new philosopher sits down between one that waits and the
  neighbour that it waits for, and nobody tests the one that waits.
\<close>

theorem joining_leaves_hungry:
  "\<exists>d e i. served no_philosophers 3 d \<and> add_step d e \<and> hungry_wait UNIV (table d) \<and> act e i = Awaits \<and>
     \<not> ph_mut (phil (table e) i) \<and> \<not> eating (table e) (LEFT i (philosopherCount (table e))) \<and>
     \<not> eating (table e) (RIGHT i (philosopherCount (table e)))"
proof -
  obtain d e where e: "served no_philosophers 3 d" "hungry_wait UNIV (table d)" "philo_step\<^sup>*\<^sup>* d e" "philosopherCount (table e) = 3"
    "main e = Listening" "\<not> paused e" "sized (table e)" "act e 2 = Awaits" "ph_state (phil (table e) 2) = HUNGRY"
    "phil (table e) 1 = idle_philosopher" using two_waits by blast
  have s: "served no_philosophers 3 e" "hungry_wait UNIV (table e)" using hungry_steps [OF e(3,1,2)] by simp_all
  have m: "\<not> ph_mut (phil (table e) 2)" using agrees_seat [OF seats_served [OF s(1)], of 2] e(8,9) by simp
  have p: "phil (add_philosopher (table e)) = (phil (table e))(3 := idle_philosopher)" "philosopherCount (add_philosopher (table e)) = 4"
    using e(4,7) by (simp_all add: add_philosopher_def phil_def set_phil_def sized_def fun_eq_iff idle_philosopher_def)
  have a: "added e = e\<lparr>table := add_philosopher (table e), act := (act e)(3 := Thinks)\<rparr>" using e(4) by (simp add: added_def)
  have n: "LEFT 2 4 = 1" "RIGHT 2 4 = 3" by (simp_all add: LEFT_def RIGHT_def)
  have "add_step e (added e)" using add_step.adds [OF e(5)] e(6) by simp
  moreover have "act (added e) 2 = Awaits" "\<not> ph_mut (phil (table (added e)) 2)" using e(8) m by (simp_all add: a p)
  moreover have "\<not> eating (table (added e)) (LEFT 2 (philosopherCount (table (added e))))"
    "\<not> eating (table (added e)) (RIGHT 2 (philosopherCount (table (added e))))"
    using e(10) by (simp_all add: a p n eating_def) (simp_all add: idle_philosopher_def)
  ultimately show ?thesis using s by blast
qed

end
