(* ===== verification/Terminal.thy ===== *)
theory Terminal
  imports System_Calls
begin

text \<open>
  The terminal library of the kernel's shell and commands (\<open>Kernel/stdio.c\<close>): reading a line with
  editing, formatted input and output. The state adds to the kernel the buffer of the last line typed
  and the position in it (\<open>buffer\<close> and \<open>buffi\<close>). A yield inside a system call hands over the whole
  state, since other processes use the same buffer.

  The code passes the addresses of local variables to the system calls: \<open>frame\<close> holds them. \<open>n\<close> is the
  fuel of a system call, \<open>m\<close> that of a loop.
\<close>

section \<open>State\<close>

record tty =
  kern :: kstate
  l_buffer :: "u8 list"
  buffi :: nat

type_synonym 'a tres = "(tty, 'a) res"

text \<open>The address of \<open>c\<close> in \<open>fill_buffer\<close>, of \<open>c\<close> in \<open>fputchar\<close>, and of \<open>aux\<close> in \<open>scanf\<close> and \<open>fprintformat\<close>.\<close>

record frame =
  at_c :: u64
  at_out :: u64
  at_aux :: u64

primrec in_kernel :: "'a kres \<Rightarrow> tty \<Rightarrow> 'a tres" where
  "in_kernel (Ret x s) t = Ret x (t\<lparr>kern := s\<rparr>)"
| "in_kernel (Yld s k) t = Yld (t\<lparr>kern := s\<rparr>) (\<lambda>u. in_kernel (k (kern u)) u)"
| "in_kernel (Fault e) t = Fault e"

definition sys :: "(kstate \<Rightarrow> 'a kres) \<Rightarrow> tty \<Rightarrow> 'a tres" where
  "sys f t = in_kernel (f (kern t)) t"

definition memory :: "tty \<Rightarrow> mem" where
  "memory t = bytes (kern t)"

definition set_memory :: "mem \<Rightarrow> tty \<Rightarrow> tty" where
  "set_memory m t = t\<lparr>kern := (kern t)\<lparr>bytes := m\<rparr>\<rparr>"

definition poke :: "u64 \<Rightarrow> u8 \<Rightarrow> tty \<Rightarrow> tty" where
  "poke a b t = set_memory ((memory t)(a := b)) t"

abbreviation BUFFER_SIZE :: nat where "BUFFER_SIZE \<equiv> 1024"

section \<open>Characters\<close>

text \<open>The call reads the first byte of the \<open>int\<close>.\<close>

definition fputchar :: "nat \<Rightarrow> frame \<Rightarrow> u32 \<Rightarrow> int \<Rightarrow> tty \<Rightarrow> unit tres" where
  "fputchar n fr fds c t = bnd (sys (sys_write n (ucast fds) (at_out fr) 1) (poke (at_out fr) (of_int c) t)) (\<lambda>_ t. Ret () t)"

definition putchar :: "nat \<Rightarrow> frame \<Rightarrow> int \<Rightarrow> tty \<Rightarrow> unit tres" where
  "putchar n fr c t = fputchar n fr 0 c t"

primrec fill_loop :: "nat \<Rightarrow> nat \<Rightarrow> frame \<Rightarrow> nat \<Rightarrow> tty \<Rightarrow> unit tres" where
  "fill_loop n 0 fr i t = Fault Out_Of_Fuel"
| "fill_loop n (Suc m) fr i t =
     bnd (sys (sys_read n STDIN (at_c fr) 1) t) (\<lambda>_ t.
       let c = memory t (at_c fr)
       in bnd (if c = 8 \<and> i > 0
               then bnd (if l_buffer t ! (i - 1) \<noteq> 9 then putchar n fr (uint c) t else Ret () t) (\<lambda>_ t. Ret (i - 1) t)
               else if c \<noteq> 8
               then bnd (putchar n fr (uint c) (t\<lparr>l_buffer := (l_buffer t)[i := c]\<rparr>)) (\<lambda>_ t. Ret (i + 1) t)
               else Ret i t) (\<lambda>i t.
          if c \<noteq> 10 \<and> i < BUFFER_SIZE - 1 then fill_loop n m fr i t else Ret () t))"

definition fill_buffer :: "nat \<Rightarrow> nat \<Rightarrow> frame \<Rightarrow> tty \<Rightarrow> unit tres" where
  "fill_buffer n m fr t = fill_loop n m fr 0 t"

definition take_char :: "tty \<Rightarrow> int tres" where
  "take_char t =
     (let c = l_buffer t ! buffi t; i = buffi t + 1
      in Ret (uint c) (t\<lparr>buffi := (if c = 10 \<or> i = BUFFER_SIZE then 0 else i)\<rparr>))"

definition getchar :: "nat \<Rightarrow> nat \<Rightarrow> frame \<Rightarrow> tty \<Rightarrow> int tres" where
  "getchar n m fr t = bnd (if buffi t = 0 then fill_buffer n m fr t else Ret () t) (\<lambda>_ t. take_char t)"

section \<open>Lines\<close>

primrec readline_loop :: "nat \<Rightarrow> nat \<Rightarrow> nat \<Rightarrow> frame \<Rightarrow> u64 \<Rightarrow> u32 \<Rightarrow> u32 \<Rightarrow> tty \<Rightarrow> u32 tres" where
  "readline_loop n m 0 fr str maxlen i t = Fault Out_Of_Fuel"
| "readline_loop n m (Suc k) fr str maxlen i t =
     (if i < maxlen - 1
      then bnd (getchar n m fr t) (\<lambda>c t.
             if c \<noteq> 10 then readline_loop n m k fr str maxlen (i + 1) (poke (str + ucast i) (of_int c) t) else Ret i t)
      else Ret i t)"

definition readline :: "nat \<Rightarrow> nat \<Rightarrow> nat \<Rightarrow> frame \<Rightarrow> u64 \<Rightarrow> u32 \<Rightarrow> tty \<Rightarrow> int tres" where
  "readline n m k fr str maxlen t =
     bnd (readline_loop n m k fr str maxlen 0 t) (\<lambda>i t. Ret (sint i) (poke (str + ucast i) 0 t))"

text \<open>\<open>sp\<close> is \<open>state == SPACE\<close>.\<close>

primrec no_spaces_loop :: "nat \<Rightarrow> nat \<Rightarrow> nat \<Rightarrow> frame \<Rightarrow> u64 \<Rightarrow> u32 \<Rightarrow> bool \<Rightarrow> u32 \<Rightarrow> tty \<Rightarrow> u32 tres" where
  "no_spaces_loop n m 0 fr str maxlen sp i t = Fault Out_Of_Fuel"
| "no_spaces_loop n m (Suc k) fr str maxlen sp i t =
     bnd (getchar n m fr t) (\<lambda>c t.
       if c \<noteq> 10 \<and> i < maxlen - 1
       then if \<not> sp then no_spaces_loop n m k fr str maxlen (isspace c) (i + 1) (poke (str + ucast i) (of_int c) t)
            else if \<not> isspace c then no_spaces_loop n m k fr str maxlen False (i + 1) (poke (str + ucast i) (of_int c) t)
            else no_spaces_loop n m k fr str maxlen sp i t
       else Ret i t)"

definition readline_no_spaces :: "nat \<Rightarrow> nat \<Rightarrow> nat \<Rightarrow> frame \<Rightarrow> u64 \<Rightarrow> u32 \<Rightarrow> tty \<Rightarrow> int tres" where
  "readline_no_spaces n m k fr str maxlen t =
     bnd (no_spaces_loop n m k fr str maxlen True 0 t) (\<lambda>i t.
       let i = (if i > 0 \<and> isspace (ch (memory t) (str + ucast (i - 1))) then i - 1 else i)
       in Ret (sint i) (poke (str + ucast i) 0 t))"

section \<open>Formatted output\<close>

datatype va_arg = Va_Int int | Va_Ptr u64

definition of_lib :: "'a option \<Rightarrow> ('a \<Rightarrow> tty \<Rightarrow> 'b tres) \<Rightarrow> tty \<Rightarrow> 'b tres" where
  "of_lib r f t = (case r of None \<Rightarrow> Fault No_Result | Some x \<Rightarrow> f x t)"

primrec prints_loop :: "nat \<Rightarrow> nat \<Rightarrow> frame \<Rightarrow> u32 \<Rightarrow> u64 \<Rightarrow> int \<Rightarrow> tty \<Rightarrow> int tres" where
  "prints_loop n 0 fr fds str i t = Fault Out_Of_Fuel"
| "prints_loop n (Suc m) fr fds str i t =
     (if ch (memory t) (str + of_int i) \<noteq> 0
      then bnd (fputchar n fr fds (ch (memory t) (str + of_int i)) t) (\<lambda>_ t. prints_loop n m fr fds str (i + 1) t)
      else Ret i t)"

definition prints :: "nat \<Rightarrow> nat \<Rightarrow> frame \<Rightarrow> u32 \<Rightarrow> u64 \<Rightarrow> tty \<Rightarrow> int tres" where
  "prints n m fr fds str t = prints_loop n m fr fds str 0 t"

definition print_base :: "int \<Rightarrow> nat \<Rightarrow> nat \<Rightarrow> frame \<Rightarrow> u32 \<Rightarrow> int \<Rightarrow> tty \<Rightarrow> int tres" where
  "print_base base n m fr fds v t =
     of_lib (itoa v (at_aux fr) base (memory t)) (\<lambda>(_, b) t. prints n m fr fds (at_aux fr) (set_memory b t)) t"

definition printi :: "nat \<Rightarrow> nat \<Rightarrow> frame \<Rightarrow> u32 \<Rightarrow> int \<Rightarrow> tty \<Rightarrow> int tres" where
  "printi n m fr fds v t = print_base 10 n m fr fds v t"

definition printb :: "nat \<Rightarrow> nat \<Rightarrow> frame \<Rightarrow> u32 \<Rightarrow> int \<Rightarrow> tty \<Rightarrow> int tres" where
  "printb n m fr fds v t = print_base 2 n m fr fds v t"

definition printx :: "nat \<Rightarrow> nat \<Rightarrow> frame \<Rightarrow> u32 \<Rightarrow> int \<Rightarrow> tty \<Rightarrow> int tres" where
  "printx n m fr fds v t = print_base 16 n m fr fds v t"

definition va_int :: "va_arg list \<Rightarrow> (int \<Rightarrow> tty \<Rightarrow> 'a tres) \<Rightarrow> tty \<Rightarrow> 'a tres" where
  "va_int args f t = (case args of Va_Int v # _ \<Rightarrow> f v t | Va_Ptr p # _ \<Rightarrow> f (to_int p) t | [] \<Rightarrow> Fault Uninitialised)"

definition va_ptr :: "va_arg list \<Rightarrow> (u64 \<Rightarrow> tty \<Rightarrow> 'a tres) \<Rightarrow> tty \<Rightarrow> 'a tres" where
  "va_ptr args f t = (case args of Va_Ptr p # _ \<Rightarrow> f p t | _ \<Rightarrow> Fault Bad_Pointer)"

primrec fprintformat :: "nat \<Rightarrow> nat \<Rightarrow> frame \<Rightarrow> u32 \<Rightarrow> u64 \<Rightarrow> va_arg list \<Rightarrow> int \<Rightarrow> tty \<Rightarrow> int tres" where
  "fprintformat n 0 fr fds format args len t = Fault Out_Of_Fuel"
| "fprintformat n (Suc m) fr fds format args len t =
     (let c = ch (memory t) format
      in if c = 0 then Ret len t
         else if c \<noteq> 37 then bnd (fputchar n fr fds c t) (\<lambda>_ t. fprintformat n m fr fds (format + 1) args (len + 1) t)
         else let symbol = ch (memory t) (format + 1);
                  more = (\<lambda>args k t. fprintformat n m fr fds (format + 2) args (len + k) t)
              in if symbol = 100 \<or> symbol = 105 then va_int args (\<lambda>v t. bnd (printi n m fr fds v t) (more (tl args))) t
                 else if symbol = 115 then va_ptr args (\<lambda>p t. bnd (prints n m fr fds p t) (more (tl args))) t
                 else if symbol = 120 then va_int args (\<lambda>v t. bnd (printx n m fr fds v t) (more (tl args))) t
                 else if symbol = 98 then va_int args (\<lambda>v t. bnd (printb n m fr fds v t) (more (tl args))) t
                 else if symbol = 99 then va_int args (\<lambda>v t. bnd (fputchar n fr fds (v mod 256) t) (\<lambda>_. more (tl args) 1)) t
                 else if symbol = 37 then bnd (fputchar n fr fds 37 t) (\<lambda>_. more args 1)
                 else Ret len t)"

definition printf :: "nat \<Rightarrow> nat \<Rightarrow> frame \<Rightarrow> u64 \<Rightarrow> va_arg list \<Rightarrow> tty \<Rightarrow> int tres" where
  "printf n m fr format args t = fprintformat n m fr 0 format args 0 t"

definition fprintf :: "nat \<Rightarrow> nat \<Rightarrow> frame \<Rightarrow> u32 \<Rightarrow> u64 \<Rightarrow> va_arg list \<Rightarrow> tty \<Rightarrow> int tres" where
  "fprintf n m fr fds format args t = fprintformat n m fr fds format args 0 t"

section \<open>Formatted input\<close>

primrec skip_digits :: "nat \<Rightarrow> mem \<Rightarrow> u64 \<Rightarrow> u64 option" where
  "skip_digits 0 b p = None"
| "skip_digits (Suc m) b p = (if isdigit (ch b (p + 1)) then skip_digits m b (p + 1) else Some p)"

definition store_int :: "u64 \<Rightarrow> int \<Rightarrow> mem \<Rightarrow> mem" where
  "store_int p v b = (let w = of_int v :: u32 in
     b(p := ucast w, p + 1 := ucast (drop_bit 8 w), p + 2 := ucast (drop_bit 16 w), p + 3 := ucast (drop_bit 24 w)))"

text \<open>\<open>format\<close> and \<open>p\<close> are \<open>format + i\<close> and \<open>aux + j\<close>.\<close>

primrec scan_format :: "nat \<Rightarrow> u64 \<Rightarrow> u64 \<Rightarrow> va_arg list \<Rightarrow> int \<Rightarrow> tty \<Rightarrow> int tres" where
  "scan_format 0 format p args argc t = Fault Out_Of_Fuel"
| "scan_format (Suc m) format p args argc t =
     (let b = memory t
      in if b p \<noteq> 0 \<and> b format \<noteq> 0
         then if ch b format = 37
              then let f = ch b (format + 1)
                   in if f = 100
                      then if ch b p \<noteq> 43 \<and> ch b p \<noteq> 45 \<and> \<not> isdigit (ch b p) then Ret argc t
                           else of_lib (atoi b p) (\<lambda>num.
                                va_ptr args (\<lambda>a t.
                                of_lib (skip_digits m (store_int a num (memory t)) p)
                                  (\<lambda>p t. scan_format m (format + 2) (p + 1) (tl args) (argc + 1) t)
                                  (set_memory (store_int a num (memory t)) t))) t
                      else if f = 115
                      then va_ptr args (\<lambda>a. of_lib (strcpy a p b) (\<lambda>(_, b) t. Ret (argc + 1) (set_memory b t))) t
                      else if f = 37
                      then if ch b p \<noteq> 37 then Ret argc t else scan_format m (format + 2) (p + 2) args (argc + 1) t
                      else scan_format m (format + 2) (p + 1) args (argc + 1) t
              else if b format \<noteq> b p then Ret argc t
              else scan_format m (format + 1) (p + 1) args argc t
         else Ret argc t)"

definition scanf :: "nat \<Rightarrow> nat \<Rightarrow> nat \<Rightarrow> frame \<Rightarrow> u64 \<Rightarrow> va_arg list \<Rightarrow> tty \<Rightarrow> int tres" where
  "scanf n m k fr format args t =
     bnd (readline n m k fr (at_aux fr) (of_nat BUFFER_SIZE) t) (\<lambda>_ t. scan_format m format (at_aux fr) args 0 t)"

end
