(* ===== verification/Shell.thy ===== *)
theory Shell
  imports Terminal
begin

text \<open>
  The shell of the kernel: \<open>shell.c\<close>, starting a command as a process (\<open>executer.c\<close>), the commands
  (\<open>commands.c\<close>), the text that describes a process (\<open>process_info.c\<close>), the tables of IPC objects
  (\<open>ipc_info.c\<close>) and the clock (\<open>time.c\<close>).

  A program has a frame of local variables (theory \<open>Terminal\<close>), arrays of its own and string literals; \<open>prog\<close>
  gives their addresses, those of the functions that become processes, and the fuel of system calls and loops. The text of a literal stands at
  its address: the hypotheses that need it say so.
\<close>

section \<open>Programs\<close>

record prog =
  fr :: frame
  lit :: "string \<Rightarrow> u64"
  code :: "string \<Rightarrow> u64"
  at_buffer :: u64
  at_name :: u64
  fuel :: nat

definition show_text :: "prog \<Rightarrow> string \<Rightarrow> va_arg list \<Rightarrow> tty \<Rightarrow> unit tres" where
  "show_text P format args t = bnd (printf (fuel P) (fuel P) (fr P) (lit P format) args t) (\<lambda>_ t. Ret () t)"

definition newline :: string where "newline = [CHR 0x0A]"

definition put_ch :: "prog \<Rightarrow> int \<Rightarrow> tty \<Rightarrow> unit tres" where
  "put_ch P c t = putchar (fuel P) (fr P) c t"

definition call :: "(nat \<Rightarrow> kstate \<Rightarrow> 'a kres) \<Rightarrow> prog \<Rightarrow> tty \<Rightarrow> 'a tres" where
  "call f P t = sys (f (fuel P)) t"

section \<open>\<open>executer.c\<close>\<close>

abbreviation MAX_ARGS :: nat where "MAX_ARGS \<equiv> 32"
abbreviation PAGE :: u64 where "PAGE \<equiv> 0x1000"

text \<open>The loop of \<open>build_arguments\<close>: \<open>i\<close> arguments are done, and the next one starts at \<open>p\<close>.\<close>

primrec build_loop :: "nat \<Rightarrow> u64 \<Rightarrow> u64 \<Rightarrow> u64 \<Rightarrow> nat \<Rightarrow> u64 \<Rightarrow> nat \<Rightarrow> mem \<Rightarrow> mem option" where
  "build_loop 0 arg arg_strings arguments i p j m = None"
| "build_loop (Suc k) arg arg_strings arguments i p j m =
     (let c = m (arg + of_nat j); a = arg_strings + of_nat j
      in if c \<noteq> 0
         then if c = 32
              then build_loop k arg arg_strings arguments (i + 1) (a + 1) (j + 1) (store_ptr (arguments + of_nat (8 * i)) p (m(a := 0)))
              else build_loop k arg arg_strings arguments i p (j + 1) (m(a := c))
         else Some (store_ptr (arguments + of_nat (8 * (i + 1))) 0 (store_ptr (arguments + of_nat (8 * i)) p (m(a := 0)))))"

definition build_arguments :: "nat \<Rightarrow> u64 \<Rightarrow> u64 \<Rightarrow> u64 \<Rightarrow> mem \<Rightarrow> mem option" where
  "build_arguments k arg arg_strings arguments m =
     (if m arg = 0 then Some (store_ptr arguments 0 m) else build_loop k arg arg_strings arguments 0 arg_strings 0 m)"

text \<open>A process that is the first one of the scheduler is switched to at once: then \<open>execp\<close> does not return.\<close>

definition execp :: "prog \<Rightarrow> u64 \<Rightarrow> u64 \<Rightarrow> u64 \<Rightarrow> tty \<Rightarrow> u64 or_switch tres" where
  "execp P function_ptr arg name t =
     bnd (call (\<lambda>n. sys_malloc n PAGE) P t) (\<lambda>page t.
     of_lib (build_arguments (fuel P) arg (page + of_nat (MAX_ARGS * 8)) (page + 8) (store_ptr page function_ptr (memory t))) (\<lambda>m t.
     bnd (call (\<lambda>n. with_name n name (sys_exec n (code P ''executer'') page)) P (set_memory m t)) (\<lambda>r t.
       case r of
         Switch_To rsp \<Rightarrow> Ret (Switch_To rsp) t
       | Returns pid \<Rightarrow>
           bnd (sys sys_yield t) (\<lambda>_ t.
           bnd (call (\<lambda>n. sys_free n page) P t) (\<lambda>_ t. Ret (Returns pid) t)))) t)"

definition execpn :: "prog \<Rightarrow> u64 \<Rightarrow> u64 \<Rightarrow> tty \<Rightarrow> u64 or_switch tres" where
  "execpn P function_ptr name t = execp P function_ptr (lit P []) name t"

primrec count_args :: "nat \<Rightarrow> mem \<Rightarrow> u64 \<Rightarrow> nat \<Rightarrow> nat option" where
  "count_args 0 m argv argc = None"
| "count_args (Suc k) m argv argc = (if load_ptr m (argv + of_nat (8 * argc)) \<noteq> 0 then count_args k m argv (argc + 1) else Some argc)"

text \<open>\<open>run f argc argv\<close> is the function at \<open>f\<close>; when it returns, the process ends.\<close>

definition executer :: "(u64 \<Rightarrow> nat \<Rightarrow> u64 \<Rightarrow> tty \<Rightarrow> int tres) \<Rightarrow> prog \<Rightarrow> u64 \<Rightarrow> tty \<Rightarrow> u64 or_switch tres" where
  "executer run P params t =
     bnd (call (\<lambda>n. sys_malloc n PAGE) P t) (\<lambda>page t.
     let t = set_memory (memcpy page params PAGE (memory t)) t
     in of_lib (count_args (fuel P) (memory t) (page + 8) 0) (\<lambda>argc t.
        bnd (run (load_ptr (memory t) page) argc (page + 8) t) (\<lambda>_ t.
        bnd (call (\<lambda>n. sys_free n page) P t) (\<lambda>_ t.
        bnd (sys sys_ppid t) (\<lambda>ppid t.
        bnd (sys (sys_set_foreground ppid) t) (\<lambda>_ t. call (\<lambda>n. sys_end n n) P t))))) t)"

section \<open>\<open>time.c\<close>\<close>

abbreviation MIN_GMT :: int where "MIN_GMT \<equiv> - 12"
abbreviation MAX_GMT :: int where "MAX_GMT \<equiv> 14"
abbreviation DEFAULT_GMT :: int where "DEFAULT_GMT \<equiv> - 3"

text \<open>The result and the new value of \<open>GMT\<close>.\<close>

definition setGMT :: "int \<Rightarrow> int \<Rightarrow> int \<times> int" where
  "setGMT gmt GMT = (if gmt \<ge> MIN_GMT \<and> gmt \<le> MAX_GMT then (1, gmt) else (0, GMT))"

definition getGMT :: "int \<Rightarrow> int \<Rightarrow> int" where
  "getGMT gmt GMT = GMT"

definition secondsC :: "rtc \<Rightarrow> int" where
  "secondsC r = to_int (sys_time r 0)"

definition minutesC :: "rtc \<Rightarrow> int" where
  "minutesC r = to_int (sys_time r 1)"

definition hourC :: "rtc \<Rightarrow> int \<Rightarrow> int" where
  "hourC r GMT =
     (let h = to_int (sys_time r 2 + of_int GMT)
      in if h \<ge> 0 \<and> h \<le> 23 then h else if h < 0 then h + 24 else h - 24)"

definition sleep_primitive :: "nat \<Rightarrow> u64 \<Rightarrow> kstate \<Rightarrow> unit kres" where
  "sleep_primitive n milliseconds s = bnd (sys_wait n milliseconds s) (\<lambda>_ s. Ret () s)"

section \<open>\<open>process_info.c\<close>\<close>

text \<open>\<open>strcpysep\<close> for a text that is not in the memory of the model: a literal or a field of the structure.\<close>

definition text_bytes :: "string \<Rightarrow> u8 list" where
  "text_bytes xs = map (\<lambda>c. of_nat (of_char c)) xs"

definition strcpysep :: "u64 \<Rightarrow> string \<Rightarrow> char \<Rightarrow> mem \<Rightarrow> int \<times> mem" where
  "strcpysep dest source separator m = (int (length source) + 1, wr m dest (text_bytes (source @ [separator]) @ [0]))"

definition put_itoa :: "u64 \<Rightarrow> int \<Rightarrow> int \<Rightarrow> u64 \<Rightarrow> mem \<Rightarrow> (int \<times> mem) option" where
  "put_itoa buffer i base v m = map_option (\<lambda>(k, m). (i + k, m)) (itoa (to_int v) (buffer + of_int i) base m)"

definition put_sep :: "u64 \<Rightarrow> int \<Rightarrow> string \<Rightarrow> mem \<Rightarrow> int \<times> mem" where
  "put_sep buffer i source m = (let (k, m) = strcpysep (buffer + of_int i) source CHR '' '' m in (i + k, m))"

definition run_state_name :: "run_state \<Rightarrow> string" where
  "run_state_name st = (case st of Running \<Rightarrow> ''RUNNING'' | Ready \<Rightarrow> ''READY'' | Blocked \<Rightarrow> ''BLOCKED'')"

primrec put_pages :: "ptr list \<Rightarrow> u64 \<Rightarrow> int \<Rightarrow> mem \<Rightarrow> (int \<times> mem) option" where
  "put_pages [] buffer i m = Some (i, m)"
| "put_pages (p # ps) buffer i m =
     (case put_itoa buffer i 16 p m of None \<Rightarrow> None
      | Some (i, m) \<Rightarrow>
          if ps \<noteq> [] then put_pages ps buffer (i + 2) (m(buffer + of_int i := 44, buffer + of_int i + 1 := 32))
          else put_pages ps buffer i m)"

definition process_string :: "process_info \<Rightarrow> u64 \<Rightarrow> mem \<Rightarrow> (int \<times> mem) option" where
  "process_string p buffer m =
     Option.bind (put_itoa buffer 0 10 (pi_pid p) m) (\<lambda>(i, m).
     let m = m(buffer + of_int i := 32); i = i + 1;
         (i, m) = put_sep buffer i (pi_name p) m;
         (i, m) = put_sep buffer i ''PPID'' m
     in Option.bind (put_itoa buffer i 10 (pi_ppid p) m) (\<lambda>(i, m).
     let m = m(buffer + of_int i := 32); i = i + 1;
         (i, m) = put_sep buffer i (if is_foreground p then ''foreground'' else ''background'') m;
         (i, m) = put_sep buffer i (run_state_name (pi_st p)) m;
         (i, m) = put_sep buffer i ''Stack Address: '' m
     in Option.bind (put_itoa buffer i 16 (stack_addr p) m) (\<lambda>(i, m).
     let m = m(buffer + of_int i := 32); i = i + 1
     in Option.bind
          (if mem_pages p \<noteq> []
           then let (i, m) = put_sep buffer i ''Memory Address: '' m in put_pages (mem_pages p) buffer i m
           else Some (i, m)) (\<lambda>(i, m). Some (i, m(buffer + of_int i := 0))))))"

section \<open>\<open>ipc_info.c\<close>\<close>

text \<open>The names are fields of structures of the caller: \<open>%s\<close> of such a name is a part of the format here.\<close>

primrec put_text :: "prog \<Rightarrow> string \<Rightarrow> tty \<Rightarrow> unit tres" where
  "put_text P [] t = Ret () t"
| "put_text P (c # cs) t = bnd (put_ch P (int (of_char c)) t) (\<lambda>_ t. put_text P cs t)"

fun each :: "('a \<Rightarrow> tty \<Rightarrow> unit tres) \<Rightarrow> 'a list \<Rightarrow> tty \<Rightarrow> unit tres" where
  "each f [] t = Ret () t"
| "each f (x # xs) t = bnd (f x t) (\<lambda>_ t. each f xs t)"

definition print_conds_info :: "prog \<Rightarrow> cond_info list \<Rightarrow> tty \<Rightarrow> unit tres" where
  "print_conds_info P xs t =
     bnd (show_text P ('' - Open Condition Variables -'' @ newline) [] t) (\<lambda>_ t.
     bnd (each (\<lambda>x t. bnd (put_text P (ci_name x) t) (\<lambda>_ t. show_text P ('' - Key: %d'' @ newline) [Va_Int (ci_key x)] t)) xs t) (\<lambda>_ t.
     put_ch P 10 t))"

definition print_mutexes_info :: "prog \<Rightarrow> mutex_info list \<Rightarrow> tty \<Rightarrow> unit tres" where
  "print_mutexes_info P xs t =
     bnd (show_text P ('' - Open Mutexes -'' @ newline) [] t) (\<lambda>_ t.
     bnd (each (\<lambda>x t. bnd (put_text P (mi_name x) t) (\<lambda>_ t.
       show_text P ('' - Key: %d - State: %s'' @ newline)
         [Va_Int (mi_key x), Va_Ptr (lit P (if mi_locked x \<noteq> 0 then ''UNLOCKED'' else ''LOCKED''))] t)) xs t) (\<lambda>_ t.
     put_ch P 10 t))"

definition print_fifos_info :: "prog \<Rightarrow> fifo_info list \<Rightarrow> tty \<Rightarrow> unit tres" where
  "print_fifos_info P xs t =
     bnd (show_text P ('' - Open FIFOs -'' @ newline) [] t) (\<lambda>_ t.
     bnd (each (\<lambda>x t. bnd (put_text P (fi_name x) t) (\<lambda>_ t. show_text P ('' - File Descriptor: %d'' @ newline) [Va_Int (fi_fds x)] t)) xs t) (\<lambda>_ t.
     put_ch P 10 t))"

definition print_ipc_info :: "prog \<Rightarrow> tty \<Rightarrow> unit tres" where
  "print_ipc_info P t =
     bnd (call get_conds_info P t) (\<lambda>conds t.
     bnd (call get_mutexes_info P t) (\<lambda>mutexes t.
     bnd (call get_fifos_info P t) (\<lambda>fifos t.
     bnd (print_conds_info P conds t) (\<lambda>_ t.
     bnd (print_mutexes_info P mutexes t) (\<lambda>_ t. print_fifos_info P fifos t)))))"

section \<open>\<open>commands.c\<close>\<close>

abbreviation VALID :: int where "VALID \<equiv> 1"
abbreviation UNSUPPORTED :: int where "UNSUPPORTED \<equiv> 0"
abbreviation INVALID_ARGS :: int where "INVALID_ARGS \<equiv> - 1"

definition arg_at :: "u64 \<Rightarrow> nat \<Rightarrow> tty \<Rightarrow> u64" where
  "arg_at argv i t = load_ptr (memory t) (argv + of_nat (8 * i))"

definition print_single_process :: "prog \<Rightarrow> int \<Rightarrow> tty \<Rightarrow> unit tres" where
  "print_single_process P pid t =
     bnd (sys (get_process_info_by_pid (of_int pid)) t) (\<lambda>r t.
       case r of None \<Rightarrow> Ret () t
       | Some pi \<Rightarrow> of_lib (process_string pi (at_buffer P) (memory t))
           (\<lambda>(_, m) t. show_text P (''%s'' @ newline) [Va_Ptr (at_buffer P)] (set_memory m t)) t)"

definition print_process :: "prog \<Rightarrow> nat \<Rightarrow> u64 \<Rightarrow> tty \<Rightarrow> int tres" where
  "print_process P argc argv t =
     (if argc < 1 then bnd (show_text P (''Usage: print_process [PID1, PID2, ...]'' @ newline) [] t) (\<lambda>_ t. Ret INVALID_ARGS t)
      else bnd (each (\<lambda>i t. of_lib (atoi (memory t) (arg_at argv i t)) (print_single_process P) t) [0..<argc] t) (\<lambda>_ t. Ret VALID t))"

definition ps :: "prog \<Rightarrow> nat \<Rightarrow> u64 \<Rightarrow> tty \<Rightarrow> int tres" where
  "ps P argc argv t =
     bnd (call get_current_pids P t) (\<lambda>(_, pids) t.
     bnd (each (print_single_process P) (takeWhile (\<lambda>x. x \<noteq> - 1) pids) t) (\<lambda>_ t. Ret VALID t))"

text \<open>The static counter \<open>test_num\<close> is an argument and part of the result.\<close>

definition test_command :: "prog \<Rightarrow> int \<Rightarrow> nat \<Rightarrow> u64 \<Rightarrow> tty \<Rightarrow> (int \<times> int) tres" where
  "test_command P test_num argc argv t =
     bnd (call (\<lambda>n. mutex_open n ''test_mutex'') P t) (\<lambda>m_key t.
     bnd (call (\<lambda>n. mutex_lock n m_key) P t) (\<lambda>_ t.
     bnd (show_text P (''Tengo el lock. Soy %d'' @ newline) [Va_Int test_num] t) (\<lambda>_ t.
     bnd (call (\<lambda>n. sleep n 3000) P t) (\<lambda>_ t.
     bnd (show_text P (''Soltando lock. Soy %d'' @ newline) [Va_Int test_num] t) (\<lambda>_ t.
     bnd (call (\<lambda>n. mutex_unlock n m_key) P t) (\<lambda>_ t. Ret (VALID, test_num + 1) t))))))"

text \<open>\<open>fifo_open\<close> gives a key, which these commands use as a descriptor.\<close>

definition write_test :: "prog \<Rightarrow> nat \<Rightarrow> u64 \<Rightarrow> tty \<Rightarrow> int tres" where
  "write_test P argc argv t =
     bnd (call (\<lambda>n. fifo_open n ''test_fifo'') P t) (\<lambda>fds t.
     bnd (show_text P (''Escribiendo a fifo con fds %d'' @ newline) [Va_Int fds] t) (\<lambda>_ t.
     bnd (each (\<lambda>i t. of_lib (str_len (memory t) (arg_at argv i t)) (\<lambda>len t.
            bnd (call (\<lambda>n. sys_write n (of_int fds) (arg_at argv i t) (of_int len)) P t) (\<lambda>_ t.
            bnd (call (\<lambda>n. sys_write n (of_int fds) (lit P '' '') 1) P t) (\<lambda>_ t. Ret () t))) t) [0..<argc] t) (\<lambda>_ t.
     Ret VALID t)))"

definition read_test :: "prog \<Rightarrow> nat \<Rightarrow> u64 \<Rightarrow> tty \<Rightarrow> int tres" where
  "read_test P argc argv t =
     bnd (call (\<lambda>n. fifo_open n ''test_fifo'') P t) (\<lambda>fds t.
     bnd (show_text P (''Leyendo de fifo con fds %d'' @ newline) [Va_Int fds] t) (\<lambda>_ t.
     bnd (call (\<lambda>n. sys_read n (of_int fds) (at_buffer P) 4) P t) (\<lambda>n t.
     bnd (show_text P (''Lei %s'' @ newline) [Va_Ptr (at_buffer P)] (poke (at_buffer P + of_int (to_int n)) 0 t)) (\<lambda>_ t.
     Ret VALID t))))"

definition help_command :: "prog \<Rightarrow> nat \<Rightarrow> u64 \<Rightarrow> tty \<Rightarrow> int tres" where
  "help_command P argc argv t =
     bnd (show_text P (''HELP '' @ newline @ '' The supported commands are clear, help, time, ps, philo and prodcon. '' @ newline) [] t) (\<lambda>_ t.
     Ret VALID t)"

primrec isnum_loop :: "nat \<Rightarrow> mem \<Rightarrow> u64 \<Rightarrow> bool option" where
  "isnum_loop 0 m p = None"
| "isnum_loop (Suc k) m p =
     (if ch m p \<noteq> 0 \<and> ch m p \<noteq> 32 then if \<not> isdigit (ch m p) then Some False else isnum_loop k m (p + 1) else Some True)"

definition isnum :: "nat \<Rightarrow> mem \<Rightarrow> u64 \<Rightarrow> bool option" where
  "isnum k m str =
     (if \<not> isdigit (ch m str) \<and> ch m str \<noteq> 45 then Some False
      else if ch m str = 45 \<and> \<not> isdigit (ch m (str + 1)) then Some False
      else isnum_loop k m (str + (if ch m str = 45 then 1 else 0)))"

definition printWithTimeFormat :: "prog \<Rightarrow> u32 \<Rightarrow> tty \<Rightarrow> unit tres" where
  "printWithTimeFormat P n t =
     bnd (if n < 10 then show_text P ''0'' [] t else Ret () t) (\<lambda>_ t. show_text P ''%d'' [Va_Int (sint n)] t)"

definition getTime :: "prog \<Rightarrow> rtc \<Rightarrow> nat \<Rightarrow> u64 \<Rightarrow> tty \<Rightarrow> int tres" where
  "getTime P r argc argv t =
     bnd (show_text P ''Current time: '' [] t) (\<lambda>_ t.
     bnd (printWithTimeFormat P (rtc_hour r) t) (\<lambda>_ t.
     bnd (show_text P '':'' [] t) (\<lambda>_ t.
     bnd (printWithTimeFormat P (rtc_minutes r) t) (\<lambda>_ t.
     bnd (show_text P '':'' [] t) (\<lambda>_ t.
     bnd (printWithTimeFormat P (rtc_seconds r) t) (\<lambda>_ t.
     bnd (show_text P newline [] t) (\<lambda>_ t. Ret VALID t)))))))"

definition clear :: "prog \<Rightarrow> nat \<Rightarrow> u64 \<Rightarrow> tty \<Rightarrow> int tres" where
  "clear P argc argv t =
     bnd (each (\<lambda>_ t. put_ch P 10 t) [0..<nat (2 * text_rows (screen (kern t)))] t) (\<lambda>_ t.
     bnd (put_ch P 13 t) (\<lambda>_ t. Ret VALID t))"

definition echo :: "prog \<Rightarrow> nat \<Rightarrow> u64 \<Rightarrow> tty \<Rightarrow> int tres" where
  "echo P argc argv t =
     bnd (each (\<lambda>i t. show_text P ''%s '' [Va_Ptr (arg_at argv i t)] t) [0..<argc] t) (\<lambda>_ t.
     bnd (put_ch P 10 t) (\<lambda>_ t. Ret VALID t))"

text \<open>
  The argument of \<open>philo\<close> and \<open>prodcon\<close>: without arguments \<open>argv[0]\<close> is \<open>NULL\<close>, and \<open>isnum\<close> reads at
  address 0. \<open>start\<close> is the routine that runs the problem.
\<close>

definition number_argument :: "prog \<Rightarrow> int \<Rightarrow> u64 \<Rightarrow> (int \<Rightarrow> tty \<Rightarrow> 'a tres) \<Rightarrow> tty \<Rightarrow> 'a tres" where
  "number_argument P default_value argv f t =
     of_lib (isnum (fuel P) (memory t) (arg_at argv 0 t)) (\<lambda>num t.
       if num then of_lib (atoi (memory t) (arg_at argv 0 t)) f t else f default_value t) t"

definition philosophersProblem :: "prog \<Rightarrow> (int \<Rightarrow> tty \<Rightarrow> unit tres) \<Rightarrow> nat \<Rightarrow> u64 \<Rightarrow> tty \<Rightarrow> int tres" where
  "philosophersProblem P start argc argv t =
     number_argument P 5 argv (\<lambda>p t.
       if p < 1 then bnd (show_text P (''At least one philosopher'' @ newline) [] t) (\<lambda>_ t. Ret INVALID_ARGS t)
       else bnd (start p t) (\<lambda>_ t. Ret VALID t)) t"

definition philosophersProblemText :: "prog \<Rightarrow> (int \<Rightarrow> tty \<Rightarrow> unit tres) \<Rightarrow> nat \<Rightarrow> u64 \<Rightarrow> tty \<Rightarrow> int tres" where
  "philosophersProblemText P start argc argv t = philosophersProblem P start argc argv t"

definition producerConsumer :: "prog \<Rightarrow> (int \<Rightarrow> tty \<Rightarrow> unit tres) \<Rightarrow> nat \<Rightarrow> u64 \<Rightarrow> tty \<Rightarrow> int tres" where
  "producerConsumer P start argc argv t =
     number_argument P 50 argv (\<lambda>b t.
       if b < 1 then bnd (show_text P (''Buffer has to have at least one slot'' @ newline) [] t) (\<lambda>_ t. Ret INVALID_ARGS t)
       else bnd (start b t) (\<lambda>_ t. Ret VALID t)) t"

definition testFifos :: "prog \<Rightarrow> nat \<Rightarrow> u64 \<Rightarrow> tty \<Rightarrow> int tres" where
  "testFifos P argc argv t =
     bnd (execpn P (code P ''processRead'') (lit P ''fifo_test_read'') t) (\<lambda>_ t.
     bnd (sys sys_yield t) (\<lambda>_ t.
     bnd (execpn P (code P ''processWrite'') (lit P ''fifo_test_write'') t) (\<lambda>_ t. Ret VALID t)))"

text \<open>\<open>processWrite\<close> and \<open>processRead\<close> loop for ever: \<open>k\<close> turns of their loops.\<close>

primrec write_turns :: "nat \<Rightarrow> prog \<Rightarrow> int \<Rightarrow> tty \<Rightarrow> unit tres" where
  "write_turns 0 P fd t = Ret () t"
| "write_turns (Suc k) P fd t =
     bnd (show_text P (''Trying to write'' @ newline) [] t) (\<lambda>_ t.
     bnd (call (\<lambda>n. sleep n 5000) P t) (\<lambda>_ t.
     bnd (call (\<lambda>n. sys_write n (of_int fd) (at_buffer P) 1) P t) (\<lambda>_ t.
     bnd (show_text P (''WROTE'' @ newline) [] t) (\<lambda>_ t. write_turns k P fd t))))"

definition processWrite :: "nat \<Rightarrow> prog \<Rightarrow> tty \<Rightarrow> unit tres" where
  "processWrite k P t =
     bnd (call (\<lambda>n. fifo_open n ''TestFifo'') P t) (\<lambda>fd t. write_turns k P fd (poke (at_buffer P) 65 t))"

primrec read_turns :: "nat \<Rightarrow> prog \<Rightarrow> int \<Rightarrow> tty \<Rightarrow> unit tres" where
  "read_turns 0 P fd t = Ret () t"
| "read_turns (Suc k) P fd t =
     bnd (call (\<lambda>n. sleep n 1000) P t) (\<lambda>_ t.
     bnd (show_text P (''Trying to read'' @ newline) [] t) (\<lambda>_ t.
     bnd (call (\<lambda>n. sys_read n (of_int fd) (at_buffer P) 1) P t) (\<lambda>_ t.
     let c = ch (memory t) (at_buffer P)
     in bnd (show_text P (''READ %c ASCII %d'' @ newline) [Va_Int c, Va_Int c] t) (\<lambda>_ t. read_turns k P fd t))))"

definition processRead :: "nat \<Rightarrow> prog \<Rightarrow> tty \<Rightarrow> unit tres" where
  "processRead k P t = bnd (call (\<lambda>n. fifo_open n ''TestFifo'') P t) (\<lambda>fd t. read_turns k P fd t)"

text \<open>The result of \<open>sys_kill\<close> is converted to \<open>int\<close>. Without arguments \<open>atoi\<close> reads at address 0.\<close>

definition kill_command :: "prog \<Rightarrow> nat \<Rightarrow> u64 \<Rightarrow> tty \<Rightarrow> int tres" where
  "kill_command P argc argv t =
     of_lib (atoi (memory t) (arg_at argv 0 t)) (\<lambda>pid t.
       bnd (if pid \<noteq> 0 then sys (sys_kill (of_int pid)) t else Ret 0 t) (\<lambda>v t.
       bnd (if to_int v \<noteq> 0 then show_text P (''Killed process with PID %d'' @ newline) [Va_Int pid] t else Ret () t) (\<lambda>_ t.
         Ret (if to_int v \<noteq> 0 then VALID else INVALID_ARGS) t))) t"

definition print_ipcs :: "prog \<Rightarrow> nat \<Rightarrow> u64 \<Rightarrow> tty \<Rightarrow> int tres" where
  "print_ipcs P argc argv t = bnd (print_ipc_info P t) (\<lambda>_ t. Ret VALID t)"

text \<open>The names of the commands with the functions that become processes.\<close>

definition commands :: "(string \<times> string) list" where
  "commands =
     [(''help'', ''help''), (''time'', ''getTime''), (''clear'', ''clear''), (''echo'', ''echo''), (''test'', ''test''),
      (''philo'', ''philosophersProblemText''), (''prodcon'', ''producerConsumer''), (''write'', ''write_test''),
      (''read'', ''read_test''), (''test2'', ''testFifos''), (''kill'', ''kill_command''), (''print'', ''print_process''),
      (''ps'', ''ps''), (''ipcs'', ''print_ipcs''), (''shell'', ''shell'')]"

fun execute_from :: "(string \<times> string) list \<Rightarrow> prog \<Rightarrow> u64 \<Rightarrow> u64 \<Rightarrow> bool \<Rightarrow> int \<Rightarrow> tty \<Rightarrow> int or_switch tres" where
  "execute_from [] P name args fg valid t = Ret (Returns valid) t"
| "execute_from ((cmd, f) # cmds) P name args fg valid t =
     of_lib (strcmp (memory t) name (lit P cmd)) (\<lambda>d t.
       if d = 0
       then bnd (execp P (code P f) args name t) (\<lambda>r t.
            case r of
              Switch_To rsp \<Rightarrow> Ret (Switch_To rsp) t
            | Returns pid \<Rightarrow>
                bnd (if fg then sys (sys_set_foreground (of_int (to_int pid))) t else Ret 0 t) (\<lambda>_ t.
                  execute_from cmds P name args fg VALID t))
       else execute_from cmds P name args fg valid t) t"

definition execute :: "prog \<Rightarrow> u64 \<Rightarrow> u64 \<Rightarrow> bool \<Rightarrow> tty \<Rightarrow> int or_switch tres" where
  "execute P name args fg t = execute_from commands P name args fg UNSUPPORTED t"

section \<open>\<open>shell.c\<close>\<close>

abbreviation MAX_CMD_SIZE :: u32 where "MAX_CMD_SIZE \<equiv> 256"

definition check_foreground :: "u64 \<Rightarrow> mem \<Rightarrow> (bool \<times> mem) option" where
  "check_foreground buffer m =
     (case str_len m buffer of None \<Rightarrow> None
      | Some len \<Rightarrow>
          if ch m (buffer + of_int (len - 1)) = 38 \<and> (len = 1 \<or> ch m (buffer + of_int (len - 2)) = 32)
          then Some (False, m(buffer + of_int (len - (if len = 1 then 1 else 2)) := 0))
          else Some (True, m))"

primrec name_loop :: "nat \<Rightarrow> u64 \<Rightarrow> u64 \<Rightarrow> nat \<Rightarrow> mem \<Rightarrow> (nat \<times> mem) option" where
  "name_loop 0 cmd_name str i m = None"
| "name_loop (Suc k) cmd_name str i m =
     (if m (str + of_nat i) \<noteq> 0 \<and> m (str + of_nat i) \<noteq> 32
      then name_loop k cmd_name str (i + 1) (m(cmd_name + of_nat i := m (str + of_nat i)))
      else Some (i, m(cmd_name + of_nat i := 0)))"

definition extract_cmd_name :: "nat \<Rightarrow> u64 \<Rightarrow> u64 \<Rightarrow> mem \<Rightarrow> (nat \<times> mem) option" where
  "extract_cmd_name k cmd_name str m = name_loop k cmd_name str 0 m"

text \<open>
  What the shell makes of a line at \<open>buffer\<close>: the length of the name, which it copies to \<open>cmd_name\<close>, whether the
  command runs in the foreground, and where its arguments start.
\<close>

definition parse_line :: "nat \<Rightarrow> u64 \<Rightarrow> u64 \<Rightarrow> mem \<Rightarrow> (bool \<times> u64 \<times> mem) option" where
  "parse_line k cmd_name buffer m =
     Option.bind (extract_cmd_name k cmd_name buffer m) (\<lambda>(name_len, m).
     Option.bind (check_foreground (buffer + of_nat name_len) m) (\<lambda>(fg, m).
     let arguments_flag = (if m (buffer + of_nat name_len) \<noteq> 0 then 1 else 0)
     in Some (fg, buffer + of_nat name_len + arguments_flag, m)))"

definition handle_validity :: "prog \<Rightarrow> int \<Rightarrow> tty \<Rightarrow> unit tres" where
  "handle_validity P valid t =
     (if valid = UNSUPPORTED then show_text P ''%s'' [Va_Ptr (lit P (''Not a valid command'' @ newline))] t
      else if valid = INVALID_ARGS then show_text P ''%s'' [Va_Ptr (lit P (''Invalid Arguments'' @ newline))] t
      else Ret () t)"

text \<open>One turn of the loop of \<open>shell\<close>, and \<open>k\<close> turns.\<close>

definition shell_turn :: "prog \<Rightarrow> tty \<Rightarrow> unit tres" where
  "shell_turn P t =
     bnd (show_text P ''> shell:'' [] t) (\<lambda>_ t.
     bnd (readline_no_spaces (fuel P) (fuel P) (fuel P) (fr P) (at_buffer P) MAX_CMD_SIZE t) (\<lambda>_ t.
       if memory t (at_buffer P) \<noteq> 0
       then of_lib (parse_line (fuel P) (at_name P) (at_buffer P) (memory t)) (\<lambda>(fg, args, m) t.
            bnd (execute P (at_name P) args fg (set_memory m t)) (\<lambda>r t.
              case r of Switch_To rsp \<Rightarrow> Ret () t | Returns valid \<Rightarrow> handle_validity P valid t)) t
       else Ret () t))"

primrec shell :: "nat \<Rightarrow> prog \<Rightarrow> tty \<Rightarrow> unit tres" where
  "shell 0 P t = Ret () t"
| "shell (Suc k) P t = bnd (shell_turn P t) (\<lambda>_ t. shell k P t)"

end
