(* ===== verification/Shell_Laws.thy ===== *)
theory Shell_Laws
  imports Shell
begin

text \<open>
  Properties of the shell: what it makes of a command line, and that a new process gets the words of the
  line as its arguments.
\<close>

section \<open>Arguments\<close>

text \<open>The pointers to the words of a text, copied to the page from index 256 on, of which the current word starts at \<open>p\<close>.\<close>

primrec starts :: "u64 \<Rightarrow> u64 \<Rightarrow> nat \<Rightarrow> u8 list \<Rightarrow> u64 list" where
  "starts page p j [] = [p]"
| "starts page p j (c # cs) =
     (if c = 32 then p # starts page (page + of_nat (256 + Suc j)) (Suc j) cs else starts page p (Suc j) cs)"

definition zeroed :: "u8 list \<Rightarrow> u8 list" where
  "zeroed cs = map (\<lambda>c. if c = 32 then 0 else c) cs"

text \<open>A state of memory that agrees with \<open>m\<close> outside some areas of the page.\<close>

definition agree :: "u64 \<Rightarrow> (nat \<Rightarrow> bool) \<Rightarrow> mem \<Rightarrow> mem \<Rightarrow> bool" where
  "agree page D m m' \<longleftrightarrow> (\<forall>x < 2 ^ 64. \<not> D x \<longrightarrow> m' (page + of_nat x) = m (page + of_nat x))"

lemma agree_trans: "agree page D m m' \<Longrightarrow> agree page D m' m'' \<Longrightarrow> agree page D m m''"
  by (simp add: agree_def)

lemma agree_mono: "agree page D m m' \<Longrightarrow> (\<And>x. D x \<Longrightarrow> E x) \<Longrightarrow> agree page E m m'"
  by (auto simp: agree_def)

lemma agree_at: "agree page D m m' \<Longrightarrow> x < 2 ^ 64 \<Longrightarrow> \<not> D x \<Longrightarrow> m' (page + of_nat x) = m (page + of_nat x)"
  unfolding agree_def by blast

text \<open>The areas that \<open>build_loop\<close> writes.\<close>

definition args_area :: "nat \<Rightarrow> nat \<Rightarrow> nat \<Rightarrow> nat \<Rightarrow> nat \<Rightarrow> bool" where
  "args_area i n j l x \<longleftrightarrow> (8 + 8 * i \<le> x \<and> x < 16 + 8 * (i + n)) \<or> (256 + j \<le> x \<and> x \<le> 256 + j + l)"

lemma agree_far:
  assumes "agree page D m m'" "\<And>x. D x \<Longrightarrow> x < 4096" "4096 \<le> unat (a - page)"
  shows "m' a = m a"
proof -
  have "a = page + of_nat (unat (a - page))" by simp
  moreover have "unat (a - page) < 2 ^ 64" using unsigned_less [of "a - page", where ?'a = nat] by simp
  ultimately show ?thesis using assms unfolding agree_def by (metis not_le)
qed

lemma store_char:
  assumes "256 + j < 4096"
  shows "agree page (\<lambda>x. x = 256 + j) m (m(page + of_nat (256 + j) := b))"
proof -
  have "page + of_nat x \<noteq> page + of_nat (256 + j)" if "x < 2 ^ 64" "x \<noteq> 256 + j" for x
    using that assms by (subst offset_inj) auto
  then show ?thesis by (simp add: agree_def)
qed

lemma store_pointer:
  assumes "i \<le> 30" shows "agree page (\<lambda>x. 8 + 8 * i \<le> x \<and> x < 16 + 8 * i) m (store_ptr (page + of_nat (8 + 8 * i)) p m)"
  unfolding agree_def
proof (intro allI impI)
  fix x :: nat assume "x < 2 ^ 64" "\<not> (8 + 8 * i \<le> x \<and> x < 16 + 8 * i)"
  then show "store_ptr (page + of_nat (8 + 8 * i)) p m (page + of_nat x) = m (page + of_nat x)"
    using assms by (intro store_ptr_at) auto
qed

lemma agree_load:
  assumes "agree page D m m'" "x + 8 \<le> 2 ^ 64" "\<And>t. t < 8 \<Longrightarrow> \<not> D (x + t)"
  shows "load_ptr m' (page + of_nat x) = load_ptr m (page + of_nat x)"
proof (rule load_ptr_cong)
  fix t :: nat assume "t < 8"
  then show "m' (page + of_nat x + of_nat t) = m (page + of_nat x + of_nat t)"
    using assms unfolding agree_def by (simp add: add.assoc flip: of_nat_add)
qed

text \<open>What a run of the loop has achieved, and one turn before it.\<close>

definition built :: "u64 \<Rightarrow> nat \<Rightarrow> u64 \<Rightarrow> nat \<Rightarrow> u8 list \<Rightarrow> mem \<Rightarrow> mem \<Rightarrow> bool" where
  "built page i p j cs m m' \<longleftrightarrow>
     (\<forall>t \<le> length cs. m' (page + of_nat (256 + j + t)) = (zeroed cs @ [0]) ! t) \<and>
     (\<forall>q \<le> length (starts page p j cs). load_ptr m' (page + of_nat (8 + 8 * (i + q))) = (starts page p j cs @ [0]) ! q) \<and>
     agree page (args_area i (length (starts page p j cs)) j (length cs)) m m'"

lemma built_char:
  assumes "built page i p (Suc j) cs (m(page + of_nat (256 + j) := c)) m'" "c \<noteq> 32" "256 + j + Suc (length cs) < 4096"
    "i + length (starts page p (Suc j) cs) \<le> 30"
  shows "built page i p j (c # cs) m m'"
proof -
  let ?n = "length (starts page p (Suc j) cs)" let ?m = "m(page + of_nat (256 + j) := c)"
  have ag: "agree page (args_area i ?n (Suc j) (length cs)) ?m m'" using assms(1) by (simp add: built_def)
  have "m' (page + of_nat (256 + j)) = c" using agree_at [OF ag, of "256 + j"] assms(3,4) by (simp add: args_area_def del: of_nat_add)
  then have "m' (page + of_nat (256 + j + t)) = (zeroed (c # cs) @ [0]) ! t" if "t \<le> Suc (length cs)" for t
    using that assms(1,2) by (cases t) (auto simp: built_def zeroed_def add.assoc)
  moreover have "agree page (args_area i ?n j (Suc (length cs))) m m'"
    by (rule agree_trans [OF agree_mono [OF store_char [of j page m c]] agree_mono [OF ag]]) (use assms(3) in \<open>auto simp: args_area_def\<close>)
  ultimately show ?thesis using assms(1,2) by (simp add: built_def)
qed

lemma built_space:
  assumes "built page (Suc i) (page + of_nat (256 + Suc j)) (Suc j) cs (store_ptr (page + of_nat (8 + 8 * i)) p (m(page + of_nat (256 + j) := 0))) m'"
    "256 + j + Suc (length cs) < 4096" "Suc i + length (starts page (page + of_nat (256 + Suc j)) (Suc j) cs) \<le> 30"
  shows "built page i p j (32 # cs) m m'"
proof -
  let ?ss = "starts page (page + of_nat (256 + Suc j)) (Suc j) cs" and ?s = "page + of_nat (8 + 8 * i)"
  let ?m1 = "m(page + of_nat (256 + j) := 0)" let ?m = "store_ptr ?s p ?m1"
  have ag: "agree page (args_area (Suc i) (length ?ss) (Suc j) (length cs)) ?m m'" using assms(1) by (simp add: built_def)
  have "m' (page + of_nat (256 + j)) = ?m (page + of_nat (256 + j))"
    using agree_at [OF ag, of "256 + j"] assms(2,3) by (simp add: args_area_def del: of_nat_add)
  also have "\<dots> = ?m1 (page + of_nat (256 + j))"
    using assms(2,3) by (intro agree_at [OF store_pointer]) auto
  also have "\<dots> = 0" by simp
  finally have z: "m' (page + of_nat (256 + j + t)) = (zeroed (32 # cs) @ [0]) ! t" if "t \<le> Suc (length cs)" for t
    using that assms(1) by (cases t) (auto simp: built_def zeroed_def add.assoc)
  have "load_ptr m' ?s = load_ptr ?m ?s" using assms(3) by (intro agree_load [OF ag]) (auto simp: args_area_def)
  then have s: "load_ptr m' (page + of_nat (8 + 8 * (i + q))) = ((p # ?ss) @ [0]) ! q" if "q \<le> Suc (length ?ss)" for q
    using that assms(1) load_store_same [of ?s p ?m1] by (cases q) (auto simp: built_def)
  have "agree page (args_area i (Suc (length ?ss)) j (Suc (length cs))) m m'"
    by (rule agree_trans [OF agree_mono [OF store_char [of j page m 0]] agree_trans [OF agree_mono [OF store_pointer [of i page ?m1 p]] agree_mono [OF ag]]])
      (use assms(2,3) in \<open>auto simp: args_area_def\<close>)
  then show ?thesis using z s by (simp add: built_def)
qed

lemma build_loop_ok:
  assumes "\<And>t. t \<le> length cs \<Longrightarrow> m (arg + of_nat (j + t)) = (cs @ [0]) ! t" "0 \<notin> set cs"
    "\<And>t. t \<le> length cs \<Longrightarrow> 4096 \<le> unat (arg + of_nat (j + t) - page)" "256 + j + length cs < 4096"
    "i + length (starts page p j cs) \<le> 30" "length cs < k"
  shows "\<exists>m'. build_loop k arg (page + 256) (page + 8) i p j m = Some m' \<and> built page i p j cs m m'"
  using assms
proof (induction cs arbitrary: m i p j k)
  case Nil
  obtain k' where k: "k = Suc k'" using Nil.prems(6) by (cases k) auto
  let ?a = "page + of_nat (256 + j)" and ?s = "page + of_nat (8 + 8 * i)" and ?e = "page + of_nat (8 + 8 * (i + 1))"
  let ?m = "store_ptr ?e 0 (store_ptr ?s p (m(?a := 0)))"
  have i: "i \<le> 29" "j < 3840" using Nil.prems(4,5) by simp_all
  let ?m1 = "m(?a := 0)" let ?m2 = "store_ptr ?s p ?m1"
  have "build_loop k arg (page + 256) (page + 8) i p j m = Some ?m"
    using Nil.prems(1) [of 0] by (simp add: k ac_simps)
  moreover have "?m ?a = 0"
    using i store_ptr_at [of "256 + j" "8 + 8 * (i + 1)" page 0 ?m2] store_ptr_at [of "256 + j" "8 + 8 * i" page p ?m1] by simp
  moreover have "load_ptr ?m ?s = p" "load_ptr ?m ?e = 0"
    using i load_store_other [of "8 + 8 * i" "8 + 8 * (i + 1)" page 0 ?m2] by (simp_all only: load_store_same, simp)
  moreover have "agree page (args_area i 1 j 0) m ?m"
    unfolding agree_def
  proof (intro allI impI)
    fix x :: nat
    assume x: "x < 2 ^ 64" "\<not> args_area i 1 j 0 x"
    then have "page + of_nat x \<noteq> ?a" using i by (subst offset_inj) (auto simp: args_area_def)
    then show "?m (page + of_nat x) = m (page + of_nat x)"
      using x i store_ptr_at [of x "8 + 8 * (i + 1)" page 0 ?m2] store_ptr_at [of x "8 + 8 * i" page p ?m1]
      by (auto simp: args_area_def)
  qed
  ultimately show ?case by (intro exI [of _ ?m]) (auto simp: built_def le_Suc_eq zeroed_def)
next
  case (Cons c cs)
  obtain k' where k: "k = Suc k'" "length cs < k'" using Cons.prems(6) by (cases k) auto
  let ?a = "page + of_nat (256 + j)" and ?s = "page + of_nat (8 + 8 * i)"
  have c: "m (arg + of_nat j) = c" "c \<noteq> 0" using Cons.prems(1) [of 0] Cons.prems(2) by auto
  have far: "4096 \<le> unat (arg + of_nat (Suc j + t) - page)" if "t \<le> length cs" for t using Cons.prems(3) [of "Suc t"] that by simp
  have rest: "M (arg + of_nat (Suc j + t)) = (cs @ [0]) ! t" if "agree page D m M" "\<And>x. D x \<Longrightarrow> x < 4096" "t \<le> length cs" for M D t
    using agree_far [OF that(1,2) far [OF that(3)]] Cons.prems(1) [of "Suc t"] that(3) by simp
  have sc: "agree page (\<lambda>x. x < 4096) m (m(?a := b))" for b
    by (rule agree_mono [OF store_char]) (use Cons.prems(4) in auto)
  show ?case
  proof (cases "c = 32")
    case True
    let ?p = "page + of_nat (256 + Suc j)" let ?m = "store_ptr ?s p (m(?a := 0))"
    have i: "Suc i + length (starts page ?p (Suc j) cs) \<le> 30" using Cons.prems(5) True by simp
    have "agree page (\<lambda>x. x < 4096) m ?m"
      by (rule agree_trans [OF sc agree_mono [OF store_pointer]]) (use i in auto)
    then have cs: "\<And>t. t \<le> length cs \<Longrightarrow> ?m (arg + of_nat (Suc j + t)) = (cs @ [0]) ! t" by (rule rest) auto
    have "\<exists>m'. build_loop k' arg (page + 256) (page + 8) (Suc i) ?p (Suc j) ?m = Some m' \<and> built page (Suc i) ?p (Suc j) cs ?m m'"
      by (rule Cons.IH [OF cs _ far _ i k(2)]) (use Cons.prems(2,4) in auto)
    then obtain m' where "build_loop k' arg (page + 256) (page + 8) (Suc i) ?p (Suc j) ?m = Some m'" "built page (Suc i) ?p (Suc j) cs ?m m'"
      by blast
    moreover have "built page i p j (c # cs) m m'" using built_space [OF calculation(2)] Cons.prems(4) i True by simp
    ultimately show ?thesis using c True by (intro exI [of _ m']) (simp add: k ac_simps)
  next
    case False
    let ?m = "m(?a := c)"
    have i: "i + length (starts page p (Suc j) cs) \<le> 30" using Cons.prems(5) False by simp
    have cs: "\<And>t. t \<le> length cs \<Longrightarrow> ?m (arg + of_nat (Suc j + t)) = (cs @ [0]) ! t" by (rule rest [OF sc]) auto
    have "\<exists>m'. build_loop k' arg (page + 256) (page + 8) i p (Suc j) ?m = Some m' \<and> built page i p (Suc j) cs ?m m'"
      by (rule Cons.IH [OF cs _ far _ i k(2)]) (use Cons.prems(2,4) in auto)
    then obtain m' where "build_loop k' arg (page + 256) (page + 8) i p (Suc j) ?m = Some m'" "built page i p (Suc j) cs ?m m'"
      by blast
    moreover have "built page i p j (c # cs) m m'" using built_char [OF calculation(2) False] Cons.prems(4) i by simp
    ultimately show ?thesis using c False by (intro exI [of _ m']) (simp add: k ac_simps)
  qed
qed

section \<open>Words\<close>

text \<open>Words separated by single spaces, and where each of them starts.\<close>

primrec join :: "u8 list list \<Rightarrow> u8 list" where
  "join [] = []"
| "join (w # ws) = w @ (if ws = [] then [] else 32 # join ws)"

primrec places :: "nat \<Rightarrow> u8 list list \<Rightarrow> nat list" where
  "places j [] = []"
| "places j (w # ws) = j # places (Suc (j + length w)) ws"

lemma length_places [simp]: "length (places j ws) = length ws"
  by (induction ws arbitrary: j) auto

lemma places_end: "q < length ws \<Longrightarrow> places j ws ! q + length (ws ! q) \<le> j + length (join ws)"
proof (induction ws arbitrary: j q)
  case (Cons w ws)
  show ?case using Cons.IH [of "q - 1" "Suc (j + length w)"] Cons.prems by (cases q) auto
qed simp

lemma starts_word: "32 \<notin> set w \<Longrightarrow> starts page p j (w @ cs) = starts page p (j + length w) cs"
  by (induction w arbitrary: j) auto

lemma starts_join:
  "ws \<noteq> [] \<Longrightarrow> \<forall>w \<in> set ws. 32 \<notin> set w \<Longrightarrow>
    starts page (page + of_nat (256 + j)) j (join ws) = map (\<lambda>x. page + of_nat (256 + x)) (places j ws)"
proof (induction ws arbitrary: j)
  case (Cons w ws)
  then show ?case using Cons.IH [of "Suc (j + length w)"] starts_word [of w page "page + of_nat (256 + j)" j "[]"]
    by (cases "ws = []") (auto simp: starts_word)
qed simp

lemma zeroed_word: "32 \<notin> set w \<Longrightarrow> zeroed w = w"
  by (induction w) (auto simp: zeroed_def)

lemma zeroed_join: "ws \<noteq> [] \<Longrightarrow> \<forall>w \<in> set ws. 32 \<notin> set w \<Longrightarrow> zeroed (join ws) @ [0] = concat (map (\<lambda>w. w @ [0]) ws)"
proof (induction ws)
  case (Cons w ws)
  then show ?case using zeroed_word [of w] by (cases "ws = []") (auto simp: zeroed_def)
qed simp

lemma words_at: "bytes_at m (a + of_nat j) (concat (map (\<lambda>w. w @ [0]) ws)) \<Longrightarrow> q < length ws \<Longrightarrow>
    bytes_at m (a + of_nat (places j ws ! q)) (ws ! q @ [0])"
proof (induction ws arbitrary: j q)
  case (Cons w ws)
  have "bytes_at m (a + of_nat (Suc (j + length w))) (concat (map (\<lambda>w. w @ [0]) ws))"
    using Cons.prems(1) by (simp add: bytes_at_append algebra_simps)
  then show ?case using Cons.IH [of "Suc (j + length w)" "q - 1"] Cons.prems by (cases q) (auto simp: bytes_at_append)
qed simp

lemma set_join: "w \<in> set ws \<Longrightarrow> x \<in> set w \<Longrightarrow> x \<in> set (join ws)"
  by (induction ws) auto

lemma join_Nil_iff: "[] \<notin> set ws \<Longrightarrow> join ws = [] \<longleftrightarrow> ws = []"
  by (cases ws) auto

lemma length_join: "[] \<notin> set ws \<Longrightarrow> length ws \<le> length (join ws)"
proof (induction ws)
  case (Cons w ws)
  then show ?case by (cases w) auto
qed simp

text \<open>A page with the arguments: the words as C strings at the pointers, and a \<open>NULL\<close> pointer behind them.\<close>

definition argv_at :: "mem \<Rightarrow> u64 \<Rightarrow> u64 list \<Rightarrow> bool" where
  "argv_at m argv args \<longleftrightarrow> (\<forall>q \<le> length args. load_ptr m (argv + of_nat (8 * q)) = (args @ [0]) ! q) \<and> 0 \<notin> set args"

lemma count_args_from:
  "argv_at m argv args \<Longrightarrow> q \<le> length args \<Longrightarrow> length args - q < k \<Longrightarrow> count_args k m argv q = Some (length args)"
proof (induction k arbitrary: q)
  case (Suc k)
  have "load_ptr m (argv + of_nat (8 * q)) = (args @ [0]) ! q" using Suc.prems by (simp add: argv_at_def)
  moreover have "(args @ [0]) ! q = 0 \<longleftrightarrow> q = length args"
    using Suc.prems by (metis argv_at_def le_neq_implies_less nth_append nth_append_length nth_mem)
  ultimately show ?case using Suc.IH [of "q + 1"] Suc.prems by auto
qed simp

lemma far_word: "4096 \<le> unat (a - page) \<Longrightarrow> unat (a - page) + length w < 2 ^ 64 \<Longrightarrow> i \<le> length w \<Longrightarrow> 4096 \<le> unat (a + of_nat i - page :: u64)"
proof -
  assume a: "4096 \<le> unat (a - page)" "unat (a - page) + length w < 2 ^ 64" "i \<le> length w"
  have "a + of_nat i - page = of_nat (unat (a - page) + i)" by simp
  then have "unat (a + of_nat i - page) = unat (a - page) + i" using a(2,3) unat_of_nat_u64 by (metis add_left_mono le_less_trans)
  then show ?thesis using a(1) by simp
qed

lemma build_arguments_ok:
  assumes "cstr m arg (join ws)" "[] \<notin> set ws" "\<forall>w \<in> set ws. 32 \<notin> set w"
    "4096 \<le> unat (arg - page)" "unat (arg - page) + length (join ws) < 2 ^ 64"
    "256 + length (join ws) < 4096" "length ws \<le> 30" "length (join ws) < k"
    "unat page + 4096 \<le> 2 ^ 64"
  shows "\<exists>m'. build_arguments k arg (page + 256) (page + 8) m = Some m' \<and>
    argv_at m' (page + 8) (map (\<lambda>x. page + of_nat (256 + x)) (places 0 ws)) \<and>
    (\<forall>q < length ws. cstr m' (page + of_nat (256 + places 0 ws ! q)) (ws ! q)) \<and>
    load_ptr m' page = load_ptr m page \<and> (\<forall>a. 4096 \<le> unat (a - page) \<longrightarrow> m' a = m a)"
proof (cases "ws = []")
  case True
  let ?m = "store_ptr (page + of_nat 8) 0 m"
  have "agree page (\<lambda>x. 8 \<le> x \<and> x < 16) m ?m" using store_pointer [of 0 page m 0] by simp
  then have "load_ptr ?m page = load_ptr m page" "\<forall>a. 4096 \<le> unat (a - page) \<longrightarrow> ?m a = m a"
    using load_store_other [of 0 8 page 0 m] agree_far by auto
  then show ?thesis using True assms(1) load_store_same [of "page + 8" 0 m]
    by (simp add: build_arguments_def cstr_def argv_at_def)
next
  case False
  let ?cs = "join ws" let ?ss = "map (\<lambda>x. page + of_nat (256 + x)) (places 0 ws)"
  have ss: "starts page (page + 256) 0 ?cs = ?ss" using starts_join [of ws page 0] False assms(3) by simp
  have far: "4096 \<le> unat (arg + of_nat t - page)" if "t \<le> length ?cs" for t using far_word [OF assms(4,5) that] .
  have "m (arg + of_nat t) = (?cs @ [0]) ! t" if "t \<le> length ?cs" for t
    using cstr_nth [OF assms(1)] that by (cases "t = length ?cs") (auto simp: nth_append)
  then obtain m' where l: "build_loop k arg (page + 256) (page + 8) 0 (page + 256) 0 m = Some m'" and b: "built page 0 (page + 256) 0 ?cs m m'"
    using build_loop_ok [of ?cs m arg 0 page 0 "page + 256" k] far assms(1,6-8) ss by (auto simp: cstr_def)
  have ag: "agree page (args_area 0 (length ws) 0 (length ?cs)) m m'" using b ss by (simp add: built_def)
  have nz: "m arg \<noteq> 0" using cstr_nth(1) [OF assms(1), of 0] False join_Nil_iff [OF assms(2)] by auto
  have "bytes_at m' (page + 256 + of_nat 0) (zeroed ?cs @ [0])"
    using b unfolding bytes_at_nth by (simp add: built_def zeroed_def less_Suc_eq_le add.assoc)
  then have at: "bytes_at m' (page + of_nat (256 + places 0 ws ! q)) (ws ! q @ [0])" if "q < length ws" for q
    using words_at [of m' "page + 256" 0 ws q] zeroed_join [OF False assms(3)] that by (simp add: add.assoc)
  moreover have "0 \<notin> set (ws ! q)" if "q < length ws" for q
    using set_join [OF nth_mem [OF that]] assms(1) by (auto simp: cstr_def)
  moreover have "page + of_nat (256 + x) \<noteq> 0" if "x \<le> length ?cs" for x
  proof -
    have "page + of_nat (256 + x) = of_nat (unat page + (256 + x))" by simp
    then have "unat (page + of_nat (256 + x)) = unat page + (256 + x)" using assms(6,9) that by (simp only: unat_of_nat_u64)
    then show ?thesis by auto
  qed
  then have "0 \<notin> set ?ss" using places_end [of _ ws 0] by (fastforce simp: in_set_conv_nth dest: add_leD1)
  then have "argv_at m' (page + 8) ?ss" using b ss by (simp add: argv_at_def built_def add.assoc)
  moreover have "load_ptr m' page = load_ptr m page" using agree_load [OF ag, of 0] by (simp add: args_area_def)
  moreover have "m' a = m a" if "4096 \<le> unat (a - page)" for a
    by (rule agree_far [OF ag _ that]) (use assms(6,7) in \<open>auto simp: args_area_def\<close>)
  ultimately show ?thesis using l nz by (simp add: build_arguments_def cstr_def)
qed

section \<open>The arguments of a new process\<close>

lemma copied_load:
  assumes "apart page2 page 4096" "x + 8 \<le> 4096"
  shows "load_ptr (memcpy page2 page PAGE m) (page2 + of_nat x) = load_ptr m (page + of_nat x)"
proof -
  have "memcpy page2 page PAGE m (page2 + of_nat (x + i)) = m (page + of_nat (x + i))" if "i < 8" for i
  proof -
    have "unat (page2 + of_nat (x + i) - page2) = x + i" using that assms(2) unat_of_nat_u64 [of "x + i"] by simp
    then show ?thesis using that assms(2) memcpy_eq [of page2 page PAGE m] assms(1) by simp
  qed
  then show ?thesis unfolding load_ptr_def by (intro arg_cong [where f = of_le_bytes] map_cong) (simp_all add: add.assoc)
qed

lemma copied_outside:
  assumes "apart page2 page 4096" "y < 4096"
  shows "memcpy page2 page PAGE m (page + of_nat y) = m (page + of_nat y)"
proof -
  have "page + of_nat y \<noteq> page2 + of_nat (unat (page + of_nat y - page2))" if "unat (page + of_nat y - page2) < 4096"
    by (rule apart_neq [OF assms(1,2) that])
  then have "\<not> unat (page + of_nat y - page2) < 4096" by auto
  then show ?thesis using memcpy_eq [of page2 page PAGE m] assms(1) by simp
qed


section \<open>The parts of a command line\<close>

lemma name_loop_ok:
  assumes "\<And>t. t < length w \<Longrightarrow> m (str + of_nat (i + t)) = w ! t" "0 \<notin> set w" "32 \<notin> set w"
    "m (str + of_nat (i + length w)) = 0 \<or> m (str + of_nat (i + length w)) = 32"
    "\<And>t u. t \<le> length w \<Longrightarrow> u \<le> length w \<Longrightarrow> str + of_nat (i + t) \<noteq> cmd + of_nat (i + u)"
    "length w < k" "length w < 2 ^ 64 - 2"
  shows "name_loop k cmd str i m = Some (i + length w, wr m (cmd + of_nat i) (w @ [0]))"
  using assms
proof (induction w arbitrary: m i k)
  case Nil
  obtain k' where "k = Suc k'" using Nil.prems(6) by (cases k) auto
  then show ?case using Nil.prems(4) wr_Cons [of "[]" m "cmd + of_nat i" 0] by auto
next
  case (Cons c w)
  obtain k' where k: "k = Suc k'" "length w < k'" using Cons.prems(6) by (cases k) auto
  let ?m = "m(cmd + of_nat i := c)"
  have same: "?m (str + of_nat (Suc i + t)) = m (str + of_nat (i + Suc t))" if "t \<le> length w" for t
    using Cons.prems(5) [of "Suc t" 0] that by simp
  have c: "m (str + of_nat i) = c" "c \<noteq> 0" "c \<noteq> 32" using Cons.prems(1) [of 0] Cons.prems(2,3) by auto
  have "name_loop k' cmd str (Suc i) ?m = Some (Suc i + length w, wr ?m (cmd + of_nat (Suc i)) (w @ [0]))"
  proof (rule Cons.IH)
    show "?m (str + of_nat (Suc i + t)) = w ! t" if "t < length w" for t
      using same [of t] Cons.prems(1) [of "Suc t"] that by (simp del: of_nat_add of_nat_Suc)
    show "?m (str + of_nat (Suc i + length w)) = 0 \<or> ?m (str + of_nat (Suc i + length w)) = 32"
      using same [of "length w"] Cons.prems(4) by (simp del: of_nat_add of_nat_Suc)
    show "str + of_nat (Suc i + t) \<noteq> cmd + of_nat (Suc i + u)" if "t \<le> length w" "u \<le> length w" for t u
      using Cons.prems(5) [of "Suc t" "Suc u"] that by simp
  qed (use Cons.prems k in auto)
  moreover have "wr ?m (cmd + of_nat (Suc i)) (w @ [0]) = wr m (cmd + of_nat i) (c # w @ [0])"
    using wr_Cons [of "w @ [0]" m "cmd + of_nat i" c] Cons.prems(7) by (simp add: algebra_simps)
  ultimately show ?case using c by (simp add: k fun_upd_def)
qed

text \<open>The rest of a line behind its first word.\<close>

definition tail :: "u8 list list \<Rightarrow> u8 list" where
  "tail ws = concat (map (\<lambda>w. 32 # w) ws)"

lemma tail_join: "tail ws = (if ws = [] then [] else 32 # join ws)"
  by (induction ws) (auto simp: tail_def)

lemma join_tail: "join (w # ws) = w @ tail ws"
  by (simp add: tail_join)

lemma tail_background:
  assumes "ws \<noteq> []" "last ws = [38]" shows "tail ws = tail (butlast ws) @ [32, 38]"
proof -
  have "tail (butlast ws @ [[38]]) = tail (butlast ws) @ [32, 38]" by (simp add: tail_def)
  then show ?thesis using append_butlast_last_id [OF assms(1)] assms(2) by simp
qed

lemma ch_is: "ch m p = 38 \<longleftrightarrow> m p = 38" "ch m p = 32 \<longleftrightarrow> m p = 32"
  unfolding ch_def using word_eq_iff_signed [where ?'a = int, of "m p" 38] word_eq_iff_signed [where ?'a = int, of "m p" 32] by simp_all

text \<open>Only a last word that is \<open>&\<close> makes a background command.\<close>

lemma background_word:
  assumes "name \<noteq> []" "name \<noteq> [38]" "32 \<notin> set name" "[] \<notin> set ws" "\<forall>w \<in> set ws. 32 \<notin> set w"
  defines "line \<equiv> name @ tail ws"
  shows "last line = 38 \<and> line ! (length line - 2) = 32 \<longleftrightarrow> ws \<noteq> [] \<and> last ws = [38]"
proof (cases "ws = [] \<or> last ws = [38]")
  case True
  show ?thesis
  proof (cases "ws = []")
    case True
    have "name ! (length name - 2) \<noteq> 32" using assms(1,3) nth_mem [of "length name - 2" name] by force
    then show ?thesis using True by (simp add: line_def tail_def)
  next
    case False
    then have "line = (name @ tail (butlast ws)) @ [32, 38]" unfolding line_def using True tail_background [of ws] by simp
    then show ?thesis using False \<open>ws = [] \<or> last ws = [38]\<close> by (simp add: nth_append)
  qed
next
  case False
  obtain vs v where v: "ws = vs @ [v]" using False by (metis append_butlast_last_id)
  obtain u c where u: "v = u @ [c]" using v assms(4) by (cases v rule: rev_cases) auto
  have line: "line = (name @ tail vs @ [32]) @ u @ [c]" by (simp add: line_def v u tail_def)
  show ?thesis
  proof (cases "u = []")
    case True
    then show ?thesis using False v u line by (simp add: nth_append)
  next
    case False
    have "line ! (length line - 2) = u ! (length u - 1)"
      using False unfolding line by (simp add: nth_append)
    moreover have "u ! (length u - 1) \<in> set u" using False by (intro nth_mem) simp
    ultimately show ?thesis using \<open>\<not> (ws = [] \<or> last ws = [38])\<close> assms(5) v u by auto
  qed
qed

lemma check_foreground_ok:
  assumes "cstr m buffer (name @ tail ws)" "name \<noteq> []" "name \<noteq> [38]" "32 \<notin> set name" "[] \<notin> set ws" "\<forall>w \<in> set ws. 32 \<notin> set w"
    "length (name @ tail ws) < 2 ^ 31"
  shows "check_foreground (buffer + of_nat (length name)) m =
    (if ws \<noteq> [] \<and> last ws = [38] then Some (False, m(buffer + of_nat (length (name @ tail (butlast ws))) := 0)) else Some (True, m))"
proof -
  let ?p = "buffer + of_nat (length name)" let ?line = "name @ tail ws" let ?L = "length ?line"
  have tl: "cstr m ?p (tail ws)" using assms(1) by (simp add: cstr_def bytes_at_append)
  then have len: "str_len m ?p = Some (int (length (tail ws)))" using assms(7) unfolding length_append by (intro str_len_ok) linarith+
  have at: "m (buffer + of_nat i) = ?line ! i" if "i < ?L" for i using cstr_nth(1) [OF assms(1) that] by blast
  have pos: "?p + of_int (int (length (tail ws)) - int d) = buffer + of_nat (?L - d)" if "d \<le> ?L" for d
    using that by (simp add: of_nat_diff algebra_simps)
  have one: "length (tail ws) \<noteq> 1" using assms(5) by (cases ws) (auto simp: tail_def)
  have last: "m (?p + of_int (int (length (tail ws)) - 1)) = last ?line"
  proof -
    have "1 \<le> ?L" using assms(2) by (cases name) auto
    then have "?p + of_int (int (length (tail ws)) - 1) = buffer + of_nat (?L - 1)" using pos [of 1] by (simp only: of_nat_1)
    moreover have "m (buffer + of_nat (?L - 1)) = last ?line"
      using at [of "?L - 1"] \<open>1 \<le> ?L\<close> assms(2) by (simp add: last_conv_nth)
    ultimately show ?thesis by (simp only:)
  qed
  show ?thesis
  proof (cases "?L = 1")
    case True
    then have "ws = []" "last ?line \<noteq> 38" using assms(2,3) by (cases name; auto simp: tail_join split: if_splits)+
    then show ?thesis using last len by (simp add: check_foreground_def ch_is)
  next
    case False
    moreover have "?L \<noteq> 0" using assms(2) by simp
    ultimately have L: "2 \<le> ?L" by linarith
    have "m (?p + of_int (int (length (tail ws)) - 2)) = ?line ! (?L - 2)"
      using pos [OF L] at [of "?L - 2"] L by (simp only: of_nat_numeral diff_less)
    then have "ch m (?p + of_int (int (length (tail ws)) - 1)) = 38 \<and>
        (int (length (tail ws)) = 1 \<or> ch m (?p + of_int (int (length (tail ws)) - 2)) = 32) \<longleftrightarrow> ws \<noteq> [] \<and> last ws = [38]"
      using background_word [OF assms(2-6)] last one by (simp add: ch_is)
    moreover have "buffer + of_nat (length (name @ tail (butlast ws))) = ?p + of_int (int (length (tail ws)) - 2)" if "ws \<noteq> []" "last ws = [38]"
      using pos [OF L] tail_background [OF that] by simp
    ultimately show ?thesis using len one by (simp add: check_foreground_def add.assoc)
  qed
qed

lemma background_cut:
  assumes "cstr m buffer (name @ tail ws)" "cstr m cmd_name name" "apart cmd_name buffer (Suc (length (name @ tail ws)))"
    "ws \<noteq> []" "last ws = [38]" "length (name @ tail ws) < 2 ^ 31"
  defines "m' \<equiv> m(buffer + of_nat (length (name @ tail (butlast ws))) := 0)"
  shows "cstr m' buffer (name @ tail (butlast ws)) \<and> cstr m' cmd_name name"
proof -
  let ?xs = "name @ tail (butlast ws)" let ?n = "length ?xs"
  have t: "name @ tail ws = ?xs @ [32, 38]" using tail_background [OF assms(4,5)] by simp
  have n: "?n + 2 < 2 ^ 31" using assms(6) unfolding t by simp
  have "buffer + of_nat i \<noteq> buffer + of_nat ?n" if "i < ?n" for i
    using that n by (subst offset_inj) auto
  moreover have "bytes_at m buffer ?xs" using assms(1) unfolding cstr_def t by (simp add: bytes_at_append)
  ultimately have "bytes_at m' buffer (?xs @ [0])" unfolding m'_def bytes_at_append [of _ _ ?xs] by (simp add: bytes_at_nth del: of_nat_add)
  moreover have "buffer + of_nat ?n \<noteq> cmd_name + of_nat i" if "i \<le> length name" for i
    using that apart_neq [OF assms(3), of ?n i] unfolding t by simp
  then have "m' (cmd_name + of_nat i) = m (cmd_name + of_nat i)" if "i \<le> length name" for i
    using that unfolding m'_def by (metis fun_upd_other)
  then have "cstr m' cmd_name name" using cstr_cong [of name m' cmd_name m] assms(2) by blast
  moreover have "0 \<notin> set ?xs" using assms(1) unfolding cstr_def t by simp
  ultimately show ?thesis by (simp add: cstr_def)
qed

text \<open>
  C36. What the shell makes of a line of words separated by single spaces: it copies the first word to the name of
  the command, runs the command in the background exactly when the last of several words is \<open>&\<close>, and passes the other words,
  without the \<open>&\<close>, as the text of the arguments.
\<close>

theorem parse_line_words:
  assumes "cstr m buffer (join (name # ws))" "name \<noteq> []" "name \<noteq> [38]" "32 \<notin> set name" "[] \<notin> set ws" "\<forall>w \<in> set ws. 32 \<notin> set w"
    "length (join (name # ws)) < 2 ^ 31" "apart cmd_name buffer (Suc (length (join (name # ws))))" "length name < k"
    "fg \<longleftrightarrow> \<not> (ws \<noteq> [] \<and> last ws = [38])" "args = (if fg then ws else butlast ws)"
  shows "\<exists>p m'. parse_line k cmd_name buffer m = Some (fg, p, m') \<and> cstr m' cmd_name name \<and> cstr m' p (join args)"
proof -
  let ?line = "name @ tail ws" let ?L = "length ?line" let ?m = "wr m cmd_name (name @ [0])"
  have c: "cstr m buffer ?line" and L: "?L < 2 ^ 31" and ap: "apart cmd_name buffer (Suc ?L)"
    using assms(1,7,8) by (simp_all only: join_tail)
  have nz: "0 \<notin> set ?line" using c by (simp add: cstr_def)
  have at: "m (buffer + of_nat i) = (?line @ [0]) ! i" if "i \<le> ?L" for i
    using cstr_nth [OF c] that by (cases "i = ?L") (auto simp: nth_append)
  have "name_loop k cmd_name buffer 0 m = Some (0 + length name, wr m (cmd_name + of_nat 0) (name @ [0]))"
  proof (rule name_loop_ok)
    show "m (buffer + of_nat (0 + t)) = name ! t" if "t < length name" for t using at [of t] that by (simp add: nth_append)
    show "m (buffer + of_nat (0 + length name)) = 0 \<or> m (buffer + of_nat (0 + length name)) = 32"
      using at [of "length name"] by (simp add: tail_join nth_append)
    show "buffer + of_nat (0 + t) \<noteq> cmd_name + of_nat (0 + u)" if "t \<le> length name" "u \<le> length name" for t u
      using apart_neq [OF ap, of t u] that by simp
  qed (use assms(4,9) nz L in auto)
  then have nm: "extract_cmd_name k cmd_name buffer m = Some (length name, ?m)" by (simp add: extract_cmd_name_def)
  have keep: "?m (buffer + of_nat i) = m (buffer + of_nat i)" if "i \<le> ?L" for i
  proof -
    have "\<not> unat (buffer + of_nat i - cmd_name) < length (name @ [0])"
      using apart_neq [OF ap, of i "unat (buffer + of_nat i - cmd_name)"] that by auto
    then show ?thesis by (simp add: wr_def)
  qed
  then have cm: "cstr ?m buffer ?line" using c cstr_cong [of ?line ?m buffer m] by blast
  have name: "cstr ?m cmd_name name" using nz L by (auto simp: cstr_def bytes_at_nth wr_def unat_of_nat_u64)
  let ?M = "if fg then ?m else ?m(buffer + of_nat (length (name @ tail (butlast ws))) := 0)"
  have fgd: "check_foreground (buffer + of_nat (length name)) ?m = Some (fg, ?M)"
    using check_foreground_ok [OF cm assms(2-6) L] assms(10) by auto
  have cut: "cstr ?M buffer (name @ tail args) \<and> cstr ?M cmd_name name"
    using background_cut [OF cm name ap] cm name assms(10,11) L by (cases fg) auto
  let ?p = "buffer + of_nat (length name) + (if ?M (buffer + of_nat (length name)) \<noteq> 0 then 1 else 0)"
  have "cstr ?M (buffer + of_nat (length name)) (tail args)" using cut by (simp add: cstr_def bytes_at_append)
  then have "cstr ?M ?p (join args)" by (cases "args = []") (auto simp: tail_join cstr_def)
  moreover have "parse_line k cmd_name buffer m = Some (fg, ?p, ?M)" using nm fgd by (simp add: parse_line_def Let_def)
  ultimately show ?thesis using cut by blast
qed

section \<open>Concrete instances\<close>

definition a_line :: mem where
  "a_line = wr (\<lambda>a. 0) 0x50000 [108, 115, 32, 97, 32, 38]"

lemma a_line_words: "cstr a_line 0x50000 (join [[108, 115], [97], [38]])"
  by (simp add: a_line_def cstr_def wr_def)

lemma parse_line_words_witness:
  "\<exists>p m'. parse_line 3 0x60000 0x50000 a_line = Some (False, p, m') \<and> cstr m' 0x60000 [108, 115] \<and> cstr m' p [97]"
  using parse_line_words [OF a_line_words, of "0x60000" 3 False "[[97]]"] by (simp add: apart_def)


end
