(* ===== verification/Terminal_Laws.thy ===== *)
theory Terminal_Laws
  imports Terminal
begin

text \<open>
  Properties of the terminal library: what a line typed with corrections is for the programs that read
  it, how lines are normalised, and what formatted output writes.
\<close>

section \<open>One character\<close>

text \<open>The caller runs in the foreground.\<close>

definition attended :: "kstate \<Rightarrow> bool" where
  "attended s \<longleftrightarrow> get_current_process s = Ret (foreground s) s"

lemma attended_cong:
  assumes "attended s" "cur_node t = cur_node s" "h_snode t = h_snode s" "foreground t = foreground s"
  shows "attended t"
  using assms by (auto simp: attended_def get_current_process_def rd_def split: if_splits option.splits)

text \<open>The characters that the keyboard buffer holds for the readers.\<close>

primrec typed :: "kbd \<Rightarrow> u8 list \<Rightarrow> kbd \<Rightarrow> bool" where
  "typed kb [] kb' \<longleftrightarrow> kb' = kb"
| "typed kb (c # cs) kb' \<longleftrightarrow> of_int (fst (get_char kb)) = c \<and> c \<noteq> - 1 \<and> typed (snd (get_char kb)) cs kb'"

lemma sys_Ret: "f (kern t) = Ret x s \<Longrightarrow> sys f t = Ret x (t\<lparr>kern := s\<rparr>)"
  by (simp add: sys_def)

lemma memory_frame [simp]:
  "memory (set_memory m t) = m" "memory (poke a b t) = (memory t)(a := b)" "memory (t\<lparr>l_buffer := x\<rparr>) = memory t"
  "memory (t\<lparr>buffi := i\<rparr>) = memory t" "memory (t\<lparr>kern := s\<rparr>) = bytes s"
  "l_buffer (set_memory m t) = l_buffer t" "l_buffer (poke a b t) = l_buffer t"
  "buffi (set_memory m t) = buffi t" "buffi (poke a b t) = buffi t"
  "keyboard (kern (set_memory m t)) = keyboard (kern t)" "keyboard (kern (poke a b t)) = keyboard (kern t)"
  "screen (kern (set_memory m t)) = screen (kern t)" "screen (kern (poke a b t)) = screen (kern t)"
  by (simp_all add: memory_def set_memory_def poke_def)

lemma attended_frame [simp]:
  "attended (s\<lparr>bytes := m\<rparr>) = attended s" "attended (s\<lparr>screen := v\<rparr>) = attended s" "attended (s\<lparr>keyboard := kb\<rparr>) = attended s"
  by (auto elim!: attended_cong)

lemma attended_set_memory [simp]: "attended (kern (set_memory m t)) = attended (kern t)" "attended (kern (poke a b t)) = attended (kern t)"
  by (simp_all add: set_memory_def poke_def)

lemma read_char:
  assumes "attended (kern t)" "of_int (fst (get_char (keyboard (kern t)))) = (c :: u8)" "c \<noteq> - 1"
  shows "sys (sys_read (Suc (Suc n)) STDIN a 1) t =
    Ret 1 (t\<lparr>kern := (kern t)\<lparr>keyboard := snd (get_char (keyboard (kern t))), bytes := (bytes (kern t))(a := c)\<rparr>\<rparr>)"
proof -
  obtain k kb where g: "get_char (keyboard (kern t)) = (k, kb)" by fastforce
  then have "sys_read (Suc (Suc n)) STDIN a 1 (kern t) = Ret 1 ((kern t)\<lparr>keyboard := kb, bytes := (bytes (kern t))(a := c)\<rparr>)"
    using assms by (simp add: sys_read_def attended_def get_foreground_process_def)
  then show ?thesis using g by (simp add: sys_Ret)
qed

text \<open>What \<open>putchar\<close> does to everything but the screen.\<close>

definition shows_char :: "frame \<Rightarrow> tty \<Rightarrow> int \<Rightarrow> tty" where
  "shows_char fr t c = (poke (at_out fr) (of_int c) t)\<lparr>kern := (kern (poke (at_out fr) (of_int c) t))
     \<lparr>screen := put [sint (of_int c :: u8)] 1 (screen (kern t))\<rparr>\<rparr>"

lemma putchar_shows: "putchar n fr c t = Ret () (shows_char fr t c)"
proof -
  let ?t = "poke (at_out fr) (of_int c) t"
  have "chars_at (at_out fr) 1 (kern ?t) = [sint (of_int c :: u8)]"
    by (simp add: chars_at_def poke_def set_memory_def)
  then have "sys_write n 0 (at_out fr) 1 (kern ?t) = Ret 1 ((kern ?t)\<lparr>screen := put [sint (of_int c :: u8)] 1 (screen (kern t))\<rparr>)"
    by (simp add: sys_write_def)
  then show ?thesis by (simp add: putchar_def fputchar_def sys_Ret shows_char_def)
qed

lemma shows_char_frame [simp]:
  "memory (shows_char fr t c) = (memory t)(at_out fr := of_int c)" "l_buffer (shows_char fr t c) = l_buffer t"
  "buffi (shows_char fr t c) = buffi t" "keyboard (kern (shows_char fr t c)) = keyboard (kern t)"
  "attended (kern (shows_char fr t c)) = attended (kern t)"
  by (simp_all add: shows_char_def memory_def poke_def set_memory_def)

section \<open>A line with corrections\<close>

text \<open>What is left of a line in which 8 is the backspace key.\<close>

primrec edit :: "u8 list \<Rightarrow> u8 list \<Rightarrow> u8 list" where
  "edit acc [] = acc"
| "edit acc (c # cs) = edit (if c = 8 then butlast acc else acc @ [c]) cs"

lemma length_edit: "length (edit acc cs) \<le> length acc + length cs"
proof (induction cs arbitrary: acc)
  case (Cons c cs)
  show ?case using Cons [of "butlast acc"] Cons [of "acc @ [c]"] by auto
qed simp

lemma edit_newline: "10 \<notin> set acc \<Longrightarrow> 10 \<notin> set cs \<Longrightarrow> 10 \<notin> set (edit acc cs)"
  by (induction cs arbitrary: acc) (auto dest: in_set_butlastD)

text \<open>The states that differ from \<open>t\<close> only in the two local variables, the screen, the keyboard and the line buffer.\<close>

definition typing :: "frame \<Rightarrow> tty \<Rightarrow> tty \<Rightarrow> bool" where
  "typing fr t u \<longleftrightarrow> buffi u = buffi t \<and> attended (kern u) = attended (kern t) \<and>
     length (l_buffer u) = length (l_buffer t) \<and> (\<forall>a. a \<noteq> at_c fr \<and> a \<noteq> at_out fr \<longrightarrow> memory u a = memory t a)"

lemma typing_trans: "typing fr t u \<Longrightarrow> typing fr u v \<Longrightarrow> typing fr t v"
  by (simp add: typing_def)

text \<open>One turn of the loop.\<close>

lemma fill_turn:
  assumes "attended (kern t)" "typed (keyboard (kern t)) (c # cs) kb" "length (l_buffer t) = BUFFER_SIZE"
    "take i (l_buffer t) = acc" "i = length acc" "i < BUFFER_SIZE - 1"
  shows "\<exists>u. typing fr t u \<and> typed (keyboard (kern u)) cs kb \<and>
    (let acc' = if c = 8 then butlast acc else acc @ [c] in
      take (length acc') (l_buffer u) = acc' \<and>
      fill_loop (Suc (Suc n)) (Suc m) fr i t =
        (if c \<noteq> 10 \<and> length acc' < BUFFER_SIZE - 1 then fill_loop (Suc (Suc n)) m fr (length acc') u else Ret () u))"
proof -
  let ?kb = "snd (get_char (keyboard (kern t)))"
  let ?t = "t\<lparr>kern := (kern t)\<lparr>keyboard := ?kb, bytes := (bytes (kern t))(at_c fr := c)\<rparr>\<rparr>"
  have r: "sys (sys_read (Suc (Suc n)) STDIN (at_c fr) 1) t = Ret 1 ?t" using assms(1,2) by (intro read_char) simp_all
  have t: "memory ?t (at_c fr) = c" "typing fr t ?t" "typed (keyboard (kern ?t)) cs kb"
    using assms(1,2) by (simp_all add: typing_def memory_def)
  consider "c = 8 \<and> i \<noteq> 0" | "c = 8 \<and> i = 0" | "c \<noteq> 8" by (cases "c = 8"; cases "i = 0") simp_all
  then show ?thesis
  proof cases
    case 1
    let ?u = "if l_buffer t ! (i - 1) \<noteq> 9 then shows_char fr ?t 8 else ?t"
    have "fill_loop (Suc (Suc n)) (Suc m) fr i t =
        (if c \<noteq> 10 \<and> i - 1 < BUFFER_SIZE - 1 then fill_loop (Suc (Suc n)) m fr (i - 1) ?u else Ret () ?u)"
      using 1 t(1) by (simp add: r putchar_shows)
    moreover have "typing fr t ?u" "typed (keyboard (kern ?u)) cs kb" using t by (auto simp: typing_def)
    moreover have "take (i - 1) (l_buffer ?u) = butlast acc"
      using butlast_take [of i "l_buffer t"] assms(3-6) by simp
    ultimately show ?thesis using 1 assms(5) by (intro exI [of _ ?u]) simp
  next
    case 2
    then show ?thesis using t assms(4-6) by (intro exI [of _ ?t]) (simp add: r)
  next
    case 3
    let ?v = "?t\<lparr>l_buffer := (l_buffer t)[i := c]\<rparr>"
    let ?u = "shows_char fr ?v (uint c)"
    have "fill_loop (Suc (Suc n)) (Suc m) fr i t =
        (if c \<noteq> 10 \<and> i + 1 < BUFFER_SIZE - 1 then fill_loop (Suc (Suc n)) m fr (i + 1) ?u else Ret () ?u)"
      using 3 t(1) by (simp add: r putchar_shows)
    moreover have "typing fr t ?u" "typed (keyboard (kern ?u)) cs kb" using t by (auto simp: typing_def memory_def [of t])
    moreover have "take (i + 1) (l_buffer ?u) = acc @ [c]" using assms(3-6) by (simp add: take_Suc_conv_app_nth)
    ultimately show ?thesis using 3 assms(5) by (intro exI [of _ ?u]) simp
  qed
qed

lemma fill_loop_ok:
  assumes "attended (kern t)" "typed (keyboard (kern t)) (cs @ [10]) kb" "length (l_buffer t) = BUFFER_SIZE" "10 \<notin> set cs"
    "take (length acc) (l_buffer t) = acc" "length acc + length cs < BUFFER_SIZE - 1" "length cs < m"
  shows "\<exists>u. fill_loop (Suc (Suc n)) m fr (length acc) t = Ret () u \<and> typing fr t u \<and> keyboard (kern u) = kb \<and>
    take (Suc (length (edit acc cs))) (l_buffer u) = edit acc cs @ [10]"
  using assms
proof (induction cs arbitrary: acc t m)
  case Nil
  obtain k where m: "m = Suc k" using Nil.prems(7) by (cases m) simp_all
  show ?case
    using fill_turn [OF Nil.prems(1) Nil.prems(2) [simplified append_Nil] Nil.prems(3,5) refl, where fr = fr and n = n and m = k] Nil.prems(6)
    by (auto simp: m Let_def)
next
  case (Cons c cs)
  obtain k where m: "m = Suc k" "length cs < k" using Cons.prems(7) by (cases m) simp_all
  let ?acc = "if c = 8 then butlast acc else acc @ [c]"
  have l: "length ?acc + length cs < BUFFER_SIZE - 1" "length ?acc < BUFFER_SIZE - 1" "length acc < BUFFER_SIZE - 1"
    using Cons.prems(6) by auto
  obtain u where u: "typing fr t u" "typed (keyboard (kern u)) (cs @ [10]) kb" "take (length ?acc) (l_buffer u) = ?acc"
    "fill_loop (Suc (Suc n)) m fr (length acc) t = fill_loop (Suc (Suc n)) k fr (length ?acc) u"
    using fill_turn [OF Cons.prems(1) Cons.prems(2) [simplified append_Cons] Cons.prems(3,5) refl l(3), where fr = fr and n = n and m = k] l(2) Cons.prems(4)
    unfolding m(1) Let_def by (metis (no_types, lifting) list.set_intros(1))
  have "attended (kern u)" "length (l_buffer u) = BUFFER_SIZE" using u(1) Cons.prems(1,3) by (simp_all add: typing_def)
  from Cons.IH [OF this(1) u(2) this(2) _ u(3) l(1) m(2)] Cons.prems(4)
  show ?case using u(1,4) typing_trans [OF u(1)] by (auto simp: typing_trans)
qed

section \<open>The characters of a line\<close>

text \<open>
  \<open>getchar\<close> will deliver \<open>ys\<close> and a newline: they are in the line buffer, or it is empty and they are
  what is left of the keys typed after editing.
\<close>

definition delivers :: "tty \<Rightarrow> u8 list \<Rightarrow> bool" where
  "delivers t ys \<longleftrightarrow> length (l_buffer t) = BUFFER_SIZE \<and> 10 \<notin> set ys \<and>
     (if buffi t = 0
      then attended (kern t) \<and> (\<exists>cs kb. typed (keyboard (kern t)) (cs @ [10]) kb \<and> 10 \<notin> set cs \<and> length cs < BUFFER_SIZE - 1 \<and> ys = edit [] cs)
      else buffi t + length ys < BUFFER_SIZE \<and> take (Suc (length ys)) (drop (buffi t) (l_buffer t)) = ys @ [10])"

lemma delivers_poke [simp]: "delivers (poke a b t) ys = delivers t ys"
  by (simp add: delivers_def)

text \<open>Only the two local variables may have changed.\<close>

definition unchanged :: "frame \<Rightarrow> tty \<Rightarrow> tty \<Rightarrow> bool" where
  "unchanged fr t u \<longleftrightarrow> (\<forall>a. a \<noteq> at_c fr \<and> a \<noteq> at_out fr \<longrightarrow> memory u a = memory t a)"

lemma take_char_next:
  assumes "length (l_buffer t) = BUFFER_SIZE" "i = buffi t" "i + length ys < BUFFER_SIZE"
    "take (Suc (length ys)) (drop i (l_buffer t)) = ys @ [10]" "10 \<notin> set ys"
  shows "ys = [] \<Longrightarrow> take_char t = Ret 10 (t\<lparr>buffi := 0\<rparr>)"
    "ys = y # zs \<Longrightarrow> take_char t = Ret (uint y) (t\<lparr>buffi := Suc i\<rparr>) \<and> delivers (t\<lparr>buffi := Suc i\<rparr>) zs"
proof -
  have d: "drop i (l_buffer t) = (l_buffer t ! i) # drop (Suc i) (l_buffer t)" using assms(1,3) by (simp add: Cons_nth_drop_Suc)
  show "take_char t = Ret 10 (t\<lparr>buffi := 0\<rparr>)" if "ys = []"
    using that assms(2,4) unfolding d by (simp add: take_char_def)
  show "take_char t = Ret (uint y) (t\<lparr>buffi := Suc i\<rparr>) \<and> delivers (t\<lparr>buffi := Suc i\<rparr>) zs" if "ys = y # zs"
    using that assms unfolding d by (auto simp: take_char_def delivers_def)
qed

lemma getchar_next:
  assumes "delivers t ys"
  shows "ys = [] \<Longrightarrow> \<exists>u. getchar (Suc (Suc n)) (Suc BUFFER_SIZE) fr t = Ret 10 u \<and> buffi u = 0 \<and> unchanged fr t u"
    "ys = y # zs \<Longrightarrow> \<exists>u. getchar (Suc (Suc n)) (Suc BUFFER_SIZE) fr t = Ret (uint y) u \<and> delivers u zs \<and> unchanged fr t u"
proof -
  have "\<exists>u. getchar (Suc (Suc n)) (Suc BUFFER_SIZE) fr t = take_char u \<and> length (l_buffer u) = BUFFER_SIZE \<and> buffi u + length ys < BUFFER_SIZE \<and>
      take (Suc (length ys)) (drop (buffi u) (l_buffer u)) = ys @ [10] \<and> 10 \<notin> set ys \<and> unchanged fr t u"
  proof (cases "buffi t = 0")
    case True
    then obtain cs kb where c: "attended (kern t)" "typed (keyboard (kern t)) (cs @ [10]) kb" "10 \<notin> set cs" "length cs < BUFFER_SIZE - 1"
      "ys = edit [] cs" "length (l_buffer t) = BUFFER_SIZE" "10 \<notin> set ys" using assms by (auto simp: delivers_def)
    obtain u where u: "fill_loop (Suc (Suc n)) (Suc BUFFER_SIZE) fr 0 t = Ret () u" "typing fr t u" "take (Suc (length ys)) (l_buffer u) = ys @ [10]"
      using fill_loop_ok [OF c(1,2,6,3), of "[]" "Suc BUFFER_SIZE" n fr] c(4,5) by auto
    have "length ys < BUFFER_SIZE" using length_edit [of "[]" cs] c(4,5) by simp
    then show ?thesis using u True c by (intro exI [of _ u]) (simp add: getchar_def fill_buffer_def typing_def unchanged_def)
  qed (use assms in \<open>auto simp: getchar_def delivers_def unchanged_def\<close>)
  then obtain u where u: "getchar (Suc (Suc n)) (Suc BUFFER_SIZE) fr t = take_char u" "length (l_buffer u) = BUFFER_SIZE"
    "buffi u + length ys < BUFFER_SIZE" "take (Suc (length ys)) (drop (buffi u) (l_buffer u)) = ys @ [10]" "10 \<notin> set ys" "unchanged fr t u"
    by blast
  note next_char = take_char_next [OF u(2) refl u(3-5)]
  show "\<exists>u. getchar (Suc (Suc n)) (Suc BUFFER_SIZE) fr t = Ret 10 u \<and> buffi u = 0 \<and> unchanged fr t u" if "ys = []"
    using next_char(1) [OF that] u(1,6) by (intro exI [of _ "u\<lparr>buffi := 0\<rparr>"]) (simp add: unchanged_def)
  show "\<exists>u. getchar (Suc (Suc n)) (Suc BUFFER_SIZE) fr t = Ret (uint y) u \<and> delivers u zs \<and> unchanged fr t u" if "ys = y # zs"
    using next_char(2) [OF that] u(1,6) by (intro exI [of _ "u\<lparr>buffi := Suc (buffi u)\<rparr>"]) (simp add: unchanged_def)
qed

section \<open>Reading lines\<close>

text \<open>The local variables lie outside the \<open>L\<close> bytes at \<open>str\<close>.\<close>

definition clear_of :: "frame \<Rightarrow> u64 \<Rightarrow> nat \<Rightarrow> bool" where
  "clear_of fr str L \<longleftrightarrow> L \<le> unat (at_c fr - str) \<and> L \<le> unat (at_out fr - str)"

definition stored :: "frame \<Rightarrow> u64 \<Rightarrow> nat \<Rightarrow> u8 list \<Rightarrow> tty \<Rightarrow> tty \<Rightarrow> bool" where
  "stored fr str i xs t u \<longleftrightarrow> (\<forall>j < length xs. memory u (str + of_nat (i + j)) = xs ! j) \<and>
     (\<forall>a. a \<noteq> at_c fr \<and> a \<noteq> at_out fr \<and> (unat (a - str) < i \<or> i + length xs \<le> unat (a - str)) \<longrightarrow> memory u a = memory t a)"

lemma u32_index: "j < 2 ^ 32 \<Longrightarrow> (ucast (of_nat j :: u32) :: u64) = of_nat j"
  by (simp add: unsigned_of_nat take_bit_nat_eq_self)

lemma index_offset: "j < 2 ^ 32 \<Longrightarrow> unat (str + of_nat j - str :: u64) = j"
  by (simp add: unat_of_nat_u64)

lemma stored_Nil: "unchanged fr t u \<Longrightarrow> stored fr str i [] t u"
  by (auto simp: stored_def unchanged_def)

lemma stored_Cons:
  assumes "unchanged fr t u" "stored fr str (Suc i) xs (poke (str + of_nat i) x u) v" "clear_of fr str L" "i < L" "L \<le> 2 ^ 32" "i + length xs < 2 ^ 32"
  shows "stored fr str i (x # xs) t v"
proof -
  have d: "unat (str + of_nat i - str) = i" using assms(4,5) by (intro index_offset) simp
  then have l: "str + of_nat i \<noteq> at_c fr" "str + of_nat i \<noteq> at_out fr"
    using assms(3,4) unfolding clear_of_def by (metis not_le)+
  have "memory v (str + of_nat i) = x" using assms(2) l d by (auto simp: stored_def)
  then have "memory v (str + of_nat (i + j)) = (x # xs) ! j" if "j < Suc (length xs)" for j
    using that assms(2) by (cases j) (auto simp: stored_def add.assoc)
  moreover have "memory v a = memory t a"
    if a: "a \<noteq> at_c fr" "a \<noteq> at_out fr" "unat (a - str) < i \<or> i + Suc (length xs) \<le> unat (a - str)" for a
  proof -
    have "a \<noteq> str + of_nat i" using a(3) d by auto
    moreover have "memory v a = memory (poke (str + of_nat i) x u) a" using a assms(2) by (auto simp: stored_def)
    ultimately show ?thesis using a(1,2) assms(1) by (simp add: unchanged_def)
  qed
  ultimately show ?thesis by (simp add: stored_def)
qed

lemma readline_loop_ok:
  assumes "delivers t ys" "i + length ys < unat (maxlen - 1)" "length ys < k" "clear_of fr str (unat maxlen)" "maxlen \<noteq> 0"
  shows "\<exists>u. readline_loop (Suc (Suc n)) (Suc BUFFER_SIZE) k fr str maxlen (of_nat i) t = Ret (of_nat (i + length ys)) u \<and>
    buffi u = 0 \<and> stored fr str i ys t u"
  using assms
proof (induction ys arbitrary: t i k)
  case Nil
  obtain k' where k: "k = Suc k'" using Nil.prems(3) by (cases k) simp_all
  have m: "unat (maxlen - 1) < 2 ^ 32" using unsigned_less [of "maxlen - 1", where ?'a = nat] by simp
  have "(of_nat i :: u32) < maxlen - 1" using Nil.prems(2) m by (simp add: word_less_nat_alt unat_of_nat)
  moreover obtain u where "getchar (Suc (Suc n)) (Suc BUFFER_SIZE) fr t = Ret 10 u" "buffi u = 0" "unchanged fr t u"
    using getchar_next(1) [OF Nil.prems(1) refl] by blast
  ultimately show ?case by (simp add: k stored_Nil)
next
  case (Cons y ys)
  obtain k' where k: "k = Suc k'" "length ys < k'" using Cons.prems(3) by (cases k) simp_all
  have m: "unat (maxlen - 1) < 2 ^ 32" "Suc (unat (maxlen - 1)) = unat maxlen"
    using unsigned_less [of "maxlen - 1", where ?'a = nat] Cons.prems(5) unat_pred_word [of maxlen] unat_gt_0 [of maxlen] by simp_all
  have g: "(of_nat i :: u32) < maxlen - 1" using Cons.prems(2) m by (simp add: word_less_nat_alt unat_of_nat)
  have y: "uint y \<noteq> 10" using Cons.prems(1) by (auto simp: delivers_def) (metis of_int_numeral of_int_uint word_of_int_uint)
  obtain u where u: "getchar (Suc (Suc n)) (Suc BUFFER_SIZE) fr t = Ret (uint y) u" "delivers u ys" "unchanged fr t u"
    using getchar_next(2) [OF Cons.prems(1) refl] by blast
  let ?u = "poke (str + of_nat i) y u"
  have "readline_loop (Suc (Suc n)) (Suc BUFFER_SIZE) k fr str maxlen (of_nat i) t =
      readline_loop (Suc (Suc n)) (Suc BUFFER_SIZE) k' fr str maxlen (of_nat (Suc i)) ?u"
    using g y u(1) u32_index [of i] Cons.prems(2) m by (simp add: k add.commute)
  moreover obtain v where v: "readline_loop (Suc (Suc n)) (Suc BUFFER_SIZE) k' fr str maxlen (of_nat (Suc i)) ?u = Ret (of_nat (Suc i + length ys)) v"
    "buffi v = 0" "stored fr str (Suc i) ys ?u v"
    using Cons.IH [of ?u "Suc i" k'] u(2) Cons.prems(2,4,5) k(2) by auto
  moreover have "unat maxlen \<le> 2 ^ 32" using m by simp
  then have "stored fr str i (y # ys) t v" using Cons.prems(2,4) m by (intro stored_Cons [OF u(3) v(3)]) simp_all
  ultimately show ?case by simp
qed

lemma stored_end:
  assumes "stored fr str 0 xs t u" "length xs < 2 ^ 31" "m \<le> length xs" "m = length ys" "ys = take m xs" "Suc m \<ge> length xs"
  shows "stored fr str 0 (ys @ [0]) t (poke (str + of_nat m) 0 u)"
proof -
  have "unat (str + of_nat j - str) = j" if "j \<le> length xs" for j using that assms(2) by (intro index_offset) simp
  then have o: "str + of_nat j \<noteq> str + of_nat m" if "j < m" for j using that assms(3) by (metis less_imp_le nat_neq_iff order_trans)
  have d: "unat (a - str) < m \<or> Suc m \<le> unat (a - str) \<Longrightarrow> a \<noteq> str + of_nat m" for a
    using assms(2,3) by (auto simp: unat_of_nat_u64)
  have x: "memory u (str + of_nat j) = xs ! j" if "j < length xs" for j using assms(1) that by (simp add: stored_def)
  have f: "memory u a = memory t a" if "a \<noteq> at_c fr" "a \<noteq> at_out fr" "length xs \<le> unat (a - str)" for a
    using assms(1) that by (simp add: stored_def)
  have "memory (poke (str + of_nat m) 0 u) (str + of_nat j) = (ys @ [0]) ! j" if "j < Suc m" for j
  proof (cases "j = m")
    case False
    then have "j < m" "xs ! j = ys ! j" using that assms(5) nth_take [of j m xs] by simp_all
    then show ?thesis using x [of j] o [of j] assms(3,4) by (simp add: nth_append)
  qed (use assms(4) in \<open>simp add: nth_append\<close>)
  then show ?thesis unfolding stored_def using d f assms(4,6) by auto
qed

text \<open>
  C33. Reading a line that the user types with corrections: when the keys that wait in the keyboard buffer are \<open>cs\<close> and a newline,
  \<open>readline\<close> stores the line that is left after every backspace has deleted the character before it, ended by 0, returns its
  length, and has emptied the line buffer; nothing else in memory changes but the two local variables.
\<close>

theorem readline_edits:
  assumes "buffi t = 0" "length (l_buffer t) = BUFFER_SIZE" "attended (kern t)" "typed (keyboard (kern t)) (cs @ [10]) kb" "10 \<notin> set cs"
    "length cs < BUFFER_SIZE - 1" "Suc (length (edit [] cs)) < unat maxlen" "clear_of fr str (unat maxlen)"
  shows "\<exists>u. readline (Suc (Suc n)) (Suc BUFFER_SIZE) BUFFER_SIZE fr str maxlen t = Ret (int (length (edit [] cs))) u \<and>
    buffi u = 0 \<and> stored fr str 0 (edit [] cs @ [0]) t u"
proof -
  let ?ys = "edit [] cs"
  have l: "length ?ys < BUFFER_SIZE - 1" using length_edit [of "[]" cs] assms(6) by simp
  have d: "delivers t ?ys" using assms edit_newline [of "[]" cs] by (auto simp: delivers_def)
  have m: "maxlen \<noteq> 0" using assms(7) by auto
  then have p: "unat (maxlen - 1) = unat maxlen - 1" by (rule unat_pred_word)
  then have "0 + length ?ys < unat (maxlen - 1)" using assms(7) by linarith
  then obtain u where u: "readline_loop (Suc (Suc n)) (Suc BUFFER_SIZE) BUFFER_SIZE fr str maxlen 0 t = Ret (of_nat (length ?ys)) u"
    "buffi u = 0" "stored fr str 0 ?ys t u"
    using readline_loop_ok [OF d, of 0 maxlen BUFFER_SIZE fr str n] assms(8) l m by auto
  let ?v = "poke (str + of_nat (length ?ys)) 0 u"
  have "readline (Suc (Suc n)) (Suc BUFFER_SIZE) BUFFER_SIZE fr str maxlen t = Ret (int (length ?ys)) ?v"
    using u(1) l u32_index [of "length ?ys"] by (simp add: readline_def signed_of_nat signed_take_bit_int_eq_self)
  moreover have "stored fr str 0 (?ys @ [0]) t ?v" by (rule stored_end [OF u(3)]) (use l in simp_all)
  ultimately show ?thesis using u(2) by (intro exI [of _ ?v]) simp
qed

section \<open>Lines without superfluous white space\<close>

abbreviation space :: "u8 \<Rightarrow> bool" where "space c \<equiv> isspace (uint c)"

primrec squeeze :: "bool \<Rightarrow> u8 list \<Rightarrow> u8 list" where
  "squeeze sp [] = []"
| "squeeze sp (c # cs) =
     (if \<not> sp then c # squeeze (space c) cs else if \<not> space c then c # squeeze False cs else squeeze sp cs)"

definition trim_end :: "u8 list \<Rightarrow> u8 list" where
  "trim_end xs = (if xs \<noteq> [] \<and> space (last xs) then butlast xs else xs)"

text \<open>The words of a line, and that no white space stands at its start, at its end or after white space.\<close>

primrec words_from :: "u8 list \<Rightarrow> u8 list \<Rightarrow> u8 list list" where
  "words_from w [] = (if w = [] then [] else [w])"
| "words_from w (c # cs) = (if space c then (if w = [] then words_from [] cs else w # words_from [] cs) else words_from (w @ [c]) cs)"

definition words_of :: "u8 list \<Rightarrow> u8 list list" where
  "words_of cs = words_from [] cs"

primrec spaced :: "bool \<Rightarrow> u8 list \<Rightarrow> bool" where
  "spaced sp [] \<longleftrightarrow> True"
| "spaced sp (c # cs) \<longleftrightarrow> \<not> (sp \<and> space c) \<and> spaced (space c) cs"

definition neat :: "u8 list \<Rightarrow> bool" where
  "neat xs \<longleftrightarrow> spaced True xs \<and> (xs \<noteq> [] \<longrightarrow> \<not> space (last xs))"

lemma words_squeeze: "(sp \<Longrightarrow> w = []) \<Longrightarrow> words_from w (squeeze sp cs) = words_from w cs"
  by (induction cs arbitrary: sp w) auto

lemma words_trim: "space c \<Longrightarrow> words_from w (xs @ [c]) = words_from w xs"
  by (induction xs arbitrary: w) auto

lemma spaced_squeeze: "spaced sp (squeeze sp cs)"
proof (induction cs arbitrary: sp)
  case (Cons c cs)
  then show ?case by (cases "space c") auto
qed simp

lemma spaced_append: "spaced sp (xs @ ys) \<longleftrightarrow> spaced sp xs \<and> spaced (if xs = [] then sp else space (last xs)) ys"
  by (induction xs arbitrary: sp) auto

lemma length_squeeze: "length (squeeze sp cs) \<le> length cs"
proof (induction cs arbitrary: sp)
  case (Cons c cs)
  show ?case using Cons [of sp] Cons [of False] Cons [of "space c"] by auto
qed simp

lemma normalised:
  "words_of (trim_end (squeeze True cs)) = words_of cs" "neat (trim_end (squeeze True cs))"
proof -
  let ?xs = "squeeze True cs"
  have s: "spaced True ?xs" by (rule spaced_squeeze)
  have w: "words_of ?xs = words_of cs" by (simp add: words_of_def words_squeeze)
  show "words_of (trim_end ?xs) = words_of cs"
  proof (cases "?xs \<noteq> [] \<and> space (last ?xs)")
    case True
    then have "?xs = butlast ?xs @ [last ?xs]" by simp
    then have "words_of ?xs = words_of (butlast ?xs)" unfolding words_of_def using True words_trim by metis
    then show ?thesis using w True by (simp add: trim_end_def)
  qed (use w in \<open>auto simp: trim_end_def\<close>)
  show "neat (trim_end ?xs)"
  proof (cases "?xs \<noteq> [] \<and> space (last ?xs)")
    case True
    then have e: "?xs = butlast ?xs @ [last ?xs]" by simp
    have "spaced True (butlast ?xs)" "butlast ?xs \<noteq> [] \<longrightarrow> \<not> space (last (butlast ?xs))"
      using s spaced_append [of True "butlast ?xs" "[last ?xs]"] e True by auto
    then show ?thesis using True by (simp add: neat_def trim_end_def)
  qed (use s in \<open>auto simp: neat_def trim_end_def\<close>)
qed

lemma isspace_signed: "isspace (sint (c :: u8)) = space c"
proof -
  have s: "sint c = 9 \<longleftrightarrow> c = 9" "sint c = 32 \<longleftrightarrow> c = 32" "sint c = 11 \<longleftrightarrow> c = 11" "sint c = 12 \<longleftrightarrow> c = 12"
    "sint c = 13 \<longleftrightarrow> c = 13" "sint c = 10 \<longleftrightarrow> c = 10"
    using word_eq_iff_signed [where ?'a = int, of c 9] word_eq_iff_signed [where ?'a = int, of c 32] word_eq_iff_signed [where ?'a = int, of c 11] word_eq_iff_signed [where ?'a = int, of c 12]
      word_eq_iff_signed [where ?'a = int, of c 13] word_eq_iff_signed [where ?'a = int, of c 10] by simp_all
  have u: "uint c = 9 \<longleftrightarrow> c = 9" "uint c = 32 \<longleftrightarrow> c = 32" "uint c = 11 \<longleftrightarrow> c = 11" "uint c = 12 \<longleftrightarrow> c = 12"
    "uint c = 13 \<longleftrightarrow> c = 13" "uint c = 10 \<longleftrightarrow> c = 10"
    using word_uint_eq_iff [of c 9] word_uint_eq_iff [of c 32] word_uint_eq_iff [of c 11] word_uint_eq_iff [of c 12]
      word_uint_eq_iff [of c 13] word_uint_eq_iff [of c 10] by simp_all
  show ?thesis by (simp add: isspace_def isblank_def s u)
qed

lemma no_spaces_loop_ok:
  assumes "delivers t ys" "i + length ys < unat (maxlen - 1)" "length ys < k" "clear_of fr str (unat maxlen)" "maxlen \<noteq> 0"
  shows "\<exists>u. no_spaces_loop (Suc (Suc n)) (Suc BUFFER_SIZE) k fr str maxlen sp (of_nat i) t = Ret (of_nat (i + length (squeeze sp ys))) u \<and>
    buffi u = 0 \<and> stored fr str i (squeeze sp ys) t u"
  using assms
proof (induction ys arbitrary: t i k sp)
  case Nil
  obtain k' where k: "k = Suc k'" using Nil.prems(3) by (cases k) simp_all
  obtain u where "getchar (Suc (Suc n)) (Suc BUFFER_SIZE) fr t = Ret 10 u" "buffi u = 0" "unchanged fr t u"
    using getchar_next(1) [OF Nil.prems(1) refl] by blast
  then show ?case by (simp add: k stored_Nil)
next
  case (Cons y ys)
  obtain k' where k: "k = Suc k'" "length ys < k'" using Cons.prems(3) by (cases k) simp_all
  have m: "unat (maxlen - 1) < 2 ^ 32" "Suc (unat (maxlen - 1)) = unat maxlen"
    using unsigned_less [of "maxlen - 1", where ?'a = nat] Cons.prems(5) unat_pred_word [of maxlen] unat_gt_0 [of maxlen] by simp_all
  have g: "(of_nat i :: u32) < maxlen - 1" using Cons.prems(2) m by (simp add: word_less_nat_alt unat_of_nat)
  have y: "uint y \<noteq> 10" using Cons.prems(1) by (auto simp: delivers_def) (metis of_int_numeral of_int_uint word_of_int_uint)
  obtain u where u: "getchar (Suc (Suc n)) (Suc BUFFER_SIZE) fr t = Ret (uint y) u" "delivers u ys" "unchanged fr t u"
    using getchar_next(2) [OF Cons.prems(1) refl] by blast
  have L: "unat maxlen \<le> 2 ^ 32" "i < unat maxlen" "i + length ys < 2 ^ 32" using m Cons.prems(2) by simp_all
  show ?case
  proof (cases "sp \<and> space y")
    case True
    obtain v where v: "no_spaces_loop (Suc (Suc n)) (Suc BUFFER_SIZE) k' fr str maxlen sp (of_nat i) u = Ret (of_nat (i + length (squeeze sp ys))) v"
      "buffi v = 0" "stored fr str i (squeeze sp ys) u v"
      using Cons.IH [OF u(2) _ k(2), of i sp] Cons.prems(2,4,5) by auto
    have "stored fr str i (squeeze sp ys) t v" using v(3) u(3) by (auto simp: stored_def unchanged_def)
    then show ?thesis using True g y u(1) v(1,2) by (intro exI [of _ v]) (simp add: k)
  next
    case False
    let ?u = "poke (str + of_nat i) y u" and ?sp = "space y"
    have q: "squeeze sp (y # ys) = y # squeeze ?sp ys" using False by auto
    have "no_spaces_loop (Suc (Suc n)) (Suc BUFFER_SIZE) k fr str maxlen sp (of_nat i) t =
        no_spaces_loop (Suc (Suc n)) (Suc BUFFER_SIZE) k' fr str maxlen ?sp (of_nat (Suc i)) ?u"
      using False g y u(1) u32_index [of i] Cons.prems(2) m by (auto simp: k add.commute)
    moreover obtain v where v: "no_spaces_loop (Suc (Suc n)) (Suc BUFFER_SIZE) k' fr str maxlen ?sp (of_nat (Suc i)) ?u =
        Ret (of_nat (Suc i + length (squeeze ?sp ys))) v"
      "buffi v = 0" "stored fr str (Suc i) (squeeze ?sp ys) ?u v"
      using Cons.IH [of ?u "Suc i" k' ?sp] u(2) Cons.prems(2,4,5) k(2) by auto
    moreover have "stored fr str i (y # squeeze ?sp ys) t v"
      using Cons.prems(4) L length_squeeze [of ?sp ys] by (intro stored_Cons [OF u(3) v(3)]) simp_all
    ultimately show ?thesis unfolding q by simp
  qed
qed

text \<open>
  C34. Reading a command line: \<open>readline_no_spaces\<close> stores a line with the same words as the line typed (after corrections), in which
  no white space stands at the start, at the end or after other white space, ended by 0, and returns its length.
\<close>

theorem readline_no_spaces_words:
  assumes "buffi t = 0" "length (l_buffer t) = BUFFER_SIZE" "attended (kern t)" "typed (keyboard (kern t)) (cs @ [10]) kb" "10 \<notin> set cs"
    "length cs < BUFFER_SIZE - 1" "Suc (length (edit [] cs)) < unat maxlen" "clear_of fr str (unat maxlen)"
  shows "\<exists>u xs. readline_no_spaces (Suc (Suc n)) (Suc BUFFER_SIZE) BUFFER_SIZE fr str maxlen t = Ret (int (length xs)) u \<and>
    buffi u = 0 \<and> stored fr str 0 (xs @ [0]) t u \<and> words_of xs = words_of (edit [] cs) \<and> neat xs"
proof -
  let ?ys = "edit [] cs" let ?sq = "squeeze True ?ys"
  have l: "length ?ys < BUFFER_SIZE - 1" using length_edit [of "[]" cs] assms(6) by simp
  have sq: "length ?sq < BUFFER_SIZE - 1" using length_squeeze [of True ?ys] l by simp
  have d: "delivers t ?ys" using assms edit_newline [of "[]" cs] by (auto simp: delivers_def)
  have m: "maxlen \<noteq> 0" using assms(7) by auto
  then have "unat (maxlen - 1) = unat maxlen - 1" by (rule unat_pred_word)
  then have "0 + length ?ys < unat (maxlen - 1)" using assms(7) by linarith
  then obtain u where u: "no_spaces_loop (Suc (Suc n)) (Suc BUFFER_SIZE) BUFFER_SIZE fr str maxlen True 0 t = Ret (of_nat (length ?sq)) u"
    "buffi u = 0" "stored fr str 0 ?sq t u"
    using no_spaces_loop_ok [OF d, of 0 maxlen BUFFER_SIZE fr str n True] assms(8) l m by auto
  let ?m = "length (trim_end ?sq)"
  have tr: "trim_end ?sq = take ?m ?sq" "?m \<le> length ?sq" "Suc ?m \<ge> length ?sq"
    by (auto simp: trim_end_def butlast_conv_take)
  have last: "memory u (str + of_nat (length ?sq - 1)) = last ?sq" if "?sq \<noteq> []"
    using u(3) that by (auto simp: stored_def last_conv_nth)
  have z: "(0 :: u32) < of_nat (length ?sq) \<longleftrightarrow> ?sq \<noteq> []"
    using sq by (simp add: word_less_nat_alt unat_of_nat)
  have p: "(of_nat (length ?sq) - 1 :: u32) = of_nat (length ?sq - 1)" if "?sq \<noteq> []"
    using that by (simp add: of_nat_diff Suc_leI)
  have "(if (0 :: u32) < of_nat (length ?sq) \<and> isspace (ch (memory u) (str + ucast (of_nat (length ?sq) - 1 :: u32)))
      then of_nat (length ?sq) - 1 else of_nat (length ?sq) :: u32) = of_nat ?m"
  proof (cases "?sq = []")
    case False
    then show ?thesis using z p last u32_index [of "length ?sq - 1"] sq
      by (simp add: ch_def isspace_signed trim_end_def)
  qed (simp add: trim_end_def)
  then have "readline_no_spaces (Suc (Suc n)) (Suc BUFFER_SIZE) BUFFER_SIZE fr str maxlen t = Ret (int ?m) (poke (str + of_nat ?m) 0 u)"
    using u(1) u32_index [of ?m] tr(2) sq
    by (simp add: readline_no_spaces_def Let_def signed_of_nat signed_take_bit_int_eq_self)
  moreover have "stored fr str 0 (trim_end ?sq @ [0]) t (poke (str + of_nat ?m) 0 u)"
    by (rule stored_end [OF u(3)]) (use tr sq in simp_all)
  ultimately show ?thesis using normalised [of ?ys] u(2) by (intro exI [of _ "poke (str + of_nat ?m) 0 u"] exI [of _ "trim_end ?sq"]) simp
qed

section \<open>Formatted output\<close>

text \<open>The parts of a format, what they print and the arguments they take.\<close>

datatype piece = Lit u8 | Dec int | Str u64 "u8 list" | Chr int | Percent

fun fmt_of :: "piece \<Rightarrow> u8 list" where
  "fmt_of (Lit c) = [c]" | "fmt_of (Dec v) = [37, 100]" | "fmt_of (Str a xs) = [37, 115]" | "fmt_of (Chr v) = [37, 99]" | "fmt_of Percent = [37, 37]"

fun text_of :: "piece \<Rightarrow> u8 list" where
  "text_of (Lit c) = [c]" | "text_of (Dec v) = decimal_text v" | "text_of (Str a xs) = xs" | "text_of (Chr v) = [of_int v]" | "text_of Percent = [37]"

fun args_of :: "piece \<Rightarrow> va_arg list" where
  "args_of (Dec v) = [Va_Int v]" | "args_of (Str a xs) = [Va_Ptr a]" | "args_of (Chr v) = [Va_Int v]" | "args_of _ = []"

text \<open>The bytes that printing itself writes: the variable of \<open>fputchar\<close> and 12 bytes of \<open>aux\<close>.\<close>

definition scratch :: "frame \<Rightarrow> u64 \<Rightarrow> bool" where
  "scratch fr a \<longleftrightarrow> a = at_out fr \<or> unat (a - at_aux fr) < 12"

definition text_at :: "frame \<Rightarrow> mem \<Rightarrow> u64 \<Rightarrow> u8 list \<Rightarrow> bool" where
  "text_at fr m a xs \<longleftrightarrow> bytes_at m a xs \<and> (\<forall>j < length xs. \<not> scratch fr (a + of_nat j))"

fun piece_ok :: "frame \<Rightarrow> mem \<Rightarrow> piece \<Rightarrow> bool" where
  "piece_ok fr m (Lit c) \<longleftrightarrow> c \<noteq> 0 \<and> c \<noteq> 37"
| "piece_ok fr m (Dec v) \<longleftrightarrow> \<bar>v\<bar> < 2 ^ 31"
| "piece_ok fr m (Str a xs) \<longleftrightarrow> text_at fr m a (xs @ [0]) \<and> 0 \<notin> set xs"
| "piece_ok fr m (Chr v) \<longleftrightarrow> True"
| "piece_ok fr m Percent \<longleftrightarrow> True"

definition prints_text :: "frame \<Rightarrow> u8 list \<Rightarrow> tty \<Rightarrow> tty \<Rightarrow> bool" where
  "prints_text fr xs t u \<longleftrightarrow> screen (kern u) = put_str (map sint xs) (screen (kern t)) \<and> (\<forall>a. \<not> scratch fr a \<longrightarrow> memory u a = memory t a)"

lemma put_str_append: "put_str (xs @ ys) v = put_str ys (put_str xs v)"
  by (induction xs arbitrary: v) simp_all

lemma prints_text_trans: "prints_text fr xs t u \<Longrightarrow> prints_text fr ys u v \<Longrightarrow> prints_text fr (xs @ ys) t v"
  by (simp add: prints_text_def put_str_append)

lemma text_at_frame: "text_at fr (memory t) a xs \<Longrightarrow> prints_text fr ys t u \<Longrightarrow> text_at fr (memory u) a xs"
  by (simp add: text_at_def bytes_at_nth prints_text_def)

lemma piece_ok_frame: "piece_ok fr (memory t) p \<Longrightarrow> prints_text fr ys t u \<Longrightarrow> piece_ok fr (memory u) p"
  by (cases p) (auto intro: text_at_frame)

lemma text_at_Cons: "text_at fr m a (x # xs) \<longleftrightarrow> m a = x \<and> \<not> scratch fr a \<and> text_at fr m (a + 1) xs"
proof -
  have "(\<forall>j < Suc (length xs). \<not> scratch fr (a + of_nat j)) \<longleftrightarrow> \<not> scratch fr a \<and> (\<forall>j < length xs. \<not> scratch fr (a + 1 + of_nat j))"
    by (auto simp: less_Suc_eq_0_disj add.assoc)
  then show ?thesis by (auto simp: text_at_def)
qed

lemma fputchar_prints: "\<exists>u. fputchar n fr 0 c t = Ret () u \<and> prints_text fr [of_int c] t u \<and> (\<forall>a. a \<noteq> at_out fr \<longrightarrow> memory u a = memory t a)"
  using putchar_shows [of n fr c t]
  by (auto simp: putchar_def prints_text_def scratch_def) (simp add: shows_char_def put_def)

text \<open>A string in memory that \<open>fputchar\<close> does not touch.\<close>

lemma prints_loop_ok:
  assumes "bytes_at (memory t) (str + of_nat i) (xs @ [0])" "0 \<notin> set xs" "\<And>j. j \<le> length xs \<Longrightarrow> str + of_nat (i + j) \<noteq> at_out fr" "length xs < m"
  shows "\<exists>u. prints_loop n m fr 0 str (int i) t = Ret (int (i + length xs)) u \<and> prints_text fr xs t u"
  using assms
proof (induction xs arbitrary: t i m)
  case Nil
  then obtain k where "m = Suc k" by (cases m) auto
  then show ?case using Nil.prems(1) by (intro exI [of _ t]) (simp add: prints_text_def)
next
  case (Cons x xs)
  obtain k where m: "m = Suc k" "length xs < k" using Cons.prems(4) by (cases m) auto
  have x: "memory t (str + of_nat i) = x" "x \<noteq> 0" using Cons.prems(1,2) by auto
  obtain u where u: "fputchar n fr 0 (sint x) t = Ret () u" "prints_text fr [x] t u" "\<And>a. a \<noteq> at_out fr \<Longrightarrow> memory u a = memory t a"
    using fputchar_prints [of n fr "sint x" t] by auto
  have b: "bytes_at (memory t) (str + of_nat (Suc i)) (xs @ [0])" using Cons.prems(1) by (simp add: ac_simps)
  have "memory u (str + of_nat (Suc i) + of_nat j) = memory t (str + of_nat (Suc i) + of_nat j)" if "j < length (xs @ [0])" for j
    using Cons.prems(3) [of "Suc j"] that by (intro u(3)) (simp add: add.assoc)
  then have "bytes_at (memory u) (str + of_nat (Suc i)) (xs @ [0])" using b unfolding bytes_at_nth by simp
  moreover have "str + of_nat (Suc i + j) \<noteq> at_out fr" if "j \<le> length xs" for j using Cons.prems(3) [of "Suc j"] that by simp
  ultimately obtain v where v: "prints_loop n k fr 0 str (int (Suc i)) u = Ret (int (Suc i + length xs)) v" "prints_text fr xs u v"
    using Cons.IH [of u "Suc i" k] Cons.prems(2) m(2) by auto
  have "prints_loop n m fr 0 str (int i) t = prints_loop n k fr 0 str (int (Suc i)) u"
    using x u(1) by (simp add: m ch_def sint_0_iff add.commute)
  then show ?case using v(1) prints_text_trans [OF u(2) v(2)] by (intro exI [of _ v]) simp
qed

lemma prints_ok:
  assumes "text_at fr (memory t) a (xs @ [0])" "0 \<notin> set xs" "length xs < m"
  shows "\<exists>u. prints n m fr 0 a t = Ret (int (length xs)) u \<and> prints_text fr xs t u"
  using prints_loop_ok [of t a 0 xs fr m n] assms by (auto simp: prints_def text_at_def scratch_def)

lemma printi_ok:
  assumes "\<bar>v\<bar> < 2 ^ 31" "unat (at_aux fr) + 11 < 2 ^ 64" "12 \<le> unat (at_out fr - at_aux fr)" "11 < m"
  shows "\<exists>u. printi n m fr 0 v t = Ret (int (length (decimal_text v))) u \<and> prints_text fr (decimal_text v) t u"
proof -
  let ?xs = "decimal_text v"
  obtain b where b: "itoa v (at_aux fr) 10 (memory t) = Some (int (length ?xs), b)" "bytes_at b (at_aux fr) (?xs @ [0])"
    "\<forall>a. unat (a - at_aux fr) > length ?xs \<longrightarrow> b a = memory t a" using itoa_ok [OF assms(1,2)] by blast
  have l: "length ?xs \<le> 11" by (rule decimal_text_length [OF assms(1)])
  have "at_aux fr + of_nat (0 + j) \<noteq> at_out fr" if "j \<le> length ?xs" for j
  proof
    assume "at_aux fr + of_nat (0 + j) = at_out fr"
    then have "at_out fr - at_aux fr = of_nat j" by (simp add: algebra_simps)
    then have "unat (at_out fr - at_aux fr) = j" using that l by (simp add: unat_of_nat_u64)
    then show False using assms(3) that l by linarith
  qed
  then obtain u where u: "prints n m fr 0 (at_aux fr) (set_memory b t) = Ret (int (length ?xs)) u" "prints_text fr ?xs (set_memory b t) u"
    using prints_loop_ok [of "set_memory b t" "at_aux fr" 0 ?xs fr m n] b(2) decimal_text_nonzero l assms(4) by (auto simp: prints_def)
  have "prints_text fr [] t (set_memory b t)" using b(3) l by (auto simp: prints_text_def scratch_def)
  then show ?thesis using prints_text_trans [of fr "[]" t _ ?xs u] u b(1)
    by (intro exI [of _ u]) (simp add: printi_def print_base_def of_lib_def)
qed

lemma text_of_length: "piece_ok fr m p \<Longrightarrow> text_of p \<noteq> [] \<or> (\<exists>a. p = Str a [])"
  by (cases p) (auto simp: decimal_text_def dec.simps)

text \<open>One part of a format.\<close>

lemma fprintformat_piece:
  assumes p: "piece_ok fr (memory t) p" and f: "text_at fr (memory t) format (fmt_of p @ xs)"
    and r: "unat (at_aux fr) + 11 < 2 ^ 64" "12 \<le> unat (at_out fr - at_aux fr)" "11 + length (text_of p) < m"
  shows "\<exists>u. prints_text fr (text_of p) t u \<and>
    fprintformat n (Suc m) fr 0 format (args_of p @ args) len t =
    fprintformat n m fr 0 (format + of_nat (length (fmt_of p))) args (len + int (length (text_of p))) u"
proof -
  have ch: "\<exists>u. prints_text fr [of_int c] t u \<and> fputchar n fr 0 c t = Ret () u" for c using fputchar_prints [of n fr c t] by blast
  have num: "sint (37 :: u8) = 37" "sint (100 :: u8) = 100" "sint (115 :: u8) = 115" "sint (99 :: u8) = 99" "(37 :: u8) \<noteq> 0"
    by simp_all
  show ?thesis
  proof (cases p)
    case (Lit c)
    then have c: "ch (memory t) format = sint c" "sint c \<noteq> 0" "sint c \<noteq> 37"
      using f p word_eq_iff_signed [where ?'a = int, of c 37] by (simp_all add: text_at_Cons ch_def sint_0_iff)
    obtain u where "prints_text fr [c] t u" "fputchar n fr 0 (sint c) t = Ret () u" using ch [of "sint c"] by auto
    then show ?thesis using Lit c by (intro exI [of _ u]) simp
  next
    case (Dec v)
    then have c: "ch (memory t) format = 37" "ch (memory t) (format + 1) = 100" using f num by (simp_all add: text_at_Cons ch_def)
    obtain u where "printi n m fr 0 v t = Ret (int (length (decimal_text v))) u" "prints_text fr (decimal_text v) t u"
      using printi_ok [of v fr m n t] p r Dec by auto
    then show ?thesis using Dec c by (intro exI [of _ u]) (simp add: va_int_def)
  next
    case (Str a ys)
    then have c: "ch (memory t) format = 37" "ch (memory t) (format + 1) = 115" using f num by (simp_all add: text_at_Cons ch_def)
    obtain u where "prints n m fr 0 a t = Ret (int (length ys)) u" "prints_text fr ys t u"
      using prints_ok [of fr t a ys m n] p r(3) Str by auto
    then show ?thesis using Str c by (intro exI [of _ u]) (simp add: va_ptr_def)
  next
    case (Chr v)
    then have c: "ch (memory t) format = 37" "ch (memory t) (format + 1) = 99" using f num by (simp_all add: text_at_Cons ch_def)
    have "(of_int (v mod 256) :: u8) = of_int v" by (simp add: word_uint_eq_iff unsigned_of_int take_bit_eq_mod)
    then obtain u where "prints_text fr [of_int v] t u" "fputchar n fr 0 (v mod 256) t = Ret () u" using ch [of "v mod 256"] by auto
    then show ?thesis using Chr c by (intro exI [of _ u]) (simp add: va_int_def)
  next
    case Percent
    then have c: "ch (memory t) format = 37" "ch (memory t) (format + 1) = 37" using f num by (simp_all add: text_at_Cons ch_def)
    obtain u where "prints_text fr [37] t u" "fputchar n fr 0 37 t = Ret () u" using ch [of 37] by auto
    then show ?thesis using Percent c by (intro exI [of _ u]) simp
  qed
qed

lemma text_at_append: "text_at fr m a (xs @ ys) \<longleftrightarrow> text_at fr m a xs \<and> text_at fr m (a + of_nat (length xs)) ys"
  by (induction xs arbitrary: a) (simp_all add: text_at_Cons add.assoc, simp add: text_at_def)

lemma fprintformat_ok:
  assumes "text_at fr (memory t) format (concat (map fmt_of ps) @ [0])" "\<forall>p \<in> set ps. piece_ok fr (memory t) p"
    "unat (at_aux fr) + 11 < 2 ^ 64" "12 \<le> unat (at_out fr - at_aux fr)"
    "12 + length ps + length (concat (map text_of ps)) < m"
  shows "\<exists>u. fprintformat n m fr 0 format (concat (map args_of ps) @ args) len t = Ret (len + int (length (concat (map text_of ps)))) u \<and>
    prints_text fr (concat (map text_of ps)) t u"
  using assms
proof (induction ps arbitrary: t format len m)
  case Nil
  then obtain k where "m = Suc k" by (cases m) auto
  then show ?case using Nil.prems(1) by (intro exI [of _ t]) (simp add: text_at_def prints_text_def)
next
  case (Cons p ps)
  obtain k where m: "m = Suc k" "12 + length ps + length (concat (map text_of ps)) < k" "11 + length (text_of p) < k"
    using Cons.prems(5) by (cases m) auto
  have f: "text_at fr (memory t) format (fmt_of p @ concat (map fmt_of ps) @ [0])" using Cons.prems(1) by simp
  obtain u where u: "prints_text fr (text_of p) t u"
    "fprintformat n m fr 0 format (args_of p @ concat (map args_of ps) @ args) len t =
     fprintformat n k fr 0 (format + of_nat (length (fmt_of p))) (concat (map args_of ps) @ args) (len + int (length (text_of p))) u"
    using fprintformat_piece [OF _ f Cons.prems(3,4) m(3)] Cons.prems(2) m(1) by (metis list.set_intros(1))
  have "text_at fr (memory u) (format + of_nat (length (fmt_of p))) (concat (map fmt_of ps) @ [0])"
    using f text_at_frame [OF _ u(1)] text_at_append by blast
  moreover have "\<forall>q \<in> set ps. piece_ok fr (memory u) q" using Cons.prems(2) piece_ok_frame [OF _ u(1)] by simp
  ultimately obtain v where v: "fprintformat n k fr 0 (format + of_nat (length (fmt_of p))) (concat (map args_of ps) @ args) (len + int (length (text_of p))) u =
      Ret (len + int (length (text_of p)) + int (length (concat (map text_of ps)))) v" "prints_text fr (concat (map text_of ps)) u v"
    using Cons.IH [of u] Cons.prems(3,4) m(2) by blast
  then show ?case using u prints_text_trans [OF u(1) v(2)] by (intro exI [of _ v]) simp
qed

text \<open>
  C35. \<open>printf\<close> with the conversions \<open>%d\<close>, \<open>%s\<close>, \<open>%c\<close> and \<open>%%\<close>: it prints the characters of the format with each conversion replaced by
  the text of its argument, in order, returns the number of characters, and changes no memory but the local variable of \<open>fputchar\<close>
  and 12 bytes of \<open>aux\<close>.
\<close>

theorem printf_text:
  assumes "text_at fr (memory t) format (concat (map fmt_of ps) @ [0])" "\<forall>p \<in> set ps. piece_ok fr (memory t) p"
    "unat (at_aux fr) + 11 < 2 ^ 64" "12 \<le> unat (at_out fr - at_aux fr)" "12 + length ps + length (concat (map text_of ps)) < m"
  shows "\<exists>u. printf n m fr format (concat (map args_of ps)) t = Ret (int (length (concat (map text_of ps)))) u \<and>
    screen (kern u) = put_str (map sint (concat (map text_of ps))) (screen (kern t)) \<and>
    (\<forall>a. \<not> scratch fr a \<longrightarrow> memory u a = memory t a)"
  using fprintformat_ok [OF assms, of n "[]" 0] by (auto simp: printf_def prints_text_def)

section \<open>A line that is too long\<close>

text \<open>
  A line of 1023 characters without a newline: \<open>fill_buffer\<close> stops when it has stored the last of them at index 1022, and after
  they have been read, \<open>getchar\<close> returns the byte at index 1023, which this line never set.
\<close>

theorem long_line_stale_byte:
  assumes "attended (kern t)" "typed (keyboard (kern t)) [c] kb" "c \<noteq> 8" "c \<noteq> 10" "length (l_buffer t) = BUFFER_SIZE"
  shows "\<exists>u. fill_loop (Suc (Suc n)) (Suc m) fr 1022 t = Ret () u \<and> l_buffer u = (l_buffer t)[1022 := c] \<and>
    (\<forall>v. l_buffer v = l_buffer u \<and> buffi v = 1023 \<longrightarrow> getchar n m fr v = Ret (uint (l_buffer t ! 1023)) (v\<lparr>buffi := 0\<rparr>))"
proof -
  let ?kb = "snd (get_char (keyboard (kern t)))"
  let ?t = "t\<lparr>kern := (kern t)\<lparr>keyboard := ?kb, bytes := (bytes (kern t))(at_c fr := c)\<rparr>\<rparr>"
  let ?u = "shows_char fr (?t\<lparr>l_buffer := (l_buffer t)[1022 := c]\<rparr>) (uint c)"
  have r: "sys (sys_read (Suc (Suc n)) STDIN (at_c fr) 1) t = Ret 1 ?t" using assms(1,2) by (intro read_char) simp_all
  have "fill_loop (Suc (Suc n)) (Suc m) fr 1022 t = Ret () ?u" using assms(3,4) by (simp add: r putchar_shows)
  moreover have "getchar n m fr v = Ret (uint (l_buffer t ! 1023)) (v\<lparr>buffi := 0\<rparr>)"
    if "l_buffer v = (l_buffer t)[1022 := c]" "buffi v = 1023" for v
    using that assms(5) by (simp add: getchar_def take_char_def)
  ultimately show ?thesis by (intro exI [of _ ?u]) simp
qed

section \<open>Witnesses\<close>

text \<open>The keys a, b, backspace, space, space, c, enter wait in the keyboard buffer of the process \<open>A\<close>.\<close>

definition with_keys :: tty where
  "with_keys = \<lparr>kern = two_in_table\<lparr>foreground := proc_A,
     keyboard := kbd_init\<lparr>k_buffer := [30, 48, 14, 57, 57, 46, 28] @ replicate 121 0, store_index := 7, buff_size := 7\<rparr>\<rparr>,
     l_buffer = replicate 1024 0, buffi = 0\<rparr>"

definition some_frame :: frame where
  "some_frame = \<lparr>at_c = 0x2000, at_out = 0x2008, at_aux = 0x3000\<rparr>"

lemma with_keys_ready:
  "buffi with_keys = 0" "length (l_buffer with_keys) = BUFFER_SIZE" "attended (kern with_keys)"
  "\<exists>kb. typed (keyboard (kern with_keys)) ([97, 98, 8, 32, 32, 99] @ [10]) kb" "clear_of some_frame 0x1000 256"
proof -
  have "running proc_A process_A two_in_table" by (simp add: running_def process_A_def)
  then show "attended (kern with_keys)"
    by (auto simp: with_keys_def attended_def running_def get_current_process_def rd_def split: option.splits)
  show "\<exists>kb. typed (keyboard (kern with_keys)) ([97, 98, 8, 32, 32, 99] @ [10]) kb"
    by (simp add: with_keys_def get_char_def take_scancode_def chooseKeyboard_def kbd_init_def key_of_def kbdus_def)
qed (simp_all add: with_keys_def clear_of_def some_frame_def)

lemma with_keys_line: "edit [] [97, 98, 8, 32, 32, 99] = [97, 32, 32, 99]"
  by simp

lemma readline_edits_witness:
  "\<exists>u. readline (Suc (Suc 0)) 1025 1024 some_frame 0x1000 256 with_keys = Ret 4 u \<and> memory u 0x1000 = 97 \<and> memory u 0x1004 = 0"
proof -
  obtain kb where "typed (keyboard (kern with_keys)) ([97, 98, 8, 32, 32, 99] @ [10]) kb" using with_keys_ready(4) by blast
  note r = readline_edits [OF with_keys_ready(1-3) this, of 256 some_frame "0x1000" 0, unfolded with_keys_line]
  obtain u where u: "readline (Suc (Suc 0)) 1025 1024 some_frame 0x1000 256 with_keys = Ret 4 u" "stored some_frame 0x1000 0 [97, 32, 32, 99, 0] with_keys u"
    using r with_keys_ready(5) by auto
  have "\<And>j. j < 5 \<Longrightarrow> memory u (0x1000 + of_nat j) = [97, 32, 32, 99, 0] ! j" using u(2) by (simp add: stored_def)
  from this [of 0] this [of 4] show ?thesis using u(1) by auto
qed

lemma readline_no_spaces_words_witness:
  "\<exists>u xs. readline_no_spaces (Suc (Suc 0)) 1025 1024 some_frame 0x1000 256 with_keys = Ret (int (length xs)) u \<and> words_of xs = [[97], [99]] \<and> neat xs"
proof -
  obtain kb where "typed (keyboard (kern with_keys)) ([97, 98, 8, 32, 32, 99] @ [10]) kb" using with_keys_ready(4) by blast
  note r = readline_no_spaces_words [OF with_keys_ready(1-3) this, of 256 some_frame "0x1000" 0, unfolded with_keys_line]
  have "words_of [97, 32, 32, 99] = [[97], [99]]" by (simp add: words_of_def isspace_def isblank_def)
  then show ?thesis using r with_keys_ready(5) by auto
qed

lemma long_line_stale_byte_witness:
  "\<exists>u. fill_loop (Suc (Suc 0)) 1 some_frame 1022 with_keys = Ret () u \<and> getchar 0 0 some_frame (u\<lparr>buffi := 1023\<rparr>) = Ret 0 (u\<lparr>buffi := 0\<rparr>)"
proof -
  obtain kb where "typed (keyboard (kern with_keys)) [97] kb" using with_keys_ready(4) by auto
  from long_line_stale_byte [OF with_keys_ready(3) this _ _ with_keys_ready(2), of 0 0 some_frame]
  obtain u where u: "fill_loop (Suc (Suc 0)) 1 some_frame 1022 with_keys = Ret () u"
    "\<forall>v. l_buffer v = l_buffer u \<and> buffi v = 1023 \<longrightarrow> getchar 0 0 some_frame v = Ret (uint (l_buffer with_keys ! 1023)) (v\<lparr>buffi := 0\<rparr>)"
    unfolding One_nat_def by auto
  have "l_buffer with_keys ! 1023 = 0" by (simp add: with_keys_def)
  then show ?thesis using u(1) u(2) [rule_format, of "u\<lparr>buffi := 1023\<rparr>"] by simp
qed

text \<open>The format \<open>n=%d\<close>.\<close>

lemma printf_text_witness:
  "\<exists>u. printf 0 30 some_frame 0x1000 [Va_Int (- 7)] (set_memory ((\<lambda>_. 0)(0x1000 := 110, 0x1001 := 61, 0x1002 := 37, 0x1003 := 100)) with_keys) = Ret 4 u"
proof -
  let ?t = "set_memory ((\<lambda>_. 0)(0x1000 := 110, 0x1001 := 61, 0x1002 := 37, 0x1003 := 100)) with_keys"
  let ?ps = "[Lit 110, Lit 61, Dec (- 7)]"
  have t: "concat (map text_of ?ps) = [110, 61, 45, 55]" by (simp add: decimal_text_def dec.simps)
  have "text_at some_frame (memory ?t) 0x1000 (concat (map fmt_of ?ps) @ [0])"
    by (simp add: text_at_Cons) (simp add: text_at_def scratch_def some_frame_def)
  then show ?thesis using printf_text [of some_frame ?t "0x1000" ?ps 30 0] t by (auto simp: some_frame_def)
qed

end
