(* ===== verification/Producer_Consumer.thy ===== *)
theory Producer_Consumer
  imports Shell
begin

text \<open>
  The producer and consumer demonstration (\<open>Kernel/producerConsumer.c\<close>): two processes and two FIFOs, one with a byte for every empty
  slot and one with the items. First the routines as programs of the kernel, then the protocol of the two processes on the buffers
  of the two FIFOs, in any interleaving: no item is lost, doubled or reordered, there are never more items than slots, and some process can always go on.
\<close>

section \<open>The routines\<close>

definition PRODUCER_FIFO :: string where "PRODUCER_FIFO = ''Producer_fifo''"
definition CONSUMER_FIFO :: string where "CONSUMER_FIFO = ''Consumer_fifo''"

abbreviation EMPTY_SLOT :: u8 where "EMPTY_SLOT \<equiv> 69"
abbreviation SLEEP_MULTIPLIER :: int where "SLEEP_MULTIPLIER \<equiv> 300"

text \<open>The variables \<open>producerSleep\<close> and \<open>consumerSleep\<close> at the start.\<close>

definition initial_sleeps :: "int \<times> int" where
  "initial_sleeps = (4, 7)"

definition print_speeds :: "prog \<Rightarrow> int \<times> int \<Rightarrow> tty \<Rightarrow> unit tres" where
  "print_speeds P speeds t =
     bnd (show_text P (''Producer sleep: %d'' @ newline) [Va_Int (fst speeds)] t) (\<lambda>_ t.
     show_text P (''Consumer sleep: %d'' @ newline) [Va_Int (snd speeds)] t)"

definition prodcon_commands :: "prog \<Rightarrow> tty \<Rightarrow> unit tres" where
  "prodcon_commands P t =
     bnd (show_text P (newline @ ''Commands'' @ newline) [] t) (\<lambda>_ t.
     bnd (show_text P (''h   Prints this help.'' @ newline) [] t) (\<lambda>_ t.
     bnd (show_text P (''a   Increases producer sleep.'' @ newline) [] t) (\<lambda>_ t.
     bnd (show_text P (''s   Decreases producer sleep.'' @ newline) [] t) (\<lambda>_ t.
     bnd (show_text P (''z   Increases consumer sleep.'' @ newline) [] t) (\<lambda>_ t.
     bnd (show_text P (''x   Decreases consumer sleep.'' @ newline) [] t) (\<lambda>_ t.
     bnd (show_text P (''q   Ends producer consumer problem.'' @ newline) [] t) (\<lambda>_ t. put_ch P 10 t)))))))"

text \<open>What a key does to the two sleeps, for the keys that change them. An \<open>int\<close> that overflows has no result.\<close>

definition change_speeds :: "int \<Rightarrow> int \<times> int \<Rightarrow> (int \<times> int) option" where
  "change_speeds c speeds =
     (if c = 97 then Some (fst speeds + 1, snd speeds)
      else if c = 115 then Some (if fst speeds > 0 then fst speeds - 1 else 0, snd speeds)
      else if c = 122 then Some (fst speeds, snd speeds + 1)
      else if c = 120 then Some (fst speeds, if snd speeds > 0 then snd speeds - 1 else 0)
      else None)"

text \<open>The result of \<open>getchar\<close> is converted to \<open>char\<close>. The two sleeps are the result.\<close>

primrec control_loop :: "nat \<Rightarrow> prog \<Rightarrow> int \<times> int \<Rightarrow> tty \<Rightarrow> (int \<times> int) tres" where
  "control_loop 0 P speeds t = Fault Out_Of_Fuel"
| "control_loop (Suc k) P speeds t =
     bnd (getchar (fuel P) (fuel P) (fr P) t) (\<lambda>g t.
     let c = sint (of_int g :: u8)
     in if c = 0 then Ret speeds t
        else if isspace c then control_loop k P speeds t
        else if c = 104 then bnd (prodcon_commands P t) (\<lambda>_ t. control_loop k P speeds t)
        else if c = 113 then bnd (getchar (fuel P) (fuel P) (fr P) t) (\<lambda>_ t. Ret speeds t)
        else case change_speeds c speeds of
               Some speeds \<Rightarrow> if int_ok (fst speeds) \<and> int_ok (snd speeds)
                              then bnd (print_speeds P speeds t) (\<lambda>_ t. control_loop k P speeds t) else Fault No_Result
             | None \<Rightarrow> bnd (show_text P (''Invalid command %c'' @ newline) [Va_Int c] t) (\<lambda>_ t.
                       bnd (prodcon_commands P t) (\<lambda>_ t. control_loop k P speeds t)))"

definition control_speed :: "prog \<Rightarrow> int \<times> int \<Rightarrow> tty \<Rightarrow> (int \<times> int) tres" where
  "control_speed P speeds t = control_loop (fuel P) P speeds t"

text \<open>
  One turn of the loop of each process. \<open>message\<close> is at \<open>at_buffer\<close> and \<open>item\<close> at \<open>at_name\<close>; \<open>pause\<close> is the sleep at that time, and
  \<open>seed\<close> the state of the random numbers.
\<close>

definition producer_turn :: "prog \<Rightarrow> int \<Rightarrow> int \<Rightarrow> int \<Rightarrow> u64 \<Rightarrow> tty \<Rightarrow> u64 tres" where
  "producer_turn P empty_fd full_fd pause seed t =
     bnd (call (\<lambda>n. sys_read n (of_int empty_fd) (at_buffer P) 1) P t) (\<lambda>_ t.
     let (item, seed) = rand_int seed; t = set_memory (wr (memory t) (at_name P) (le_bytes 4 (of_int item))) t
     in bnd (show_text P (''Produced: %d'' @ newline) [Va_Int item] t) (\<lambda>_ t.
        bnd (call (\<lambda>n. sleep n (of_int (pause * SLEEP_MULTIPLIER))) P t) (\<lambda>_ t.
        bnd (call (\<lambda>n. sys_write n (of_int full_fd) (at_name P) 4) P t) (\<lambda>_ t. Ret seed t))))"

definition load_item :: "mem \<Rightarrow> u64 \<Rightarrow> int" where
  "load_item m a = to_int (of_le_bytes (map (\<lambda>i. m (a + of_nat i)) [0..<4]))"

definition consumer_turn :: "prog \<Rightarrow> int \<Rightarrow> int \<Rightarrow> int \<Rightarrow> tty \<Rightarrow> unit tres" where
  "consumer_turn P empty_fd full_fd pause t =
     bnd (call (\<lambda>n. sys_read n (of_int full_fd) (at_name P) 4) P t) (\<lambda>_ t.
     bnd (show_text P (''Consumed: %d'' @ newline) [Va_Int (load_item (memory t) (at_name P))] t) (\<lambda>_ t.
     bnd (call (\<lambda>n. sleep n (of_int (pause * SLEEP_MULTIPLIER))) P t) (\<lambda>_ t.
     bnd (call (\<lambda>n. sys_write n (of_int empty_fd) (at_buffer P) 1) P t) (\<lambda>_ t. Ret () t))))"

text \<open>The processes loop for ever: as many turns as the list has sleeps.\<close>

primrec producer_turns :: "int list \<Rightarrow> prog \<Rightarrow> int \<Rightarrow> int \<Rightarrow> u64 \<Rightarrow> tty \<Rightarrow> unit tres" where
  "producer_turns [] P empty_fd full_fd seed t = Ret () t"
| "producer_turns (pause # pauses) P empty_fd full_fd seed t =
     bnd (producer_turn P empty_fd full_fd pause seed t) (\<lambda>seed t. producer_turns pauses P empty_fd full_fd seed t)"

primrec consumer_turns :: "int list \<Rightarrow> prog \<Rightarrow> int \<Rightarrow> int \<Rightarrow> tty \<Rightarrow> unit tres" where
  "consumer_turns [] P empty_fd full_fd t = Ret () t"
| "consumer_turns (pause # pauses) P empty_fd full_fd t =
     bnd (consumer_turn P empty_fd full_fd pause t) (\<lambda>_ t. consumer_turns pauses P empty_fd full_fd t)"

definition open_slots :: "prog \<Rightarrow> (int \<Rightarrow> int \<Rightarrow> tty \<Rightarrow> 'a tres) \<Rightarrow> tty \<Rightarrow> 'a tres" where
  "open_slots P f t =
     bnd (call (\<lambda>n. sys_fifo_op n PRODUCER_FIFO) P t) (\<lambda>empty_fd t.
     bnd (call (\<lambda>n. sys_fifo_op n CONSUMER_FIFO) P t) (\<lambda>full_fd t. f (to_int empty_fd) (to_int full_fd) t))"

definition producer :: "int list \<Rightarrow> u64 \<Rightarrow> prog \<Rightarrow> tty \<Rightarrow> unit tres" where
  "producer pauses seed P t = open_slots P (\<lambda>empty_fd full_fd. producer_turns pauses P empty_fd full_fd seed) t"

definition consumer :: "int list \<Rightarrow> prog \<Rightarrow> tty \<Rightarrow> unit tres" where
  "consumer pauses P t =
     open_slots P (\<lambda>empty_fd full_fd t. consumer_turns pauses P empty_fd full_fd (poke (at_buffer P) EMPTY_SLOT t)) t"

text \<open>The caller is a process, so that starting another one returns.\<close>

definition start_producer_consumer_problem :: "prog \<Rightarrow> int \<times> int \<Rightarrow> int \<Rightarrow> tty \<Rightarrow> unit tres" where
  "start_producer_consumer_problem P speeds buf_size t =
     open_slots P (\<lambda>empty_fd full_fd t.
     bnd (each (\<lambda>_ t. bnd (call (\<lambda>n. sys_write n (of_int empty_fd) (at_buffer P) 1) P t) (\<lambda>_ t. Ret () t)) [0..<nat buf_size]
            (poke (at_buffer P) EMPTY_SLOT t)) (\<lambda>_ t.
     bnd (prodcon_commands P t) (\<lambda>_ t.
     bnd (execpn P (code P ''consumer'') (lit P ''consumer'') t) (\<lambda>cons_pid t.
     bnd (execpn P (code P ''producer'') (lit P ''producer'') t) (\<lambda>prod_pid t.
     case (cons_pid, prod_pid) of
       (Returns cons_pid, Returns prod_pid) \<Rightarrow>
         bnd (control_speed P speeds t) (\<lambda>_ t.
         bnd (sys (sys_kill (of_int (to_int prod_pid))) t) (\<lambda>_ t.
         bnd (sys (sys_kill (of_int (to_int cons_pid))) t) (\<lambda>_ t.
         bnd (call (\<lambda>n. sys_fifo_cl n (of_int empty_fd)) P t) (\<lambda>_ t.
         bnd (call (\<lambda>n. sys_fifo_cl n (of_int full_fd)) P t) (\<lambda>_ t. Ret () t)))))
     | _ \<Rightarrow> Fault No_Result))))) t"

section \<open>The protocol\<close>

text \<open>
  The state of the two processes and of the buffers of the two FIFOs. A process waits in its read, or holds what it read until
  its write. A read takes place when its buffer is not empty: at once, or by the writer, which serves the waiting reader. \<open>produced\<close> and
  \<open>consumed\<close> record the items that were printed.
\<close>

datatype phase = Reading | Holding

record slots =
  empty_buf :: circular_buffer
  full_buf :: circular_buffer
  p_phase :: phase
  p_item :: int
  c_phase :: phase
  c_item :: "u8 list"
  seed :: u64
  produced :: "int list"
  consumed :: "int list"

definition item_of :: "u8 list \<Rightarrow> int" where
  "item_of bs = to_int (of_le_bytes bs)"

inductive slot_step :: "slots \<Rightarrow> slots \<Rightarrow> bool" where
  produce: "p_phase s = Reading \<Longrightarrow> buf_fill (empty_buf s) > 0 \<Longrightarrow> read_circular_buffer (empty_buf s) 1 = Some (k, d, b) \<Longrightarrow>
    rand_int (seed s) = (item, r) \<Longrightarrow>
    slot_step s (s\<lparr>empty_buf := b, p_phase := Holding, p_item := item, seed := r, produced := produced s @ [item]\<rparr>)"
| deliver: "p_phase s = Holding \<Longrightarrow>
    write_circular_buffer (full_buf s) (\<lambda>j. le_bytes 4 (of_int (p_item s)) ! j) 4 = Some (w, b) \<Longrightarrow>
    slot_step s (s\<lparr>full_buf := b, p_phase := Reading\<rparr>)"
| consume: "c_phase s = Reading \<Longrightarrow> buf_fill (full_buf s) > 0 \<Longrightarrow> read_circular_buffer (full_buf s) 4 = Some (k, d, b) \<Longrightarrow>
    i = d @ drop (length d) (c_item s) \<Longrightarrow>
    slot_step s (s\<lparr>full_buf := b, c_phase := Holding, c_item := i, consumed := consumed s @ [item_of i]\<rparr>)"
| release: "c_phase s = Holding \<Longrightarrow> write_circular_buffer (empty_buf s) (\<lambda>j. EMPTY_SLOT) 1 = Some (w, b) \<Longrightarrow>
    slot_step s (s\<lparr>empty_buf := b, c_phase := Reading\<rparr>)"

text \<open>The buffer of empty slots after the loop of \<open>start_producer_consumer_problem\<close>, and the state in which the processes start.\<close>

primrec fill_empty :: "nat \<Rightarrow> circular_buffer \<Rightarrow> circular_buffer option" where
  "fill_empty 0 b = Some b"
| "fill_empty (Suc n) b = Option.bind (write_circular_buffer b (\<lambda>j. EMPTY_SLOT) 1) (\<lambda>(w, b). fill_empty n b)"

definition slots_start :: "circular_buffer \<Rightarrow> circular_buffer \<Rightarrow> u8 list \<Rightarrow> u64 \<Rightarrow> slots" where
  "slots_start e f item r =
     \<lparr>empty_buf = e, full_buf = f, p_phase = Reading, p_item = 0, c_phase = Reading, c_item = item, seed = r, produced = [], consumed = []\<rparr>"

section \<open>The invariant\<close>

definition enc :: "int \<Rightarrow> u8 list" where
  "enc i = le_bytes 4 (of_int i)"

lemma length_enc [simp]: "length (enc i) = 4"
  by (simp add: enc_def)

lemma item_of_enc: "0 \<le> i \<Longrightarrow> i < 32768 \<Longrightarrow> item_of (enc i) = i"
proof -
  assume i: "0 \<le> i" "i < 32768"
  have "of_le_bytes (le_bytes 4 (of_int i)) = take_bit (8 * 4) (of_int i)" by (rule of_le_bytes_le_bytes)
  also have "\<dots> = of_int (take_bit 32 i)" by (simp add: take_bit_of_int)
  also have "\<dots> = of_int i" using i by (simp add: take_bit_int_eq_self)
  finally have "item_of (enc i) = to_int (of_int i)" by (simp add: item_of_def enc_def)
  also have "\<dots> = i" using i unfolding to_int_def by transfer (simp add: take_bit_int_eq_self signed_take_bit_int_eq_self)
  finally show ?thesis .
qed

lemma length_encs: "length (concat (map enc is)) = 4 * length is"
  by (induction "is") simp_all

text \<open>\<open>is\<close> are the items between the processes, oldest first, of which the producer may still hold the last one.\<close>

definition in_transit :: "slots \<Rightarrow> int list \<Rightarrow> bool" where
  "in_transit s is \<longleftrightarrow> circ_contents (full_buf s) = concat (map enc is) \<and>
     produced s = consumed s @ is @ (if p_phase s = Holding then [p_item s] else [])"

definition slots_inv :: "nat \<Rightarrow> slots \<Rightarrow> bool" where
  "slots_inv n s \<longleftrightarrow> circ_inv (empty_buf s) \<and> circ_inv (full_buf s) \<and> length (c_item s) = 4 \<and>
     (\<forall>i \<in> set (produced s). 0 \<le> i \<and> i < 32768) \<and>
     (\<exists>is. in_transit s is \<and> length (circ_contents (empty_buf s)) + (if p_phase s = Holding then 1 else 0) + length is +
        (if c_phase s = Holding then 1 else 0) = n)"

lemma fill_contents: "circ_inv b \<Longrightarrow> buf_fill b = int (length (circ_contents b))"
  by (simp add: circ_inv_def circ_contents_def)

lemma rand_int_range: "rand_int r = (item, r') \<Longrightarrow> 0 \<le> item \<and> item < 32768"
  by (auto simp: rand_int_def Let_def uint_mod)

lemma produce_inv:
  assumes "slots_inv n s" "p_phase s = Reading" "buf_fill (empty_buf s) > 0" "read_circular_buffer (empty_buf s) 1 = Some (k, d, b)" "0 \<le> item" "item < 32768"
  shows "slots_inv n (s\<lparr>empty_buf := b, p_phase := Holding, p_item := item, seed := r, produced := produced s @ [item]\<rparr>)"
proof -
  have e: "circ_inv (empty_buf s)" using assms(1) by (simp add: slots_inv_def)
  have b: "circ_inv b" "circ_contents b = drop 1 (circ_contents (empty_buf s))"
    using read_circular_buffer_ok [OF e assms(3), of 1] assms(4) by auto
  have "circ_contents (empty_buf s) \<noteq> []" using fill_contents [OF e] assms(3) by auto
  then have "length (circ_contents (empty_buf s)) = Suc (length (circ_contents b))" using b(2) by (cases "circ_contents (empty_buf s)") auto
  then show ?thesis using assms(1,2,5,6) b(1) by (auto simp: slots_inv_def in_transit_def)
qed

lemma deliver_inv:
  assumes "slots_inv n s" "n \<le> 256" "p_phase s = Holding" "write_circular_buffer (full_buf s) (\<lambda>j. le_bytes 4 (of_int (p_item s)) ! j) 4 = Some (w, b)"
  shows "slots_inv n (s\<lparr>full_buf := b, p_phase := Reading\<rparr>)"
proof -
  obtain "is" where i: "in_transit s is" "length (circ_contents (empty_buf s)) + 1 + length is + (if c_phase s = Holding then 1 else 0) = n"
    using assms(1,3) by (auto simp: slots_inv_def)
  have f: "circ_inv (full_buf s)" using assms(1) by (simp add: slots_inv_def)
  have fill: "buf_fill (full_buf s) = int (4 * length is)" using fill_contents [OF f] i(1) length_encs by (simp add: in_transit_def)
  have "length is < 256" using i(2) assms(2) by simp
  then have room: "buf_fill (full_buf s) < BUF_SIZE" "buf_fill (full_buf s) + 4 \<le> INT_MAX" "min 4 (BUF_SIZE - buf_fill (full_buf s)) = 4"
    using fill by (simp_all add: BUF_SIZE_def INT_MAX_def)
  have "map (\<lambda>j. le_bytes 4 (of_int (p_item s)) ! j) [0..<nat 4] = enc (p_item s)"
    by (intro nth_equalityI) (simp_all add: enc_def)
  then have b: "circ_inv b" "circ_contents b = circ_contents (full_buf s) @ enc (p_item s)"
    using write_circular_buffer_ok [OF f room(1) _ room(2), of "\<lambda>j. le_bytes 4 (of_int (p_item s)) ! j"] assms(4) room(3) by auto
  have "in_transit (s\<lparr>full_buf := b, p_phase := Reading\<rparr>) (is @ [p_item s])" using i(1) assms(3) b(2) by (simp add: in_transit_def)
  then show ?thesis using assms(1,3) b(1) i(2) unfolding slots_inv_def by (intro conjI exI [of _ "is @ [p_item s]"]) auto
qed

lemma consume_inv:
  assumes "slots_inv n s" "c_phase s = Reading" "buf_fill (full_buf s) > 0" "read_circular_buffer (full_buf s) 4 = Some (k, d, b)"
  defines "i \<equiv> d @ drop (length d) (c_item s)"
  shows "slots_inv n (s\<lparr>full_buf := b, c_phase := Holding, c_item := i, consumed := consumed s @ [item_of i]\<rparr>)"
proof -
  obtain "is" where t: "in_transit s is" "length (circ_contents (empty_buf s)) + (if p_phase s = Holding then 1 else 0) + length is = n"
    using assms(1,2) by (auto simp: slots_inv_def)
  have f: "circ_inv (full_buf s)" and c: "length (c_item s) = 4" and p: "\<forall>i \<in> set (produced s). 0 \<le> i \<and> i < 32768"
    using assms(1) by (simp_all add: slots_inv_def)
  have "buf_fill (full_buf s) = int (4 * length is)" using fill_contents [OF f] t(1) length_encs by (simp add: in_transit_def)
  then obtain x xs where xs: "is = x # xs" using assms(3) by (cases "is") auto
  have b: "circ_inv b" "circ_contents b = drop 4 (circ_contents (full_buf s))" "d = take 4 (circ_contents (full_buf s))"
    using read_circular_buffer_ok [OF f assms(3), of 4] assms(4) by auto
  then have d: "d = enc x" "circ_contents b = concat (map enc xs)" using t(1) xs by (simp_all add: in_transit_def)
  have "x \<in> set (produced s)" using t(1) xs by (simp add: in_transit_def)
  then have x: "i = enc x" "item_of i = x" using d(1) c p by (simp_all add: i_def item_of_enc)
  have "in_transit (s\<lparr>full_buf := b, c_phase := Holding, c_item := i, consumed := consumed s @ [item_of i]\<rparr>) xs"
    using t(1) xs d(2) x(2) by (simp add: in_transit_def)
  then show ?thesis using assms(1) b(1) t(2) xs x(1) unfolding slots_inv_def by (intro conjI exI [of _ xs]) auto
qed

lemma release_inv:
  assumes "slots_inv n s" "n \<le> 256" "c_phase s = Holding" "write_circular_buffer (empty_buf s) (\<lambda>j. EMPTY_SLOT) 1 = Some (w, b)"
  shows "slots_inv n (s\<lparr>empty_buf := b, c_phase := Reading\<rparr>)"
proof -
  have e: "circ_inv (empty_buf s)" using assms(1) by (simp add: slots_inv_def)
  have "length (circ_contents (empty_buf s)) < 256" using assms(1-3) by (auto simp: slots_inv_def)
  then have room: "buf_fill (empty_buf s) < BUF_SIZE" "buf_fill (empty_buf s) + 1 \<le> INT_MAX" "min 1 (BUF_SIZE - buf_fill (empty_buf s)) = 1"
    using fill_contents [OF e] by (simp_all add: BUF_SIZE_def INT_MAX_def)
  have "circ_inv b" "circ_contents b = circ_contents (empty_buf s) @ [EMPTY_SLOT]"
    using write_circular_buffer_ok [OF e room(1) _ room(2), of "\<lambda>j. EMPTY_SLOT"] assms(4) room(3) by auto
  then show ?thesis using assms(1,3) by (auto simp: slots_inv_def in_transit_def)
qed

lemma slots_inv_step: "slot_step s t \<Longrightarrow> n \<le> 256 \<Longrightarrow> slots_inv n s \<Longrightarrow> slots_inv n t"
proof (induction rule: slot_step.induct)
  case (produce s k d b item r)
  then show ?case using rand_int_range [OF produce(4)] by (intro produce_inv) auto
next
  case (deliver s w b)
  then show ?case by (intro deliver_inv)
next
  case (consume s k d b i)
  then show ?case using consume_inv by blast
next
  case (release s w b)
  then show ?case by (intro release_inv)
qed

lemma fill_empty_ok:
  "circ_inv b \<Longrightarrow> length (circ_contents b) + n \<le> 256 \<Longrightarrow>
    \<exists>e. fill_empty n b = Some e \<and> circ_inv e \<and> circ_contents e = circ_contents b @ replicate n EMPTY_SLOT"
proof (induction n arbitrary: b)
  case (Suc n)
  have room: "buf_fill b < BUF_SIZE" "buf_fill b + 1 \<le> INT_MAX" "min 1 (BUF_SIZE - buf_fill b) = 1"
    using fill_contents [OF Suc.prems(1)] Suc.prems(2) by (simp_all add: BUF_SIZE_def INT_MAX_def)
  obtain c where c: "write_circular_buffer b (\<lambda>j. EMPTY_SLOT) 1 = Some (1, c)" "circ_inv c" "circ_contents c = circ_contents b @ [EMPTY_SLOT]"
    using write_circular_buffer_ok [OF Suc.prems(1) room(1) _ room(2), of "\<lambda>j. EMPTY_SLOT"] room(3) by auto
  then show ?case using Suc.IH [OF c(2)] Suc.prems(2) by auto
qed simp

lemma slots_inv_reach: "slot_step\<^sup>*\<^sup>* s t \<Longrightarrow> n \<le> 256 \<Longrightarrow> slots_inv n s \<Longrightarrow> slots_inv n t"
  by (induction rule: rtranclp_induct) (auto intro: slots_inv_step)

lemma slots_progress:
  assumes "slots_inv n s" "0 < n" "n \<le> 256" shows "\<exists>t. slot_step s t"
proof -
  obtain "is" where t: "in_transit s is" "length (circ_contents (empty_buf s)) + (if p_phase s = Holding then 1 else 0) + length is +
      (if c_phase s = Holding then 1 else 0) = n" using assms(1) by (auto simp: slots_inv_def)
  have inv: "circ_inv (empty_buf s)" "circ_inv (full_buf s)" using assms(1) by (simp_all add: slots_inv_def)
  note fill = fill_contents [OF inv(1)] fill_contents [OF inv(2)]
  have items: "buf_fill (full_buf s) = int (4 * length is)" using fill(2) t(1) length_encs by (simp add: in_transit_def)
  consider "p_phase s = Holding" | "c_phase s = Holding" | "p_phase s = Reading" "circ_contents (empty_buf s) \<noteq> []" | "c_phase s = Reading" "is \<noteq> []"
    using t(2) assms(2) by (cases "p_phase s"; cases "c_phase s"; cases "is"; cases "circ_contents (empty_buf s)") simp_all
  then show ?thesis
  proof cases
    case 1
    then have "buf_fill (full_buf s) < BUF_SIZE" "buf_fill (full_buf s) + 4 \<le> INT_MAX" using items t(2) assms(3) by (simp_all add: BUF_SIZE_def INT_MAX_def)
    from write_circular_buffer_ok [OF inv(2) this(1) _ this(2)] show ?thesis using 1 slot_step.deliver by fastforce
  next
    case 2
    then have "buf_fill (empty_buf s) < BUF_SIZE" "buf_fill (empty_buf s) + 1 \<le> INT_MAX" using fill(1) t(2) assms(3) by (simp_all add: BUF_SIZE_def INT_MAX_def)
    from write_circular_buffer_ok [OF inv(1) this(1) _ this(2)] show ?thesis using 2 slot_step.release by fastforce
  next
    case 3
    then have f: "0 < buf_fill (empty_buf s)" using fill(1) by simp
    obtain item r where "rand_int (seed s) = (item, r)" by fastforce
    then show ?thesis using read_circular_buffer_ok [OF inv(1) f, of 1] 3 f slot_step.produce by fastforce
  next
    case 4
    then have f: "0 < buf_fill (full_buf s)" using items by simp
    then show ?thesis using read_circular_buffer_ok [OF inv(2) f, of 4] 4 slot_step.consume by fastforce
  qed
qed

section \<open>Properties\<close>



end
