(* ===== verification/User_Shell.thy ===== *)
theory User_Shell
  imports C_Library
begin

text \<open>
  The sample user program (\<open>Userland/SampleCodeModule\<close>): its start (\<open>_loader.c\<close>), its library (\<open>stdio.c\<close>) and its shell
  (\<open>shell.c\<close>). It runs in its own memory and speaks to the kernel by three routines of assembly, \<open>readC\<close>, \<open>writeC\<close> and
  \<open>sys_call\<close>: what it writes and calls is a list of events, and what it reads is a list of bytes, one for each call of \<open>readC\<close>, 0 where no
  key was pressed. A loop that goes on when its keys are used up has no result in the model. \<open>m\<close> is the bound of a loop.
  Names that the kernel has as well end in \<open>_user\<close>.
\<close>

section \<open>State\<close>

datatype event = Write_C "u8 list" | Sys_Call int int int

record user =
  umem :: mem
  position :: u64
  keys :: "u8 list"
  events :: "event list"

type_synonym 'a ures = "(user, 'a) res"

definition user_start :: "mem \<Rightarrow> u8 list \<Rightarrow> user" where
  "user_start m ks = \<lparr>umem = m, position = 0x1000000, keys = ks, events = []\<rparr>"

definition ustore :: "u64 \<Rightarrow> u8 \<Rightarrow> user \<Rightarrow> user" where
  "ustore a b u = u\<lparr>umem := (umem u)(a := b)\<rparr>"

definition uchar :: "user \<Rightarrow> u64 \<Rightarrow> int" where
  "uchar u a = ch (umem u) a"

definition readC :: "u64 \<Rightarrow> int \<Rightarrow> user \<Rightarrow> unit ures" where
  "readC buffer len u = (case keys u of [] \<Rightarrow> Fault Out_Of_Fuel | k # ks \<Rightarrow> Ret () (ustore buffer k (u\<lparr>keys := ks\<rparr>)))"

definition writeC :: "u64 \<Rightarrow> int \<Rightarrow> user \<Rightarrow> unit ures" where
  "writeC msg len u = Ret () (u\<lparr>events := events u @ [Write_C (map (\<lambda>i. umem u (msg + of_nat i)) [0..<nat len])]\<rparr>)"

definition sys_call :: "int \<Rightarrow> int \<Rightarrow> int \<Rightarrow> user \<Rightarrow> unit ures" where
  "sys_call index parameter1 parameter2 u = Ret () (u\<lparr>events := events u @ [Sys_Call index parameter1 parameter2]\<rparr>)"

section \<open>\<open>stdio.c\<close>\<close>

text \<open>\<open>malloc\<close> only counts on; nothing is ever freed.\<close>

definition malloc :: "int \<Rightarrow> user \<Rightarrow> u64 ures" where
  "malloc n u = Ret (position u) (u\<lparr>position := position u + of_int n\<rparr>)"

definition putchar_user :: "int \<Rightarrow> user \<Rightarrow> unit ures" where
  "putchar_user c u = bnd (malloc 1 u) (\<lambda>msg u. writeC msg 1 (ustore msg (of_int c) u))"

primrec getchar_loop :: "nat \<Rightarrow> u64 \<Rightarrow> user \<Rightarrow> int ures" where
  "getchar_loop 0 buffer u = Fault Out_Of_Fuel"
| "getchar_loop (Suc m) buffer u =
     (if uchar u buffer = 0 then bnd (readC buffer 1 u) (\<lambda>_ u. getchar_loop m buffer u) else Ret (uchar u buffer) u)"

definition getchar_user :: "nat \<Rightarrow> user \<Rightarrow> int ures" where
  "getchar_user m u = bnd (malloc 1 u) (\<lambda>buffer u. getchar_loop m buffer (ustore buffer 0 u))"

text \<open>The two loops of \<open>putNumber\<close>. The negation of the smallest \<open>int\<close> has no result.\<close>

primrec number_digits :: "nat \<Rightarrow> u64 \<Rightarrow> nat \<Rightarrow> int \<Rightarrow> user \<Rightarrow> (u64 \<times> nat \<times> int) ures" where
  "number_digits 0 buffer len n u = Fault Out_Of_Fuel"
| "number_digits (Suc m) buffer len n u =
     (if n div 10 \<noteq> 0 then number_digits m (buffer + 1) (len + 1) (n div 10) (ustore buffer (of_int (n mod 10 + 48)) u)
      else Ret (buffer, len, n) u)"

primrec number_print :: "nat \<Rightarrow> u64 \<Rightarrow> user \<Rightarrow> unit ures" where
  "number_print 0 buffer u = Ret () u"
| "number_print (Suc len) buffer u = bnd (putchar_user (uchar u buffer) u) (\<lambda>_ u. number_print len (buffer - 1) u)"

definition putNumber :: "nat \<Rightarrow> int \<Rightarrow> user \<Rightarrow> unit ures" where
  "putNumber m n u =
     bnd (malloc 20 u) (\<lambda>buffer u.
     bnd (if n < 0 then putchar_user 45 u else Ret () u) (\<lambda>_ u.
     let n = \<bar>n\<bar>
     in if \<not> int_ok n then Fault No_Result
        else bnd (number_digits m buffer 0 n u) (\<lambda>(buffer, len, n) u.
             number_print (len + 1) buffer (ustore buffer (of_int (n + 48)) u))))"

definition load_int :: "mem \<Rightarrow> u64 \<Rightarrow> int" where
  "load_int m a = to_int (of_le_bytes (map (\<lambda>i. m (a + of_nat i)) [0..<4]))"

text \<open>The loop over a string in \<open>printFF\<close>, and its main loop: \<open>fmt\<close> is \<open>state == FORMAT\<close>.\<close>

primrec put_string :: "nat \<Rightarrow> u64 \<Rightarrow> user \<Rightarrow> unit ures" where
  "put_string 0 p u = Fault Out_Of_Fuel"
| "put_string (Suc m) p u = (if uchar u p \<noteq> 0 then bnd (putchar_user (uchar u p) u) (\<lambda>_ u. put_string m (p + 1) u) else Ret () u)"

primrec printFF_loop :: "nat \<Rightarrow> bool \<Rightarrow> u64 \<Rightarrow> u64 \<Rightarrow> u64 \<Rightarrow> user \<Rightarrow> u64 ures" where
  "printFF_loop 0 fmt format s n u = Fault Out_Of_Fuel"
| "printFF_loop (Suc m) fmt format s n u =
     (let c = uchar u format
      in if c = 0 then Ret format u
         else if \<not> fmt
         then if c = 37 then printFF_loop m True (format + 1) s n u
              else bnd (putchar_user c u) (\<lambda>_ u. printFF_loop m False (format + 1) s n u)
         else if c = 100 \<and> n \<noteq> NULL
         then bnd (putNumber m (load_int (umem u) n) u) (\<lambda>_ u. printFF_loop m False (format + 1) s (n + 4) u)
         else if c = 115
         then if s \<noteq> NULL
              then bnd (put_string m (load_ptr (umem u) s) u) (\<lambda>_ u. printFF_loop m False (format + 1) (s + 8) n u)
              else printFF_loop m True format s n u
         else bnd (putchar_user 37 u) (\<lambda>_ u. printFF_loop m True (format + 1) s n u))"

definition printFF :: "nat \<Rightarrow> u64 \<Rightarrow> u64 \<Rightarrow> u64 \<Rightarrow> user \<Rightarrow> unit ures" where
  "printFF m format s n u =
     bnd (printFF_loop m False format s n u) (\<lambda>format u. if uchar u (format - 1) = 37 then putchar_user 37 u else Ret () u)"

abbreviation BUFFERSIZE :: nat where "BUFFERSIZE \<equiv> 2500"

text \<open>The loop of \<open>scanFF\<close> that reads a line to \<open>string\<close>; \<open>i\<close> is \<open>bufferindex\<close>.\<close>

primrec scan_line :: "nat \<Rightarrow> nat \<Rightarrow> u64 \<Rightarrow> nat \<Rightarrow> user \<Rightarrow> nat ures" where
  "scan_line n 0 string i u = Fault Out_Of_Fuel"
| "scan_line n (Suc m) string i u =
     bnd (getchar_user n u) (\<lambda>c u.
       if c = 10 then Ret i (ustore string 0 u)
       else if c = 8 then (if i \<noteq> 0 then scan_line n m (string - 1) (i - 1) u else scan_line n m string i u)
       else if i = BUFFERSIZE then Ret i (ustore string 0 u)
       else scan_line n m (string + 1) (i + 1) (ustore string (of_int c) u))"

text \<open>The loop that skips a character of the format in the input.\<close>

primrec skip_char :: "nat \<Rightarrow> nat \<Rightarrow> int \<Rightarrow> user \<Rightarrow> unit ures" where
  "skip_char n 0 c u = Fault Out_Of_Fuel"
| "skip_char n (Suc m) c u = bnd (getchar_user n u) (\<lambda>c' u. if c' = c then skip_char n m c u else Ret () u)"

text \<open>\<open>index\<close> is \<open>bufferindex\<close>, which has no value before the first \<open>%s\<close>; \<open>s\<close> and \<open>n\<close> are the addresses of the next elements.\<close>

primrec scanFF_loop :: "nat \<Rightarrow> nat \<Rightarrow> bool \<Rightarrow> u64 \<Rightarrow> u64 \<Rightarrow> nat \<Rightarrow> u64 \<Rightarrow> nat \<Rightarrow> nat option \<Rightarrow> user \<Rightarrow> nat option ures" where
  "scanFF_loop k 0 fmt format s indexS n indexN index u = Fault Out_Of_Fuel"
| "scanFF_loop k (Suc m) fmt format s indexS n indexN index u =
     (let c = uchar u format
      in if c = 0 then Ret index u
         else if \<not> fmt
         then if c = 37 then scanFF_loop k m True (format + 1) s indexS n indexN index u
              else bnd (skip_char k m c u) (\<lambda>_ u. scanFF_loop k m False (format + 1) s indexS n indexN index u)
         else if c = 100 \<and> n \<noteq> NULL
         then bnd (putNumber m (load_int (umem u) (n + of_nat (4 * indexN))) u)
                (\<lambda>_ u. scanFF_loop k m False (format + 1) s indexS (n + 4) (indexN + 1) index u)
         else if c = 115 \<and> s \<noteq> NULL
         then bnd (scan_line k m (load_ptr (umem u) (s + of_nat (8 * indexS))) 0 u)
                (\<lambda>i u. scanFF_loop k m False (format + 1) s (indexS + 1) n indexN (Some i) u)
         else scanFF_loop k m True format s indexS n indexN index u)"

definition scanFF :: "nat \<Rightarrow> nat \<Rightarrow> u64 \<Rightarrow> u64 \<Rightarrow> u64 \<Rightarrow> user \<Rightarrow> bool ures" where
  "scanFF k m format s n u =
     bnd (scanFF_loop k m False format s 0 n 0 None u) (\<lambda>index u. case index of None \<Rightarrow> Fault Uninitialised | Some i \<Rightarrow> Ret (i = BUFFERSIZE) u)"

primrec strcmp_loop :: "nat \<Rightarrow> mem \<Rightarrow> u64 \<Rightarrow> u64 \<Rightarrow> int option" where
  "strcmp_loop 0 b str1 str2 = None"
| "strcmp_loop (Suc m) b str1 str2 =
     (if ch b str1 \<noteq> 0 \<and> ch b str2 \<noteq> 0
      then if ch b str1 - ch b str2 > 0 then Some 1
           else if ch b str1 - ch b str2 < 0 then Some (- 1)
           else strcmp_loop m b (str1 + 1) (str2 + 1)
      else if ch b str1 = 0 \<and> ch b str2 = 0 then Some 0
      else if ch b str1 = 0 then Some (- 1) else Some 1)"

definition strcmp_user :: "nat \<Rightarrow> mem \<Rightarrow> u64 \<Rightarrow> u64 \<Rightarrow> int option" where
  "strcmp_user m b str1 str2 = strcmp_loop m b str1 str2"

primrec strcmpN_loop :: "nat \<Rightarrow> mem \<Rightarrow> u64 \<Rightarrow> u64 \<Rightarrow> int \<Rightarrow> int option" where
  "strcmpN_loop 0 b str1 str2 number = None"
| "strcmpN_loop (Suc m) b str1 str2 number =
     (if ch b str1 \<noteq> 0 \<and> ch b str2 \<noteq> 0 \<and> number \<noteq> 0
      then if ch b str1 - ch b str2 > 0 then Some 1
           else if ch b str1 - ch b str2 < 0 then Some (- 1)
           else strcmpN_loop m b (str1 + 1) (str2 + 1) (number - 1)
      else if number = 0 then Some 0
      else if ch b str1 = 0 \<and> ch b str2 = 0 then Some 0
      else if ch b str1 = 0 then Some (- 1) else Some 1)"

definition strcmpN :: "nat \<Rightarrow> mem \<Rightarrow> u64 \<Rightarrow> u64 \<Rightarrow> int \<Rightarrow> int option" where
  "strcmpN m b str1 str2 number = strcmpN_loop m b str1 str2 number"

section \<open>\<open>shell.c\<close>\<close>

text \<open>\<open>L\<close> gives the addresses of the string literals.\<close>

definition show_string :: "nat \<Rightarrow> (string \<Rightarrow> u64) \<Rightarrow> u64 \<Rightarrow> u64 \<Rightarrow> user \<Rightarrow> unit ures" where
  "show_string m L s text u = printFF m (L ''%s'') s NULL (u\<lparr>umem := store_ptr s text (umem u)\<rparr>)"

definition say :: "nat \<Rightarrow> (string \<Rightarrow> u64) \<Rightarrow> u64 \<Rightarrow> user \<Rightarrow> unit ures" where
  "say m L text u = bnd (malloc 8 u) (\<lambda>s u. bnd (show_string m L s text u) (\<lambda>_ u. putchar_user 10 u))"

definition nl :: string where "nl = [CHR 0x0A]"

definition helpShell :: "nat \<Rightarrow> (string \<Rightarrow> u64) \<Rightarrow> user \<Rightarrow> unit ures" where
  "helpShell m L u =
     say m L (L (''Help'' @ nl @ '' the commands are clear, help, echo, ls and man'' @ nl @ '' write man \"comand\" for more information'')) u"

definition ls_user :: "nat \<Rightarrow> (string \<Rightarrow> u64) \<Rightarrow> user \<Rightarrow> unit ures" where
  "ls_user m L u = say m L (L ''Modules: dummy, editor, shell, fortune'') u"

definition of_cmp :: "int option \<Rightarrow> (int \<Rightarrow> user \<Rightarrow> 'a ures) \<Rightarrow> user \<Rightarrow> 'a ures" where
  "of_cmp r f u = (case r of None \<Rightarrow> Fault Out_Of_Fuel | Some d \<Rightarrow> f d u)"

definition man :: "nat \<Rightarrow> (string \<Rightarrow> u64) \<Rightarrow> u64 \<Rightarrow> user \<Rightarrow> unit ures" where
  "man m L buffer u =
     bnd (malloc 8 u) (\<lambda>s u.
     let b = umem u; show = (\<lambda>text u. bnd (show_string m L s (L text) u) (\<lambda>_ u. putchar_user 10 u))
     in of_cmp (strcmp_user m b (L ''help'') buffer) (\<lambda>d.
        if d = 0 then show (''HELP'' @ nl @ '' use this comand to see all the comands'')
        else of_cmp (strcmp_user m b (L ''clear'') buffer) (\<lambda>d.
        if d = 0 then show (''CLEAR'' @ nl @ '' clear the video use by the shell'')
        else of_cmp (strcmp_user m b (L ''echo'') buffer) (\<lambda>d.
        if d = 0 then show (''ECHO'' @ nl @ '' Use \"echo on\" to turn on the echo and \"echo off\" to turn it off  '')
        else of_cmp (strcmp_user m b (L ''ls'') buffer) (\<lambda>d.
        if d = 0 then show (''LS'' @ nl @ '' display all modules'')
        else show ''invalid command for man'')))) u)"

definition run_user :: "nat \<Rightarrow> (string \<Rightarrow> u64) \<Rightarrow> u64 \<Rightarrow> user \<Rightarrow> unit ures" where
  "run_user m L c u =
     of_cmp (strcmp_user m (umem u) (L ''dummy'') c) (\<lambda>d u.
     if d = 0 then sys_call 7 0 1 u
     else of_cmp (strcmp_user m (umem u) (L ''editor'') c) (\<lambda>d u.
     if d = 0 then sys_call 7 0 2 u
     else of_cmp (strcmp_user m (umem u) (L ''fortune'') c) (\<lambda>d u.
     if d = 0 then sys_call 7 0 3 u else Ret () u) u) u) u"

definition echoShellON :: "user \<Rightarrow> unit ures" where
  "echoShellON u = sys_call 6 0 1 u"

definition echoShellOFF :: "user \<Rightarrow> unit ures" where
  "echoShellOFF u = sys_call 6 0 0 u"

definition error_user :: "nat \<Rightarrow> (string \<Rightarrow> u64) \<Rightarrow> u64 \<Rightarrow> user \<Rightarrow> unit ures" where
  "error_user m L buffer u =
     bnd (malloc 8 u) (\<lambda>s u.
     bnd (show_string m L s buffer u) (\<lambda>_ u.
     bnd (putchar_user 58 u) (\<lambda>_ u.
     bnd (putchar_user 32 u) (\<lambda>_ u.
     bnd (show_string m L s (L ''command not found'') u) (\<lambda>_ u. putchar_user 10 u)))))"

definition clearShell :: "user \<Rightarrow> unit ures" where
  "clearShell u = sys_call 5 0 0 u"

definition undoBackwards :: "user \<Rightarrow> unit ures" where
  "undoBackwards u = sys_call 9 7 0 u"

definition changeToUserEnvirnment :: "user \<Rightarrow> unit ures" where
  "changeToUserEnvirnment u = bnd (sys_call 8 6 4 u) (\<lambda>_ u. undoBackwards u)"

definition changeToSehllEnvironment :: "user \<Rightarrow> unit ures" where
  "changeToSehllEnvironment u = sys_call 8 0 4 u"

definition printShellComand :: "nat \<Rightarrow> (string \<Rightarrow> u64) \<Rightarrow> user \<Rightarrow> unit ures" where
  "printShellComand m L u = bnd (malloc 8 u) (\<lambda>s u. show_string m L s (L ''shell>'') u)"

definition parser :: "nat \<Rightarrow> (string \<Rightarrow> u64) \<Rightarrow> u64 \<Rightarrow> user \<Rightarrow> unit ures" where
  "parser m L buffer u =
     (let b = umem u
      in of_cmp (strcmp_user m b (L ''help'') buffer) (\<lambda>d u.
         if d = 0 then helpShell m L u
         else of_cmp (strcmp_user m b (L ''clear'') buffer) (\<lambda>d u.
         if d = 0 then clearShell u
         else of_cmp (strcmpN m b (L ''echo'') buffer 4) (\<lambda>d u.
         if d = 0 then of_cmp (strcmp_user m b (L ''on'') (buffer + 5)) (\<lambda>d u. if d = 0 then echoShellON u else echoShellOFF u) u
         else if b buffer = 46 \<and> b (buffer + 1) = 92 then run_user m L (buffer + 2) u
         else of_cmp (strcmpN m b (L ''man'') buffer 3) (\<lambda>d u.
         if d = 0 then man m L (buffer + 4) u
         else of_cmp (strcmp_user m b (L ''ls'') buffer) (\<lambda>d u.
         if d = 0 then ls_user m L u
         else if b buffer = 10 then Ret () u
         else error_user m L buffer u) u) u) u) u) u)"

text \<open>The start of \<open>main\<close>, one turn of its loop, and \<open>k\<close> turns.\<close>

definition main_turn :: "nat \<Rightarrow> nat \<Rightarrow> (string \<Rightarrow> u64) \<Rightarrow> u64 \<Rightarrow> u64 \<Rightarrow> user \<Rightarrow> unit ures" where
  "main_turn n m L ss sos u =
     bnd (putchar_user 10 u) (\<lambda>_ u.
     bnd (changeToSehllEnvironment u) (\<lambda>_ u.
     bnd (printShellComand m L u) (\<lambda>_ u.
     bnd (changeToUserEnvirnment u) (\<lambda>_ u.
     bnd (scanFF n m (L ''%s'') ss NULL u) (\<lambda>full u.
       if \<not> full then bnd (changeToSehllEnvironment u) (\<lambda>_ u. parser m L sos u)
       else bnd (malloc 8 u) (\<lambda>s u.
            bnd (putchar_user 10 (u\<lparr>umem := store_ptr s (L ''ScanFF Buffer OverFlow'') (umem u)\<rparr>)) (\<lambda>_ u.
            printFF m (L ''%s'') s NULL u)))))))"

primrec main_loop :: "nat \<Rightarrow> nat \<Rightarrow> nat \<Rightarrow> (string \<Rightarrow> u64) \<Rightarrow> u64 \<Rightarrow> u64 \<Rightarrow> user \<Rightarrow> unit ures" where
  "main_loop 0 n m L ss sos u = Ret () u"
| "main_loop (Suc k) n m L ss sos u = bnd (main_turn n m L ss sos u) (\<lambda>_ u. main_loop k n m L ss sos u)"

definition main_user :: "nat \<Rightarrow> nat \<Rightarrow> nat \<Rightarrow> (string \<Rightarrow> u64) \<Rightarrow> user \<Rightarrow> unit ures" where
  "main_user k n m L u =
     bnd (malloc 8 u) (\<lambda>ss u.
     bnd (malloc 2500 u) (\<lambda>sos u. main_loop k n m L ss sos (u\<lparr>umem := store_ptr ss sos (umem u)\<rparr>)))"

section \<open>\<open>_loader.c\<close>\<close>

primrec memset_user :: "u64 \<Rightarrow> u8 \<Rightarrow> nat \<Rightarrow> mem \<Rightarrow> mem" where
  "memset_user dst chr 0 b = b"
| "memset_user dst chr (Suc len) b = memset_user dst chr len (b(dst + of_nat len := chr))"

definition start_user :: "nat \<Rightarrow> nat \<Rightarrow> nat \<Rightarrow> (string \<Rightarrow> u64) \<Rightarrow> u64 \<Rightarrow> u64 \<Rightarrow> user \<Rightarrow> unit ures" where
  "start_user k n m L bss endOfBinary u = main_user k n m L (u\<lparr>umem := memset_user bss 0 (unat (endOfBinary - bss)) (umem u)\<rparr>)"

end
