(* ===== verification/User_Laws.thy ===== *)
theory User_Laws
  imports User_Shell Terminal_Laws
begin

text \<open>
  Properties of the sample user program: its comparison of strings, its formatted output and the line that its shell reads.
\<close>

section \<open>Comparison of strings\<close>

text \<open>
  The comparison of strings of the user library agrees with the lexicographic order of the signed characters, in which a
  proper prefix is smaller: it returns 0 exactly for equal strings, - 1 when the first one is smaller and 1 otherwise.
\<close>

theorem strcmp_user_lexicographic:
  assumes "cstr b s xs" "cstr b t ys" "length xs < m"
  shows "strcmp_user m b s t = Some (if xs = ys then 0 else if map sint xs < map sint ys then - 1 else 1)"
proof -
  have neg: "sint (x :: u8) \<noteq> 0 \<longleftrightarrow> x \<noteq> 0" for x using sint_0_iff by blast
  have "strcmp_loop m b s t = Some (if xs = ys then 0 else if map sint xs < map sint ys then - 1 else 1)"
    using assms
  proof (induction xs ys arbitrary: s t m rule: first_diff.induct)
    case (1 x xs y ys)
    obtain k where k: "m = Suc k" using 1 by (cases m) auto
    have at: "b s = x" "b t = y" "x \<noteq> 0" "y \<noteq> 0" "cstr b (s + 1) xs" "cstr b (t + 1) ys" using 1 by (auto simp: cstr_def)
    have ch: "ch b s = sint x" "ch b t = sint y" "sint x \<noteq> 0" "sint y \<noteq> 0" using at neg by (simp_all add: ch_def)
    show ?case
    proof (cases "x = y")
      case True
      have "strcmp_loop m b s t = strcmp_loop k b (s + 1) (t + 1)" using ch True by (simp add: k)
      also have "\<dots> = Some (if xs = ys then 0 else if map sint xs < map sint ys then - 1 else 1)"
        using 1(4) k by (intro 1(1) [OF True at(5,6)]) simp
      finally show ?thesis using True by simp
    next
      case False
      then have "sint x \<noteq> sint y" by (metis word_eq_iff_signed)
      then show ?thesis using ch False by (simp add: k)
    qed
  next
    case (2 ys)
    obtain k where "m = Suc k" using 2(3) by (cases m) auto
    then show ?case using 2 neg [of "hd ys"] by (cases ys) (auto simp: ch_def cstr_def)
  next
    case (3 x xs)
    obtain k where "m = Suc k" using 3(3) by (cases m) auto
    then show ?case using 3 neg [of x] by (auto simp: ch_def cstr_def)
  qed
  then show ?thesis by (simp add: strcmp_user_def)
qed

section \<open>Output\<close>

text \<open>The state \<open>v\<close> follows \<open>u\<close> after \<open>xs\<close> was written, which took \<open>k\<close> bytes of new memory.\<close>

definition writes :: "u8 list \<Rightarrow> nat \<Rightarrow> user \<Rightarrow> user \<Rightarrow> bool" where
  "writes xs k u v \<longleftrightarrow> events v = events u @ map (\<lambda>c. Write_C [c]) xs \<and> keys v = keys u \<and>
     position v = position u + of_nat k \<and> (\<forall>a. unat a < unat (position u) \<longrightarrow> umem v a = umem u a)"

lemma unat_plus: "unat (b :: u64) + i < 2 ^ 64 \<Longrightarrow> unat (b + of_nat i) = unat b + i"
proof -
  assume "unat b + i < 2 ^ 64"
  moreover have "b + of_nat i = of_nat (unat b + i)" by simp
  ultimately show ?thesis by (simp only: unat_of_nat_u64)
qed

lemma writes_Nil: "writes [] 0 u u"
  by (simp add: writes_def)

lemma writes_trans:
  assumes "writes xs j u v" "writes ys k v w" "unat (position u) + j < 2 ^ 64"
  shows "writes (xs @ ys) (j + k) u w"
proof -
  have "unat (position v) = unat (position u) + j" using assms(1,3) by (simp add: writes_def unat_plus)
  then show ?thesis using assms(1,2) by (simp add: writes_def)
qed

lemma ustore_frame [simp]:
  "umem (ustore a b u) = (umem u)(a := b)" "position (ustore a b u) = position u" "keys (ustore a b u) = keys u"
  "events (ustore a b u) = events u"
  by (simp_all add: ustore_def)

lemma putchar_writes: "\<exists>v. putchar_user c u = Ret () v \<and> writes [of_int c] 1 u v"
  by (auto simp: putchar_user_def malloc_def writeC_def writes_def)

lemma of_int_uchar [simp]: "of_int (uchar u a) = umem u a"
  by (simp add: uchar_def ch_def)

lemma uchar_0 [simp]: "uchar u a = 0 \<longleftrightarrow> umem u a = 0"
  by (simp add: uchar_def)

lemma sint_is: "sint (x :: u8) = 37 \<longleftrightarrow> x = 37" "sint x = 10 \<longleftrightarrow> x = 10" "sint x = 8 \<longleftrightarrow> x = 8"
  using word_eq_iff_signed [where ?'a = int, of x 37] word_eq_iff_signed [where ?'a = int, of x 10]
    word_eq_iff_signed [where ?'a = int, of x 8] by simp_all

text \<open>A string below the new memory.\<close>

definition string_at :: "user \<Rightarrow> u64 \<Rightarrow> u8 list \<Rightarrow> bool" where
  "string_at u p xs \<longleftrightarrow> cstr (umem u) p xs \<and> unat p + length xs < unat (position u)"

lemma below_writes: "writes xs k u v \<Longrightarrow> unat (position u) + k < 2 ^ 64 \<Longrightarrow> unat a < unat (position u) \<Longrightarrow>
    umem v a = umem u a \<and> unat a < unat (position v)"
  by (simp add: writes_def unat_plus)

lemma position_less: "unat (position u) < 2 ^ 64"
  using unsigned_less [of "position u", where ?'a = nat] by simp

lemma string_at_writes: "string_at u p xs \<Longrightarrow> writes ys k u v \<Longrightarrow> unat (position u) + k < 2 ^ 64 \<Longrightarrow> string_at v p xs"
proof -
  assume a: "string_at u p xs" "writes ys k u v" "unat (position u) + k < 2 ^ 64"
  have "umem v (p + of_nat i) = umem u (p + of_nat i)" if "i \<le> length xs" for i
    using a(1,2) that unat_plus [of p i] position_less [of u] by (simp add: string_at_def writes_def)
  then have "cstr (umem v) p xs" using a(1) cstr_cong [of xs "umem v" p "umem u"] by (auto simp: string_at_def)
  moreover have "unat (position v) = unat (position u) + k" using a by (simp add: writes_def unat_plus)
  ultimately show ?thesis using a(1) by (simp add: string_at_def)
qed

lemma string_at_Cons: "string_at u p (x # xs) \<Longrightarrow> umem u p = x \<and> x \<noteq> 0 \<and> unat p < unat (position u) \<and> string_at u (p + 1) xs"
  using unat_plus [of p 1] position_less [of u] by (auto simp: string_at_def cstr_def)

lemma put_string_ok:
  "string_at u p xs \<Longrightarrow> unat (position u) + length xs < 2 ^ 64 \<Longrightarrow> length xs < m \<Longrightarrow>
    \<exists>v. put_string m p u = Ret () v \<and> writes xs (length xs) u v"
proof (induction xs arbitrary: u p m)
  case Nil
  then obtain k where "m = Suc k" by (cases m) auto
  then show ?case using Nil by (auto simp: string_at_def cstr_def writes_Nil)
next
  case (Cons x xs)
  obtain k where k: "m = Suc k" "length xs < k" using Cons.prems(3) by (cases m) auto
  note at = string_at_Cons [OF Cons.prems(1)]
  obtain v where v: "putchar_user (uchar u p) u = Ret () v" "writes [x] 1 u v" using putchar_writes [of "uchar u p" u] at by auto
  have s: "string_at v (p + 1) xs" by (rule string_at_writes [OF _ v(2)]) (use at Cons.prems(2) in auto)
  have "unat (position v) = unat (position u) + 1" using v(2) Cons.prems(2) unat_plus [of "position u" 1] by (simp add: writes_def)
  then obtain w where w: "put_string k (p + 1) v = Ret () w" "writes xs (length xs) v w"
    using Cons.IH [OF s _ k(2)] Cons.prems(2) by auto
  have "writes (x # xs) (Suc (length xs)) u w" using writes_trans [OF v(2) w(2)] Cons.prems(2) by simp
  then show ?case using v(1) w(1) at by (simp add: k(1))
qed

text \<open>Numbers: the digits are stored from the last one and written backwards.\<close>

lemma wr_snoc: "length xs < 2 ^ 64 \<Longrightarrow> (wr m b xs)(b + of_nat (length xs) := x) = wr m b (xs @ [x])"
  using offset_less_Suc [of "length xs" _ b] offset_eq [of "length xs" _ b] unat_of_nat_u64 [of "length xs"] by (auto simp: wr_def fun_eq_iff nth_append)

lemma number_digits_ok:
  "length (dec v) \<le> m \<Longrightarrow> length (dec v) < 2 ^ 63 \<Longrightarrow> \<exists>d. number_digits m b k (int v) u =
    Ret (b + of_nat (length (dec v) - 1), k + length (dec v) - 1, int d) (u\<lparr>umem := wr (umem u) b (butlast (dec v))\<rparr>) \<and>
    last (dec v) = of_nat (d + 48) \<and> d < 10"
proof (induction m arbitrary: v b k u)
  case 0
  then show ?case by (simp add: dec.simps [of v])
next
  case (Suc m)
  show ?case
  proof (cases "v div 10 = 0")
    case True
    then have "dec v = [of_nat (48 + v)]" "v < 10" by (simp_all add: dec.simps [of v])
    moreover have "int v div 10 = 0" using \<open>v < 10\<close> by simp
    ultimately show ?thesis by (intro exI [of _ v]) (simp add: add.commute)
  next
    case False
    let ?c = "of_nat (48 + v mod 10) :: u8" let ?u = "ustore b ?c u"
    have d: "dec v = ?c # dec (v div 10)" using False by (simp add: dec.simps [of v])
    have ne: "dec (v div 10) \<noteq> []" by (subst dec.simps) simp
    have "length (dec (v div 10)) \<le> m" "length (dec (v div 10)) < 2 ^ 63" using Suc.prems d by simp_all
    from Suc.IH [OF this, of "b + 1" "Suc k" ?u] obtain e where e: "number_digits m (b + 1) (Suc k) (int (v div 10)) ?u =
        Ret (b + 1 + of_nat (length (dec (v div 10)) - 1), Suc k + length (dec (v div 10)) - 1, int e)
          (?u\<lparr>umem := wr (umem ?u) (b + 1) (butlast (dec (v div 10)))\<rparr>)"
      "last (dec (v div 10)) = of_nat (e + 48)" "e < 10" by blast
    have st: "(?u\<lparr>umem := wr (umem ?u) (b + 1) (butlast (dec (v div 10)))\<rparr>) = u\<lparr>umem := wr (umem u) b (butlast (dec v))\<rparr>"
      using wr_Cons [of "butlast (dec (v div 10))" "umem u" b ?c] Suc.prems(2) d ne by (simp add: ustore_def)
    have c: "of_int (int v mod 10 + 48) = ?c"
    proof -
      have "of_int (int v mod 10) = (of_nat (v mod 10) :: u8)" by (metis of_int_of_nat_eq of_nat_numeral zmod_int)
      then show ?thesis by (simp add: add.commute)
    qed
    have q: "int v div 10 = int (v div 10)" by (simp add: zdiv_int)
    have l: "b + 1 + of_nat (length (dec (v div 10)) - 1) = b + of_nat (length (dec v) - 1)"
      "Suc k + length (dec (v div 10)) - 1 = k + length (dec v) - 1" using d ne by (cases "dec (v div 10)"; simp)+
    have "number_digits (Suc m) b k (int v) u = number_digits m (b + 1) (Suc k) (int (v div 10)) ?u"
      using False unfolding number_digits.simps c q by simp
    moreover have "last (dec v) = of_nat (e + 48)" using e(2) d ne by simp
    ultimately show ?thesis using e(1,3) unfolding st l by (intro exI [of _ e]) simp
  qed
qed

lemma number_print_ok:
  "bytes_at (umem u) b xs \<Longrightarrow> unat b + length xs \<le> unat (position u) \<Longrightarrow> unat (position u) + length xs < 2 ^ 64 \<Longrightarrow>
    \<exists>v. number_print (length xs) (b + of_nat (length xs) - 1) u = Ret () v \<and> writes (rev xs) (length xs) u v"
proof (induction xs arbitrary: u rule: rev_induct)
  case Nil
  show ?case by (simp add: writes_Nil)
next
  case (snoc x xs)
  let ?a = "b + of_nat (length xs)"
  have a: "unat ?a < unat (position u)" using snoc.prems(2) unat_plus [of b "length xs"] position_less [of u] by simp
  have at: "umem u ?a = x" "bytes_at (umem u) b xs" using snoc.prems(1) by (simp_all add: bytes_at_append)
  obtain v where v: "putchar_user (uchar u ?a) u = Ret () v" "writes [x] 1 u v" using putchar_writes [of "uchar u ?a" u] at by auto
  have pos: "unat (position v) = unat (position u) + 1" using v(2) snoc.prems(3) unat_plus [of "position u" 1] by (simp add: writes_def)
  have "umem v (b + of_nat i) = umem u (b + of_nat i)" if "i < length xs" for i
    using v(2) that snoc.prems(2) unat_plus [of b i] position_less [of u] by (simp add: writes_def)
  then have "bytes_at (umem v) b xs" using at(2) by (simp add: bytes_at_nth)
  then obtain w where w: "number_print (length xs) (?a - 1) v = Ret () w" "writes (rev xs) (length xs) v w"
    using snoc.IH [of v] snoc.prems pos by auto
  have "writes (rev (xs @ [x])) (Suc (length xs)) u w" using writes_trans [OF v(2) w(2)] snoc.prems(3) by simp
  moreover have "number_print (length (xs @ [x])) ?a u = Ret () w" using v(1) w(1) by simp
  ultimately show ?case by (intro exI [of _ w]) (simp add: algebra_simps)
qed

lemma putNumber_ok:
  assumes "\<bar>n\<bar> < 2 ^ 31" "10 \<le> m" "unat (position u) + (20 + length (decimal_text n)) < 2 ^ 64"
  shows "\<exists>v. putNumber m n u = Ret () v \<and> writes (decimal_text n) (20 + length (decimal_text n)) u v"
proof -
  let ?b = "position u" let ?u = "u\<lparr>position := position u + of_int 20\<rparr>" let ?v = "nat \<bar>n\<bar>" let ?ds = "dec ?v"
  have "?v < 2 ^ 31" using assms(1) by (simp add: nat_less_iff)
  then have len: "length ?ds \<le> 10" by (intro dec_length) simp_all
  have ne: "?ds \<noteq> []" by (subst dec.simps) simp
  have p: "unat (position ?u) = unat ?b + 20" using assms(3) unat_plus [of ?b 20] by simp
  obtain u1 where u1: "(if n < 0 then putchar_user 45 ?u else Ret () ?u) = Ret () u1" "writes (if n < 0 then [45] else []) (if n < 0 then 1 else 0) ?u u1"
    using putchar_writes [of 45 ?u] writes_Nil [of ?u] by (cases "n < 0") auto
  have p1: "unat (position u1) = unat ?b + 20 + (if n < 0 then 1 else 0)"
    using u1(2) assms(3) unat_plus [of "position ?u" 1] p by (auto simp: writes_def decimal_text_def split: if_splits)
  have "length ?ds \<le> m" "length ?ds < 2 ^ 63" using len assms(2) by simp_all
  from number_digits_ok [OF this, of ?b 0 u1] obtain d where d: "number_digits m ?b 0 \<bar>n\<bar> u1 =
      Ret (?b + of_nat (length ?ds - 1), length ?ds - 1, int d) (u1\<lparr>umem := wr (umem u1) ?b (butlast ?ds)\<rparr>)" "last ?ds = of_nat (d + 48)" by auto
  let ?u2 = "ustore (?b + of_nat (length ?ds - 1)) (of_int (int d + 48)) (u1\<lparr>umem := wr (umem u1) ?b (butlast ?ds)\<rparr>)"
  have "of_int (int d + 48) = last ?ds" using d(2) by (simp add: add.commute)
  then have u2: "?u2 = u1\<lparr>umem := wr (umem u1) ?b ?ds\<rparr>"
    using wr_snoc [of "butlast ?ds" "umem u1" ?b "last ?ds"] len ne by (simp add: ustore_def)
  have at: "bytes_at (umem ?u2) ?b ?ds" unfolding u2 bytes_at_nth using len by (simp add: wr_def unat_of_nat_u64)
  have room: "unat ?b + length ?ds \<le> unat (position ?u2)" "unat (position ?u2) + length ?ds < 2 ^ 64"
    using len p1 assms(3) by (auto simp: decimal_text_def u2 split: if_splits)
  obtain w where w: "number_print (length ?ds) (?b + of_nat (length ?ds) - 1) ?u2 = Ret () w" "writes (rev ?ds) (length ?ds) ?u2 w"
    using number_print_ok [OF at room] by blast
  have last: "?b + of_nat (length ?ds - 1) = ?b + of_nat (length ?ds) - 1" "length ?ds - 1 + 1 = length ?ds" using ne by (cases ?ds; simp)+
  have ok: "\<not> \<not> int_ok \<bar>n\<bar>" using assms(1) by (simp add: int_ok_def)
  have "putNumber m n u = Ret () w"
    unfolding putNumber_def malloc_def bnd.simps Let_def u1(1) d(1) prod.case last(2) if_not_P [OF ok] using w(1) unfolding last(1) [symmetric] by simp
  moreover have "writes (decimal_text n) (20 + length (decimal_text n)) u w"
  proof -
    have ww: "writes (rev ?ds) (length ?ds) (u1\<lparr>umem := wr (umem u1) ?b ?ds\<rparr>) w" using w(2) unfolding u2 .
    have "umem w a = umem u a" if "unat a < unat ?b" for a
    proof -
      have "\<not> unat (a - ?b) < length ?ds"
        using that unat_plus [of ?b "unat (a - ?b)"] len assms(3) by auto
      then show ?thesis using u1(2) ww that p p1 by (auto simp: writes_def wr_def)
    qed
    then show ?thesis using u1(2) ww by (auto simp: writes_def decimal_text_def split: if_splits)
  qed
  ultimately show ?thesis by blast
qed

text \<open>Formatted text: \<open>s\<close> and \<open>n\<close> point to the strings and the numbers that are left.\<close>

datatype upiece = Plain "u8 list" | Text_Arg "u8 list" | Num_Arg int

fun ufmt :: "upiece \<Rightarrow> u8 list" where
  "ufmt (Plain cs) = cs" | "ufmt (Text_Arg xs) = [37, 115]" | "ufmt (Num_Arg v) = [37, 100]"

fun utext :: "upiece \<Rightarrow> u8 list" where
  "utext (Plain cs) = cs" | "utext (Text_Arg xs) = xs" | "utext (Num_Arg v) = decimal_text v"

fun uargs_ok :: "user \<Rightarrow> u64 \<Rightarrow> u64 \<Rightarrow> upiece list \<Rightarrow> bool" where
  "uargs_ok u s n [] \<longleftrightarrow> True"
| "uargs_ok u s n (Plain cs # ps) \<longleftrightarrow> cs \<noteq> [] \<and> 0 \<notin> set cs \<and> 37 \<notin> set cs \<and> uargs_ok u s n ps"
| "uargs_ok u s n (Text_Arg xs # ps) \<longleftrightarrow>
     s \<noteq> NULL \<and> unat s + 8 \<le> unat (position u) \<and> string_at u (load_ptr (umem u) s) xs \<and> uargs_ok u (s + 8) n ps"
| "uargs_ok u s n (Num_Arg v # ps) \<longleftrightarrow>
     n \<noteq> NULL \<and> unat n + 4 \<le> unat (position u) \<and> load_int (umem u) n = v \<and> \<bar>v\<bar> < 2 ^ 31 \<and> uargs_ok u s (n + 4) ps"

text \<open>The new memory that the text takes.\<close>

fun ucost :: "upiece \<Rightarrow> nat" where
  "ucost (Num_Arg v) = 20 + length (decimal_text v)" | "ucost p = length (utext p)"

lemma load_int_cong: "(\<And>i. i < 4 \<Longrightarrow> m (a + of_nat i) = m' (a + of_nat i)) \<Longrightarrow> load_int m a = load_int m' a"
  unfolding load_int_def by (intro arg_cong [where f = "\<lambda>xs. to_int (of_le_bytes xs)"] map_cong) auto

lemma uargs_ok_writes:
  assumes "writes ys k u v" "unat (position u) + k < 2 ^ 64"
  shows "uargs_ok u s n ps \<Longrightarrow> uargs_ok v s n ps"
proof (induction ps arbitrary: s n)
  case (Cons x ps)
  have pos: "unat (position v) = unat (position u) + k" using assms by (simp add: writes_def unat_plus)
  have same: "umem v (a + of_nat i) = umem u (a + of_nat i)" if "unat a + j \<le> unat (position u)" "i < j" for a i j
    using that unat_plus [of a i] position_less [of u] assms(1) by (simp add: writes_def)
  show ?case
  proof (cases x)
    case (Text_Arg xs)
    have "load_ptr (umem v) s = load_ptr (umem u) s" using same [of s 8] Cons.prems Text_Arg by (intro load_ptr_cong) auto
    then show ?thesis using Cons Text_Arg pos string_at_writes [OF _ assms] by auto
  next
    case (Num_Arg w)
    have "load_int (umem v) n = load_int (umem u) n" using same [of n 4] Cons.prems Num_Arg by (intro load_int_cong) auto
    then show ?thesis using Cons Num_Arg pos by auto
  qed (use Cons in auto)
qed simp

lemma print_plain:
  "bytes_at (umem u) f cs \<Longrightarrow> 0 \<notin> set cs \<Longrightarrow> 37 \<notin> set cs \<Longrightarrow> unat f + length cs \<le> unat (position u) \<Longrightarrow>
    unat (position u) + length cs < 2 ^ 64 \<Longrightarrow>
    \<exists>v. printFF_loop (length cs + m) False f s n u = printFF_loop m False (f + of_nat (length cs)) s n v \<and> writes cs (length cs) u v"
proof (induction cs arbitrary: f u)
  case (Cons c cs)
  obtain v where v: "putchar_user (uchar u f) u = Ret () v" "writes [c] 1 u v" using putchar_writes [of "uchar u f" u] Cons.prems(1) by auto
  have pos: "unat (position v) = unat (position u) + 1" using v(2) Cons.prems(5) unat_plus [of "position u" 1] by (simp add: writes_def)
  have f: "unat (f + 1) = unat f + 1" using Cons.prems(4) unat_plus [of f 1] position_less [of u] by simp
  have "umem v (f + 1 + of_nat i) = umem u (f + 1 + of_nat i)" if "i < length cs" for i
    using that Cons.prems(4) f unat_plus [of "f + 1" i] position_less [of u] v(2) by (simp add: writes_def)
  moreover have "bytes_at (umem u) (f + 1) cs" using Cons.prems(1) by simp
  ultimately have "bytes_at (umem v) (f + 1) cs" by (simp add: bytes_at_nth)
  moreover have "unat (f + 1) + length cs \<le> unat (position v)" "unat (position v) + length cs < 2 ^ 64"
    using f pos Cons.prems(4,5) by simp_all
  ultimately obtain w where w: "printFF_loop (length cs + m) False (f + 1) s n v = printFF_loop m False (f + 1 + of_nat (length cs)) s n w"
    "writes cs (length cs) v w" using Cons.IH [of v "f + 1"] Cons.prems(2,3) by auto
  have "uchar u f \<noteq> 37" using Cons.prems(1,3) by (auto simp: uchar_def ch_def sint_is)
  then have "printFF_loop (length (c # cs) + m) False f s n u = printFF_loop m False (f + 1 + of_nat (length cs)) s n w"
    using v(1) w(1) Cons.prems(1,2) by simp
  then show ?case using writes_trans [OF v(2) w(2)] Cons.prems(5) by (intro exI [of _ w]) (simp add: add.assoc)
qed (auto simp: writes_Nil)

definition ufmts :: "upiece list \<Rightarrow> u8 list" where "ufmts ps = concat (map ufmt ps)"
definition utexts :: "upiece list \<Rightarrow> u8 list" where "utexts ps = concat (map utext ps)"
definition ucosts :: "upiece list \<Rightarrow> nat" where "ucosts ps = sum_list (map ucost ps)"

lemma upieces_simps [simp]:
  "ufmts [] = []" "ufmts (x # ps) = ufmt x @ ufmts ps" "utexts [] = []" "utexts (x # ps) = utext x @ utexts ps"
  "ucosts [] = 0" "ucosts (x # ps) = ucost x + ucosts ps"
  by (simp_all add: ufmts_def utexts_def ucosts_def)

text \<open>The rest of a format below the new memory.\<close>

definition format_at :: "user \<Rightarrow> u64 \<Rightarrow> upiece list \<Rightarrow> bool" where
  "format_at u f ps \<longleftrightarrow> bytes_at (umem u) f (ufmts ps @ [0]) \<and> unat f + length (ufmts ps) < unat (position u)"

lemma format_at_writes:
  assumes "format_at u f (x # ps)" "writes xs k u v" "unat (position u) + k < 2 ^ 64"
  shows "format_at v (f + of_nat (length (ufmt x))) ps"
proof -
  have at: "bytes_at (umem u) (f + of_nat (length (ufmt x))) (ufmts ps @ [0])" and b: "unat f + length (ufmt x) + length (ufmts ps) < unat (position u)"
    using assms(1) by (simp_all add: format_at_def bytes_at_append)
  have g: "unat (f + of_nat (length (ufmt x))) = unat f + length (ufmt x)" using b position_less [of u] by (intro unat_plus) simp
  have "umem v (f + of_nat (length (ufmt x)) + of_nat i) = umem u (f + of_nat (length (ufmt x)) + of_nat i)" if "i \<le> length (ufmts ps)" for i
    using that b g unat_plus [of "f + of_nat (length (ufmt x))" i] position_less [of u] assms(2) by (simp add: writes_def)
  then have "bytes_at (umem v) (f + of_nat (length (ufmt x))) (ufmts ps @ [0])" using at by (simp add: bytes_at_nth less_Suc_eq_le)
  moreover have "unat (position v) = unat (position u) + k" using assms(2,3) by (simp add: writes_def unat_plus)
  ultimately show ?thesis using b g by (simp add: format_at_def)
qed

text \<open>One piece.\<close>

lemma print_piece:
  assumes "format_at u f (x # ps)" "uargs_ok u s n (x # ps)" "length (ufmt x) + length (utext x) + 12 \<le> m" "unat (position u) + ucost x < 2 ^ 64"
  shows "\<exists>v s' n'. printFF_loop m False f s n u = printFF_loop (m - length (ufmt x)) False (f + of_nat (length (ufmt x))) s' n' v \<and>
    writes (utext x) (ucost x) u v \<and> uargs_ok u s' n' ps"
proof -
  have ch: "uchar u f = sint (umem u f)" "uchar u (f + 1) = sint (umem u (f + 1))" by (simp_all add: uchar_def ch_def)
  show ?thesis
  proof (cases x)
    case (Plain cs)
    have b: "unat f + length cs \<le> unat (position u)" "bytes_at (umem u) f cs" using assms(1) Plain by (simp_all add: format_at_def bytes_at_append)
    show ?thesis using print_plain [OF b(2) _ _ b(1), of "m - length cs" s n] assms(2-4) Plain by auto
  next
    case (Text_Arg xs)
    obtain k where k: "m = Suc (Suc k)" using assms(3) Text_Arg by (cases m; cases "m - 1") auto
    have c: "uchar u f = 37" "uchar u (f + 1) = 115" using assms(1) Text_Arg unfolding ch by (simp_all add: format_at_def)
    obtain v where "put_string k (load_ptr (umem u) s) u = Ret () v" "writes xs (length xs) u v"
      using put_string_ok [of u "load_ptr (umem u) s" xs k] assms(2-4) Text_Arg k by auto
    then show ?thesis using c assms(2) Text_Arg by (intro exI [of _ v] exI [of _ "s + 8"] exI [of _ n]) (simp add: k add.commute)
  next
    case (Num_Arg w)
    obtain k where k: "m = Suc (Suc k)" using assms(3) Num_Arg by (cases m; cases "m - 1") auto
    have c: "uchar u f = 37" "uchar u (f + 1) = 100" using assms(1) Num_Arg unfolding ch by (simp_all add: format_at_def)
    obtain v where "putNumber k (load_int (umem u) n) u = Ret () v" "writes (decimal_text w) (20 + length (decimal_text w)) u v"
      using putNumber_ok [of w k u] assms(2-4) Num_Arg k by auto
    then show ?thesis using c assms(2) Num_Arg by (intro exI [of _ v] exI [of _ s] exI [of _ "n + 4"]) (simp add: k add.commute)
  qed
qed

lemma print_loop_ok:
  "format_at u f ps \<Longrightarrow> uargs_ok u s n ps \<Longrightarrow> length (ufmts ps) + length (utexts ps) + 12 \<le> m \<Longrightarrow> unat (position u) + ucosts ps < 2 ^ 64 \<Longrightarrow>
    \<exists>v. printFF_loop m False f s n u = Ret (f + of_nat (length (ufmts ps))) v \<and> writes (utexts ps) (ucosts ps) u v"
proof (induction ps arbitrary: f s n u m)
  case Nil
  then obtain k where "m = Suc k" by (cases m) auto
  then show ?case using Nil by (auto simp: format_at_def writes_Nil)
next
  case (Cons x ps)
  obtain v s' n' where v: "printFF_loop m False f s n u = printFF_loop (m - length (ufmt x)) False (f + of_nat (length (ufmt x))) s' n' v"
    "writes (utext x) (ucost x) u v" "uargs_ok u s' n' ps" using print_piece [OF Cons.prems(1,2), of m] Cons.prems(3,4) by auto
  have room: "unat (position u) + ucost x < 2 ^ 64" using Cons.prems(4) by simp
  have pos: "unat (position v) = unat (position u) + ucost x" using v(2) room by (simp add: writes_def unat_plus)
  have fuel: "length (ufmts ps) + length (utexts ps) + 12 \<le> m - length (ufmt x)" using Cons.prems(3) unfolding upieces_simps length_append by linarith
  have room2: "unat (position v) + ucosts ps < 2 ^ 64" using Cons.prems(4) pos by simp
  obtain w where w: "printFF_loop (m - length (ufmt x)) False (f + of_nat (length (ufmt x))) s' n' v =
      Ret (f + of_nat (length (ufmt x)) + of_nat (length (ufmts ps))) w" "writes (utexts ps) (ucosts ps) v w"
    using Cons.IH [OF format_at_writes [OF Cons.prems(1) v(2) room] uargs_ok_writes [OF v(2) room v(3)], OF fuel room2]
    by blast
  have "writes (utexts (x # ps)) (ucosts (x # ps)) u w" using writes_trans [OF v(2) w(2) room] by simp
  then show ?case using v(1) w(1) by (intro exI [of _ w]) (simp add: add.assoc)
qed

lemma last_ufmts: "ps \<noteq> [] \<Longrightarrow> uargs_ok u s n ps \<Longrightarrow> ufmts ps \<noteq> [] \<and> last (ufmts ps) \<noteq> 37"
proof (induction ps arbitrary: s n)
  case (Cons x ps)
  have "ufmt x \<noteq> [] \<and> last (ufmt x) \<noteq> 37" using Cons.prems(2) by (cases x) (auto dest: last_in_set)
  then show ?case using Cons by (cases "ps = []"; cases x) auto
qed simp

text \<open>
  \<open>printFF\<close> writes the text that its format describes: plain characters, each \<open>%s\<close> with the next string of \<open>s\<close> and
  each \<open>%d\<close> with the next number of \<open>n\<close> in decimal, one character for each call of \<open>writeC\<close>. It needs new memory for every character and 20 bytes more for
  every number, and changes nothing below it.
\<close>

theorem printFF_text:
  assumes "format_at u f ps" "uargs_ok u s n ps" "ps \<noteq> []" "length (ufmts ps) + length (utexts ps) + 12 \<le> m" "unat (position u) + ucosts ps < 2 ^ 64"
  shows "\<exists>v. printFF m f s n u = Ret () v \<and> events v = events u @ map (\<lambda>c. Write_C [c]) (utexts ps) \<and> keys v = keys u \<and>
    position v = position u + of_nat (ucosts ps) \<and> (\<forall>a. unat a < unat (position u) \<longrightarrow> umem v a = umem u a)"
proof -
  obtain v where v: "printFF_loop m False f s n u = Ret (f + of_nat (length (ufmts ps))) v" "writes (utexts ps) (ucosts ps) u v"
    using print_loop_ok [OF assms(1,2,4,5)] by blast
  let ?l = "length (ufmts ps) - 1"
  have ne: "ufmts ps \<noteq> []" "last (ufmts ps) \<noteq> 37" using last_ufmts [OF assms(3,2)] by simp_all
  then have p: "f + of_nat (length (ufmts ps)) - 1 = f + of_nat ?l" by (cases "ufmts ps") auto
  have "umem u (f + of_nat ?l) = last (ufmts ps)"
  proof -
    have "bytes_at (umem u) f (ufmts ps)" using assms(1) by (simp add: format_at_def bytes_at_append)
    then show ?thesis using ne by (simp add: bytes_at_nth last_conv_nth)
  qed
  moreover have "umem v (f + of_nat ?l) = umem u (f + of_nat ?l)"
  proof -
    have "unat f + ?l < unat (position u)" using assms(1) unfolding format_at_def by linarith
    then show ?thesis using v(2) unat_plus [of f ?l] position_less [of u] by (simp add: writes_def)
  qed
  ultimately have "uchar v (f + of_nat ?l) \<noteq> 37" using ne(2) by (simp add: uchar_def ch_def sint_is)
  then have "printFF m f s n u = Ret () v" using v(1) unfolding printFF_def v(1) bnd.simps p by simp
  then show ?thesis using v(2) by (auto simp: writes_def)
qed

section \<open>Reading a line\<close>

text \<open>The state \<open>v\<close> follows \<open>u\<close> after reading to the block at \<open>base\<close>, which took \<open>k\<close> bytes of new memory.\<close>

definition reads :: "u64 \<Rightarrow> nat \<Rightarrow> user \<Rightarrow> user \<Rightarrow> bool" where
  "reads base k u v \<longleftrightarrow> events v = events u \<and> position v = position u + of_nat k \<and>
     (\<forall>a. unat a < unat (position u) \<and> \<not> (unat base \<le> unat a \<and> unat a \<le> unat base + BUFFERSIZE) \<longrightarrow> umem v a = umem u a)"

lemma reads_trans: "reads base j u v \<Longrightarrow> reads base k v w \<Longrightarrow> unat (position u) + j < 2 ^ 64 \<Longrightarrow> reads base (j + k) u w"
  by (simp add: reads_def unat_plus)

lemma getchar_reads:
  assumes "keys u = k # ks" "k \<noteq> 0"
  shows "\<exists>v. getchar_user (Suc (Suc n)) u = Ret (sint k) v \<and> keys v = ks \<and> events v = events u \<and> position v = position u + 1 \<and>
    (\<forall>a. a \<noteq> position u \<longrightarrow> umem v a = umem u a)"
proof -
  have "sint k \<noteq> 0" using assms(2) sint_0_iff by blast
  then show ?thesis using assms(1) by (auto simp: getchar_user_def malloc_def readC_def uchar_def ch_def ustore_def)
qed

text \<open>What stands at \<open>base\<close> while the line is read.\<close>

definition line_at :: "user \<Rightarrow> u64 \<Rightarrow> u8 list \<Rightarrow> bool" where
  "line_at u base xs \<longleftrightarrow> bytes_at (umem u) base xs \<and> length xs \<le> BUFFERSIZE \<and> unat base + BUFFERSIZE < unat (position u)"

lemma line_at_index: "line_at u base xs \<Longrightarrow> i \<le> BUFFERSIZE \<Longrightarrow> unat (base + of_nat i) = unat base + i"
  using position_less [of u] by (intro unat_plus) (simp add: line_at_def)

lemma line_at_getchar:
  assumes "line_at u base xs" "\<forall>a. a \<noteq> position u \<longrightarrow> umem v a = umem u a" "position v = position u + 1" "unat (position u) + 1 < 2 ^ 64"
  shows "line_at v base xs"
proof -
  have "base + of_nat i \<noteq> position u" if "i < length xs" for i
  proof
    assume "base + of_nat i = position u"
    then have "unat base + i = unat (position u)" using line_at_index [OF assms(1), of i] that assms(1) by (simp add: line_at_def)
    then show False using that assms(1) by (simp add: line_at_def)
  qed
  then show ?thesis using assms unat_plus [of "position u" 1] by (simp add: line_at_def bytes_at_nth)
qed

lemma line_at_store:
  assumes "line_at u base xs" "length xs < BUFFERSIZE"
  shows "line_at (ustore (base + of_nat (length xs)) x u) base (xs @ [x])"
proof -
  have "base + of_nat i \<noteq> base + of_nat (length xs)" if "i < length xs" for i
    using line_at_index [OF assms(1), of i] line_at_index [OF assms(1), of "length xs"] that assms(2) by (metis add_left_cancel less_imp_le less_irrefl less_trans)
  then show ?thesis using assms by (simp add: line_at_def bytes_at_append) (simp add: bytes_at_nth)
qed

lemma line_at_butlast: "line_at u base xs \<Longrightarrow> line_at u base (butlast xs)"
  by (cases xs rule: rev_cases) (auto simp: line_at_def bytes_at_append)

lemma reads_step:
  assumes "line_at u base xs" "i \<le> BUFFERSIZE" "events v = events u" "position v = position u + 1" "unat (position u) + 1 < 2 ^ 64"
    "\<forall>a. a \<noteq> position u \<longrightarrow> umem v a = umem u a"
  shows "reads base 1 u v" "reads base 1 u (ustore (base + of_nat i) x v)"
proof -
  have "umem v a = umem u a" if "unat a < unat (position u)" for a using assms(6) that by (metis less_irrefl)
  then show "reads base 1 u v" "reads base 1 u (ustore (base + of_nat i) x v)"
    using assms(2-4) line_at_index [OF assms(1,2)] by (auto simp: reads_def)
qed

lemma scan_line_ok:
  assumes "keys u = cs @ 10 # rest" "0 \<notin> set cs" "10 \<notin> set cs" "line_at u base acc" "length acc + length cs < BUFFERSIZE"
    "unat (position u) + Suc (length cs) < 2 ^ 64" "length cs < m"
  shows "\<exists>v. scan_line (Suc (Suc n)) m (base + of_nat (length acc)) (length acc) u = Ret (length (edit acc cs)) v \<and>
    line_at v base (edit acc cs @ [0]) \<and> keys v = rest \<and> reads base (Suc (length cs)) u v"
  using assms
proof (induction cs arbitrary: u acc m)
  case Nil
  obtain k where k: "m = Suc k" using Nil.prems(7) by (cases m) auto
  have pos: "unat (position u) + 1 < 2 ^ 64" using Nil.prems(6) by simp
  obtain v where v: "getchar_user (Suc (Suc n)) u = Ret (sint (10 :: u8)) v" "keys v = rest" "events v = events u"
    "position v = position u + 1" "\<forall>a. a \<noteq> position u \<longrightarrow> umem v a = umem u a" using getchar_reads [of u 10 rest n] Nil.prems(1) by auto
  let ?w = "ustore (base + of_nat (length acc)) 0 v"
  have l: "length acc < BUFFERSIZE" using Nil.prems(5) by simp
  have "line_at ?w base (acc @ [0])"
    by (rule line_at_store [OF line_at_getchar [OF Nil.prems(4) v(5,4) pos] l])
  moreover have "reads base 1 u ?w" using reads_step(2) [OF Nil.prems(4) _ v(3,4) pos v(5)] l by simp
  moreover have "scan_line (Suc (Suc n)) m (base + of_nat (length acc)) (length acc) u = Ret (length acc) ?w" using v(1) by (simp add: k)
  ultimately show ?case using v(2) by (intro exI [of _ ?w]) simp
next
  case (Cons c cs)
  obtain k where k: "m = Suc k" "length cs < k" using Cons.prems(7) by (cases m) auto
  have pos: "unat (position u) + 1 < 2 ^ 64" using Cons.prems(6) by simp
  obtain v where v: "getchar_user (Suc (Suc n)) u = Ret (sint c) v" "keys v = cs @ 10 # rest" "events v = events u"
    "position v = position u + 1" "\<forall>a. a \<noteq> position u \<longrightarrow> umem v a = umem u a" using getchar_reads [of u c "cs @ 10 # rest" n] Cons.prems(1,2) by auto
  note line = line_at_getchar [OF Cons.prems(4) v(5,4) pos]
  have l: "length acc < BUFFERSIZE" using Cons.prems(5) by simp
  let ?acc = "if c = 8 then butlast acc else acc @ [c]" let ?w = "if c = 8 then v else ustore (base + of_nat (length acc)) c v"
  have lw: "line_at ?w base ?acc" using line_at_butlast [OF line] line_at_store [OF line l] by simp
  have r: "reads base 1 u ?w" 
    using reads_step(1) [OF Cons.prems(4) _ v(3,4) pos v(5), of "length acc"] reads_step(2) [OF Cons.prems(4) _ v(3,4) pos v(5), of "length acc" c] l by simp
  have w: "keys ?w = cs @ 10 # rest" "position ?w = position u + 1" using v(2,4) by simp_all
  have len: "length ?acc + length cs < BUFFERSIZE" "unat (position ?w) + Suc (length cs) < 2 ^ 64"
    using Cons.prems(5,6) w(2) unat_plus [of "position u" 1] pos by auto
  obtain x where x: "scan_line (Suc (Suc n)) k (base + of_nat (length ?acc)) (length ?acc) ?w = Ret (length (edit ?acc cs)) x"
    "line_at x base (edit ?acc cs @ [0])" "keys x = rest" "reads base (Suc (length cs)) ?w x"
    using Cons.IH [OF w(1) _ _ lw len k(2)] Cons.prems(2,3) by auto
  have c: "sint c \<noteq> 10" "sint c = 8 \<longleftrightarrow> c = 8" using Cons.prems(3) by (auto simp: sint_is)
  have "scan_line (Suc (Suc n)) m (base + of_nat (length acc)) (length acc) u =
      scan_line (Suc (Suc n)) k (base + of_nat (length ?acc)) (length ?acc) ?w"
  proof (cases "c = 8")
    case True
    show ?thesis using v(1) c True by (cases acc) (auto simp: k)
  next
    case False
    then show ?thesis using v(1) c l by (simp add: k ac_simps)
  qed
  moreover have "reads base (Suc (Suc (length cs))) u x" using reads_trans [OF r x(4) pos] by simp
  ultimately show ?case using x by (intro exI [of _ x]) simp
qed


section \<open>Concrete instances\<close>

lemma strcmp_user_lexicographic_witness:
  "strcmp_user 3 (wr (wr (\<lambda>a. 0) 0x100 [108, 115]) 0x200 [108, 116]) 0x100 0x200 = Some (- 1)"
proof -
  have "cstr (wr (wr (\<lambda>a. 0) 0x100 [108, 115]) 0x200 [108, 116]) 0x100 [108, 115]" "cstr (wr (wr (\<lambda>a. 0) 0x100 [108, 115]) 0x200 [108, 116]) 0x200 [108, 116]"
    by (simp_all add: cstr_def wr_def)
  from strcmp_user_lexicographic [OF this, of 3] show ?thesis by simp
qed

definition some_user :: user where
  "some_user = user_start ((wr (wr (\<lambda>a. 0) 0x300 [111, 107]) 0x200 [62, 37, 115, 37, 100])(0x180 := 7, 0x101 := 3)) []"

lemma some_user_pointer: "load_ptr (umem some_user) 0x100 = 0x300"
  by (simp add: load_ptr_def some_user_def user_start_def wr_def upt_conv_Cons)

lemma some_user_number: "load_int (umem some_user) 0x180 = 7"
proof -
  have "map (\<lambda>i. umem some_user (0x180 + of_nat i)) [0..<4] = [7, 0, 0, 0]"
    by (simp add: some_user_def user_start_def wr_def upt_conv_Cons)
  then have "load_int (umem some_user) 0x180 = to_int 7" unfolding load_int_def by simp
  then show ?thesis using to_int_of_nat [of 7] by simp
qed

lemma some_user_frame: "position some_user = 0x1000000" "keys some_user = []" "events some_user = []"
  by (simp_all add: some_user_def user_start_def)

lemma some_user_text:
  "format_at some_user 0x200 [Plain [62], Text_Arg [111, 107], Num_Arg 7]" "uargs_ok some_user 0x100 0x180 [Plain [62], Text_Arg [111, 107], Num_Arg 7]"
proof -
  show "format_at some_user 0x200 [Plain [62], Text_Arg [111, 107], Num_Arg 7]"
    by (simp add: format_at_def some_user_def user_start_def wr_def)
  have "cstr (umem some_user) 0x300 [111, 107]" by (simp add: cstr_def some_user_def user_start_def wr_def)
  then show "uargs_ok some_user 0x100 0x180 [Plain [62], Text_Arg [111, 107], Num_Arg 7]"
    by (simp add: some_user_pointer some_user_number some_user_frame string_at_def)
qed

lemma printFF_text_witness:
  "\<exists>v. printFF 50 0x200 0x100 0x180 some_user = Ret () v \<and> events v = [Write_C [62], Write_C [111], Write_C [107], Write_C [55]]"
proof -
  have "decimal_text 7 = [55]" by (simp add: decimal_text_def dec.simps)
  then show ?thesis using printFF_text [OF some_user_text, of 50] by (simp add: some_user_frame) blast
qed

definition typing_user :: user where
  "typing_user = user_start ((wr (\<lambda>a. 0) 0x200 [37, 115])(0x301 := 4)) [97, 98, 8, 99, 10]"


end
