(* ===== verification/Int_List.thy ===== *)
theory Int_List
  imports Kernel_Mutex
begin

text \<open>
  The singly linked list of integers (\<open>Kernel/intLinkedlistADT.c\<close>), with a page for every node, as a state of the kernel and a heap of nodes. It
  refines the operations of a list, and pages are neither lost nor freed twice.
\<close>

section \<open>The routines\<close>

record int_node =
  elem :: int
  i_next :: ptr

record int_state =
  ikern :: kstate
  inodes :: "ptr \<Rightarrow> int_node option"

type_synonym 'a ires = "(int_state, 'a) res"

primrec lift_kernel :: "'a kres \<Rightarrow> int_state \<Rightarrow> 'a ires" where
  "lift_kernel (Ret x s) t = Ret x (t\<lparr>ikern := s\<rparr>)"
| "lift_kernel (Yld s k) t = Yld (t\<lparr>ikern := s\<rparr>) (\<lambda>u. lift_kernel (k (ikern u)) u)"
| "lift_kernel (Fault e) t = Fault e"

definition rd_node :: "ptr \<Rightarrow> int_state \<Rightarrow> (int_node \<Rightarrow> 'a ires) \<Rightarrow> 'a ires" where
  "rd_node p t f = (if p = NULL then Fault Null_Deref else case inodes t p of None \<Rightarrow> Fault Bad_Pointer | Some x \<Rightarrow> f x)"

definition put_node :: "ptr \<Rightarrow> int_node \<Rightarrow> int_state \<Rightarrow> int_state" where
  "put_node p x t = t\<lparr>inodes := (inodes t)(p \<mapsto> x)\<rparr>"

definition create_list :: ptr where
  "create_list = NULL"

definition insert_int :: "nat \<Rightarrow> ptr \<Rightarrow> int \<Rightarrow> int_state \<Rightarrow> ptr ires" where
  "insert_int n first num t =
     bnd (lift_kernel (get_page n (ikern t)) t) (\<lambda>p t.
       if p = NULL then Fault Null_Deref else Ret p (put_node p \<lparr>elem = num, i_next = first\<rparr> t))"

text \<open>The first number bounds the recursion.\<close>

primrec remove_int_rec :: "nat \<Rightarrow> nat \<Rightarrow> int \<Rightarrow> ptr \<Rightarrow> int_state \<Rightarrow> ptr ires" where
  "remove_int_rec 0 n num l t = Fault Out_Of_Fuel"
| "remove_int_rec (Suc m) n num l t =
     (if l = NULL then Ret l t
      else rd_node l t (\<lambda>x.
        if elem x = num then bnd (lift_kernel (store_page n l (ikern t)) t) (\<lambda>_ t. Ret (i_next x) t)
        else bnd (remove_int_rec m n num (i_next x) t) (\<lambda>p t. rd_node l t (\<lambda>x. Ret l (put_node l (x\<lparr>i_next := p\<rparr>) t)))))"

definition remove_int :: "nat \<Rightarrow> nat \<Rightarrow> ptr \<Rightarrow> int \<Rightarrow> int_state \<Rightarrow> ptr ires" where
  "remove_int m n first num t = remove_int_rec m n num first t"

primrec destroy_int_list :: "nat \<Rightarrow> nat \<Rightarrow> ptr \<Rightarrow> int_state \<Rightarrow> unit ires" where
  "destroy_int_list 0 n l t = Fault Out_Of_Fuel"
| "destroy_int_list (Suc m) n l t =
     (if l \<noteq> NULL
      then rd_node l t (\<lambda>x. bnd (lift_kernel (store_page n l (ikern t)) t) (\<lambda>_ t. destroy_int_list m n (i_next x) t))
      else Ret () t)"

section \<open>Lists in memory\<close>

primrec ipath :: "(ptr \<Rightarrow> int_node option) \<Rightarrow> ptr \<Rightarrow> (ptr \<times> int) list \<Rightarrow> bool" where
  "ipath H p [] \<longleftrightarrow> p = NULL"
| "ipath H p (w # ws) \<longleftrightarrow> p = fst w \<and> p \<noteq> NULL \<and> (case H p of None \<Rightarrow> False | Some x \<Rightarrow> elem x = snd w \<and> ipath H (i_next x) ws)"

definition ilist :: "int_state \<Rightarrow> ptr \<Rightarrow> (ptr \<times> int) list \<Rightarrow> bool" where
  "ilist t p ws \<longleftrightarrow> ipath (inodes t) p ws \<and> distinct (map fst ws) \<and> pages_inv (ikern t) \<and> fst ` set ws \<subseteq> in_use (ikern t)"

lemma ipath_upd: "a \<notin> fst ` set ws \<Longrightarrow> ipath (H(a := y)) p ws = ipath H p ws"
  by (induction ws arbitrary: p) (auto split: option.splits)

lemma put_node_frame [simp]: "ikern (put_node p x t) = ikern t" "inodes (put_node p x t) = (inodes t)(p \<mapsto> x)"
  by (simp_all add: put_node_def)

abbreviation free_of :: "int_state \<Rightarrow> ptr set" where
  "free_of t \<equiv> free_pages (ikern t)"

lemma insert_int_ok:
  assumes "ilist t p ws" "free_of t \<noteq> {}"
  obtains a u where "insert_int (Suc n) p num t = Ret a u" "ilist u a ((a, num) # ws)" "a \<in> free_of t" "free_of u = free_of t - {a}"
proof -
  let ?a = "next_page (ikern t)" let ?u = "put_node ?a \<lparr>elem = num, i_next = p\<rparr> (t\<lparr>ikern := paged_out (ikern t)\<rparr>)"
  have inv: "pages_inv (ikern t)" and ws: "ipath (inodes t) p ws" "distinct (map fst ws)" "fst ` set ws \<subseteq> in_use (ikern t)"
    using assms(1) by (simp_all add: ilist_def)
  note page = get_page_step [OF inv assms(2), of n]
  have null: "?a \<noteq> NULL" by (simp add: next_page_def)
  have fresh: "?a \<notin> fst ` set ws" "?a \<in> in_use (paged_out (ikern t))" "in_use (ikern t) \<subseteq> in_use (paged_out (ikern t))"
    using page ws(3) data.free_universe [OF inv] by (auto simp: in_use_def)
  have "ipath (inodes ?u) p ws = ipath (inodes t) p ws" using ipath_upd [OF fresh(1)] by simp
  then have "ilist ?u ?a ((?a, num) # ws)" using page null fresh ws by (auto simp: ilist_def)
  moreover have "insert_int (Suc n) p num t = Ret ?a ?u" using page null by (simp add: insert_int_def)
  ultimately show thesis using page that [of ?a ?u] by simp
qed

primrec without :: "int \<Rightarrow> (ptr \<times> int) list \<Rightarrow> (ptr \<times> int) list" where
  "without num [] = []"
| "without num (w # ws) = (if snd w = num then ws else w # without num ws)"

lemma without_remove1: "map snd (without num ws) = remove1 num (map snd ws)"
  by (induction ws) auto

lemma without_subset: "fst ` set (without num ws) \<subseteq> fst ` set ws"
  by (induction ws) auto

lemma give_back:
  assumes "ilist t p ((a, x) # ws)"
  shows "lift_kernel (store_page (Suc n) a (ikern t)) t = Ret 1 (t\<lparr>ikern := paged_in a (ikern t)\<rparr>) \<and>
    free_of (t\<lparr>ikern := paged_in a (ikern t)\<rparr>) = insert a (free_of t) \<and>
    (\<forall>y. inodes t a = Some y \<longrightarrow> ilist (t\<lparr>ikern := paged_in a (ikern t)\<rparr>) (i_next y) ws)"
proof -
  have inv: "pages_inv (ikern t)" "a \<in> in_use (ikern t)" using assms by (simp_all add: ilist_def)
  note page = store_page_step [OF inv, of n]
  have "fst ` set ws \<subseteq> in_use (paged_in a (ikern t))" using page assms by (auto simp: ilist_def in_use_def)
  then show ?thesis using page assms by (auto simp: ilist_def split: option.splits)
qed

lemma remove_int_rec_ok:
  assumes "ilist t p ws" "length ws < m"
  shows "\<exists>q u. remove_int_rec m (Suc n) num p t = Ret q u \<and> ilist u q (without num ws) \<and>
    free_of u \<union> fst ` set (without num ws) = free_of t \<union> fst ` set ws \<and> (\<forall>a. a \<notin> fst ` set ws \<longrightarrow> inodes u a = inodes t a) \<and>
    (\<forall>b \<in> in_use (ikern t). b \<notin> fst ` set ws \<longrightarrow> b \<in> in_use (ikern u))"
  using assms
proof (induction ws arbitrary: p t m)
  case Nil
  then obtain k where "m = Suc k" by (cases m) auto
  then show ?case using Nil.prems(1) by (simp add: ilist_def)
next
  case (Cons w ws)
  obtain a y where w: "w = (a, y)" by fastforce
  obtain k where k: "m = Suc k" "length ws < k" using Cons.prems(2) by (cases m) auto
  obtain x where x: "p = a" "a \<noteq> NULL" "inodes t a = Some x" "elem x = y" "ipath (inodes t) (i_next x) ws"
    using Cons.prems(1) w by (auto simp: ilist_def split: option.splits)
  have a: "a \<notin> fst ` set ws" "a \<in> in_use (ikern t)" using Cons.prems(1) w by (auto simp: ilist_def)
  show ?case
  proof (cases "y = num")
    case True
    let ?u = "t\<lparr>ikern := paged_in a (ikern t)\<rparr>"
    note g = give_back [OF Cons.prems(1) [unfolded w], of n]
    have "remove_int_rec m (Suc n) num p t = Ret (i_next x) ?u" using g x True by (simp add: k(1) rd_node_def)
    moreover have "b \<in> in_use (ikern ?u)" if "b \<in> in_use (ikern t)" "b \<noteq> a" for b using g that by (auto simp: in_use_def)
    ultimately show ?thesis using g x True w by (intro exI [of _ "i_next x"] exI [of _ ?u]) auto
  next
    case False
    have "ilist t (i_next x) ws" using Cons.prems(1) x w by (auto simp: ilist_def)
    then obtain q u where u: "remove_int_rec k (Suc n) num (i_next x) t = Ret q u" "ilist u q (without num ws)"
      "free_of u \<union> fst ` set (without num ws) = free_of t \<union> fst ` set ws" "\<forall>b. b \<notin> fst ` set ws \<longrightarrow> inodes u b = inodes t b"
      "\<forall>b \<in> in_use (ikern t). b \<notin> fst ` set ws \<longrightarrow> b \<in> in_use (ikern u)" using Cons.IH [OF _ k(2)] by blast
    let ?v = "put_node a (x\<lparr>i_next := q\<rparr>) u"
    have xa: "inodes u a = Some x" using u(4) a(1) x(3) by simp
    have "remove_int_rec m (Suc n) num p t = Ret a ?v" using u(1) x xa False by (simp add: k(1) rd_node_def)
    moreover have na: "a \<notin> fst ` set (without num ws)" using a(1) without_subset by blast
    have "ipath (inodes ?v) q (without num ws) = ipath (inodes u) q (without num ws)" using ipath_upd [OF na] by simp
    then have "ilist ?v a (without num (w # ws))" using u(2,5) x a False w na by (auto simp: ilist_def)
    ultimately show ?thesis using u(3-5) False w x(1) by (intro exI [of _ a] exI [of _ ?v]) auto
  qed
qed

lemma destroy_int_list_ok:
  "ilist t p ws \<Longrightarrow> length ws < m \<Longrightarrow> \<exists>u. destroy_int_list m (Suc n) p t = Ret () u \<and> free_of u = free_of t \<union> fst ` set ws"
proof (induction ws arbitrary: p t m)
  case Nil
  then obtain k where "m = Suc k" by (cases m) auto
  then show ?case using Nil.prems(1) by (simp add: ilist_def)
next
  case (Cons w ws)
  obtain a y where w: "w = (a, y)" by fastforce
  obtain k where k: "m = Suc k" "length ws < k" using Cons.prems(2) by (cases m) auto
  obtain x where x: "p = a" "a \<noteq> NULL" "inodes t a = Some x" using Cons.prems(1) w by (auto simp: ilist_def split: option.splits)
  note g = give_back [OF Cons.prems(1) [unfolded w], of n]
  obtain u where "destroy_int_list k (Suc n) (i_next x) (t\<lparr>ikern := paged_in a (ikern t)\<rparr>) = Ret () u"
    "free_of u = free_of (t\<lparr>ikern := paged_in a (ikern t)\<rparr>) \<union> fst ` set ws" using Cons.IH [OF _ k(2)] g x(3) by blast
  then show ?case using g x w by (simp add: k(1) rd_node_def)
qed

section \<open>Properties\<close>

datatype int_op = Insert int | Remove int

primrec run_ints :: "nat \<Rightarrow> nat \<Rightarrow> int_op list \<Rightarrow> ptr \<Rightarrow> int_state \<Rightarrow> ptr ires" where
  "run_ints m n [] p t = Ret p t"
| "run_ints m n (x # xs) p t =
     bnd (case x of Insert v \<Rightarrow> insert_int n p v t | Remove v \<Rightarrow> remove_int m n p v t) (\<lambda>p t. run_ints m n xs p t)"

fun int_spec :: "int list \<Rightarrow> int_op \<Rightarrow> int list" where
  "int_spec xs (Insert v) = v # xs"
| "int_spec xs (Remove v) = remove1 v xs"

lemma run_ints_ok:
  "ilist t p ws \<Longrightarrow> length ops \<le> card (free_of t) \<Longrightarrow> length ws + length ops < m \<Longrightarrow>
    \<exists>q u vs. run_ints m (Suc n) ops p t = Ret q u \<and> ilist u q vs \<and> map snd vs = foldl int_spec (map snd ws) ops \<and>
      free_of u \<union> fst ` set vs = free_of t \<union> fst ` set ws \<and> length vs < m"
proof (induction ops arbitrary: t p ws)
  case (Cons x xs)
  have fin: "finite (free_of s)" for s :: int_state by (simp add: free_pages_def)
  obtain q u vs where u: "(case x of Insert v \<Rightarrow> insert_int (Suc n) p v t | Remove v \<Rightarrow> remove_int m (Suc n) p v t) = Ret q u"
    "ilist u q vs" "map snd vs = int_spec (map snd ws) x" "free_of u \<union> fst ` set vs = free_of t \<union> fst ` set ws"
    "card (free_of t) \<le> Suc (card (free_of u))" "length vs \<le> Suc (length ws)"
  proof (cases x)
    case (Insert v)
    have "free_of t \<noteq> {}" using Cons.prems(2) by auto
    then obtain a u where "insert_int (Suc n) p v t = Ret a u" "ilist u a ((a, v) # ws)" "a \<in> free_of t" "free_of u = free_of t - {a}"
      using insert_int_ok [OF Cons.prems(1)] by metis
    moreover from this have "free_of t = insert a (free_of u)" "a \<notin> free_of u" by auto
    then have "card (free_of t) = Suc (card (free_of u))" using fin [of u] by simp
    moreover have "free_of u \<union> fst ` set ((a, v) # ws) = free_of t \<union> fst ` set ws" using \<open>free_of t = insert a (free_of u)\<close> by auto
    ultimately show ?thesis using Insert by (intro that [of a u "(a, v) # ws"]) simp_all
  next
    case (Remove v)
    obtain q u where u: "remove_int_rec m (Suc n) v p t = Ret q u" "ilist u q (without v ws)"
      "free_of u \<union> fst ` set (without v ws) = free_of t \<union> fst ` set ws"
      using remove_int_rec_ok [OF Cons.prems(1), of m n v] Cons.prems(3) by auto
    have "fst ` set ws \<inter> free_of t = {}" using Cons.prems(1) by (auto simp: ilist_def in_use_def)
    then have "free_of t \<subseteq> free_of u" using u(3) without_subset [of v ws] by blast
    then have "card (free_of t) \<le> card (free_of u)" using fin by (intro card_mono)
    moreover have "length (without v ws) \<le> length ws" by (induction ws) auto
    ultimately show ?thesis using that [of q u "without v ws"] u Remove by (simp add: remove_int_def without_remove1)
  qed
  have "length xs \<le> card (free_of u)" "length vs + length xs < m" using Cons.prems(2,3) u(5,6) by simp_all
  from Cons.IH [OF u(2) this] show ?case using u(1,3,4) by auto
qed auto



end
