(* ===== verification/Boot.thy ===== *)
theory Boot
  imports System_Calls Module_Image
begin

text \<open>
  The start of the kernel: \<open>main\<close> (\<open>Kernel/kernel.c\<close>), which sets up the interrupt table, the screen and the allocators and leaves for
  the first process, and that process, \<open>init\<close> (\<open>Kernel/init.c\<close>), which opens the mutexes of the kernel and starts the shell. The theory shows
  that the kernel that starts satisfies the invariants that the theorems about processes and the scheduler assume.
\<close>

section \<open>\<open>kernel.c\<close>\<close>

record computer =
  kern :: kstate
  idt :: "DESCR_INT list"
  console :: boot

primrec on_kernel :: "'a kres \<Rightarrow> computer \<Rightarrow> (computer, 'a) res" where
  "on_kernel (Ret x s) M = Ret x (M\<lparr>kern := s\<rparr>)"
| "on_kernel (Yld s k) M = Yld (M\<lparr>kern := s\<rparr>) (\<lambda>M'. on_kernel (k (kern M')) M')"
| "on_kernel (Fault e) M = Fault e"

text \<open>The part of \<open>main\<close> up to its last system call. The mutexes of the allocators do not exist yet; their keys are -1.\<close>

definition main_start :: "nat \<Rightarrow> (nat \<Rightarrow> u8) \<Rightarrow> u64 \<Rightarrow> kstate \<Rightarrow> u64 or_switch kres" where
  "main_start n vesa init s =
     (let s = s\<lparr>screen := load_vDriver vesa (screen s)\<rparr>;
          s = initialize_stack_memory_allocator (initialize_memory_allocator s)
      in bnd (initialize_conditional_variable n s) (\<lambda>_ s.
         bnd (initialize_fifo_mutex n s) (\<lambda>_ s. sys_exec n init 0 ''init'' s)))"

text \<open>
  What \<open>main\<close> prints when its last system call comes back; the contents of the data module are printed as a C string
  of at most \<open>m\<close> characters.
\<close>

definition main_report :: "nat \<Rightarrow> boot \<Rightarrow> boot option" where
  "main_report m b =
     Option.bind (print_line (text_bytes ''[Kernel Main]'') b) (\<lambda>b.
     Option.bind (print_section ''  Sample code module at 0x'' 0x400000 b) (\<lambda>b.
     Option.bind (ncNewline (ncPrint (text_bytes ''  Calling the sample code module returned: '') b)) (\<lambda>b.
     Option.bind (ncNewline b) (\<lambda>b.
     Option.bind (print_section ''  Sample data module at 0x'' 0x500000 b) (\<lambda>b.
     let b = ncPrint (text_bytes ''  Sample data module contents: '') b in
     Option.bind (string_at m (memory b) 0x500000) (\<lambda>contents.
     Option.bind (ncNewline (ncPrint (text_bytes contents) b)) (\<lambda>b.
     Some (ncPrint (text_bytes ''[Finished]'') b))))))))"

text \<open>
  \<open>main\<close> leaves with the stack pointer of the process that it starts, or stays in its last loop after the report (\<open>Returns ()\<close>). The handlers
  are routines of assembly; \<open>init\<close> is the address of the function.
\<close>

definition main :: "nat \<Rightarrow> nat \<Rightarrow> u64 \<Rightarrow> u64 \<Rightarrow> u64 \<Rightarrow> u64 \<Rightarrow> (nat \<Rightarrow> u8) \<Rightarrow> u64 \<Rightarrow> computer \<Rightarrow> (computer, unit or_switch) res" where
  "main n m irq00 irq01 syscall yield vesa init M =
     (let M = M\<lparr>idt := load_idt irq00 irq01 syscall yield (idt M)\<rparr>
      in bnd (on_kernel (main_start n vesa init (kern M)) M) (\<lambda>r M.
           case r of Switch_To rsp \<Rightarrow> Ret (Switch_To rsp) M
           | Returns _ \<Rightarrow> (case main_report m (console M) of None \<Rightarrow> Fault Out_Of_Fuel
               | Some b \<Rightarrow> Ret (Returns ()) (M\<lparr>console := b\<rparr>))))"

section \<open>\<open>init.c\<close>\<close>

text \<open>
  \<open>init\<close> up to its last loop, whose turns wait for the next interrupt. Interrupts are enabled once the mutexes are open;
  \<open>shell\<close> is the address of the function.
\<close>

definition init_start :: "nat \<Rightarrow> u64 \<Rightarrow> kstate \<Rightarrow> unit or_switch kres" where
  "init_start n shell s =
     bnd (initialize_memory_allocator_mutex n s) (\<lambda>_ s.
     bnd (initialize_stack_memory_allocator_mutex n s) (\<lambda>_ s.
     bnd (initialize_process_mutex n s) (\<lambda>_ s.
     bnd (sys_exec n shell 0 ''shell'' s) (\<lambda>r s.
       case r of Switch_To rsp \<Rightarrow> Ret (Switch_To rsp) s
       | Returns _ \<Rightarrow> bnd (get_process_by_pid 1 s) (\<lambda>p s. bnd (set_foreground_process p s) (\<lambda>_ s. Ret (Returns ()) s))))))"

section \<open>Opening the first mutexes\<close>

text \<open>Exactly the mutexes with these names are open, at the first keys; all are unlocked and nobody waits.\<close>

definition opened :: "string list \<Rightarrow> kstate \<Rightarrow> bool" where
  "opened names s \<longleftrightarrow>
     array_mutex s = UNLOCKED \<and> length (open_mutexes s) = MAX_MUTEXES \<and> length names \<le> MAX_MUTEXES \<and>
     (\<forall>k < length names. \<exists>q Q. open_mutexes s ! k = \<lparr>m_name = names ! k, m_locked = UNLOCKED, m_state = OPEN, m_queue = q\<rparr> \<and>
        q \<notin> free_pages s \<and> h_queue s q = Some Q \<and> q_first Q = NULL) \<and>
     (\<forall>k. length names \<le> k \<and> k < MAX_MUTEXES \<longrightarrow> m_state (open_mutexes s ! k) \<noteq> OPEN)"

lemma opened_is_open:
  assumes "opened names s"
  shows "mutex_is_open k s \<longleftrightarrow> 0 \<le> k \<and> k < int (length names)"
proof (cases "0 \<le> k \<and> nat k < length names")
  case True
  then have "m_state (open_mutexes s ! nat k) = OPEN" using assms by (fastforce simp: opened_def)
  then show ?thesis using True assms by (auto simp: mutex_is_open_def opened_def)
next
  case False
  then show ?thesis using assms by (auto simp: mutex_is_open_def opened_def)
qed

definition running :: "kstate \<Rightarrow> bool" where
  "running s \<longleftrightarrow> cur_node s \<noteq> NULL \<and> h_snode s (cur_node s) \<noteq> None"

lemma opened_free:
  assumes "opened names s" "running s \<or> k < 0"
  shows "mutex_free k s"
proof (cases "mutex_is_open k s")
  case True
  then have k: "0 \<le> k" "nat k < length names" unfolding opened_is_open [OF assms(1)] by (simp_all add: nat_less_iff)
  obtain q Q where "open_mutexes s ! nat k = \<lparr>m_name = names ! nat k, m_locked = UNLOCKED, m_state = OPEN, m_queue = q\<rparr>"
    "h_queue s q = Some Q" "q_first Q = NULL" using assms(1) k(2) unfolding opened_def by blast
  moreover have "nat k < length (open_mutexes s)" using assms(1) k(2) by (simp add: opened_def)
  ultimately show ?thesis using assms(2) k(1) by (simp add: mutex_free_def mutex_empty_def the_mutex_def running_def)
qed (simp add: mutex_free_def)

text \<open>What opening a mutex leaves alone.\<close>

definition beside_mutexes :: "kstate \<Rightarrow> kstate \<Rightarrow> bool" where
  "beside_mutexes s t \<longleftrightarrow>
     h_proc t = h_proc s \<and> h_snode t = h_snode s \<and> h_frame t = h_frame s \<and> cur_node t = cur_node s \<and> prev_node t = prev_node s \<and>
     process_table t = process_table s \<and> n_processes t = n_processes s \<and> foreground t = foreground s \<and>
     stack_pages_stack t = stack_pages_stack s \<and> current_stack_index t = current_stack_index s \<and>
     memory_mutex_key t = memory_mutex_key s \<and> stack_memory_mutex_key t = stack_memory_mutex_key s \<and>
     table_mutex_key t = table_mutex_key s \<and> (superlock s = UNLOCKED \<longrightarrow> superlock t = UNLOCKED) \<and> screen t = screen s"

text \<open>The state after opening the mutex \<open>name\<close> at the key \<open>k\<close>.\<close>

definition open_at :: "nat \<Rightarrow> string \<Rightarrow> kstate \<Rightarrow> kstate" where
  "open_at k name s =
     (let q = next_page s
      in (with_queue q \<lparr>q_first = NULL, q_last = NULL\<rparr> (h_qnode s) (paged_out s))
         \<lparr>open_mutexes := (open_mutexes s)[k := \<lparr>m_name = name, m_locked = UNLOCKED, m_state = OPEN, m_queue = q\<rparr>],
          array_mutex := UNLOCKED\<rparr>)"

lemma open_at_frame:
  "beside_mutexes s (open_at k name s)" "free_pages (open_at k name s) = free_pages (paged_out s)"
  "pages_stack (open_at k name s) = pages_stack (paged_out s)" "current_index (open_at k name s) = current_index (paged_out s)"
  by (simp_all add: beside_mutexes_def open_at_def with_queue_def paged_out_def released_def pop_page_def free_pages_def Let_def)

lemma mutex_open_first:
  assumes s: "opened names s" "pages_inv s" "free_pages s \<noteq> {}"
    and name: "name \<notin> set names" "length names < MAX_MUTEXES" "length name < MUTEX_NAME_LEN"
  shows "mutex_open (Suc n) name s = Ret (int (length names)) (open_at (length names) name s)"
proof -
  let ?k = "length names" and ?s = "s\<lparr>array_mutex := 0\<rparr>"
  have lock: "lock_array (Suc n) s = Ret () ?s" using s(1) by (simp add: opened_def)
  have o: "mutex_is_open (int k) ?s \<longleftrightarrow> k < ?k" for k using opened_is_open [OF s(1), of "int k"] by (simp add: mutex_is_open_def)
  have m: "m_name (open_mutexes ?s ! k) = names ! k" if "k < ?k" for k using s(1) that by (fastforce simp: opened_def)
  have k: "scan MAX_MUTEXES (\<lambda>k. \<not> mutex_is_open (int k) ?s \<or> name = m_name (open_mutexes ?s ! k)) 0 = ?k"
    by (rule scan_0_eqI) (use name o m in \<open>auto simp: in_set_conv_nth\<close>)
  have p: "pages_inv ?s" "free_pages ?s \<noteq> {}" "next_page ?s = next_page s"
    using s(2,3) by (simp_all add: pages_inv_def free_pages_def next_page_def mutex_free_def mutex_is_open_def mutex_empty_def the_mutex_def)
  have "get_page (Suc n) ?s = Ret (next_page s) (paged_out ?s)" using get_page_step [OF p(1,2), of n] p(3) by simp
  moreover have "next_page s \<noteq> NULL" by (simp add: next_page_def)
  moreover have "unlock_array ((put_queue (next_page s) \<lparr>q_first = NULL, q_last = NULL\<rparr> (paged_out ?s))
      \<lparr>open_mutexes := (open_mutexes s)[?k := \<lparr>m_name = name, m_locked = UNLOCKED, m_state = OPEN, m_queue = next_page s\<rparr>]\<rparr>) =
      open_at ?k name s"
    by (simp add: unlock_array_def open_at_def put_queue_def with_queue_def paged_out_def released_def pop_page_def mutex_is_open_def Let_def)
  ultimately show ?thesis using name o [of ?k]
    unfolding mutex_open_def lock bnd.simps Let_def k create_new_mutex_def create_queue_def by (simp add: put_queue_def)
qed

section \<open>The kernel while it starts\<close>

text \<open>
  The mutexes \<open>names\<close> are open; those of the allocators and of the table are among them or do not exist yet, and none exists before a
  process runs.
\<close>

definition boot_inv :: "string list \<Rightarrow> kstate \<Rightarrow> bool" where
  "boot_inv names s \<longleftrightarrow>
     opened names s \<and> pages_inv s \<and> stacks_inv s \<and> table_ok s \<and> superlock s = UNLOCKED \<and>
     (running s \<or> mem_key s < 0 \<and> stack_key s < 0 \<and> table_key s < 0) \<and> keys_distinct s \<and>
     mem_key s < int (length names) \<and> stack_key s < int (length names) \<and> table_key s < int (length names)"

lemma boot_inv_free: "boot_inv names s \<Longrightarrow> k \<in> {mem_key s, stack_key s, table_key s} \<Longrightarrow> mutex_free k s"
  by (rule opened_free [of names]) (auto simp: boot_inv_def)

lemma boot_inv_kernel: "boot_inv names s \<Longrightarrow> kernel_inv s"
  using boot_inv_free [of names s "table_key s"] by (simp add: boot_inv_def kernel_inv_def)

lemma next_page_taken:
  assumes "pages_inv s" "free_pages s \<noteq> {}"
  shows "next_page s \<in> free_pages s" "free_pages (paged_out s) = free_pages s - {next_page s}" "next_page s \<noteq> NULL"
    "Suc (card (free_pages (paged_out s))) = card (free_pages s)" "pages_inv (paged_out s)"
proof -
  have fin: "finite (free_pages s)" by (simp add: free_pages_def)
  note p = get_page_step [OF assms, of 0]
  then show "next_page s \<in> free_pages s" "free_pages (paged_out s) = free_pages s - {next_page s}" "pages_inv (paged_out s)" by simp_all
  show "next_page s \<noteq> NULL" by (simp add: next_page_def)
  show "Suc (card (free_pages (paged_out s))) = card (free_pages s)" using p card_Suc_Diff1 [OF fin, of "next_page s"] by simp
qed

lemma opened_open_at:
  assumes "opened names s" "pages_inv s" "free_pages s \<noteq> {}" "length names < MAX_MUTEXES"
  shows "opened (names @ [name]) (open_at (length names) name s)"
proof -
  let ?t = "open_at (length names) name s" and ?q = "next_page s"
  note p = next_page_taken [OF assms(2,3)]
  have h: "h_queue ?t = (h_queue s)(?q \<mapsto> \<lparr>q_first = NULL, q_last = NULL\<rparr>)" "array_mutex ?t = UNLOCKED"
    "open_mutexes ?t = (open_mutexes s)[length names := \<lparr>m_name = name, m_locked = UNLOCKED, m_state = OPEN, m_queue = ?q\<rparr>]"
    by (simp_all add: open_at_def Let_def)
  have f: "free_pages ?t = free_pages s - {?q}" using p(2) by (simp add: open_at_frame)
  have len: "length (open_mutexes s) = MAX_MUTEXES" using assms(1) by (simp add: opened_def)
  have "\<exists>q Q. open_mutexes ?t ! k = \<lparr>m_name = (names @ [name]) ! k, m_locked = UNLOCKED, m_state = OPEN, m_queue = q\<rparr> \<and>
      q \<notin> free_pages ?t \<and> h_queue ?t q = Some Q \<and> q_first Q = NULL" if "k < length (names @ [name])" for k
  proof (cases "k = length names")
    case True
    then show ?thesis unfolding h f using len assms(4) by simp
  next
    case False
    then have k: "k < length names" using that by simp
    then obtain q Q where q: "open_mutexes s ! k = \<lparr>m_name = names ! k, m_locked = UNLOCKED, m_state = OPEN, m_queue = q\<rparr>"
      "q \<notin> free_pages s" "h_queue s q = Some Q" "q_first Q = NULL" using assms(1) unfolding opened_def by blast
    then have "q \<noteq> ?q" using p(1) by blast
    then show ?thesis unfolding h f using q k by (simp add: nth_append)
  qed
  moreover have "m_state (open_mutexes ?t ! k) \<noteq> OPEN" if "length (names @ [name]) \<le> k" "k < MAX_MUTEXES" for k
    unfolding h using assms(1) that by (simp add: opened_def)
  ultimately show ?thesis using h(2) len assms(4) unfolding opened_def h(3) by simp
qed

lemma table_ok_same:
  assumes "table_ok s" "process_table t = process_table s" "n_processes t = n_processes s" "free_pages t \<subseteq> free_pages s"
    "\<And>p. p \<notin> free_pages s \<Longrightarrow> h_proc t p = h_proc s p"
  shows "table_ok t"
proof -
  have "process_table s ! i \<in> in_use t \<and> (\<exists>x. h_proc t (process_table s ! i) = Some x \<and> p_pid x = of_nat i)"
    if i: "i < MAX_PROCESSES" "process_table s ! i \<noteq> NULL" for i
  proof -
    obtain x where x: "h_proc s (process_table s ! i) = Some x" "p_pid x = of_nat i" "process_table s ! i \<in> in_use s"
      by (rule table_entry [OF assms(1) i])
    then have "process_table s ! i \<notin> free_pages s" by (simp add: in_use_def)
    then show ?thesis using x assms(4,5) by (auto simp: in_use_def)
  qed
  then show ?thesis using assms(1) unfolding table_ok_def assms(2,3) by blast
qed

lemma boot_open_mutex:
  assumes inv: "boot_inv names s" "free_pages s \<noteq> {}"
    and name: "name \<notin> set names" "length names < MAX_MUTEXES" "length name < MUTEX_NAME_LEN"
  obtains t where "mutex_open (Suc n) name s = Ret (int (length names)) t" "boot_inv (names @ [name]) t" "beside_mutexes s t"
    "Suc (card (free_pages t)) = card (free_pages s)" "free_pages t \<subseteq> free_pages s"
proof -
  let ?t = "open_at (length names) name s"
  have o: "opened names s" "pages_inv s" using inv(1) by (simp_all add: boot_inv_def)
  note p = next_page_taken [OF o(2) inv(2)] and frame = open_at_frame [where s = s and k = "length names" and name = name]
  have b: "beside_mutexes s ?t" and op: "opened (names @ [name]) ?t"
    using frame(1) opened_open_at [OF o inv(2) name(2)] by simp_all
  note same = b [unfolded beside_mutexes_def]
  have run: "running ?t \<longleftrightarrow> running s" using same by (simp add: running_def)
  have free: "mutex_free k ?t" if "k \<in> {mem_key s, stack_key s, table_key s}" for k
    using opened_free [OF op, of k] inv(1) that unfolding run boot_inv_def by auto
  have still: "mutex_is_open k ?t = mutex_is_open k s" if "k \<in> {mem_key s, stack_key s, table_key s}" for k
    using inv(1) that unfolding boot_inv_def opened_is_open [OF op] opened_is_open [OF o(1)] by auto
  have "pages_inv ?t" using p(5) free same frame by (simp add: pages_inv_def)
  moreover have "stacks_inv ?t" using inv(1) free same by (simp add: boot_inv_def stacks_inv_def free_stacks_def)
  moreover have "table_ok ?t"
    by (rule table_ok_same [of s]) (use inv(1) same frame p(2) in \<open>auto simp: boot_inv_def\<close>)
  moreover have "keys_distinct ?t" using inv(1) same still by (simp add: boot_inv_def keys_distinct_def)
  ultimately have "boot_inv (names @ [name]) ?t" using inv(1) op same run by (simp add: boot_inv_def)
  then show thesis
    using that [OF mutex_open_first [OF o inv(2) name] _ b] p frame by auto
qed

lemma opened_fewer:
  assumes "opened names s" "open_mutexes t = open_mutexes s" "h_queue t = h_queue s" "array_mutex t = array_mutex s"
    "free_pages t \<subseteq> free_pages s"
  shows "opened names t"
  using assms(1,5) unfolding opened_def assms(2-4) by (meson subsetD)

text \<open>The power-on state.\<close>

lemma boot_inv_power_on:
  fixes jp jb ja mem v w
  defines "s \<equiv> initialize_stack_memory_allocator (initialize_memory_allocator
    ((power_on jp jb ja mem v)\<lparr>screen := w\<rparr>))"
  shows "boot_inv [] s" "card (free_pages s) = 255" "card (free_stacks s) = 128" "free_stacks s = process_stacks"
    "process_table s = replicate MAX_PROCESSES NULL" "cur_node s = NULL" "h_snode s = Map.empty"
proof -
  let ?s = "(power_on jp jb ja mem v)\<lparr>screen := w\<rparr>"
  have m: "opened [] s" unfolding s_def
    by (simp add: opened_def initialize_stack_memory_allocator_def initialize_memory_allocator_def power_on_def zero_mutex_def)
  have k: "mem_key s = - 1" "stack_key s = - 1" "table_key s = - 1"
    unfolding s_def by (simp_all add: initialize_stack_memory_allocator_def initialize_memory_allocator_def power_on_def)
  have free: "mutex_free (- 1) t" for t by (simp add: mutex_free_def mutex_is_open_def)
  have "data.owns [] (initialize_memory_allocator ?s)"
    by (rule initialize_owns) (simp_all add: power_on_def mutex_free_def mutex_is_open_def)
  then have d: "pages_inv (initialize_memory_allocator ?s)" "free_pages (initialize_memory_allocator ?s) = data_pages"
    by (simp_all add: data.owns_def)
  have same: "pages_stack s = pages_stack (initialize_memory_allocator ?s)" "current_index s = current_index (initialize_memory_allocator ?s)"
    unfolding s_def by (simp_all add: initialize_stack_memory_allocator_def)
  have "stacks.owns [] s" unfolding s_def
    by (rule initialize_stack_owns) (simp_all add: initialize_memory_allocator_def power_on_def mutex_free_def mutex_is_open_def)
  then have st: "stacks_inv s" "free_stacks s = process_stacks" by (simp_all add: stacks.owns_def)
  have "pages_inv s" using d(1) same free k by (simp add: pages_inv_def)
  moreover have t: "process_table s = replicate MAX_PROCESSES NULL" "cur_node s = NULL" "n_processes s = 0" "superlock s = UNLOCKED"
    unfolding s_def by (simp_all add: initialize_stack_memory_allocator_def initialize_memory_allocator_def power_on_def)
  moreover have "table_ok s" using t by (simp add: table_ok_def)
  moreover have "keys_distinct s" using k by (simp add: keys_distinct_def mutex_is_open_def)
  ultimately show "boot_inv [] s" using m st k by (simp add: boot_inv_def)
  show "card (free_pages s) = 255" using d(2) same card_data_pages by (simp add: free_pages_def)
  show "free_stacks s = process_stacks" using st by simp
  show "card (free_stacks s) = 128" using st card_process_stacks by simp
  show "process_table s = replicate MAX_PROCESSES NULL" "cur_node s = NULL" using t by simp_all
  show "h_snode s = Map.empty"
    unfolding s_def by (simp add: initialize_stack_memory_allocator_def initialize_memory_allocator_def power_on_def)
qed

section \<open>The first processes\<close>

text \<open>The state after a process has been entered in the ring: a page is taken for its node.\<close>

definition entered :: "ptr \<Rightarrow> ptr \<Rightarrow> (ptr \<Rightarrow> list_node option) \<Rightarrow> kstate \<Rightarrow> kstate" where
  "entered c pv R s = (paged_out s)\<lparr>superlock := UNLOCKED, cur_node := c, prev_node := pv, h_snode := R\<rparr>"

lemma entered_frame [simp]:
  "cur_node (entered c pv R s) = c" "prev_node (entered c pv R s) = pv" "h_snode (entered c pv R s) = R"
  "superlock (entered c pv R s) = UNLOCKED" "h_proc (entered c pv R s) = h_proc s" "h_frame (entered c pv R s) = h_frame s"
  "process_table (entered c pv R s) = process_table s" "n_processes (entered c pv R s) = n_processes s"
  "foreground (entered c pv R s) = foreground s" "free_pages (entered c pv R s) = free_pages (paged_out s)"
  "free_stacks (entered c pv R s) = free_stacks s" "mem_key (entered c pv R s) = mem_key s"
  "stack_key (entered c pv R s) = stack_key s" "table_key (entered c pv R s) = table_key s"
  "open_mutexes (entered c pv R s) = open_mutexes s" "h_queue (entered c pv R s) = h_queue s" "array_mutex (entered c pv R s) = array_mutex s"
  by (simp_all add: entered_def free_pages_def free_stacks_def) (simp_all add: paged_out_def released_def pop_page_def)

lemma boot_inv_entered:
  assumes s: "kernel_inv s" "table_ok s" "opened names s" "free_pages s \<noteq> {}"
    and keys: "mem_key s < int (length names)" "stack_key s < int (length names)" "table_key s < int (length names)"
    and c: "c \<noteq> NULL" "R c \<noteq> None"
  shows "boot_inv names (entered c pv R s)"
proof -
  let ?t = "entered c pv R s"
  have p: "pages_inv s" "stacks_inv s" "keys_distinct s" using s(1) by (simp_all add: kernel_inv_def)
  note page = next_page_taken [OF p(1) s(4)]
  have op: "opened names ?t" by (rule opened_fewer [OF s(3)]) (use page(2) in auto)
  have run: "running ?t" using c by (simp add: running_def)
  have free: "mutex_free k ?t" for k by (rule opened_free [OF op]) (simp add: run)
  have "pages_inv ?t" using page(5) free by (simp add: pages_inv_def) (simp add: entered_def)
  moreover have "stacks_inv ?t" using p(2) free by (simp add: stacks_inv_def) (simp add: entered_def paged_out_def released_def pop_page_def)
  moreover have "table_ok ?t" by (rule table_ok_same [OF s(2)]) (use page(2) in auto)
  moreover have "keys_distinct ?t"
    using p(3) unfolding keys_distinct_def opened_is_open [OF op] opened_is_open [OF s(3)] by simp
  ultimately show ?thesis using op run keys by (simp add: boot_inv_def)
qed

lemma create_boot:
  assumes inv: "boot_inv names s" and room: "1 < card (free_pages s)" "free_stacks s \<noteq> {}" "first_free s < MAX_PROCESSES"
    and name: "length name < MAX_PROCESS_NAME" and cur: "first_free s \<noteq> 0 \<Longrightarrow> current_is c y s"
  obtains p x t where "create_process (Suc n) rip params name s = Ret p t" "p \<in> free_pages s" "p \<noteq> NULL"
    "h_proc t = (h_proc s)(p \<mapsto> x)" "p_pid x = of_nat (first_free s)" "p_st x = READY" "p_name x = name"
    "h_frame t (p_rsp x) = Some (start_frame rip (p_rsp x) params)"
    "process_table t = (process_table s)[first_free s := p]" "foreground t = (if first_free s = 0 then p else foreground s)"
    "free_pages t = free_pages s - {p}" "pages_inv t" "free_pages t \<noteq> {}" "Suc (card (free_pages t)) = card (free_pages s)"
    "Suc (card (free_stacks t)) = card (free_stacks s)" "cur_node t = cur_node s" "h_snode t = h_snode s" "prev_node t = prev_node s"
    "memory_mutex_key t = memory_mutex_key s" "stack_memory_mutex_key t = stack_memory_mutex_key s" "table_mutex_key t = table_mutex_key s"
    "free_stacks t = free_stacks s - {stack_page x}" "stack_page x \<in> free_stacks s" "pages_counted x" "owned_pages x = []"
    "\<forall>c pv R. c \<noteq> NULL \<and> R c \<noteq> None \<longrightarrow> boot_inv names (entered c pv R t)"
proof -
  let ?p = "next_page s" and ?x = "new_process s rip (parent_pid s y) name"
  have k: "kernel_inv s" "table_ok s" "opened names s" using boot_inv_kernel [OF inv] inv by (simp_all add: boot_inv_def)
  have some: "free_pages s \<noteq> {}" using room(1) by auto
  obtain t where t: "create_process (Suc n) rip params name s = Ret ?p t" "h_proc t = (h_proc s)(?p \<mapsto> ?x)"
    "process_table t = (process_table s)[first_free s := ?p]" "n_processes t = n_processes s + 1"
    "h_frame t = (h_frame s)(next_stack s - FRAME_SIZE \<mapsto> start_frame rip (next_stack s - FRAME_SIZE) params)"
    "foreground t = (if first_free s = 0 then ?p else foreground s)"
    "free_pages t = free_pages s - {?p}" "free_stacks t = free_stacks s - {next_stack s}" "kernel_inv t"
    "h_snode t = h_snode s" "cur_node t = cur_node s" "prev_node t = prev_node s" "array_mutex t = array_mutex s"
    "open_mutexes t = open_mutexes s" "h_queue t = h_queue s" "memory_mutex_key t = memory_mutex_key s"
    "stack_memory_mutex_key t = stack_memory_mutex_key s" "table_mutex_key t = table_mutex_key s"
    by (rule create_process_ok [OF k(1) some room(2,3) name cur])
  have x: "p_pid ?x = of_nat (first_free s)" "p_st ?x = READY" "p_name ?x = name" "p_rsp ?x = next_stack s - FRAME_SIZE"
    by (simp_all add: new_process_def next_stack_def Let_def)
  have inv': "pages_inv s" "stacks_inv s" using k(1) by (simp_all add: kernel_inv_def)
  note page = next_page_taken [OF inv'(1) some]
  have fin: "finite (free_pages s)" "finite (free_stacks s)" by (simp_all add: free_pages_def free_stacks_def)
  have st: "next_stack s \<in> free_stacks s" using get_stack_step [OF inv'(2) room(2), of 0] by simp
  have card: "Suc (card (free_pages t)) = card (free_pages s)" "Suc (card (free_stacks t)) = card (free_stacks s)"
    using t(7,8) card_Suc_Diff1 [OF fin(1) page(1)] card_Suc_Diff1 [OF fin(2) st] by simp_all
  have some': "free_pages t \<noteq> {}" using card(1) room(1) by auto
  have "?p \<in> data_pages" using page(1) data.free_universe [OF inv'(1)] by blast
  then have table: "table_ok t"
    using table_ok_create [OF k(2) room(3) page(1) _ page(3) t(2) x(1) t(7,3,4)] by blast
  have op: "opened names t" by (rule opened_fewer [OF k(3) t(14,15,13)]) (simp add: t(7))
  have boot: "boot_inv names (entered c pv R t)" if "c \<noteq> NULL" "R c \<noteq> None" for c pv R
    by (rule boot_inv_entered [where R = R and c = c, OF t(9) table op some' _ _ _ that]) (use inv t(16-18) in \<open>simp_all add: boot_inv_def\<close>)
  have all: "\<forall>c pv R. c \<noteq> NULL \<and> R c \<noteq> None \<longrightarrow> boot_inv names (entered c pv R t)"
    by (intro allI impI, elim conjE) (rule boot)
  have frame: "h_frame t (p_rsp ?x) = Some (start_frame rip (p_rsp ?x) params)" using t(5) x(4) by simp
  have fresh: "free_stacks t = free_stacks s - {stack_page ?x}" "stack_page ?x \<in> free_stacks s" "pages_counted ?x" "owned_pages ?x = []"
    using t(8) st by (simp_all add: new_process_def next_stack_def pages_counted_def owned_pages_def Let_def)
  have pages: "pages_inv t" using t(9) by (simp add: kernel_inv_def)
  show thesis
    by (rule that [OF t(1) page(1,3) t(2) x(1-3) frame t(3,6,7) pages some' card t(11,10,12) t(16-18) fresh all])
qed

text \<open>Entering the first process and every further one in the ring.\<close>

lemma add_process_first:
  assumes "pages_inv s" "free_pages s \<noteq> {}" "cur_node s = NULL"
  shows "add_process (Suc n) p s = Ret () (entered (next_page s) (next_page s)
    ((h_snode s)(next_page s \<mapsto> \<lparr>quantum = QUANTUM, sn_p = p, sn_next = next_page s\<rparr>)) s)"
  using get_page_step [OF assms(1,2), of n] next_page_taken(3) [OF assms(1,2)] assms(3)
  by (simp add: add_process_def set_superlock_def unset_superlock_def put_snode_def entered_def Let_def)

lemma add_process_next:
  assumes "pages_inv s" "free_pages s \<noteq> {}" "cur_node s \<noteq> NULL" "h_snode s (cur_node s) = Some c" "cur_node s \<noteq> next_page s"
  shows "add_process (Suc n) p s = Ret () (entered (cur_node s) (prev_node s)
    ((h_snode s)(next_page s \<mapsto> \<lparr>quantum = QUANTUM, sn_p = p, sn_next = sn_next c\<rparr>, cur_node s \<mapsto> c\<lparr>sn_next := next_page s\<rparr>)) s)"
proof -
  have "prev_node (paged_out s) = prev_node s" by (simp add: paged_out_def released_def pop_page_def)
  then show ?thesis
    using get_page_step [OF assms(1,2), of n] next_page_taken(3) [OF assms(1,2)] assms(3-5)
    by (simp add: add_process_def set_superlock_def unset_superlock_def put_snode_def entered_def Let_def)
qed

lemma exec_init:
  assumes inv: "boot_inv names s" and room: "1 < card (free_pages s)" "free_stacks s \<noteq> {}"
    and s: "cur_node s = NULL" "process_table s = replicate MAX_PROCESSES NULL" "h_snode s = Map.empty"
    and name: "length name < MAX_PROCESS_NAME"
  obtains p x a t where "sys_exec (Suc n) rip params name s = Ret (Switch_To (p_rsp x)) t" "boot_inv names t"
    "h_frame t (p_rsp x) = Some (start_frame rip (p_rsp x) params)" "cur_node t = a" "a \<noteq> NULL" "p \<noteq> NULL"
    "h_snode t = [a \<mapsto> \<lparr>quantum = QUANTUM, sn_p = p, sn_next = a\<rparr>]" "h_proc t p = Some x" "p_pid x = 0" "p_st x = READY"
    "p_name x = name" "process_table t = (replicate MAX_PROCESSES NULL)[0 := p]" "foreground t = p" "p \<notin> free_pages t" "a \<notin> free_pages t"
    "Suc (Suc (card (free_pages t))) = card (free_pages s)" "Suc (card (free_stacks t)) = card (free_stacks s)"
    "free_stacks t = free_stacks s - {stack_page x}" "stack_page x \<in> free_stacks s" "pages_counted x" "owned_pages x = []" "a \<in> data_pages" "a \<noteq> p"
proof -
  have ff: "first_free s = 0" unfolding first_free_def by (rule scan_0_eqI) (simp_all add: s(2))
  have fm: "first_free s < MAX_PROCESSES" "first_free s \<noteq> 0 \<Longrightarrow> current_is NULL zero_process s" by (simp_all add: ff)
  obtain p x t where t: "create_process (Suc n) rip params name s = Ret p t" "p \<in> free_pages s" "p \<noteq> NULL"
    "h_proc t = (h_proc s)(p \<mapsto> x)" "p_pid x = of_nat (first_free s)" "p_st x = READY" "p_name x = name"
    "h_frame t (p_rsp x) = Some (start_frame rip (p_rsp x) params)"
    "process_table t = (process_table s)[first_free s := p]" "foreground t = (if first_free s = 0 then p else foreground s)"
    "free_pages t = free_pages s - {p}" "pages_inv t" "free_pages t \<noteq> {}" "Suc (card (free_pages t)) = card (free_pages s)"
    "Suc (card (free_stacks t)) = card (free_stacks s)" "cur_node t = cur_node s" "h_snode t = h_snode s" "prev_node t = prev_node s"
    "memory_mutex_key t = memory_mutex_key s" "stack_memory_mutex_key t = stack_memory_mutex_key s" "table_mutex_key t = table_mutex_key s"
    "free_stacks t = free_stacks s - {stack_page x}" "stack_page x \<in> free_stacks s" "pages_counted x" "owned_pages x = []"
    "\<forall>c pv R. c \<noteq> NULL \<and> R c \<noteq> None \<longrightarrow> boot_inv names (entered c pv R t)"
    by (rule create_boot [where n = n and rip = rip and params = params, OF inv room fm(1) name fm(2)])
  let ?a = "next_page t" and ?R = "[next_page t \<mapsto> \<lparr>quantum = QUANTUM, sn_p = p, sn_next = next_page t\<rparr>]"
  let ?u = "entered ?a ?a ?R t"
  note page = next_page_taken [OF t(12,13)]
  have "add_process (Suc n) p t = Ret () ?u" using add_process_first [OF t(12,13), of n p] t(16,17) s by simp
  then have "sys_exec (Suc n) rip params name s = Ret (Switch_To (p_rsp x)) ?u"
    using t(1,3-5) page(3) ff by (simp add: sys_exec_def exec_process_def pid_process_def get_rsp_process_def)
  moreover have "?a \<in> data_pages" using page(1) data.free_universe [OF t(12)] by blast
  moreover have "?a \<noteq> p" using page(1) unfolding t(11) by blast
  ultimately show thesis
    using that [of x ?u ?a p] t(3-26) page ff s(2) by auto
qed

lemma exec_next:
  assumes inv: "boot_inv names s" and room: "1 < card (free_pages s)" "free_stacks s \<noteq> {}" "first_free s < MAX_PROCESSES" "first_free s \<noteq> 0"
    and cur: "current_is c y s" "h_snode s (cur_node s) = Some d" "cur_node s \<notin> free_pages s" and name: "length name < MAX_PROCESS_NAME"
  obtains p x a t where "sys_exec (Suc n) rip params name s = Ret (Returns (of_nat (first_free s))) t" "boot_inv names t"
    "h_frame t (p_rsp x) = Some (start_frame rip (p_rsp x) params)" "cur_node t = cur_node s" "a \<noteq> NULL" "p \<noteq> NULL"
    "h_snode t = (h_snode s)(a \<mapsto> \<lparr>quantum = QUANTUM, sn_p = p, sn_next = sn_next d\<rparr>, cur_node s \<mapsto> d\<lparr>sn_next := a\<rparr>)"
    "h_proc t = (h_proc s)(p \<mapsto> x)" "p_pid x = of_nat (first_free s)" "p_st x = READY" "p_name x = name"
    "process_table t = (process_table s)[first_free s := p]" "foreground t = foreground s" "p \<in> free_pages s" "a \<in> free_pages s"
    "Suc (Suc (card (free_pages t))) = card (free_pages s)" "Suc (card (free_stacks t)) = card (free_stacks s)"
    "mem_key t = mem_key s" "stack_key t = stack_key s" "table_key t = table_key s"
proof -
  obtain p x t where t: "create_process (Suc n) rip params name s = Ret p t" "p \<in> free_pages s" "p \<noteq> NULL"
    "h_proc t = (h_proc s)(p \<mapsto> x)" "p_pid x = of_nat (first_free s)" "p_st x = READY" "p_name x = name"
    "h_frame t (p_rsp x) = Some (start_frame rip (p_rsp x) params)"
    "process_table t = (process_table s)[first_free s := p]" "foreground t = (if first_free s = 0 then p else foreground s)"
    "free_pages t = free_pages s - {p}" "pages_inv t" "free_pages t \<noteq> {}" "Suc (card (free_pages t)) = card (free_pages s)"
    "Suc (card (free_stacks t)) = card (free_stacks s)" "cur_node t = cur_node s" "h_snode t = h_snode s" "prev_node t = prev_node s"
    "memory_mutex_key t = memory_mutex_key s" "stack_memory_mutex_key t = stack_memory_mutex_key s" "table_mutex_key t = table_mutex_key s"
    "free_stacks t = free_stacks s - {stack_page x}" "stack_page x \<in> free_stacks s" "pages_counted x" "owned_pages x = []"
    "\<forall>c pv R. c \<noteq> NULL \<and> R c \<noteq> None \<longrightarrow> boot_inv names (entered c pv R t)"
    by (rule create_boot [where n = n and rip = rip and params = params, OF inv room(1-3) name cur(1)])
  let ?a = "next_page t" and ?d = "cur_node s"
  let ?R = "(h_snode s)(?a \<mapsto> \<lparr>quantum = QUANTUM, sn_p = p, sn_next = sn_next d\<rparr>, ?d \<mapsto> d\<lparr>sn_next := ?a\<rparr>)"
  let ?u = "entered ?d (prev_node s) ?R t"
  note page = next_page_taken [OF t(12,13)]
  have c: "?d \<noteq> NULL" using cur(1) by (simp add: current_is_def)
  have ap: "?a \<in> free_pages s" using page(1) unfolding t(11) by (rule DiffD1)
  have ne: "?d \<noteq> ?a" by (rule contrapos_nn [OF cur(3)]) (simp only: ap)
  have "add_process (Suc n) p t = Ret () ?u" using add_process_next [OF t(12,13), of d n p] t(16-18) c cur(2) ne by simp
  moreover have "to_int (of_nat (first_free s)) = int (first_free s)" using room(3) by (intro to_int_of_nat) simp
  ultimately have e: "sys_exec (Suc n) rip params name s = Ret (Returns (of_nat (first_free s))) ?u"
    using t(1,3-5) room(4) by (simp add: sys_exec_def exec_process_def pid_process_def)
  show thesis
    by (rule that [OF e, where x = x and a = ?a and p = p]) (use t(2-26) page room(4) c in auto)
qed

section \<open>From power on to the shell\<close>

lemmas boot_defs = boot_inv_def opened_def pages_inv_def stacks_inv_def table_ok_def in_use_def free_pages_def free_stacks_def mutex_free_def
  mutex_is_open_def mutex_empty_def the_mutex_def keys_distinct_def running_def

lemma boot_inv_global [simp]:
  "boot_inv names (s\<lparr>array_lock := k\<rparr>) = boot_inv names s" "boot_inv names (s\<lparr>fifo_array_lock := k\<rparr>) = boot_inv names s"
  "boot_inv names (s\<lparr>foreground := p\<rparr>) = boot_inv names s"
  by (simp_all add: boot_defs)

lemma free_global [simp]:
  "free_pages (s\<lparr>array_lock := k\<rparr>) = free_pages s" "free_pages (s\<lparr>fifo_array_lock := k\<rparr>) = free_pages s"
  "free_pages (s\<lparr>foreground := p\<rparr>) = free_pages s" "free_pages (s\<lparr>memory_mutex_key := m\<rparr>) = free_pages s"
  "free_pages (s\<lparr>stack_memory_mutex_key := m\<rparr>) = free_pages s" "free_pages (s\<lparr>table_mutex_key := m\<rparr>) = free_pages s"
  "free_stacks (s\<lparr>array_lock := k\<rparr>) = free_stacks s" "free_stacks (s\<lparr>fifo_array_lock := k\<rparr>) = free_stacks s"
  "free_stacks (s\<lparr>foreground := p\<rparr>) = free_stacks s" "free_stacks (s\<lparr>memory_mutex_key := m\<rparr>) = free_stacks s"
  "free_stacks (s\<lparr>stack_memory_mutex_key := m\<rparr>) = free_stacks s" "free_stacks (s\<lparr>table_mutex_key := m\<rparr>) = free_stacks s"
  by (simp_all add: free_pages_def free_stacks_def)

lemma boot_inv_keys:
  assumes inv: "boot_inv names s" "running s"
    and k: "to_int a < int (length names)" "to_int b < int (length names)" "to_int c < int (length names)"
      "0 \<le> to_int a \<Longrightarrow> to_int a \<noteq> to_int b \<and> to_int a \<noteq> to_int c" "0 \<le> to_int b \<Longrightarrow> to_int b \<noteq> to_int c"
  shows "boot_inv names (s\<lparr>memory_mutex_key := a, stack_memory_mutex_key := b, table_mutex_key := c\<rparr>)"
proof -
  let ?t = "s\<lparr>memory_mutex_key := a, stack_memory_mutex_key := b, table_mutex_key := c\<rparr>"
  have op: "opened names ?t" by (rule opened_fewer [of names s]) (use inv in \<open>simp_all add: boot_inv_def free_pages_def\<close>)
  have run: "running ?t" using inv(2) by (simp add: running_def)
  have free: "mutex_free k ?t" for k by (rule opened_free [OF op]) (simp add: run)
  have "pages_inv ?t" "stacks_inv ?t" using inv(1) free by (simp_all add: boot_inv_def pages_inv_def stacks_inv_def free_stacks_def)
  moreover have "table_ok ?t" by (rule table_ok_same [of s]) (use inv in \<open>simp_all add: boot_inv_def free_pages_def\<close>)
  moreover have "keys_distinct ?t" unfolding keys_distinct_def opened_is_open [OF op] using k by simp
  ultimately show ?thesis using inv op run k by (simp add: boot_inv_def)
qed

text \<open>One of the mutexes that \<open>init\<close> opens: its key goes to the variable that \<open>set\<close> updates.\<close>

lemma boot_open_key:
  assumes inv: "boot_inv names s" "running s" "free_pages s \<noteq> {}"
    and name: "name \<notin> set names" "length names < MAX_MUTEXES" "length name < MUTEX_NAME_LEN"
  obtains t where "mutex_open (Suc n) name s = Ret (int (length names)) t" "beside_mutexes s t" "running t"
    "Suc (card (free_pages t)) = card (free_pages s)" "free_pages t \<subseteq> free_pages s"
    "boot_inv (names @ [name]) (t\<lparr>memory_mutex_key := of_int (int (length names))\<rparr>)"
    "boot_inv (names @ [name]) (t\<lparr>stack_memory_mutex_key := of_int (int (length names))\<rparr>)"
    "boot_inv (names @ [name]) (t\<lparr>table_mutex_key := of_int (int (length names))\<rparr>)"
proof -
  obtain t where t: "mutex_open (Suc n) name s = Ret (int (length names)) t" "boot_inv (names @ [name]) t" "beside_mutexes s t"
    "Suc (card (free_pages t)) = card (free_pages s)" "free_pages t \<subseteq> free_pages s"
    by (rule boot_open_mutex [where n = n, OF inv(1,3) name])
  let ?k = "of_int (int (length names)) :: u64"
  have k: "to_int ?k = int (length names)" using to_int_of_nat [OF name(2)] by simp
  have run: "running t" using t(3) inv(2) by (simp add: beside_mutexes_def running_def)
  have old: "mem_key t < int (length names)" "stack_key t < int (length names)" "table_key t < int (length names)" "keys_distinct s"
    using inv(1) t(3) by (simp_all add: boot_inv_def beside_mutexes_def)
  have d: "0 \<le> mem_key t \<Longrightarrow> mem_key t \<noteq> stack_key t \<and> mem_key t \<noteq> table_key t" "0 \<le> stack_key t \<Longrightarrow> stack_key t \<noteq> table_key t"
  proof -
    have "opened (names @ [name]) t" "keys_distinct t" using t(2) by (simp_all add: boot_inv_def)
    then show "0 \<le> mem_key t \<Longrightarrow> mem_key t \<noteq> stack_key t \<and> mem_key t \<noteq> table_key t" "0 \<le> stack_key t \<Longrightarrow> stack_key t \<noteq> table_key t"
      using old by (simp_all add: keys_distinct_def opened_is_open)
  qed
  have "boot_inv (names @ [name]) (t\<lparr>memory_mutex_key := ?k, stack_memory_mutex_key := stack_memory_mutex_key t, table_mutex_key := table_mutex_key t\<rparr>)"
    by (rule boot_inv_keys [OF t(2) run]) (use old d k in auto)
  moreover have "boot_inv (names @ [name]) (t\<lparr>memory_mutex_key := memory_mutex_key t, stack_memory_mutex_key := ?k, table_mutex_key := table_mutex_key t\<rparr>)"
    by (rule boot_inv_keys [OF t(2) run]) (use old d k in auto)
  moreover have "boot_inv (names @ [name]) (t\<lparr>memory_mutex_key := memory_mutex_key t, stack_memory_mutex_key := stack_memory_mutex_key t, table_mutex_key := ?k\<rparr>)"
    by (rule boot_inv_keys [OF t(2) run]) (use old d k in auto)
  ultimately show thesis using that [OF t(1,3) run t(4,5)] by simp
qed

abbreviation kernel_locks :: "string list" where
  "kernel_locks \<equiv> [''__COND_ARRAY_LOCK__'', ''__FIFO_ARRAY_MUTEX__'', ''__MEMORY_MUTEX__'', ''__STACK_MEMORY_MUTEX__'', ''__PROCESS_TABLE_MUTEX__'']"

lemma main_start_ok:
  obtains p x a t where "main_start (Suc n) vesa init (power_on jp jb ja mem v) = Ret (Switch_To (p_rsp x)) t" "boot_inv (take 2 kernel_locks) t"
    "h_frame t (p_rsp x) = Some (start_frame init (p_rsp x) 0)" "cur_node t = a" "a \<noteq> NULL" "p \<noteq> NULL"
    "h_snode t = [a \<mapsto> \<lparr>quantum = QUANTUM, sn_p = p, sn_next = a\<rparr>]" "h_proc t p = Some x" "p_pid x = 0" "p_st x = READY"
    "process_table t = (replicate MAX_PROCESSES NULL)[0 := p]" "foreground t = p" "p \<notin> free_pages t" "a \<notin> free_pages t"
    "card (free_pages t) = 251" "card (free_stacks t) = 127"
    "process_stacks - free_stacks t = {stack_page x}" "pages_counted x" "owned_pages x = []" "a \<in> data_pages" "a \<noteq> p"
proof -
  let ?s0 = "(power_on jp jb ja mem v)\<lparr>screen := load_vDriver vesa (screen (power_on jp jb ja mem v))\<rparr>"
  let ?s = "initialize_stack_memory_allocator (initialize_memory_allocator ?s0)"
  note s = boot_inv_power_on [where jp = jp and jb = jb and ja = ja and mem = mem and v = v
      and w = "load_vDriver vesa (screen (power_on jp jb ja mem v))"]
  have ne: "free_pages ?s \<noteq> {}" using s(2) by auto
  obtain t1 where t1: "mutex_open (Suc n) ''__COND_ARRAY_LOCK__'' ?s = Ret (int (length [])) t1" "boot_inv ([] @ [''__COND_ARRAY_LOCK__'']) t1"
    "beside_mutexes ?s t1" "Suc (card (free_pages t1)) = card (free_pages ?s)" "free_pages t1 \<subseteq> free_pages ?s"
    by (rule boot_open_mutex [where n = n and name = "''__COND_ARRAY_LOCK__''", OF s(1) ne]) simp_all
  let ?u1 = "t1\<lparr>array_lock := 0\<rparr>"
  have u1: "boot_inv [''__COND_ARRAY_LOCK__''] ?u1" "free_pages ?u1 \<noteq> {}" "card (free_pages ?u1) = 254" using t1(2,4) s(2) by auto
  obtain t2 where t2: "mutex_open (Suc n) ''__FIFO_ARRAY_MUTEX__'' ?u1 = Ret (int (length [''__COND_ARRAY_LOCK__''])) t2"
    "boot_inv ([''__COND_ARRAY_LOCK__''] @ [''__FIFO_ARRAY_MUTEX__'']) t2"
    "beside_mutexes ?u1 t2" "Suc (card (free_pages t2)) = card (free_pages ?u1)" "free_pages t2 \<subseteq> free_pages ?u1"
    by (rule boot_open_mutex [where n = n and name = "''__FIFO_ARRAY_MUTEX__''", OF u1(1,2)]) simp_all
  let ?u2 = "t2\<lparr>fifo_array_lock := 1\<rparr>"
  have stacks: "free_stacks ?u2 = free_stacks ?s" using t1(3) t2(3) by (simp add: beside_mutexes_def free_stacks_def)
  have u2: "boot_inv (take 2 kernel_locks) ?u2" "1 < card (free_pages ?u2)" "free_stacks ?u2 \<noteq> {}" "cur_node ?u2 = NULL"
    "process_table ?u2 = replicate MAX_PROCESSES NULL" "h_snode ?u2 = Map.empty" "card (free_pages ?u2) = 253" "card (free_stacks ?u2) = 128"
    using t1(3) t2(2-4) u1(3) s(3,5-7) stacks by (auto simp: beside_mutexes_def)
  obtain p x a t where t: "sys_exec (Suc n) init 0 ''init'' ?u2 = Ret (Switch_To (p_rsp x)) t" "boot_inv (take 2 kernel_locks) t"
    "h_frame t (p_rsp x) = Some (start_frame init (p_rsp x) 0)" "cur_node t = a" "a \<noteq> NULL" "p \<noteq> NULL"
    "h_snode t = [a \<mapsto> \<lparr>quantum = QUANTUM, sn_p = p, sn_next = a\<rparr>]" "h_proc t p = Some x" "p_pid x = 0" "p_st x = READY"
    "p_name x = ''init''" "process_table t = (replicate MAX_PROCESSES NULL)[0 := p]" "foreground t = p" "p \<notin> free_pages t" "a \<notin> free_pages t"
    "Suc (Suc (card (free_pages t))) = card (free_pages ?u2)" "Suc (card (free_stacks t)) = card (free_stacks ?u2)"
    "free_stacks t = free_stacks ?u2 - {stack_page x}" "stack_page x \<in> free_stacks ?u2" "pages_counted x" "owned_pages x = []" "a \<in> data_pages" "a \<noteq> p"
    by (rule exec_init [where n = n and rip = init and params = 0 and name = "''init''", OF u2(1-6)]) simp_all
  have "main_start (Suc n) vesa init (power_on jp jb ja mem v) = Ret (Switch_To (p_rsp x)) t"
    using t1(1) t2(1) t(1) by (simp add: main_start_def initialize_conditional_variable_def initialize_fifo_mutex_def Let_def)
  moreover have "process_stacks - free_stacks t = {stack_page x}" using t(18,19) s(4) unfolding stacks by blast
  ultimately show thesis using that t(2-10,12-17,20-23) u2(7,8) by auto
qed

lemma init_mutexes_ok:
  assumes inv: "boot_inv (take 2 kernel_locks) t" "running t" "card (free_pages t) = 251"
  obtains u1 u2 u where "initialize_memory_allocator_mutex (Suc n) t = Ret () u1" "initialize_stack_memory_allocator_mutex (Suc n) u1 = Ret () u2"
    "initialize_process_mutex (Suc n) u2 = Ret () u" "boot_inv kernel_locks u" "card (free_pages u) = 248" "free_pages u \<subseteq> free_pages t"
    "h_proc u = h_proc t" "h_snode u = h_snode t" "cur_node u = cur_node t" "process_table u = process_table t" "foreground u = foreground t"
    "mem_key u = 2" "stack_key u = 3" "table_key u = 4" "free_stacks u = free_stacks t"
proof -
  have some: "free_pages u \<noteq> {}" if "card (free_pages u) > 0" for u using that by auto
  obtain t1 where t1: "mutex_open (Suc n) ''__MEMORY_MUTEX__'' t = Ret (int (length (take 2 kernel_locks))) t1" "beside_mutexes t t1" "running t1"
    "Suc (card (free_pages t1)) = card (free_pages t)" "free_pages t1 \<subseteq> free_pages t"
    "boot_inv (take 2 kernel_locks @ [''__MEMORY_MUTEX__'']) (t1\<lparr>memory_mutex_key := of_int (int (length (take 2 kernel_locks)))\<rparr>)"
    by (rule boot_open_key [where n = n and name = "''__MEMORY_MUTEX__''", OF inv(1,2)]) (use some inv(3) in simp_all)
  let ?u1 = "t1\<lparr>memory_mutex_key := 2\<rparr>"
  have u1: "boot_inv (take 3 kernel_locks) ?u1" "running ?u1" "card (free_pages ?u1) = 250" using t1 inv(3) by (simp_all add: running_def)
  obtain t2 where t2: "mutex_open (Suc n) ''__STACK_MEMORY_MUTEX__'' ?u1 = Ret (int (length (take 3 kernel_locks))) t2" "beside_mutexes ?u1 t2" "running t2"
    "Suc (card (free_pages t2)) = card (free_pages ?u1)" "free_pages t2 \<subseteq> free_pages ?u1"
    "boot_inv (take 3 kernel_locks @ [''__STACK_MEMORY_MUTEX__'']) (t2\<lparr>stack_memory_mutex_key := of_int (int (length (take 3 kernel_locks)))\<rparr>)"
    by (rule boot_open_key [where n = n and name = "''__STACK_MEMORY_MUTEX__''", OF u1(1,2)]) (use some [of ?u1] u1(3) in simp_all)
  let ?u2 = "t2\<lparr>stack_memory_mutex_key := 3\<rparr>"
  have u2: "boot_inv (take 4 kernel_locks) ?u2" "running ?u2" "card (free_pages ?u2) = 249" using t2 u1(3) by (simp_all add: running_def)
  obtain t3 where t3: "mutex_open (Suc n) ''__PROCESS_TABLE_MUTEX__'' ?u2 = Ret (int (length (take 4 kernel_locks))) t3" "beside_mutexes ?u2 t3" "running t3"
    "Suc (card (free_pages t3)) = card (free_pages ?u2)" "free_pages t3 \<subseteq> free_pages ?u2"
    "boot_inv (take 4 kernel_locks @ [''__PROCESS_TABLE_MUTEX__'']) (t3\<lparr>table_mutex_key := of_int (int (length (take 4 kernel_locks)))\<rparr>)"
    by (rule boot_open_key [where n = n and name = "''__PROCESS_TABLE_MUTEX__''", OF u2(1,2)]) (use some [of ?u2] u2(3) in simp_all)
  let ?u = "t3\<lparr>table_mutex_key := 4\<rparr>"
  have "h_proc ?u = h_proc t" "h_snode ?u = h_snode t" "cur_node ?u = cur_node t" "process_table ?u = process_table t" "foreground ?u = foreground t"
    "mem_key ?u = to_int 2" "stack_key ?u = to_int 3" "table_key ?u = to_int 4" "free_stacks ?u = free_stacks t"
    using t1(2) t2(2) t3(2) by (simp_all add: beside_mutexes_def free_stacks_def)
  moreover have "free_pages ?u \<subseteq> free_pages t" using t1(5) t2(5) t3(5) by auto
  moreover have "boot_inv kernel_locks ?u" "card (free_pages ?u) = 248" using t3 u2(3) by simp_all
  moreover have "initialize_memory_allocator_mutex (Suc n) t = Ret () ?u1" "initialize_stack_memory_allocator_mutex (Suc n) ?u1 = Ret () ?u2"
    "initialize_process_mutex (Suc n) ?u2 = Ret () ?u"
    using t1(1) t2(1) t3(1)
    by (simp_all add: initialize_memory_allocator_mutex_def initialize_stack_memory_allocator_mutex_def initialize_process_mutex_def)
  moreover have "to_int 2 = 2" "to_int 3 = 3" "to_int 4 = 4" using to_int_of_nat [of 2] to_int_of_nat [of 3] to_int_of_nat [of 4] by simp_all
  ultimately show thesis using that [of ?u1 ?u2 ?u] by simp
qed

lemma init_start_ok:
  assumes inv: "boot_inv (take 2 kernel_locks) t" "cur_node t = a" "a \<noteq> NULL" "p \<noteq> NULL"
    and ring: "h_snode t = [a \<mapsto> \<lparr>quantum = QUANTUM, sn_p = p, sn_next = a\<rparr>]" "h_proc t p = Some x" "p_pid x = 0" "p_st x = READY"
    and table: "process_table t = (replicate MAX_PROCESSES NULL)[0 := p]" "foreground t = p" "p \<notin> free_pages t" "a \<notin> free_pages t"
      "card (free_pages t) = 251" "card (free_stacks t) = 127"
  obtains q y b s where "init_start (Suc n) shell t = Ret (Returns ()) s" "boot_inv kernel_locks s" "cur_node s = a" "a \<noteq> b" "b \<noteq> NULL" "q \<noteq> NULL"
    "h_snode s = [a \<mapsto> \<lparr>quantum = QUANTUM, sn_p = p, sn_next = b\<rparr>, b \<mapsto> \<lparr>quantum = QUANTUM, sn_p = q, sn_next = a\<rparr>]"
    "h_proc s p = Some x" "h_proc s q = Some y" "p_pid y = 1" "p_st y = READY" "p_name y = ''shell''"
    "h_frame s (p_rsp y) = Some (start_frame shell (p_rsp y) 0)"
    "process_table s = [p, q] @ replicate 126 NULL" "foreground s = q" "card (free_pages s) = 246" "card (free_stacks s) = 126"
    "mem_key s = 2" "stack_key s = 3" "table_key s = 4"
proof -
  have run: "running t" using inv ring by (simp add: running_def)
  obtain u1 u2 u where m: "initialize_memory_allocator_mutex (Suc n) t = Ret () u1" "initialize_stack_memory_allocator_mutex (Suc n) u1 = Ret () u2"
    "initialize_process_mutex (Suc n) u2 = Ret () u" "boot_inv kernel_locks u" "card (free_pages u) = 248" and sub: "free_pages u \<subseteq> free_pages t"
    and same: "h_proc u = h_proc t" "h_snode u = h_snode t" "cur_node u = cur_node t" "process_table u = process_table t" "foreground u = foreground t"
    "mem_key u = 2" "stack_key u = 3" "table_key u = 4" "free_stacks u = free_stacks t"
    by (rule init_mutexes_ok [where n = n, OF inv(1) run table(5)])
  have ff: "first_free u = 1" unfolding first_free_def by (rule scan_0_eqI) (use inv(4) in \<open>simp_all add: same(4) table(1)\<close>)
  have cur: "current_is p x u" "h_snode u (cur_node u) = Some \<lparr>quantum = QUANTUM, sn_p = p, sn_next = a\<rparr>" "cur_node u \<notin> free_pages u"
    using same ring inv(2-4) sub table(3,4) by (auto simp: current_is_def)
  have room: "1 < card (free_pages u)" "free_stacks u \<noteq> {}" "first_free u < MAX_PROCESSES" "first_free u \<noteq> 0"
    using m(5) same(9) table(6) ff by auto
  obtain q y b s where s: "sys_exec (Suc n) shell 0 ''shell'' u = Ret (Returns (of_nat (first_free u))) s" "boot_inv kernel_locks s"
    "h_frame s (p_rsp y) = Some (start_frame shell (p_rsp y) 0)" "cur_node s = cur_node u" "b \<noteq> NULL" "q \<noteq> NULL"
    "h_snode s = (h_snode u)(b \<mapsto> \<lparr>quantum = QUANTUM, sn_p = q, sn_next = sn_next \<lparr>quantum = QUANTUM, sn_p = p, sn_next = a\<rparr>\<rparr>,
       cur_node u \<mapsto> \<lparr>quantum = QUANTUM, sn_p = p, sn_next = a\<rparr>\<lparr>sn_next := b\<rparr>)"
    "h_proc s = (h_proc u)(q \<mapsto> y)" "p_pid y = of_nat (first_free u)" "p_st y = READY" "p_name y = ''shell''"
    "process_table s = (process_table u)[first_free u := q]" "foreground s = foreground u" "q \<in> free_pages u" "b \<in> free_pages u"
    "Suc (Suc (card (free_pages s))) = card (free_pages u)" "Suc (card (free_stacks s)) = card (free_stacks u)"
    "mem_key s = mem_key u" "stack_key s = stack_key u" "table_key s = table_key u"
    by (rule exec_next [where n = n and rip = shell and params = 0 and name = "''shell''", OF m(4) room cur]) simp_all
  have ne: "a \<noteq> b" "p \<noteq> q" using s(14,15) sub table(3,4) by auto
  have nodes: "h_snode s = [a \<mapsto> \<lparr>quantum = QUANTUM, sn_p = p, sn_next = b\<rparr>, b \<mapsto> \<lparr>quantum = QUANTUM, sn_p = q, sn_next = a\<rparr>]"
    using s(7) same(2,3) inv(2) ring(1) ne(1) by (simp add: fun_upd_twist)
  have procs: "h_proc s p = Some x" "h_proc s q = Some y" using s(8) same(1) ring(2) ne(2) by simp_all
  have pt: "process_table s = [p, q] @ replicate 126 NULL"
    using s(12) same(4) table(1) ff by (simp add: numeral_eq_Suc)
  have pid: "get_process_by_pid 1 s = Ret q s"
    using pt s(6,10) procs(2) by (simp add: get_process_by_pid_def is_delete_process_def)
  have "set_foreground_process q s = Ret () (s\<lparr>foreground := q\<rparr>)"
    using s(4,6,9,10,13) same(3,5) inv(2,3) table(2) nodes procs(2) ff ne
    by (simp add: set_foreground_process_def get_current_process_def set_foreground_force_process_def unblock_foreground_process_def)
  then have "init_start (Suc n) shell t = Ret (Returns ()) (s\<lparr>foreground := q\<rparr>)"
    using m(1-3) s(1) pid by (simp add: init_start_def)
  then show thesis
    using that [of "s\<lparr>foreground := q\<rparr>" b q y] s(2-6,9-11,16-20) same(3,6-9) inv(2) ne nodes procs pt ff m(5) table(6) by simp
qed

text \<open>
  C5. From power on, whatever the memory holds: \<open>main\<close> leaves for the process \<open>init\<close>, at the entry point of the function, and \<open>init\<close> starts
  the shell and reaches its idle loop. There the kernel satisfies all invariants that the other theorems assume: the allocators and the table
  are consistent, guarded by three different open mutexes that nobody holds, the table and the ring contain exactly \<open>init\<close> (pid 0) and the
  shell (pid 1), both ready to run from their entry points, the shell is in the foreground, and exactly nine pages and two stacks are in use.
\<close>

theorem boot_reaches_shell:
  "\<exists>M rsp s a b p q x y.
    main (Suc n) m irq00 irq01 syscall yield vesa init \<lparr>kern = power_on jp jb ja mem v, idt = ds, console = c\<rparr> = Ret (Switch_To rsp) M \<and>
    h_frame (kern M) rsp = Some (start_frame init rsp 0) \<and> init_start (Suc n) shell (kern M) = Ret (Returns ()) s \<and>
    kernel_inv s \<and> table_ok s \<and> opened kernel_locks s \<and> mem_key s = 2 \<and> stack_key s = 3 \<and> table_key s = 4 \<and>
    (\<forall>k. mutex_free k s) \<and> process_table s = [p, q] @ replicate 126 NULL \<and> settled s [(a, p), (b, q)] \<and>
    h_proc s p = Some x \<and> h_proc s q = Some y \<and> p_pid x = 0 \<and> p_pid y = 1 \<and> runs s p \<and> runs s q \<and> p_name y = ''shell'' \<and>
    h_frame s (p_rsp y) = Some (start_frame shell (p_rsp y) 0) \<and> foreground s = q \<and>
    card (free_pages s) = 246 \<and> card (free_stacks s) = 126"
proof -
  obtain p x a t where t: "main_start (Suc n) vesa init (power_on jp jb ja mem v) = Ret (Switch_To (p_rsp x)) t" "boot_inv (take 2 kernel_locks) t"
    "h_frame t (p_rsp x) = Some (start_frame init (p_rsp x) 0)" "cur_node t = a" "a \<noteq> NULL" "p \<noteq> NULL"
    "h_snode t = [a \<mapsto> \<lparr>quantum = QUANTUM, sn_p = p, sn_next = a\<rparr>]" "h_proc t p = Some x" "p_pid x = 0" "p_st x = READY"
    "process_table t = (replicate MAX_PROCESSES NULL)[0 := p]" "foreground t = p" "p \<notin> free_pages t" "a \<notin> free_pages t"
    "card (free_pages t) = 251" "card (free_stacks t) = 127"
    "process_stacks - free_stacks t = {stack_page x}" "pages_counted x" "owned_pages x = []" "a \<in> data_pages" "a \<noteq> p"
    by (rule main_start_ok [where n = n and vesa = vesa and init = init and jp = jp and jb = jb and ja = ja and mem = mem and v = v])
  obtain q y b s where s: "init_start (Suc n) shell t = Ret (Returns ()) s" "boot_inv kernel_locks s" "cur_node s = a" "a \<noteq> b" "b \<noteq> NULL" "q \<noteq> NULL"
    "h_snode s = [a \<mapsto> \<lparr>quantum = QUANTUM, sn_p = p, sn_next = b\<rparr>, b \<mapsto> \<lparr>quantum = QUANTUM, sn_p = q, sn_next = a\<rparr>]"
    "h_proc s p = Some x" "h_proc s q = Some y" "p_pid y = 1" "p_st y = READY" "p_name y = ''shell''"
    "h_frame s (p_rsp y) = Some (start_frame shell (p_rsp y) 0)"
    "process_table s = [p, q] @ replicate 126 NULL" "foreground s = q" "card (free_pages s) = 246" "card (free_stacks s) = 126"
    "mem_key s = 2" "stack_key s = 3" "table_key s = 4"
    by (rule init_start_ok [where n = n and shell = shell, OF t(2,4-16)])
  let ?M = "\<lparr>kern = t, idt = load_idt irq00 irq01 syscall yield ds, console = c\<rparr>"
  have main: "main (Suc n) m irq00 irq01 syscall yield vesa init \<lparr>kern = power_on jp jb ja mem v, idt = ds, console = c\<rparr> = Ret (Switch_To (p_rsp x)) ?M"
    using t(1) by (simp add: main_def)
  have runs: "runs s p" "runs s q" using s(8,9,11) t(10) by (simp_all add: runs_def)
  have settled: "settled s [(a, p), (b, q)]"
    using s(2-7) t(5,6) runs by (auto simp: settled_def ring_of_def boot_inv_def)
  have inv: "kernel_inv s" "table_ok s" "opened kernel_locks s" "running s"
    using boot_inv_kernel [OF s(2)] s(2,3,7) t(5) by (simp_all add: boot_inv_def running_def)
  have "mutex_free k s" for k by (rule opened_free [OF inv(3)]) (simp add: inv(4))
  then show ?thesis
    by (intro exI [of _ ?M] exI [of _ "p_rsp x"] exI [of _ s] exI [of _ a] exI [of _ b] exI [of _ p] exI [of _ q] exI [of _ x] exI [of _ y])
      (simp add: main t(3,9) s inv settled runs)
qed

end
