(* ===== verification/Kernel_Runs.thy ===== *)
theory Kernel_Runs
  imports Boot "HOL-Library.Multiset"
begin

text \<open>
  The running kernel: what the parts together guarantee for every sequence of steps from power on. The steps are creating and ending processes,
  timer interrupts, blocking and waking, memory requests and changes of the foreground. The theory shows that in every
  state that they reach the table, the ring and the allocators agree: no page and no stack belongs to two processes, and none is lost.
\<close>

section \<open>What the processes hold\<close>

definition the_proc :: "kstate \<Rightarrow> ptr \<Rightarrow> process" where
  "the_proc s p = the (h_proc s p)"

text \<open>For every node of the ring: the node, the page of its process, and the data pages of the process; and the stacks.\<close>

definition held :: "kstate \<Rightarrow> ptr \<times> ptr \<Rightarrow> ptr list" where
  "held s w = fst w # snd w # owned_pages (the_proc s (snd w))"

definition holdings :: "kstate \<Rightarrow> (ptr \<times> ptr) list \<Rightarrow> ptr list" where
  "holdings s ns = concat (map (held s) ns)"

definition stacks_of :: "kstate \<Rightarrow> (ptr \<times> ptr) list \<Rightarrow> u64 list" where
  "stacks_of s ns = map (\<lambda>w. stack_page (the_proc s (snd w))) ns"

lemma holdings_simps [simp]:
  "holdings s [] = []" "holdings s (w # ns) = held s w @ holdings s ns" "holdings s (ms @ ns) = holdings s ms @ holdings s ns"
  by (simp_all add: holdings_def)

lemma stacks_of_simps [simp]:
  "stacks_of s [] = []" "stacks_of s (w # ns) = stack_page (the_proc s (snd w)) # stacks_of s ns"
  "stacks_of s (ms @ ns) = stacks_of s ms @ stacks_of s ns" "length (stacks_of s ns) = length ns"
  by (simp_all add: stacks_of_def)

text \<open>Processes that keep their pages and their stack.\<close>

definition keeps :: "kstate \<Rightarrow> kstate \<Rightarrow> ptr \<Rightarrow> bool" where
  "keeps s t p \<longleftrightarrow> data_page (the_proc t p) = data_page (the_proc s p) \<and> n_data_page (the_proc t p) = n_data_page (the_proc s p) \<and>
     stack_page (the_proc t p) = stack_page (the_proc s p) \<and> p_pid (the_proc t p) = p_pid (the_proc s p)"

lemma keeps_holdings:
  assumes "\<And>w. w \<in> set ns \<Longrightarrow> keeps s t (snd w)"
  shows "holdings t ns = holdings s ns" "stacks_of t ns = stacks_of s ns"
  using assms by (induction ns) (auto simp: keeps_def held_def owned_pages_def)

lemma mset_holdings: "mset (holdings s ns) = sum_mset (image_mset (\<lambda>w. mset (held s w)) (mset ns))"
  by (induction ns) simp_all

lemma mset_stacks: "mset (stacks_of s ns) = image_mset (\<lambda>w. stack_page (the_proc s (snd w))) (mset ns)"
  by (induction ns) simp_all

text \<open>The order of the ring does not matter.\<close>

lemma permuted_holdings:
  assumes "mset ms = mset ns"
  shows "set (holdings s ms) = set (holdings s ns)" "distinct (holdings s ms) = distinct (holdings s ns)"
    "set (stacks_of s ms) = set (stacks_of s ns)" "distinct (stacks_of s ms) = distinct (stacks_of s ns)"
proof -
  have m: "mset (holdings s ms) = mset (holdings s ns)" "mset (stacks_of s ms) = mset (stacks_of s ns)"
    using assms by (simp_all add: mset_holdings mset_stacks)
  show "set (holdings s ms) = set (holdings s ns)" "set (stacks_of s ms) = set (stacks_of s ns)"
    using mset_eq_setD [OF m(1)] mset_eq_setD [OF m(2)] by simp_all
  show "distinct (holdings s ms) = distinct (holdings s ns)" "distinct (stacks_of s ms) = distinct (stacks_of s ns)"
    using mset_eq_imp_distinct_iff [OF m(1)] mset_eq_imp_distinct_iff [OF m(2)] by simp_all
qed

section \<open>The invariant\<close>

text \<open>\<open>Q\<close> are the pages of the queues of the mutexes of the kernel; \<open>ns\<close> is the ring, the running process first.\<close>

definition kernel_ok :: "ptr set \<Rightarrow> (ptr \<times> ptr) list \<Rightarrow> kstate \<Rightarrow> bool" where
  "kernel_ok Q ns s \<longleftrightarrow>
     kernel_inv s \<and> table_ok s \<and> superlock s = UNLOCKED \<and> ring_of s ns \<and>
     (\<forall>w \<in> set ns. snd w \<noteq> NULL \<and> (waits s (snd w) \<or> runs s (snd w)) \<and> pages_counted (the_proc s (snd w))) \<and>
     set (process_table s) - {NULL} = snd ` set ns \<and> process_table s ! 0 \<noteq> NULL \<and>
     distinct (holdings s ns) \<and> Q \<inter> set (holdings s ns) = {} \<and> in_use s = Q \<union> set (holdings s ns) \<and>
     distinct (stacks_of s ns) \<and> process_stacks - free_stacks s = set (stacks_of s ns) \<and>
     (p_pid (the_proc s (snd (hd ns))) \<noteq> 0 \<longrightarrow> prev_node s = fst (last ns))"

lemma kernel_okD:
  assumes "kernel_ok Q ns s"
  shows "kernel_inv s" "table_ok s" "superlock s = UNLOCKED" "ring_of s ns"
    "\<forall>w \<in> set ns. snd w \<noteq> NULL \<and> (waits s (snd w) \<or> runs s (snd w)) \<and> pages_counted (the_proc s (snd w))"
    "set (process_table s) - {NULL} = snd ` set ns" "process_table s ! 0 \<noteq> NULL"
    "distinct (holdings s ns)" "Q \<inter> set (holdings s ns) = {}" "in_use s = Q \<union> set (holdings s ns)"
    "distinct (stacks_of s ns)" "process_stacks - free_stacks s = set (stacks_of s ns)"
    "p_pid (the_proc s (snd (hd ns))) \<noteq> 0 \<Longrightarrow> prev_node s = fst (last ns)"
  using assms unfolding kernel_ok_def by blast+

lemma kernel_ok_known:
  assumes "kernel_ok Q ns s" "w \<in> set ns"
  obtains x where "snd w \<noteq> NULL" "h_proc s (snd w) = Some x" "the_proc s (snd w) = x"
  using assms by (fastforce simp: kernel_ok_def waits_def runs_def the_proc_def split: option.splits)

text \<open>The first process of the table, \<open>init\<close>, has pid 0, and it is in the ring.\<close>

lemma kernel_ok_init:
  assumes "kernel_ok Q ns s"
  obtains w where "w \<in> set ns" "snd w = process_table s ! 0" "p_pid (the_proc s (snd w)) = 0"
proof -
  note k = kernel_okD [OF assms]
  have "process_table s ! 0 \<in> set (process_table s)" using k(2) by (simp add: table_ok_def)
  then have "process_table s ! 0 \<in> snd ` set ns" unfolding k(6) [symmetric] using k(7) by blast
  then obtain w where w: "w \<in> set ns" "snd w = process_table s ! 0" by auto
  obtain x where "h_proc s (process_table s ! 0) = Some x" "p_pid x = of_nat 0" by (rule table_entry [OF k(2), of 0]) (use k(7) in simp_all)
  then show thesis using that w by (simp add: the_proc_def)
qed

lemma kernel_ok_alone:
  assumes ok: "kernel_ok Q ((a, p) # rest) s" and p: "p_pid (the_proc s p) \<noteq> 0"
  shows "rest \<noteq> []"
proof -
  obtain w where "w \<in> set ((a, p) # rest)" "p_pid (the_proc s (snd w)) = 0" by (rule kernel_ok_init [OF ok])
  then show ?thesis using p by auto
qed

lemma kernel_stacks_sub: "kernel_inv s \<Longrightarrow> free_stacks s \<subseteq> process_stacks"
  using stacks.free_universe [of s] by (simp add: kernel_inv_def)

lemma kernel_ok_entry:
  assumes "kernel_ok Q ns s" "w \<in> set ns"
  obtains i where "i < MAX_PROCESSES" "process_table s ! i = snd w" "p_pid (the_proc s (snd w)) = of_nat i"
proof -
  have "snd w \<in> set (process_table s)" "snd w \<noteq> NULL" "table_ok s" using assms by (auto simp: kernel_ok_def)
  then obtain i where i: "i < MAX_PROCESSES" "process_table s ! i = snd w" by (auto simp: in_set_conv_nth table_ok_def)
  then obtain x where "h_proc s (process_table s ! i) = Some x" "p_pid x = of_nat i"
    using table_entry [of s i] \<open>table_ok s\<close> \<open>snd w \<noteq> NULL\<close> by metis
  then show thesis using that i by (simp add: the_proc_def)
qed

lemma held_nodes: "fst ` set ns \<union> snd ` set ns \<subseteq> set (holdings s ns)"
  by (induction ns) (auto simp: held_def)

lemma distinct_held:
  assumes "distinct (holdings s ns)"
  shows "distinct (map fst ns) \<and> distinct (map snd ns) \<and> fst ` set ns \<inter> snd ` set ns = {}"
  using assms
proof (induction ns)
  case (Cons w ns)
  then have "{fst w, snd w} \<inter> set (holdings s ns) = {}" "fst w \<noteq> snd w" by (auto simp: held_def)
  then have "fst w \<notin> fst ` set ns \<union> snd ` set ns" "snd w \<notin> fst ` set ns \<union> snd ` set ns" using held_nodes [of ns s] by blast+
  with Cons \<open>fst w \<noteq> snd w\<close> show ?case by auto
qed simp

lemma kernel_ok_length:
  assumes ok: "kernel_ok Q ns s"
  shows "length ns \<le> MAX_PROCESSES"
proof -
  have "distinct (map snd ns)" using distinct_held [of s ns] ok by (simp add: kernel_ok_def)
  then have "length ns = card (snd ` set ns)" using distinct_card [of "map snd ns"] by simp
  also have "\<dots> = card (set (process_table s) - {NULL})" using ok by (simp add: kernel_ok_def)
  also have "\<dots> \<le> card (set (process_table s))" by (rule card_mono) auto
  also have "\<dots> \<le> length (process_table s)" by (rule card_length)
  finally show ?thesis using ok by (simp add: kernel_ok_def table_ok_def)
qed

text \<open>Steps that change neither the ring, up to its order, nor what the processes hold.\<close>

lemma kernel_ok_frame:
  assumes ok: "kernel_ok Q ns s" and t: "kernel_inv t" "superlock t = UNLOCKED" "ring_of t ms" "mset ms = mset ns"
    "process_table t = process_table s" "n_processes t = n_processes s" "free_pages t = free_pages s" "free_stacks t = free_stacks s"
    and keep: "\<And>w. w \<in> set ns \<Longrightarrow> keeps s t (snd w) \<and> (waits t (snd w) \<or> runs t (snd w))"
    and prev: "p_pid (the_proc s (snd (hd ms))) \<noteq> 0 \<Longrightarrow> prev_node t = fst (last ms)"
  shows "kernel_ok Q ms t"
proof -
  have set: "set ms = set ns" using mset_eq_setD [OF t(4)] .
  have keeps: "keeps s t (snd w)" if "w \<in> set ms" for w using keep that set by simp
  note h = keeps_holdings [OF keeps, of ms, simplified] permuted_holdings [OF t(4), of s]
  have "process_table s ! i \<in> in_use t \<and> (\<exists>x. h_proc t (process_table s ! i) = Some x \<and> p_pid x = of_nat i)"
    if i: "i < MAX_PROCESSES" "process_table s ! i \<noteq> NULL" for i
  proof -
    have s: "table_ok s" "set (process_table s) - {NULL} = snd ` set ns" using ok by (simp_all add: kernel_ok_def)
    obtain x where x: "h_proc s (process_table s ! i) = Some x" "p_pid x = of_nat i" "process_table s ! i \<in> in_use s"
      by (rule table_entry [OF s(1) i])
    have "process_table s ! i \<in> set (process_table s)" using s(1) i(1) by (simp add: table_ok_def)
    then obtain w where w: "w \<in> set ns" "process_table s ! i = snd w" using s(2) i(2) by blast
    then obtain y where "h_proc t (snd w) = Some y" using keep [OF w(1)] by (auto simp: waits_def runs_def split: option.splits)
    then show ?thesis using keep [OF w(1)] w x t(7) by (auto simp: keeps_def the_proc_def in_use_def)
  qed
  then have "table_ok t" using ok unfolding kernel_ok_def table_ok_def t(5,6) by blast
  moreover have "pages_counted (the_proc t (snd w))" if "w \<in> set ns" for w
    using keep [OF that] ok that by (auto simp: keeps_def kernel_ok_def pages_counted_def owned_pages_def)
  moreover have "p_pid (the_proc t (snd (hd ms))) = p_pid (the_proc s (snd (hd ms)))"
    using keeps [of "hd ms"] t(3) by (cases ms) (auto simp: keeps_def ring_of_def)
  ultimately show ?thesis
    using ok t keep prev h set by (simp add: kernel_ok_def in_use_def)
qed

section \<open>Steps that keep the ring\<close>

lemma kernel_ok_ring:
  assumes "kernel_ok Q ns s"
  obtains a p rest c x where "ns = (a, p) # rest" "cur_node s = a" "a \<noteq> NULL" "h_snode s a = Some c" "sn_p c = p" "p \<noteq> NULL"
    "h_proc s p = Some x" "pages_counted x" "runs s p \<or> waits s p" "the_proc s p = x"
proof -
  have ring: "ring_of s ns" using assms by (simp add: kernel_ok_def)
  then obtain w rest where ns: "ns = w # rest" by (cases ns) (auto simp: ring_of_def)
  obtain c where c: "cur_node s = fst w" "fst w \<noteq> NULL" "h_snode s (fst w) = Some c" "sn_p c = snd w"
    by (rule ring_step [OF ring [unfolded ns]])
  obtain x where "snd w \<noteq> NULL" "h_proc s (snd w) = Some x" "the_proc s (snd w) = x"
    by (rule kernel_ok_known [OF assms, of w]) (use ns in auto)
  moreover have "pages_counted (the_proc s (snd w))" "runs s (snd w) \<or> waits s (snd w)" using assms ns by (auto simp: kernel_ok_def)
  ultimately show thesis using that [of "fst w" "snd w" rest c x] ns c by simp
qed

lemma kernel_inv_ring:
  assumes "kernel_inv s" "ring_of t ns" "open_mutexes t = open_mutexes s" "h_queue t = h_queue s" "memory_mutex_key t = memory_mutex_key s"
    "stack_memory_mutex_key t = stack_memory_mutex_key s" "table_mutex_key t = table_mutex_key s"
    "pages_stack t = pages_stack s" "current_index t = current_index s" "stack_pages_stack t = stack_pages_stack s"
    "current_stack_index t = current_stack_index s"
  shows "kernel_inv t"
proof -
  have "cur_node t \<noteq> NULL \<and> h_snode t (cur_node t) \<noteq> None"
    using assms(2) by (cases ns) (auto simp: ring_of_def split: option.splits)
  then show ?thesis by (intro kernel_inv_at [OF assms(1,3-)]) simp_all
qed

lemma kernel_ok_quanta:
  assumes ok: "kernel_ok Q ns s" and R: "\<And>q. map_option (\<lambda>c. (sn_p c, sn_next c)) (R q) = map_option (\<lambda>c. (sn_p c, sn_next c)) (h_snode s q)"
  shows "kernel_ok Q ns (s\<lparr>h_snode := R\<rparr>)"
proof -
  let ?t = "s\<lparr>h_snode := R\<rparr>"
  have "rpath R a ms b = rpath (h_snode s) a ms b" for a ms b by (rule rpath_cong) (rule R)
  then have ring: "ring_of ?t ns" using ok by (simp add: kernel_ok_def ring_of_def)
  have "kernel_inv ?t" by (rule kernel_inv_ring [OF _ ring, of s]) (use ok in \<open>simp_all add: kernel_ok_def\<close>)
  then show ?thesis
    by (rule kernel_ok_frame [OF ok])
      (use ok ring in \<open>auto simp: kernel_ok_def free_pages_def free_stacks_def keeps_def the_proc_def waits_def runs_def\<close>)
qed

lemma kernel_ok_switch:
  assumes ok: "kernel_ok Q ((a, p) # rest) s" and over: "quantum_over s" and x: "h_proc s p = Some x" "p \<noteq> NULL"
    and some: "\<exists>w \<in> set (rest @ [(a, p)]). runs s (snd w)" and m: "MAX_PROCESSES \<le> m"
  obtains r t ms where "next_process n m rsp s = Ret r t" "kernel_ok Q ms t"
proof -
  obtain bs w es where split: "rest @ [(a, p)] = bs @ w # es" "runs s (snd w)" "\<forall>v \<in> set bs. \<not> runs s (snd v)"
    using split_list_first_prop [OF some] by blast
  obtain b q where w: "w = (b, q)" by (cases w)
  have mem: "set (rest @ [(a, p)]) = set ((a, p) # rest)" "mset (rest @ [(a, p)]) = mset ((a, p) # rest)" by simp_all
  then have sub: "(b, q) \<in> set ((a, p) # rest)" "set bs \<subseteq> set ((a, p) # rest)" unfolding split(1) w by auto
  obtain y where y: "q \<noteq> NULL" "h_proc s q = Some y" by (rule kernel_ok_known [OF ok sub(1)]) auto
  have "length (rest @ [(a, p)]) = length (bs @ w # es)" using split(1) by simp
  then have len: "length bs < m" using kernel_ok_length [OF ok] m by simp
  have wait: "\<forall>v \<in> set bs. snd v \<noteq> NULL \<and> waits s (snd v)" using sub(2) split(3) ok unfolding kernel_ok_def by blast
  have ring: "ring_of s ((a, p) # rest)" using ok by (simp add: kernel_ok_def)
  obtain t where t: "next_process n m rsp s = Ret (if q = p then rsp else p_rsp y) t" "cur_node t = b"
    "ring_of t ((b, q) # es @ bs)" "superlock t = UNLOCKED" "h_proc t = (h_proc s)(p \<mapsto> x\<lparr>p_rsp := rsp\<rparr>)"
    "prev_node t = (if bs = [] then a else fst (last bs))" "unscheduled t = unscheduled s"
    using next_process_switches [OF ring split(1) [unfolded w] x(2,1) y split(2) [unfolded w snd_conv] wait over len, of n rsp] by metis
  note u = unscheduled_fields [OF t(7)]
  have k: "kernel_inv t" by (rule kernel_inv_ring [OF _ t(3), of s]) (use ok u in \<open>simp_all add: kernel_ok_def\<close>)
  have "mset ((b, q) # es @ bs) = mset (rest @ [(a, p)])" unfolding split(1) w by simp
  then have perm: "mset ((b, q) # es @ bs) = mset ((a, p) # rest)" by simp
  have last: "last (bs @ (b, q) # es) = (a, p)" using split(1) w by (metis last_snoc)
  have prev: "prev_node t = fst (last ((b, q) # es @ bs))" using last t(6) by (cases bs) auto
  have "kernel_ok Q ((b, q) # es @ bs) t"
  proof (rule kernel_ok_frame [OF ok k t(4,3) perm u(10,11) _ _ _ prev])
    fix v assume "v \<in> set ((a, p) # rest)"
    then have "waits s (snd v) \<or> runs s (snd v)" using ok unfolding kernel_ok_def by blast
    then show "keeps s t (snd v) \<and> (waits t (snd v) \<or> runs t (snd v))"
      unfolding keeps_def the_proc_def waits_def runs_def t(5) using x(1) by auto
  qed (use u in \<open>simp_all add: free_pages_def free_stacks_def\<close>)
  then show thesis by (rule that [OF t(1)])
qed

lemma kernel_ok_tick:
  assumes ok: "kernel_ok Q ns s" and some: "\<exists>w \<in> set ns. runs s (snd w)" and m: "MAX_PROCESSES \<le> m"
  obtains r t ms where "next_process n m rsp s = Ret r t" "kernel_ok Q ms t"
proof -
  obtain a p rest c x where r: "ns = (a, p) # rest" "cur_node s = a" "a \<noteq> NULL" "h_snode s a = Some c" "sn_p c = p" "p \<noteq> NULL"
    "h_proc s p = Some x" by (rule kernel_ok_ring [OF ok])
  show thesis
  proof (cases "quantum c \<le> 1")
    case True
    have "quantum_over s" using ok r(2,4) True by (simp add: quantum_over_def kernel_ok_def)
    then show thesis using kernel_ok_switch [OF ok [unfolded r(1)] _ r(7,6) _ m] some that r(1) by (metis (no_types, lifting) Un_commute rotate1.simps(2) set_rotate1)
  next
    case False
    then have "next_process n m rsp s = Ret rsp (s\<lparr>h_snode := (h_snode s)(a \<mapsto> c\<lparr>quantum := quantum c - 1\<rparr>)\<rparr>)"
      using r(2-4) by (simp add: next_process_def unassign_quantum_def put_snode_def)
    moreover have "kernel_ok Q ns (s\<lparr>h_snode := (h_snode s)(a \<mapsto> c\<lparr>quantum := quantum c - 1\<rparr>)\<rparr>)"
      by (rule kernel_ok_quanta [OF ok]) (use r(4) in simp)
    ultimately show thesis by (rule that)
  qed
qed

text \<open>Changes of the status and of the foreground.\<close>

lemma kernel_ok_procs:
  assumes ok: "kernel_ok Q ns s"
    and keep: "\<And>w. w \<in> set ns \<Longrightarrow> keeps s (s\<lparr>h_proc := P, foreground := f\<rparr>) (snd w) \<and>
      (waits (s\<lparr>h_proc := P, foreground := f\<rparr>) (snd w) \<or> runs (s\<lparr>h_proc := P, foreground := f\<rparr>) (snd w))"
  shows "kernel_ok Q ns (s\<lparr>h_proc := P, foreground := f\<rparr>)"
proof -
  let ?t = "s\<lparr>h_proc := P, foreground := f\<rparr>"
  have ring: "ring_of ?t ns" using ok by (simp add: kernel_ok_def ring_of_def)
  have "kernel_inv ?t" by (rule kernel_inv_ring [OF _ ring, of s]) (use ok in \<open>simp_all add: kernel_ok_def\<close>)
  then show ?thesis
    by (rule kernel_ok_frame [OF ok]) (use ok ring keep in \<open>auto simp: kernel_ok_def free_pages_def free_stacks_def\<close>)
qed

definition live :: "status \<Rightarrow> bool" where
  "live st \<longleftrightarrow> st \<in> {READY, RUNNING, BLOCKED, BLOCKED_READ, BLOCKED_FOREGROUND}"

lemma kernel_ok_status:
  assumes ok: "kernel_ok Q ns s" and x: "h_proc s p = Some x" and st: "live st"
  shows "kernel_ok Q ns (s\<lparr>h_proc := (h_proc s)(p \<mapsto> x\<lparr>p_st := st\<rparr>), foreground := f\<rparr>)"
proof (rule kernel_ok_procs [OF ok])
  fix w assume "w \<in> set ns"
  then have "waits s (snd w) \<or> runs s (snd w)" using ok by (simp add: kernel_ok_def)
  then show "keeps s (s\<lparr>h_proc := (h_proc s)(p \<mapsto> x\<lparr>p_st := st\<rparr>), foreground := f\<rparr>) (snd w) \<and>
      (waits (s\<lparr>h_proc := (h_proc s)(p \<mapsto> x\<lparr>p_st := st\<rparr>), foreground := f\<rparr>) (snd w) \<or>
       runs (s\<lparr>h_proc := (h_proc s)(p \<mapsto> x\<lparr>p_st := st\<rparr>), foreground := f\<rparr>) (snd w))"
    using x st by (auto simp: keeps_def the_proc_def waits_def runs_def live_def)
qed

lemma kernel_ok_foreground:
  assumes ok: "kernel_ok Q ns s"
  shows "kernel_ok Q ns (s\<lparr>foreground := f\<rparr>)"
proof -
  have "kernel_ok Q ns (s\<lparr>h_proc := h_proc s, foreground := f\<rparr>)"
    by (rule kernel_ok_procs [OF ok]) (use ok in \<open>auto simp: kernel_ok_def keeps_def waits_def runs_def the_proc_def\<close>)
  then show ?thesis by simp
qed

lemma kernel_ok_put_status:
  assumes "kernel_ok Q ns s" "h_proc s p = Some x" "live st"
  shows "kernel_ok Q ns (put_proc p (x\<lparr>p_st := st\<rparr>) s)"
proof -
  have "put_proc p (x\<lparr>p_st := st\<rparr>) s = s\<lparr>h_proc := (h_proc s)(p \<mapsto> x\<lparr>p_st := st\<rparr>), foreground := foreground s\<rparr>"
    by (simp add: put_proc_def)
  then show ?thesis using kernel_ok_status [OF assms] by (simp only:)
qed

lemma kernel_ok_block:
  assumes ok: "kernel_ok Q ns s" and p: "p \<in> snd ` set ns"
  shows "\<exists>t. block_process p s = Ret () t \<and> kernel_ok Q ns t" "\<exists>t. unblock_process p s = Ret () t \<and> kernel_ok Q ns t"
    "\<exists>t. block_read_process p s = Ret () t \<and> kernel_ok Q ns t" "\<exists>t. unblock_read_process p s = Ret () t \<and> kernel_ok Q ns t"
    "\<exists>t. block_foreground_process p s = Ret () t \<and> kernel_ok Q ns t"
    "\<exists>t. unblock_foreground_process p s = Ret () t \<and> kernel_ok Q ns t"
proof -
  obtain w where w: "w \<in> set ns" "p = snd w" using p by auto
  obtain x where x: "p \<noteq> NULL" "h_proc s p = Some x" unfolding w(2) by (rule kernel_ok_known [OF ok w(1)])
  note put = kernel_ok_put_status [OF ok x(2)]
  note defs = block_process_def unblock_process_def block_read_process_def unblock_read_process_def block_foreground_process_def
    unblock_foreground_process_def
  show "\<exists>t. block_process p s = Ret () t \<and> kernel_ok Q ns t" "\<exists>t. unblock_process p s = Ret () t \<and> kernel_ok Q ns t"
    "\<exists>t. block_read_process p s = Ret () t \<and> kernel_ok Q ns t" "\<exists>t. unblock_read_process p s = Ret () t \<and> kernel_ok Q ns t"
    "\<exists>t. block_foreground_process p s = Ret () t \<and> kernel_ok Q ns t"
    "\<exists>t. unblock_foreground_process p s = Ret () t \<and> kernel_ok Q ns t"
    using x ok put by (simp_all add: defs live_def)
qed

lemma kernel_ok_set_foreground:
  assumes ok: "kernel_ok Q ns s" and q: "q \<in> snd ` set ns"
  shows "\<exists>t. set_foreground_process q s = Ret () t \<and> kernel_ok Q ns t"
proof -
  obtain a p rest c x where r: "ns = (a, p) # rest" "cur_node s = a" "a \<noteq> NULL" "h_snode s a = Some c" "sn_p c = p"
    by (rule kernel_ok_ring [OF ok])
  obtain w where w: "w \<in> set ns" "q = snd w" using q by auto
  obtain y where y: "q \<noteq> NULL" "h_proc s q = Some y" unfolding w(2) by (rule kernel_ok_known [OF ok w(1)])
  have f: "\<exists>t. unblock_foreground_process q (s\<lparr>foreground := q\<rparr>) = Ret () t \<and> kernel_ok Q ns t"
    by (rule kernel_ok_block(6) [OF kernel_ok_foreground [OF ok] q])
  show ?thesis
    using r(2-5) y ok f by (simp add: set_foreground_process_def get_current_process_def set_foreground_force_process_def)
qed

section \<open>Steps that change what is held\<close>

text \<open>The running process gets other data pages.\<close>

lemma kernel_ok_owned:
  assumes ok: "kernel_ok Q ((a, p) # rest) s" and x: "h_proc s p = Some x"
    and y: "pages_counted y" "p_st y = p_st x" "p_pid y = p_pid x" "stack_page y = stack_page x"
    and t: "pages_inv t" "admin s t" "superlock t = UNLOCKED" "same_table s t" "h_proc t = (h_proc s)(p \<mapsto> y)"
    and new: "distinct (owned_pages y)" "set (owned_pages y) \<inter> (insert a (insert p (set (holdings s rest))) \<union> Q) = {}"
      "in_use t = Q \<union> (insert a (insert p (set (owned_pages y) \<union> set (holdings s rest))))"
  shows "kernel_ok Q ((a, p) # rest) t"
proof -
  have d: "distinct (holdings s ((a, p) # rest))" "Q \<inter> set (holdings s ((a, p) # rest)) = {}" using ok by (simp_all add: kernel_ok_def)
  have p: "p \<notin> snd ` set rest" using distinct_held [OF d(1)] by auto
  have same: "keeps s t (snd w)" if "w \<in> set rest" for w using that p t(5) by (auto simp: keeps_def the_proc_def)
  note h = keeps_holdings [OF same, of rest, simplified]
  have st: "waits t q = waits s q" "runs t q = runs s q" for q using t(5) x y(2) by (auto simp: waits_def runs_def)
  have hold: "holdings t ((a, p) # rest) = a # p # owned_pages y @ holdings s rest" "stacks_of t ((a, p) # rest) = stacks_of s ((a, p) # rest)"
    using h t(5) x y(4) by (simp_all add: held_def the_proc_def)
  have use: "in_use t = Q \<union> set (holdings t ((a, p) # rest))" unfolding hold new(3) by simp
  have counted: "pages_counted (the_proc t (snd w))" if "w \<in> set ((a, p) # rest)" for w
    using that same [of w] ok y(1) t(5) by (auto simp: kernel_ok_def keeps_def pages_counted_def owned_pages_def the_proc_def)
  have "process_table s ! i \<in> in_use t \<and> (\<exists>x. h_proc t (process_table s ! i) = Some x \<and> p_pid x = of_nat i)"
    if i: "i < MAX_PROCESSES" "process_table s ! i \<noteq> NULL" for i
  proof -
    have s: "table_ok s" "set (process_table s) - {NULL} = snd ` set ((a, p) # rest)" using ok by (simp_all add: kernel_ok_def)
    obtain z where z: "h_proc s (process_table s ! i) = Some z" "p_pid z = of_nat i" by (rule table_entry [OF s(1) i])
    have "process_table s ! i \<in> set (process_table s)" using s(1) i(1) by (simp add: table_ok_def)
    then have "process_table s ! i \<in> in_use t" unfolding use using s(2) i(2) held_nodes [of "(a, p) # rest" t] by blast
    then show ?thesis using z x y(3) t(5) by auto
  qed
  then have "table_ok t" using ok t(4) unfolding kernel_ok_def table_ok_def same_table_def by (metis (no_types, lifting))
  moreover have "kernel_inv t" using ok t(1) admin_facts [OF t(2)] by (simp add: kernel_ok_def kernel_inv_def)
  moreover have e: "h_snode t = h_snode s" "cur_node t = cur_node s" "prev_node t = prev_node s" "free_stacks t = free_stacks s"
    using t(2) admin_facts(7) [OF t(2)] by (simp_all add: admin_def)
  moreover have "ring_of t ((a, p) # rest)" using ok unfolding kernel_ok_def ring_of_def e by blast
  moreover have "distinct (holdings t ((a, p) # rest))" "Q \<inter> set (holdings t ((a, p) # rest)) = {}"
    unfolding hold using d new(1,2) by (auto simp: held_def)
  moreover have "p_pid (the_proc t p) = p_pid (the_proc s p)" using t(5) x y(3) by (simp add: the_proc_def)
  ultimately show ?thesis using ok t(3,4) use counted hold(2) unfolding kernel_ok_def st same_table_def by simp
qed

lemma kernel_ok_pages:
  assumes ok: "kernel_ok Q ((a, p) # rest) s" and x: "the_proc s p = x"
  shows "in_use s = Q \<union> insert a (insert p (set (owned_pages x) \<union> set (holdings s rest)))" "distinct (owned_pages x)"
    "set (owned_pages x) \<inter> (insert a (insert p (set (holdings s rest))) \<union> Q) = {}"
proof -
  have h: "holdings s ((a, p) # rest) = a # p # owned_pages x @ holdings s rest" by (simp add: held_def x)
  have k: "distinct (holdings s ((a, p) # rest))" "Q \<inter> set (holdings s ((a, p) # rest)) = {}"
    "in_use s = Q \<union> set (holdings s ((a, p) # rest))" using ok by (simp_all only: kernel_ok_def)
  show "in_use s = Q \<union> insert a (insert p (set (owned_pages x) \<union> set (holdings s rest)))" unfolding k(3) h by simp
  show "distinct (owned_pages x)" using k(1) unfolding h by simp
  show "set (owned_pages x) \<inter> (insert a (insert p (set (holdings s rest))) \<union> Q) = {}" using k(1,2) unfolding h by auto
qed

lemma kernel_ok_malloc:
  assumes ok: "kernel_ok Q ((a, p) # rest) s" and room: "free_pages s \<noteq> {}" "length (owned_pages (the_proc s p)) < MAX_DATA_PAGES"
  shows "\<exists>r t. sys_malloc (Suc n) amount s = Ret r t \<and> kernel_ok Q ((a, p) # rest) t"
proof -
  obtain c x where r: "cur_node s = a" "a \<noteq> NULL" "h_snode s a = Some c" "sn_p c = p" "p \<noteq> NULL" "h_proc s p = Some x" "pages_counted x"
    "the_proc s p = x" by (rule kernel_ok_ring [OF ok]) auto
  have inv: "pages_inv s" using ok by (simp add: kernel_ok_def kernel_inv_def)
  let ?g = "next_page s" and ?s = "paged_out s"
  note g = next_page_taken [OF inv room(1)]
  have get: "get_page (Suc n) s = Ret ?g ?s" using get_page_step [OF inv room(1), of n] by simp
  obtain y where y: "add_data_page p ?g ?s = Ret () (put_proc p y ?s)" "pages_counted y"
      "mset (owned_pages y) = add_mset ?g (mset (owned_pages x))" "p_st y = p_st x" "p_pid y = p_pid x" "stack_page y = stack_page x"
    using add_data_page_ok [of p ?s x ?g] r room(2) g(3) by auto
  let ?t = "put_proc p y ?s"
  have "sys_malloc (Suc n) amount s = Ret ?g ?t" using get y(1) r by (simp add: sys_malloc_def get_current_process_def)
  moreover have "kernel_ok Q ((a, p) # rest) ?t"
  proof (rule kernel_ok_owned [OF ok r(6) y(2,4-6)])
    note use = kernel_ok_pages(1) [OF ok r(8)] and d = kernel_ok_pages(2,3) [OF ok r(8)]
    have own: "set (owned_pages y) = insert ?g (set (owned_pages x))" using mset_eq_setD [of "owned_pages y" "?g # owned_pages x"] y(3) by simp
    have new: "?g \<notin> in_use s" "in_use ?t = insert ?g (in_use s)"
      using g(1,2) data.free_universe [OF inv] by (auto simp: in_use_def)
    have fresh: "?g \<notin> set (owned_pages x)" "?g \<notin> insert a (insert p (set (holdings s rest))) \<union> Q" using new(1) unfolding use by auto
    show "distinct (owned_pages y)" using mset_eq_imp_distinct_iff [of "owned_pages y" "?g # owned_pages x"] y(3) d(1) fresh(1) by simp
    show "set (owned_pages y) \<inter> (insert a (insert p (set (holdings s rest))) \<union> Q) = {}" unfolding own using d(2) fresh(2) by blast
    show "in_use ?t = Q \<union> insert a (insert p (set (owned_pages y) \<union> set (holdings s rest)))" unfolding new(2) use own by blast
    show "superlock ?t = UNLOCKED" using ok by (simp add: kernel_ok_def paged_out_def released_def pop_page_def put_proc_def)
    show "same_table s ?t" by (simp add: same_table_def put_proc_def)
  qed (use g(5) in simp_all)
  ultimately show ?thesis by blast
qed

lemma kernel_ok_free:
  assumes ok: "kernel_ok Q ((a, p) # rest) s" and g: "g \<in> set (owned_pages (the_proc s p))"
  shows "\<exists>r t. sys_free (Suc n) g s = Ret r t \<and> kernel_ok Q ((a, p) # rest) t"
proof -
  obtain c x where r: "cur_node s = a" "a \<noteq> NULL" "h_snode s a = Some c" "sn_p c = p" "p \<noteq> NULL" "h_proc s p = Some x" "pages_counted x"
    "the_proc s p = x" by (rule kernel_ok_ring [OF ok]) auto
  note use = kernel_ok_pages(1) [OF ok r(8)] and d = kernel_ok_pages(2,3) [OF ok r(8)]
  have inv: "pages_inv s" using ok by (simp add: kernel_ok_def kernel_inv_def)
  have gx: "g \<in> set (owned_pages x)" using g r(8) by simp
  obtain y where y: "remove_data_page p g s = Ret () (put_proc p y s)" "pages_counted y"
      "mset (owned_pages y) = mset (owned_pages x) - {#g#}" "p_st y = p_st x" "p_pid y = p_pid x" "stack_page y = stack_page x"
    using remove_data_page_ok [of p s x g] r gx by auto
  let ?s = "put_proc p y s" let ?t = "paged_in g ?s"
  have "g \<in> in_use ?s" using gx use by (simp add: in_use_def)
  then have page: "store_page (Suc n) g ?s = Ret 1 ?t" "pages_inv ?t" "free_pages ?t = insert g (free_pages s)"
    using store_page_step [of ?s g n] inv by simp_all
  have "sys_free (Suc n) g s = Ret 1 ?t" using y(1) page(1) r by (simp add: sys_free_def get_current_process_def)
  moreover have "kernel_ok Q ((a, p) # rest) ?t"
  proof (rule kernel_ok_owned [OF ok r(6) y(2,4-6) page(2)])
    have own: "mset (owned_pages y) = mset (remove1 g (owned_pages x))" using y(3) by simp
    have set: "set (owned_pages y) = set (owned_pages x) - {g}" using mset_eq_setD [OF own] d(1) by simp
    have new: "in_use ?t = in_use s - {g}" using page(3) by (auto simp: in_use_def)
    show "distinct (owned_pages y)" using mset_eq_imp_distinct_iff [OF own] d(1) by simp
    show "set (owned_pages y) \<inter> (insert a (insert p (set (holdings s rest))) \<union> Q) = {}" unfolding set using d(2) by blast
    have "g \<notin> insert a (insert p (set (holdings s rest))) \<union> Q" using gx d(2) by blast
    then show "in_use ?t = Q \<union> insert a (insert p (set (owned_pages y) \<union> set (holdings s rest)))" unfolding new use set by blast
    show "superlock ?t = UNLOCKED" using ok by (simp add: kernel_ok_def paged_in_def released_def push_page_def put_proc_def)
    show "same_table s ?t" by (simp add: same_table_def)
  qed simp_all
  ultimately show ?thesis by blast
qed

text \<open>A process is created behind the running one.\<close>

lemma set_update_hole:
  assumes "i < length xs" "xs ! i = e" "y \<noteq> e"
  shows "set (xs[i := y]) - {e} = insert y (set xs - {e})"
proof -
  have xs: "set xs = insert e (set (take i xs) \<union> set (drop (Suc i) xs))"
    using arg_cong [OF id_take_nth_drop [OF assms(1)], of set] assms(2) by auto
  have "set (xs[i := y]) = insert y (set (take i xs) \<union> set (drop (Suc i) xs))" using assms(1) by (simp add: upd_conv_take_nth_drop)
  with xs assms(3) show ?thesis by auto
qed

lemma rpath_insert:
  assumes path: "rpath R a ((a, p) # rest) a" "distinct (map fst ((a, p) # rest))" and c: "R a = Some c"
    and b: "b \<notin> fst ` set ((a, p) # rest)" "b \<noteq> NULL"
  shows "rpath (R(b \<mapsto> \<lparr>quantum = k, sn_p = q, sn_next = sn_next c\<rparr>, a \<mapsto> c\<lparr>sn_next := b\<rparr>)) a ((a, p) # (b, q) # rest) a"
proof -
  let ?R = "R(b \<mapsto> \<lparr>quantum = k, sn_p = q, sn_next = sn_next c\<rparr>, a \<mapsto> c\<lparr>sn_next := b\<rparr>)"
  have "rpath ?R (sn_next c) rest a = rpath R (sn_next c) rest a" by (rule rpath_cong) (use path(2) b(1) in auto)
  then show ?thesis using path(1) c b by auto
qed

lemma inserted_holdings:
  assumes "\<And>w. w \<in> set ((a, p) # rest) \<Longrightarrow> keeps s u (snd w)" "the_proc u q = y" "owned_pages y = []"
  shows "mset (holdings u ((a, p) # (b, q) # rest)) = mset (b # q # holdings s ((a, p) # rest))"
    "mset (stacks_of u ((a, p) # (b, q) # rest)) = mset (stack_page y # stacks_of s ((a, p) # rest))"
proof -
  let ?ns = "(a, p) # (b, q) # rest" and ?ms = "(a, p) # rest"
  note h = keeps_holdings [of ?ms s u, OF assms(1)]
  have new: "held u (b, q) = [b, q]" using assms(2,3) by (simp add: held_def)
  have "mset (holdings v ?ns) = mset (held v (b, q)) + mset (holdings v ?ms)" for v by simp
  then show "mset (holdings u ?ns) = mset (b # q # holdings s ?ms)" by (simp only: h(1) new) simp
  have "mset (stacks_of v ?ns) = add_mset (stack_page (the_proc v q)) (mset (stacks_of v ?ms))" for v by simp
  then show "mset (stacks_of u ?ns) = mset (stack_page y # stacks_of s ?ms)" by (simp only: h(2) assms(2)) simp
qed

lemma kernel_ok_each:
  assumes ok: "kernel_ok Q ms s"
    and keep: "\<And>w. w \<in> set ms \<Longrightarrow> keeps s u (snd w) \<and> waits u (snd w) = waits s (snd w) \<and> runs u (snd w) = runs s (snd w)"
    and v: "v \<in> set ms"
  shows "snd v \<noteq> NULL \<and> (waits u (snd v) \<or> runs u (snd v)) \<and> pages_counted (the_proc u (snd v))"
  using kernel_okD(5) [OF ok] keep [OF v] v unfolding keeps_def pages_counted_def owned_pages_def by metis

lemma kernel_ok_entered:
  assumes ok: "kernel_ok Q ((a, p) # rest) s" and c: "h_snode s a = Some c" "cur_node s = a"
    and t: "kernel_inv t" "table_ok t" "h_proc t = (h_proc s)(q \<mapsto> y)" "process_table t = (process_table s)[first_free s := q]"
      "free_pages t = free_pages s - {q}" "free_stacks t = free_stacks s - {stack_page y}" "h_snode t = h_snode s" "free_pages t \<noteq> {}"
    and q: "q \<in> free_pages s" "q \<noteq> NULL" "first_free s < MAX_PROCESSES"
    and y: "pages_counted y" "owned_pages y = []" "p_st y = READY" "stack_page y \<in> free_stacks s"
  shows "kernel_ok Q ((a, p) # (next_page t, q) # rest) (entered a (prev_node s)
    ((h_snode s)(next_page t \<mapsto> \<lparr>quantum = QUANTUM, sn_p = q, sn_next = sn_next c\<rparr>, a \<mapsto> c\<lparr>sn_next := next_page t\<rparr>)) t)"
    (is "kernel_ok Q ?ns (entered a _ ?R t)")
proof -
  let ?b = "next_page t" and ?u = "entered a (prev_node s) ?R t" and ?ms = "(a, p) # rest"
  note k = kernel_okD [OF ok]
  have inv: "pages_inv s" "pages_inv t" using k(1) t(1) by (simp_all add: kernel_inv_def)
  note b = next_page_taken [OF inv(2) t(8)]
  have universe: "q \<in> data_pages" "?b \<in> data_pages" "?b \<noteq> q" "?b \<in> free_pages s"
    using q(1) b(1) data.free_universe [OF inv(1)] data.free_universe [OF inv(2)] unfolding t(5) by auto
  have use: "in_use ?u = insert ?b (insert q (in_use s))" using b(2) universe q(1) t(5) by (auto simp: in_use_def)
  have fresh: "q \<notin> in_use s" "?b \<notin> in_use s" using q(1) universe by (simp_all add: in_use_def)
  have nodes: "fst ` set ?ms \<union> snd ` set ?ms \<subseteq> in_use s" using held_nodes [of ?ms s] unfolding k(10) by blast
  have ring: "ring_of ?u ?ns"
    using k(4) c nodes fresh rpath_insert [of "h_snode s" a p rest c ?b QUANTUM q] b(3) by (auto simp: ring_of_def)
  have kp: "kernel_inv (paged_out t)" using t(1) b(5) by (simp add: kernel_inv_def)
  have inv': "kernel_inv ?u" by (rule kernel_inv_ring [OF kp ring]) (simp_all add: entered_def)
  have tab: "table_ok ?u" by (rule table_ok_same [OF t(2)]) (use b(2) in auto)
  have old: "snd w \<noteq> q" if "w \<in> set ?ms" for w using that nodes fresh(1) by blast
  have same: "keeps s ?u (snd w)" "waits ?u (snd w) = waits s (snd w)" "runs ?u (snd w) = runs s (snd w)" if "w \<in> set ?ms" for w
    using old [OF that] t(3) by (simp_all add: keeps_def the_proc_def waits_def runs_def)
  have new: "the_proc ?u q = y" using t(3) by (simp add: the_proc_def)
  note hold = inserted_holdings(1) [of a p rest s ?u q y ?b, OF same(1) new y(2)] and st = inserted_holdings(2) [of a p rest s ?u q y ?b, OF same(1) new y(2)]
  have "stack_page y \<notin> set (stacks_of s ?ms)" unfolding k(12) [symmetric] using y(4) by simp
  then have stacks: "distinct (stacks_of ?u ?ns)" "process_stacks - free_stacks ?u = set (stacks_of ?u ?ns)"
    using k(11,12) mset_eq_imp_distinct_iff [OF st] mset_eq_setD [OF st] y(4) t(6) kernel_stacks_sub [OF k(1)] by auto
  have pages: "distinct (holdings ?u ?ns)" "set (holdings ?u ?ns) = insert ?b (insert q (set (holdings s ?ms)))"
    using mset_eq_imp_distinct_iff [OF hold] mset_eq_setD [OF hold] k(8,10) fresh universe(3) by auto
  have "length (process_table s) = 128" using k(2) by (simp add: table_ok_def)
  then have table: "set (process_table ?u) - {NULL} = snd ` set ?ns" "process_table ?u ! 0 \<noteq> NULL"
    using set_update_hole [of "first_free s" "process_table s" NULL q] first_free_slot(1) [OF q(3)] q(2,3) k(6,7) t(4)
    by (auto simp: nth_list_update)
  have "snd v \<noteq> NULL \<and> (waits ?u (snd v) \<or> runs ?u (snd v)) \<and> pages_counted (the_proc ?u (snd v))" if "v \<in> set ?ms" for v
    by (rule kernel_ok_each [OF ok _ that]) (use same in blast)
  moreover have "q \<noteq> NULL \<and> runs ?u q \<and> pages_counted (the_proc ?u q)" using t(3) new y(1,3) q(2) by (simp add: runs_def)
  ultimately have each: "snd w \<noteq> NULL \<and> (waits ?u (snd w) \<or> runs ?u (snd w)) \<and> pages_counted (the_proc ?u (snd w))" if "w \<in> set ?ns" for w
    using that by (cases "w = (?b, q)") auto
  have prev: "prev_node ?u = fst (last ?ns)" if "p_pid (the_proc ?u (snd (hd ?ns))) \<noteq> 0"
  proof -
    have "p_pid (the_proc s p) \<noteq> 0" using that same(1) [of "(a, p)"] by (simp add: keeps_def)
    then show ?thesis using kernel_ok_alone [OF ok] k(13) by (cases rest) simp_all
  qed
  have split: "Q \<inter> set (holdings ?u ?ns) = {}" "in_use ?u = Q \<union> set (holdings ?u ?ns)"
    unfolding pages(2) use using k(9,10) fresh by auto
  have lock: "superlock ?u = UNLOCKED" by simp
  show ?thesis
    unfolding kernel_ok_def using inv' tab lock ring each table pages(1) split stacks prev by blast
qed

lemma taken_nonempty: "1 < card A \<Longrightarrow> A - {x} \<noteq> {}"
proof
  assume A: "1 < card A" "A - {x} = {}"
  then have "A \<subseteq> {x}" by blast
  then have "card A \<le> 1" using card_mono [of "{x}" A] by simp
  with A(1) show False by simp
qed

lemma kernel_ok_exec:
  assumes ok: "kernel_ok Q ((a, p) # rest) s" and room: "1 < card (free_pages s)" "free_stacks s \<noteq> {}" "first_free s < MAX_PROCESSES"
    and name: "length name < MAX_PROCESS_NAME"
  obtains b q t where "sys_exec (Suc n) rip params name s = Ret (Returns (of_nat (first_free s))) t" "kernel_ok Q ((a, p) # (b, q) # rest) t"
    "process_table t = (process_table s)[first_free s := q]"
proof -
  obtain c x where r: "cur_node s = a" "a \<noteq> NULL" "h_snode s a = Some c" "sn_p c = p" "p \<noteq> NULL" "h_proc s p = Some x"
    by (rule kernel_ok_ring [OF ok]) auto
  note k = kernel_okD(1-4) [OF ok] and each = kernel_okD(5) [OF ok] and table = kernel_okD(6,7) [OF ok] and d = kernel_okD(8,9) [OF ok]
    and use = kernel_okD(10) [OF ok] and stacks = kernel_okD(11,12) [OF ok] and prev = kernel_okD(13) [OF ok]
  have inv: "pages_inv s" using k(1) by (simp add: kernel_inv_def)
  have ff: "first_free s \<noteq> 0" using first_free_slot(1) [OF room(3)] table(2) by metis
  have sub: "{a, p} \<union> fst ` set rest \<union> snd ` set rest \<subseteq> in_use s" using held_nodes [of "(a, p) # rest" s] unfolding use by auto
  have cur: "current_is p x s" using r sub by (auto simp: current_is_def in_use_def)
  have some: "free_pages s \<noteq> {}" using room(1) by auto
  let ?q = "next_page s" and ?y = "new_process s rip (parent_pid s x) name"
  obtain t where t: "create_process (Suc n) rip params name s = Ret ?q t" "h_proc t = (h_proc s)(?q \<mapsto> ?y)"
    "process_table t = (process_table s)[first_free s := ?q]" "n_processes t = n_processes s + 1"
    "free_pages t = free_pages s - {?q}" "free_stacks t = free_stacks s - {next_stack s}" "kernel_inv t"
    "h_snode t = h_snode s" "cur_node t = cur_node s" "prev_node t = prev_node s"
    by (rule create_process_ok [where n = n and rip = rip and params = params, OF k(1) some room(2,3) name cur])
  note q = next_page_taken [OF inv some]
  have st: "next_stack s \<in> free_stacks s" using get_stack_step [of s 0] k(1) room(2) by (simp add: kernel_inv_def)
  have y: "stack_page ?y = next_stack s" "pages_counted ?y" "owned_pages ?y = []" "p_st ?y = READY" "p_pid ?y = of_nat (first_free s)"
    by (simp_all add: new_process_def next_stack_def pages_counted_def owned_pages_def Let_def)
  have "free_pages t \<noteq> {}" unfolding t(5) by (rule taken_nonempty [OF room(1)])
  moreover have "table_ok t"
    by (rule table_ok_create [OF k(2) room(3) q(1) _ q(3) t(2) y(5) t(5,3,4)]) (use q(1) data.free_universe [OF inv] in blast)
  ultimately have u: "kernel_ok Q ((a, p) # (next_page t, ?q) # rest) (entered a (prev_node s)
    ((h_snode s)(next_page t \<mapsto> \<lparr>quantum = QUANTUM, sn_p = ?q, sn_next = sn_next c\<rparr>, a \<mapsto> c\<lparr>sn_next := next_page t\<rparr>)) t)"
    (is "kernel_ok Q _ ?u")
    by (intro kernel_ok_entered [OF ok r(3,1) t(7) _ t(2,3,5)]) (use t(6,8) q st y room(3) in simp_all)
  have inv': "pages_inv t" using t(7) by (simp add: kernel_inv_def)
  have "next_page t \<in> free_pages s" using next_page_taken(1) [OF inv' \<open>free_pages t \<noteq> {}\<close>] unfolding t(5) by blast
  then have ne: "cur_node t \<noteq> next_page t" using sub r(1) t(9) by (auto simp: in_use_def)
  have "add_process (Suc n) ?q t = Ret () ?u"
    using add_process_next [OF inv' \<open>free_pages t \<noteq> {}\<close>, of c n ?q] ne t(8-10) r(1-3) by simp
  moreover have "to_int (of_nat (first_free s)) = int (first_free s)" using room(3) by (intro to_int_of_nat) simp
  ultimately have "sys_exec (Suc n) rip params name s = Ret (Returns (of_nat (first_free s))) ?u"
    using t(1,2) q(3) y(5) ff by (simp add: sys_exec_def exec_process_def pid_process_def)
  then show thesis by (rule that [OF _ u]) (simp add: t(3))
qed

text \<open>The running process ends.\<close>

lemma set_update_clear:
  assumes "i < length xs" "\<And>j. j < length xs \<Longrightarrow> xs ! j = xs ! i \<Longrightarrow> j = i"
  shows "set (xs[i := e]) - {e} = set xs - {e} - {xs ! i}"
proof
  show "set (xs[i := e]) - {e} \<subseteq> set xs - {e} - {xs ! i}"
  proof
    fix v assume "v \<in> set (xs[i := e]) - {e}"
    then obtain j where j: "j < length xs" "xs[i := e] ! j = v" "v \<noteq> e" by (auto simp: in_set_conv_nth)
    then have ne: "j \<noteq> i" using assms(1) by auto
    then have "xs ! j = v" using j(2) by simp
    then show "v \<in> set xs - {e} - {xs ! i}" using ne assms(2) [OF j(1)] j by auto
  qed
  have "xs[i := e] ! j = xs ! j" if "j < length xs" "xs ! j \<noteq> xs ! i" for j using that by (cases "i = j") simp_all
  then show "set xs - {e} - {xs ! i} \<subseteq> set (xs[i := e]) - {e}" by (auto simp: in_set_conv_nth) metis
qed

lemma kernel_ok_wf:
  assumes ok: "kernel_ok Q ((a, p) # rest) s" and x: "h_proc s p = Some x"
  shows "process_wf p x s"
proof -
  have px: "the_proc s p = x" using x by (simp add: the_proc_def)
  note k = kernel_okD [OF ok] and pages = kernel_ok_pages [OF ok px]
  have "stack_page x \<in> process_stacks - free_stacks s" unfolding k(12) using px by simp
  moreover have "pages_counted x" using k(5) px by simp
  ultimately show ?thesis using x pages by (auto simp: process_wf_def pages_counted_def)
qed

lemma kernel_ok_unlinked:
  assumes ok: "kernel_ok Q ((a, p) # rest) s" and x: "h_proc s p = Some x" and i: "i < MAX_PROCESSES" "process_table s ! i = p"
    and pid: "p_pid (the_proc s p) \<noteq> 0" and ms: "mset ms = mset rest"
    and u: "ring_of u ms" "free_pages u = free_pages s \<union> insert a (insert p (set (owned_pages x)))"
      "free_stacks u = insert (stack_page x) (free_stacks s)" "process_table u = (process_table s)[i := NULL]" "n_processes u = n_processes s - 1"
      "h_proc u = (h_proc s)(p \<mapsto> x\<lparr>n_data_page := 0\<rparr>)" "kernel_inv u" "superlock u = UNLOCKED" "prev_node u = fst (last ms)"
  shows "kernel_ok Q ms u"
proof -
  have px: "the_proc s p = x" using x by (simp add: the_proc_def)
  note k = kernel_okD [OF ok] and pages = kernel_ok_pages [OF ok px]
  have p: "p \<noteq> NULL" using k(5) by simp
  have d: "p \<notin> snd ` set rest" using distinct_held [OF k(8)] by auto
  have same: "keeps s u (snd w)" "waits u (snd w) = waits s (snd w)" "runs u (snd w) = runs s (snd w)" if "w \<in> set rest" for w
    using that d u(6) by (auto simp: keeps_def the_proc_def waits_def runs_def)
  have set: "set ms = set rest" using mset_eq_setD [OF ms] .
  note h = keeps_holdings [of rest s u, OF same(1)] permuted_holdings [OF ms, of u]
  have hs: "holdings s ((a, p) # rest) = a # p # owned_pages x @ holdings s rest" by (simp add: held_def px)
  have hold: "distinct (holdings u ms)" "set (holdings u ms) = set (holdings s rest)" using h k(8) by simp_all
  have use: "Q \<inter> set (holdings u ms) = {}" "in_use u = Q \<union> set (holdings u ms)"
    using pages k(8,9) u(2) unfolding hold(2) in_use_def hs by auto
  have stacks: "distinct (stacks_of u ms)" "process_stacks - free_stacks u = set (stacks_of u ms)"
    using h k(11,12) px unfolding u(3) by auto
  have one: "j = i" if "j < length (process_table s)" "process_table s ! j = process_table s ! i" for j
    using that table_pid [OF k(2) _ _ p x] i k(2) by (simp add: table_ok_def) metis
  have len: "i < length (process_table s)" using k(2) i(1) by (simp add: table_ok_def)
  have "unat (p_pid x) \<noteq> 0" using pid px by (simp add: unat_eq_0)
  then have "i \<noteq> 0" using table_pid [OF k(2) i p x] by simp
  then have table: "set (process_table u) - {NULL} = snd ` set ms" "process_table u ! 0 \<noteq> NULL"
    using set_update_clear [OF len one] k(6,7) d i(2) unfolding u(4) set by auto
  have "insert a (insert p (set (owned_pages x))) \<inter> set (process_table s) \<subseteq> {p}"
  proof -
    have "snd ` set rest \<subseteq> set (holdings s rest)" using held_nodes [of rest s] by blast
    moreover have "NULL \<notin> insert a (set (owned_pages x))" using k(4) by (auto simp: ring_of_def owned_pages_def)
    moreover have "set (process_table s) \<subseteq> insert NULL (insert p (snd ` set rest))" using k(6) by auto
    moreover have "insert a (set (owned_pages x)) \<inter> set (holdings s rest) = {}" using pages(3) k(8) unfolding hs by auto
    ultimately show ?thesis by blast
  qed
  then have tab: "table_ok u"
    by (rule table_ok_destroy [OF k(2) i p, where x = "x\<lparr>n_data_page := 0\<rparr>" and t = u]) (use u in simp_all)
  have each: "snd w \<noteq> NULL \<and> (waits u (snd w) \<or> runs u (snd w)) \<and> pages_counted (the_proc u (snd w))" if w: "w \<in> set ms" for w
    using k(5) same [of w] w set unfolding keeps_def pages_counted_def owned_pages_def by (metis list.set_intros(2))
  show ?thesis unfolding kernel_ok_def using u(1,7-9) tab each table hold(1) use stacks by blast
qed

lemma kernel_ok_leave:
  assumes ok: "kernel_ok Q ((a, p) # rest) s" and bg: "foreground s \<noteq> p" "p_pid (the_proc s p) \<noteq> 0"
    and some: "\<exists>w \<in> set rest. runs s (snd w)" and m: "MAX_PROCESSES \<le> m"
  obtains r t ms where "end_process (Suc n) m s = Ret r t" "kernel_ok Q ms t"
proof -
  note k = kernel_okD [OF ok]
  obtain x where x: "p \<noteq> NULL" "h_proc s p = Some x" "the_proc s p = x" by (rule kernel_ok_ring [OF ok]) auto
  note pages = kernel_ok_pages [OF ok x(3)]
  obtain i where i: "i < MAX_PROCESSES" "process_table s ! i = p" by (rule kernel_ok_entry [OF ok, of "(a, p)"]) auto
  obtain bs w es where split: "rest = bs @ w # es" "runs s (snd w)" "\<forall>v \<in> set bs. \<not> runs s (snd v)"
    using split_list_first_prop [OF some] by blast
  obtain b q where w: "w = (b, q)" by (cases w)
  have d: "a \<noteq> p" "p \<notin> snd ` set rest" using distinct_held [OF k(8)] by auto
  have q: "q \<noteq> p" "q \<noteq> NULL" using d(2) k(5) split(1) w by auto
  obtain y where y: "h_proc s q = Some y" using split(2) w by (auto simp: runs_def split: option.splits)
  have wait: "\<forall>v \<in> set bs. snd v \<noteq> NULL \<and> snd v \<noteq> p \<and> waits s (snd v)" using k(5) d(2) split(1,3) by auto
  have bound: "length bs < m" using kernel_ok_length [OF ok] m split(1) by simp
  have ring: "ring_of s ((a, p) # bs @ (b, q) # es)" "prev_node s = fst (last (bs @ (b, q) # es))"
    using k(4,13) bg(2) kernel_ok_alone [OF ok bg(2)] split(1) w by simp_all
  have own: "a \<in> in_use s" "a \<notin> set (owned_pages x)" "runs s q" using pages split(2) w by auto
  obtain u where u: "end_process (Suc n) m s = Ret (Switch_To (p_rsp y)) u" "ring_of u ((b, q) # es @ bs)" "cur_node u = b"
    "free_pages u = free_pages s \<union> insert a (insert p (set (owned_pages x)))" "free_stacks u = insert (stack_page x) (free_stacks s)"
    "process_table u = (process_table s)[i := NULL]" "n_processes u = n_processes s - 1" "foreground u = foreground s"
    "h_proc u = (h_proc s)(p \<mapsto> x\<lparr>n_data_page := 0\<rparr>)" "kernel_inv u" "superlock u = UNLOCKED" "prev_node u = fst (last ((b, q) # es @ bs))"
    by (rule end_process_ok [where n = n and m = m, OF k(1,2) i x(1) kernel_ok_wf [OF ok x(2)] bg(1) ring own(1) d(1) own(2) q y own(3) wait bound])
  have "mset ((b, q) # es @ bs) = mset rest" unfolding split(1) w by simp
  then have "kernel_ok Q ((b, q) # es @ bs) u" by (rule kernel_ok_unlinked [OF ok x(2) i bg(2) _ u(2,4-7,9-12)])
  then show thesis by (rule that [OF u(1)])
qed

lemma ring_next:
  assumes "ring_of s ns" "h_snode s (cur_node s) = Some c"
  shows "sn_next c \<noteq> NULL \<and> h_snode s (sn_next c) \<noteq> None"
proof -
  obtain w ws where ns: "ns = w # ws" using assms(1) by (cases ns) (auto simp: ring_of_def)
  show ?thesis using assms unfolding ns by (cases ws) (auto simp: ring_of_def split: option.splits)
qed

lemma kernel_ok_yield:
  assumes ok: "kernel_ok Q ns s"
  obtains t k where "sys_yield s = Yld t k" "kernel_ok Q ns t" "h_proc t = h_proc s"
proof -
  obtain a p rest c where r: "ns = (a, p) # rest" "cur_node s = a" "a \<noteq> NULL" "h_snode s a = Some c"
    by (rule kernel_ok_ring [OF ok])
  have "sn_next c \<noteq> NULL \<and> h_snode s (sn_next c) \<noteq> None" using ring_next [OF kernel_okD(4) [OF ok]] r by simp
  then obtain d where d: "sn_next c \<noteq> NULL" "h_snode s (sn_next c) = Some d" by blast
  let ?R = "(h_snode s)(sn_next c \<mapsto> d\<lparr>quantum := quantum d + 1\<rparr>)"
  obtain c' where c': "?R a = Some c'" "sn_p c' = sn_p c" "sn_next c' = sn_next c"
    using r(4) d(2) by (cases "a = sn_next c") auto
  let ?t = "s\<lparr>h_snode := ?R(a \<mapsto> c'\<lparr>quantum := 0\<rparr>)\<rparr>"
  have "kernel_ok Q ns ?t" by (rule kernel_ok_quanta [OF ok]) (use r(4) d(2) c'(2,3) in auto)
  moreover have "\<exists>k. sys_yield s = Yld ?t k"
    using r(2-4) d c'(1) by (simp add: sys_yield_def yield_process_def put_snode_def Let_def)
  ultimately show thesis using that [of ?t] by auto
qed

section \<open>Sequences of steps\<close>

text \<open>
  What can happen to the kernel: a system call of the running process, a timer interrupt, the handler of the interrupt \<open>int 70h\<close> that
  \<open>sys_yield\<close> raises, or a change of the status of a process by the synchronisation code and the keyboard. An interrupt carries the stack pointer
  that the process has at that moment.
\<close>

datatype kcall = Call_Exec u64 u64 string | Call_End | Call_Malloc u64 | Call_Free u64 | Call_Foreground u64 | Call_Yield u64 | Timer_Tick u64 |
  Block ptr | Unblock ptr | Block_Read ptr | Unblock_Read ptr

definition do_call :: "nat \<Rightarrow> nat \<Rightarrow> kcall \<Rightarrow> kstate \<Rightarrow> unit kres" where
  "do_call n m c s =
     (case c of
        Call_Exec rip params name \<Rightarrow> bnd (sys_exec n rip params name s) (\<lambda>_ s. Ret () s)
      | Call_End \<Rightarrow> bnd (sys_end n m s) (\<lambda>_ s. Ret () s)
      | Call_Malloc amount \<Rightarrow> bnd (sys_malloc n amount s) (\<lambda>_ s. Ret () s)
      | Call_Free g \<Rightarrow> bnd (sys_free n g s) (\<lambda>_ s. Ret () s)
      | Call_Foreground pid \<Rightarrow> bnd (sys_set_foreground pid s) (\<lambda>_ s. Ret () s)
      | Call_Yield rsp \<Rightarrow> (case sys_yield s of Yld t k \<Rightarrow> bnd (next_process n m rsp t) (\<lambda>_ s. Ret () s)
          | Ret r t \<Rightarrow> Ret () t | Fault e \<Rightarrow> Fault e)
      | Timer_Tick rsp \<Rightarrow> bnd (next_process n m rsp s) (\<lambda>_ s. Ret () s)
      | Block p \<Rightarrow> block_process p s
      | Unblock p \<Rightarrow> unblock_process p s
      | Block_Read p \<Rightarrow> block_read_process p s
      | Unblock_Read p \<Rightarrow> unblock_read_process p s)"

text \<open>
  The steps that the development follows. The conditions exclude calls that the kernel does not serve: a name that is too long overruns its
  buffer, a process created without a page is written through a null pointer, a search among blocked processes does not end
  (\<open>next_process_returns_iff\<close>), a page beyond the 64 of a process is lost, and \<open>init\<close> must not end. They also leave aside the end
  of the process in the foreground, which hands the foreground to its parent.
\<close>

definition processes :: "kstate \<Rightarrow> ptr set" where
  "processes s = set (process_table s) - {NULL}"

definition current_process :: "kstate \<Rightarrow> ptr" where
  "current_process s = sn_p (the (h_snode s (cur_node s)))"

definition served :: "kcall \<Rightarrow> kstate \<Rightarrow> bool" where
  "served c s =
     (let p = current_process s; x = the_proc s p
      in case c of
        Call_Exec rip params name \<Rightarrow>
          length name < MAX_PROCESS_NAME \<and> 1 < card (free_pages s) \<and> free_stacks s \<noteq> {} \<and> first_free s < MAX_PROCESSES
      | Call_End \<Rightarrow> foreground s \<noteq> p \<and> p_pid x \<noteq> 0 \<and> (\<exists>q \<in> processes s - {p}. runs s q)
      | Call_Malloc amount \<Rightarrow> free_pages s \<noteq> {} \<and> length (owned_pages x) < MAX_DATA_PAGES
      | Call_Free g \<Rightarrow> g \<in> set (owned_pages x)
      | Call_Foreground pid \<Rightarrow> True
      | Call_Yield rsp \<Rightarrow> \<exists>q \<in> processes s. runs s q
      | Timer_Tick rsp \<Rightarrow> \<exists>q \<in> processes s. runs s q
      | Block q \<Rightarrow> q \<in> processes s
      | Unblock q \<Rightarrow> q \<in> processes s
      | Block_Read q \<Rightarrow> q \<in> processes s
      | Unblock_Read q \<Rightarrow> q \<in> processes s)"

text \<open>A sequence of steps, without those that are not served.\<close>

primrec serve :: "nat \<Rightarrow> nat \<Rightarrow> kcall list \<Rightarrow> kstate \<Rightarrow> unit kres" where
  "serve n m [] s = Ret () s"
| "serve n m (c # cs) s = (if served c s then bnd (do_call n m c s) (\<lambda>_ s. serve n m cs s) else serve n m cs s)"

lemma kernel_ok_runs:
  assumes ok: "kernel_ok Q ns s" and some: "\<exists>q \<in> processes s. runs s q" and m: "MAX_PROCESSES \<le> m"
  obtains r t ms where "next_process n m rsp s = Ret r t" "kernel_ok Q ms t"
proof -
  have "\<exists>w \<in> set ns. runs s (snd w)" using some kernel_okD(6) [OF ok] by (auto simp: processes_def)
  then show thesis using kernel_ok_tick [OF ok _ m] that by metis
qed

lemma kernel_ok_current:
  assumes ok: "kernel_ok Q ns s"
  obtains a rest where "ns = (a, current_process s) # rest" "processes s - {current_process s} = snd ` set rest"
proof -
  obtain a p rest c where r: "ns = (a, p) # rest" "cur_node s = a" "h_snode s a = Some c" "sn_p c = p" by (rule kernel_ok_ring [OF ok])
  then have p: "current_process s = p" by (simp add: current_process_def)
  have "distinct (map snd ns)" using distinct_held [OF kernel_okD(8) [OF ok]] by simp
  then have "processes s - {p} = snd ` set rest" using kernel_okD(6) [OF ok] r(1) by (auto simp: processes_def)
  then show thesis using that [of a rest] r(1) unfolding p by blast
qed

lemma kernel_ok_sys_foreground:
  assumes ok: "kernel_ok Q ns s"
  shows "\<exists>r t. sys_set_foreground pid s = Ret r t \<and> kernel_ok Q ns t"
proof (cases "unat pid < MAX_PROCESSES \<and> process_table s ! unat pid \<noteq> NULL")
  case True
  let ?q = "process_table s ! unat pid"
  have "?q \<in> set (process_table s)" using True kernel_okD(2) [OF ok] by (simp add: table_ok_def)
  then have "?q \<in> snd ` set ns" unfolding kernel_okD(6) [OF ok, symmetric] using True by blast
  moreover from this have "waits s ?q \<or> runs s ?q" using kernel_okD(5) [OF ok] by auto
  then have "is_delete_process ?q s = Ret False s" using waits_eq [of ?q s] runs_eq [of ?q s] True by auto
  ultimately show ?thesis using True kernel_ok_set_foreground [OF ok, of ?q] by (auto simp: sys_set_foreground_def get_process_by_pid_def)
next
  case False
  then have "get_process_by_pid pid s = Ret NULL s" by (auto simp: get_process_by_pid_def)
  then show ?thesis using ok by (simp add: sys_set_foreground_def)
qed

text \<open>The requests of the running process for itself, then all steps.\<close>

definition own_call :: "kcall \<Rightarrow> bool" where
  "own_call c = (case c of Call_Exec rip params name \<Rightarrow> True | Call_End \<Rightarrow> True | Call_Malloc amount \<Rightarrow> True | Call_Free g \<Rightarrow> True | _ \<Rightarrow> False)"

lemma kernel_ok_own_call:
  assumes ok: "kernel_ok Q ns s" and fine: "served c s" and m: "MAX_PROCESSES \<le> m"
    and c: "own_call c"
  shows "\<exists>t ms. do_call (Suc n) m c s = Ret () t \<and> kernel_ok Q ms t"
proof -
  obtain a rest where ns: "ns = (a, current_process s) # rest" and others: "processes s - {current_process s} = snd ` set rest"
    by (rule kernel_ok_current [OF ok])
  note here = ok [unfolded ns]
  show ?thesis
  proof (cases c)
    case (Call_Exec rip params name)
    then have room: "1 < card (free_pages s)" "free_stacks s \<noteq> {}" "first_free s < MAX_PROCESSES" "length name < MAX_PROCESS_NAME"
      using fine by (simp_all add: served_def Let_def)
    show ?thesis
      by (rule kernel_ok_exec [OF here room, of n rip params]) (use Call_Exec in \<open>auto simp: do_call_def\<close>)
  next
    case Call_End
    then have "foreground s \<noteq> current_process s" "p_pid (the_proc s (current_process s)) \<noteq> 0" "\<exists>w \<in> set rest. runs s (snd w)"
      using fine others by (auto simp: served_def Let_def)
    then obtain r t ms where "end_process (Suc n) m s = Ret r t" "kernel_ok Q ms t" by (rule kernel_ok_leave [OF here _ _ _ m])
    then show ?thesis using Call_End by (auto simp: do_call_def sys_end_def)
  next
    case (Call_Malloc amount)
    then show ?thesis using kernel_ok_malloc [OF here, of n amount] fine ns by (auto simp: served_def do_call_def Let_def)
  next
    case (Call_Free g)
    then show ?thesis using kernel_ok_free [OF here, of g n] fine ns by (auto simp: served_def do_call_def Let_def)
  qed (use c in \<open>simp_all add: own_call_def\<close>)
qed

lemma kernel_ok_call:
  assumes ok: "kernel_ok Q ns s" and fine: "served c s" and m: "MAX_PROCESSES \<le> m"
  shows "\<exists>t ms. do_call (Suc n) m c s = Ret () t \<and> kernel_ok Q ms t"
proof -
  note own = kernel_ok_own_call [OF ok fine m]
  have all: "processes s = snd ` set ns" using kernel_okD(6) [OF ok] by (simp add: processes_def)
  show ?thesis
  proof (cases c)
    case (Call_Foreground pid)
    then show ?thesis using kernel_ok_sys_foreground [OF ok, of pid] by (auto simp: do_call_def)
  next
    case (Call_Yield rsp)
    obtain t k where t: "sys_yield s = Yld t k" "kernel_ok Q ns t" "h_proc t = h_proc s" by (rule kernel_ok_yield [OF ok])
    have "\<exists>q \<in> processes t. runs t q"
      using fine Call_Yield all kernel_okD(6) [OF t(2)] t(3) by (simp add: served_def Let_def processes_def runs_def)
    then obtain r u ms where "next_process (Suc n) m rsp t = Ret r u" "kernel_ok Q ms u" by (rule kernel_ok_runs [OF t(2) _ m])
    then show ?thesis using Call_Yield t(1) by (auto simp: do_call_def)
  next
    case (Timer_Tick rsp)
    then have "\<exists>q \<in> processes s. runs s q" using fine by (simp add: served_def Let_def)
    then obtain r u ms where "next_process (Suc n) m rsp s = Ret r u" "kernel_ok Q ms u" by (rule kernel_ok_runs [OF ok _ m])
    then show ?thesis using Timer_Tick by (auto simp: do_call_def)
  next
    case (Block q)
    then have "q \<in> snd ` set ns" using fine all by (simp add: served_def Let_def)
    then show ?thesis using kernel_ok_block(1) [OF ok] Block by (simp add: do_call_def) blast
  next
    case (Unblock q)
    then have "q \<in> snd ` set ns" using fine all by (simp add: served_def Let_def)
    then show ?thesis using kernel_ok_block(2) [OF ok] Unblock by (simp add: do_call_def) blast
  next
    case (Block_Read q)
    then have "q \<in> snd ` set ns" using fine all by (simp add: served_def Let_def)
    then show ?thesis using kernel_ok_block(3) [OF ok] Block_Read by (simp add: do_call_def) blast
  next
    case (Unblock_Read q)
    then have "q \<in> snd ` set ns" using fine all by (simp add: served_def Let_def)
    then show ?thesis using kernel_ok_block(4) [OF ok] Unblock_Read by (simp add: do_call_def) blast
  qed (use own in \<open>simp_all add: own_call_def\<close>)
qed

lemma kernel_ok_serve: "kernel_ok Q ns s \<Longrightarrow> \<exists>t ms. serve (Suc n) (MAX_PROCESSES + k) cs s = Ret () t \<and> kernel_ok Q ms t"
proof (induction cs arbitrary: s ns)
  case (Cons c cs)
  then show ?case using kernel_ok_call [OF Cons.prems, of c "MAX_PROCESSES + k" n] by (cases "served c s") fastforce+
qed auto

section \<open>From power on\<close>

text \<open>When \<open>init\<close> has opened the mutexes, it is the only process; five pages are taken by their queues.\<close>

lemma kernel_ok_first:
  assumes inv: "boot_inv kernel_locks u" and c: "cur_node u = a" "a \<noteq> NULL" "p \<noteq> NULL" "a \<noteq> p"
    and ring: "h_snode u = [a \<mapsto> \<lparr>quantum = k, sn_p = p, sn_next = a\<rparr>]" "h_proc u p = Some x" "p_pid x = 0" "p_st x = READY"
    and table: "process_table u = (replicate MAX_PROCESSES NULL)[0 := p]"
    and own: "process_stacks - free_stacks u = {stack_page x}" "pages_counted x" "owned_pages x = []" "a \<in> data_pages" "a \<notin> free_pages u"
  shows "kernel_ok (in_use u - {a, p}) [(a, p)] u"
proof -
  have k: "kernel_inv u" "table_ok u" "superlock u = UNLOCKED" using boot_inv_kernel [OF inv] inv by (simp_all add: boot_inv_def)
  have px: "the_proc u p = x" "held u (a, p) = [a, p]" using ring(2) own(3) by (simp_all add: the_proc_def held_def)
  have p: "p \<in> in_use u" by (rule table_entry [OF k(2), of 0]) (use table c(3) in simp_all)
  have "set ((replicate MAX_PROCESSES NULL)[0 := p]) - {NULL} = {p}" using c(3) by (auto simp: numeral_eq_Suc)
  moreover have "a \<in> in_use u" using own(4,5) by (simp add: in_use_def)
  ultimately show ?thesis
    using k c ring(1-3) table own(1,2) px p ring(4) by (auto simp: kernel_ok_def ring_of_def runs_def)
qed

lemma kernel_ok_booted:
  obtains rsp t u ns Q where "main_start (Suc n) vesa init (power_on jp jb ja mem v) = Ret (Switch_To rsp) t"
    "init_start (Suc n) shell t = Ret (Returns ()) u" "kernel_ok Q ns u" "card Q = 5"
proof -
  obtain p x a t where t: "main_start (Suc n) vesa init (power_on jp jb ja mem v) = Ret (Switch_To (p_rsp x)) t" "boot_inv (take 2 kernel_locks) t"
    "h_frame t (p_rsp x) = Some (start_frame init (p_rsp x) 0)" "cur_node t = a" "a \<noteq> NULL" "p \<noteq> NULL"
    "h_snode t = [a \<mapsto> \<lparr>quantum = QUANTUM, sn_p = p, sn_next = a\<rparr>]" "h_proc t p = Some x" "p_pid x = 0" "p_st x = READY"
    "process_table t = (replicate MAX_PROCESSES NULL)[0 := p]" "foreground t = p" "p \<notin> free_pages t" "a \<notin> free_pages t"
    "card (free_pages t) = 251" "card (free_stacks t) = 127"
    "process_stacks - free_stacks t = {stack_page x}" "pages_counted x" "owned_pages x = []" "a \<in> data_pages" "a \<noteq> p"
    by (rule main_start_ok [where n = n and vesa = vesa and init = init and jp = jp and jb = jb and ja = ja and mem = mem and v = v])
  have run: "running t" using t(4,5,7) by (simp add: running_def)
  obtain u1 u2 u where m: "initialize_memory_allocator_mutex (Suc n) t = Ret () u1" "initialize_stack_memory_allocator_mutex (Suc n) u1 = Ret () u2"
    "initialize_process_mutex (Suc n) u2 = Ret () u" "boot_inv kernel_locks u" "card (free_pages u) = 248" and sub: "free_pages u \<subseteq> free_pages t"
    and same: "h_proc u = h_proc t" "h_snode u = h_snode t" "cur_node u = cur_node t" "process_table u = process_table t" "foreground u = foreground t"
    "mem_key u = 2" "stack_key u = 3" "table_key u = 4" "free_stacks u = free_stacks t"
    by (rule init_mutexes_ok [where n = n, OF t(2) run t(15)])
  let ?Q = "in_use u - {a, p}"
  have first: "kernel_ok ?Q [(a, p)] u"
    by (rule kernel_ok_first [where k = QUANTUM, OF m(4) _ t(5,6,21) _ _ t(9,10) _ _ t(18-20)]) (use t sub same in auto)
  have inv: "pages_inv u" "finite (free_pages u)" using kernel_okD(1) [OF first] by (simp_all add: kernel_inv_def free_pages_def)
  have "card (in_use u) = card data_pages - card (free_pages u)"
    unfolding in_use_def by (rule card_Diff_subset) (use inv data.free_universe [OF inv(1)] in auto)
  then have used: "card (in_use u) = 7" using m(5) card_data_pages by simp
  moreover have "{a, p} \<subseteq> in_use u" using held_nodes [of "[(a, p)]" u] kernel_okD(10) [OF first] by auto
  ultimately have Q: "card ?Q = 5" using t(21) card_Diff_subset [of "{a, p}" "in_use u"] by simp
  have ff: "first_free u = 1" unfolding first_free_def by (rule scan_0_eqI) (use t(6) in \<open>simp_all add: same(4) t(11)\<close>)
  have room: "1 < card (free_pages u)" "free_stacks u \<noteq> {}" "first_free u < MAX_PROCESSES" "length ''shell'' < MAX_PROCESS_NAME"
    using m(5) ff same(9) t(16) by auto
  obtain b q s where s: "sys_exec (Suc n) shell 0 ''shell'' u = Ret (Returns (of_nat (first_free u))) s" "kernel_ok ?Q [(a, p), (b, q)] s"
    "process_table s = (process_table u)[first_free u := q]"
    by (rule kernel_ok_exec [where n = n and rip = shell and params = 0, OF first room])
  have q: "process_table s ! 1 = q" "q \<noteq> NULL" "waits s q \<or> runs s q"
    using s(3) ff same(4) t(11) kernel_okD(5) [OF s(2)] by simp_all
  then have "is_delete_process q s = Ret False s" using waits_eq [of q s] runs_eq [of q s] by auto
  then have "get_process_by_pid 1 s = Ret q s" using q by (simp add: get_process_by_pid_def)
  moreover obtain f where "set_foreground_process q s = Ret () f" "kernel_ok ?Q [(a, p), (b, q)] f"
    using kernel_ok_set_foreground [OF s(2), of q] by auto
  ultimately show thesis using that [OF t(1) _ _ Q, of f "[(a, p), (b, q)]"] m(1-3) s(1) by (simp add: init_start_def)
qed

lemma kernel_ok_counts:
  assumes "kernel_ok Q ns s"
  shows "card (free_pages s) + length (holdings s ns) + card Q = 255"
proof -
  note k = kernel_okD [OF assms]
  have inv: "free_pages s \<subseteq> data_pages" using data.free_universe [of s] k(1) by (simp add: kernel_inv_def)
  have fin: "finite data_pages" "finite (in_use s)" by (simp_all add: data_pages_def in_use_def)
  then have finQ: "finite Q" using k(10) by simp
  have "card data_pages = card (free_pages s) + card (in_use s)"
    using card_Diff_subset [OF finite_subset [OF inv fin(1)] inv] card_mono [OF fin(1) inv] by (simp add: in_use_def)
  moreover have "card (in_use s) = card Q + length (holdings s ns)"
    unfolding k(10) using card_Un_disjoint [OF finQ _ k(9)] distinct_card [OF k(8)] by simp
  ultimately show ?thesis using card_data_pages by simp
qed

text \<open>
  The steps that are left out are the exception: right after the start the kernel serves a new process, a timer interrupt, a yield and a
  request for memory.
\<close>

lemma first_steps_served:
  "\<exists>rsp t u. main_start (Suc n) vesa init (power_on jp jb ja mem v) = Ret (Switch_To rsp) t \<and> init_start (Suc n) shell t = Ret (Returns ()) u \<and>
    served (Call_Exec rip params ''p'') u \<and> served (Timer_Tick r) u \<and> served (Call_Yield r) u \<and> served (Call_Malloc k) u \<and>
    card (processes u) = 2"
proof -
  obtain p x a t where t: "main_start (Suc n) vesa init (power_on jp jb ja mem v) = Ret (Switch_To (p_rsp x)) t" "boot_inv (take 2 kernel_locks) t"
    "h_frame t (p_rsp x) = Some (start_frame init (p_rsp x) 0)" "cur_node t = a" "a \<noteq> NULL" "p \<noteq> NULL"
    "h_snode t = [a \<mapsto> \<lparr>quantum = QUANTUM, sn_p = p, sn_next = a\<rparr>]" "h_proc t p = Some x" "p_pid x = 0" "p_st x = READY"
    "process_table t = (replicate MAX_PROCESSES NULL)[0 := p]" "foreground t = p" "p \<notin> free_pages t" "a \<notin> free_pages t"
    "card (free_pages t) = 251" "card (free_stacks t) = 127"
    "process_stacks - free_stacks t = {stack_page x}" "pages_counted x" "owned_pages x = []" "a \<in> data_pages" "a \<noteq> p"
    by (rule main_start_ok [where n = n and vesa = vesa and init = init and jp = jp and jb = jb and ja = ja and mem = mem and v = v])
  obtain q y b u where u: "init_start (Suc n) shell t = Ret (Returns ()) u" "boot_inv kernel_locks u" "cur_node u = a" "a \<noteq> b" "b \<noteq> NULL" "q \<noteq> NULL"
    "h_snode u = [a \<mapsto> \<lparr>quantum = QUANTUM, sn_p = p, sn_next = b\<rparr>, b \<mapsto> \<lparr>quantum = QUANTUM, sn_p = q, sn_next = a\<rparr>]"
    "h_proc u p = Some x" "h_proc u q = Some y" "p_pid y = 1" "p_st y = READY" "p_name y = ''shell''"
    "h_frame u (p_rsp y) = Some (start_frame shell (p_rsp y) 0)"
    "process_table u = [p, q] @ replicate 126 NULL" "foreground u = q" "card (free_pages u) = 246" "card (free_stacks u) = 126"
    "mem_key u = 2" "stack_key u = 3" "table_key u = 4"
    by (rule init_start_ok [where n = n and shell = shell, OF t(2,4-16)])
  have "first_free u = 2"
    unfolding first_free_def by (rule scan_0_eqI) (use t(6) u(6) in \<open>auto simp: u(14) nth_Cons numeral_2_eq_2 split: nat.splits\<close>)
  moreover have "processes u = {p, q}" using t(6) u(6) by (auto simp: processes_def u(14))
  moreover have "p \<noteq> q" using t(9) u(8-10) by auto
  moreover have "runs u p" "current_process u = p" "the_proc u p = x"
    using t(10) u(3,7,8) t(5) u(4) by (simp_all add: runs_def current_process_def the_proc_def)
  moreover have "free_pages u \<noteq> {}" "free_stacks u \<noteq> {}" using u(16,17) by auto
  ultimately show ?thesis
    using t(1,19) u(1,16) by (intro exI [of _ "p_rsp x"] exI [of _ t] exI [of _ u]) (simp add: served_def)
qed

text \<open>When the 64 entries of a process are used up, the page that \<open>sys_malloc\<close> takes is in no list: it is never given back.\<close>

lemma malloc_loses_page:
  assumes "p \<noteq> NULL" "h_proc s p = Some x" "\<forall>i < MAX_DATA_PAGES. data_page x ! i \<noteq> NULL"
  shows "add_data_page p page s = Ret () s"
proof -
  have "scan MAX_DATA_PAGES (\<lambda>i. data_page x ! i = NULL) 0 = MAX_DATA_PAGES" using assms(3) by (simp add: scan_0_full_iff)
  then show ?thesis using assms(1,2) by (simp add: add_data_page_def)
qed


end
