(* ===== verification/Packer.thy ===== *)
theory Packer
  imports Module_Image
begin

text \<open>
  The command line of the packer (\<open>Toolchain/ModulePacker/main.c\<close>, \<open>modulePacker.h\<close>). The library \<open>argp\<close> of the host takes the
  command line apart and calls \<open>parse_opt\<close> for what it finds; the calls that it makes, each with the number of arguments so far, are a
  parameter, and \<open>argp_calls\<close> states what its manual says of them. The files of the host are a map from names to contents.
\<close>

section \<open>The options\<close>

abbreviation MAX_FILES :: nat where "MAX_FILES \<equiv> 128"
abbreviation OUTPUT_FILE :: string where "OUTPUT_FILE \<equiv> ''packedKernel.bin''"

record arguments =
  args :: "string option list"
  output_file :: string
  count :: nat

datatype opt_key = Key_Output string | Key_Arg string | Key_End | Key_Other

text \<open>\<open>argp_usage\<close> ends the program; a name behind the last element of \<open>args\<close> is written past the array.\<close>

datatype 'a parsed = Parsed 'a | Unknown_Key | Usage | Overrun

fun parse_opt :: "opt_key \<times> nat \<Rightarrow> arguments \<Rightarrow> arguments parsed" where
  "parse_opt (Key_Output f, arg_num) a = Parsed (a\<lparr>output_file := f\<rparr>)"
| "parse_opt (Key_Arg f, arg_num) a = (if arg_num < MAX_FILES then Parsed (a\<lparr>args := (args a)[arg_num := Some f]\<rparr>) else Overrun)"
| "parse_opt (Key_End, arg_num) a = (if arg_num < 1 then Usage else Parsed (a\<lparr>count := arg_num\<rparr>))"
| "parse_opt (Key_Other, arg_num) a = Unknown_Key"

primrec argp_parse :: "(opt_key \<times> nat) list \<Rightarrow> arguments \<Rightarrow> arguments parsed" where
  "argp_parse [] a = Parsed a"
| "argp_parse (c # cs) a =
     (case parse_opt c a of Parsed b \<Rightarrow> argp_parse cs b | Unknown_Key \<Rightarrow> argp_parse cs a | Usage \<Rightarrow> Usage | Overrun \<Rightarrow> Overrun)"

section \<open>The program\<close>

definition checkFiles :: "(string \<rightharpoonup> u8 list) \<Rightarrow> string list \<Rightarrow> bool" where
  "checkFiles files names \<longleftrightarrow> (\<forall>n \<in> set names. files n \<noteq> None)"

text \<open>
  The end of the program: its exit code with the files, or the exit of \<open>argp_usage\<close>. There is no result for too many names, for a name that was
  never stored, and for an output that is one of the inputs, which is cut to nothing before it is read.
\<close>

datatype outcome = Exit int "string \<rightharpoonup> u8 list" | Exit_Usage | Undefined

text \<open>\<open>creates\<close> tells whether a file of that name can be opened for writing.\<close>

definition packer_main :: "(string \<Rightarrow> bool) \<Rightarrow> (string \<rightharpoonup> u8 list) \<Rightarrow> (opt_key \<times> nat) list \<Rightarrow> outcome" where
  "packer_main creates files calls =
     (case argp_parse calls \<lparr>args = replicate MAX_FILES None, output_file = OUTPUT_FILE, count = 0\<rparr> of
        Usage \<Rightarrow> Exit_Usage
      | Parsed a \<Rightarrow>
          (let array = take (count a) (args a); names = map the array; out = output_file a
           in if None \<in> set array \<or> array = [] then Undefined
              else if \<not> checkFiles files names then Exit 1 files
              else if \<not> creates out then Exit 1 files
              else if out \<in> set names then Undefined
              else Exit 0 (files(out \<mapsto> buildImage (map (\<lambda>n. the (files n)) names))))
      | _ \<Rightarrow> Undefined)"

section \<open>What the program does\<close>

text \<open>
  The calls that \<open>argp\<close> makes for a command line with the names \<open>names\<close> and the outputs \<open>outs\<close>: the names in their order, each with the
  number of names in front of it, mixed with the options, and then once the end with the number of all names.
\<close>

definition arg_of :: "opt_key \<times> nat \<Rightarrow> (string \<times> nat) list" where
  "arg_of c = (case fst c of Key_Arg f \<Rightarrow> [(f, snd c)] | _ \<Rightarrow> [])"

definition output_of :: "opt_key \<times> nat \<Rightarrow> string list" where
  "output_of c = (case fst c of Key_Output f \<Rightarrow> [f] | _ \<Rightarrow> [])"

definition argp_calls :: "string list \<Rightarrow> string list \<Rightarrow> (opt_key \<times> nat) list \<Rightarrow> bool" where
  "argp_calls names outs calls \<longleftrightarrow>
     (\<exists>cs ks. calls = cs @ (Key_End, length names) # map (Pair Key_Other) ks \<and> Key_End \<notin> fst ` set cs \<and>
        concat (map arg_of cs) = zip names [0..<length names] \<and> concat (map output_of cs) = outs)"

lemma argp_parse_append:
  "argp_parse (cs @ ds) a = (case argp_parse cs a of Parsed b \<Rightarrow> argp_parse ds b | r \<Rightarrow> r)"
  by (induction cs arbitrary: a) (auto split: parsed.splits)

lemma argp_parse_others: "argp_parse (map (Pair Key_Other) ks) a = Parsed a"
  by (induction ks) auto

lemma argp_parse_names:
  assumes "Key_End \<notin> fst ` set cs" "\<forall>(f, k) \<in> set (concat (map arg_of cs)). k < MAX_FILES"
  shows "argp_parse cs a = Parsed (a\<lparr>args := foldl (\<lambda>xs (f, k). xs[k := Some f]) (args a) (concat (map arg_of cs)),
    output_file := last (output_file a # concat (map output_of cs))\<rparr>)"
  using assms
proof (induction cs arbitrary: a)
  case (Cons c cs)
  obtain key k where c: "c = (key, k)" by fastforce
  show ?case using Cons by (cases key) (auto simp: c arg_of_def output_of_def)
qed simp

lemma store_names:
  assumes "length names \<le> length xs" "j \<le> length names" "take j xs = map Some (take j names)"
  shows "take (length names) (foldl (\<lambda>xs (f, k). xs[k := Some f]) xs (drop j (zip names [0..<length names]))) = map Some names"
  using assms
proof (induction "length names - j" arbitrary: j xs)
  case 0
  then show ?case by simp
next
  case (Suc d)
  then have j: "j < length names" by simp
  have "drop j (zip names [0..<length names]) = (names ! j, j) # drop (Suc j) (zip names [0..<length names])"
    using j by (subst Cons_nth_drop_Suc [symmetric]) simp_all
  moreover have "take (Suc j) (xs[j := Some (names ! j)]) = map Some (take (Suc j) names)"
    using Suc.prems j by (simp add: take_Suc_conv_app_nth)
  ultimately show ?case using Suc.hyps(1) [of "Suc j" "xs[j := Some (names ! j)]"] Suc.hyps(2) Suc.prems j by simp
qed

lemma argp_parse_calls:
  assumes "argp_calls names outs calls" "length names \<le> MAX_FILES" "names \<noteq> []"
  obtains a where "argp_parse calls \<lparr>args = replicate MAX_FILES None, output_file = OUTPUT_FILE, count = 0\<rparr> = Parsed a"
    "take (count a) (args a) = map Some names" "output_file a = last (OUTPUT_FILE # outs)"
proof -
  obtain cs ks where calls: "calls = cs @ (Key_End, length names) # map (Pair Key_Other) ks" "Key_End \<notin> fst ` set cs"
    "concat (map arg_of cs) = zip names [0..<length names]" "concat (map output_of cs) = outs"
    using assms(1) unfolding argp_calls_def by blast
  have small: "\<forall>(f, k) \<in> set (concat (map arg_of cs)). k < MAX_FILES"
    unfolding calls(3) using assms(2) by (auto dest: set_zip_rightD)
  have "take (length names) (foldl (\<lambda>xs (f, k). xs[k := Some f]) (replicate MAX_FILES None) (zip names [0..<length names])) = map Some names"
    using store_names [of names "replicate MAX_FILES None" 0] assms(2) by simp
  moreover have "\<not> length names < 1" using assms(3) by (cases names) auto
  ultimately show thesis
    using that unfolding calls(1) argp_parse_append argp_parse_names [OF calls(2) small] calls(3,4)
    by (simp add: argp_parse_others)
qed

text \<open>
  The packer writes the image of the named files under the last name given for the output, or the default one, and leaves every other file
  alone; it writes nothing when a file cannot be read or the output not be created, and shows its usage when no name is given.
\<close>

theorem packer_writes_image:
  assumes "argp_calls names outs calls" "length names \<le> MAX_FILES" "names \<noteq> []" "last (OUTPUT_FILE # outs) \<notin> set names"
  shows "packer_main creates files calls =
    (if (\<forall>n \<in> set names. files n \<noteq> None) \<and> creates (last (OUTPUT_FILE # outs))
     then Exit 0 (files(last (OUTPUT_FILE # outs) \<mapsto> buildImage (map (\<lambda>n. the (files n)) names))) else Exit 1 files)"
proof -
  obtain a where a: "argp_parse calls \<lparr>args = replicate MAX_FILES None, output_file = OUTPUT_FILE, count = 0\<rparr> = Parsed a"
    "take (count a) (args a) = map Some names" "output_file a = last (OUTPUT_FILE # outs)"
    by (rule argp_parse_calls [OF assms(1-3)])
  then show ?thesis using assms(3,4) unfolding packer_main_def a(1)
    by (simp only: parsed.case Let_def a(2,3) map_map) (auto simp: checkFiles_def comp_def)
qed

lemma packer_usage:
  assumes "argp_calls [] outs calls"
  shows "packer_main creates files calls = Exit_Usage"
proof -
  obtain cs ks where calls: "calls = cs @ (Key_End, 0) # map (Pair Key_Other) ks" "Key_End \<notin> fst ` set cs" "concat (map arg_of cs) = []"
    using assms unfolding argp_calls_def by auto
  then show ?thesis
    using argp_parse_names [OF calls(2), of "\<lparr>args = replicate MAX_FILES None, output_file = OUTPUT_FILE, count = 0\<rparr>"]
    unfolding packer_main_def calls(1) argp_parse_append by simp
qed

lemma packer_writes_image_example:
  "packer_main (\<lambda>_. True) [''kernel'' \<mapsto> [9], ''shell'' \<mapsto> [7]]
     [(Key_Arg ''kernel'', 0), (Key_Output ''image'', 1), (Key_Arg ''shell'', 1), (Key_End, 2), (Key_Other, 2)] =
   Exit 0 [''kernel'' \<mapsto> [9], ''shell'' \<mapsto> [7], ''image'' \<mapsto> buildImage [[9], [7]]]"
proof -
  have "argp_calls [''kernel'', ''shell''] [''image'']
      [(Key_Arg ''kernel'', 0), (Key_Output ''image'', 1), (Key_Arg ''shell'', 1), (Key_End, 2), (Key_Other, 2)]"
    unfolding argp_calls_def
    by (intro exI [of _ "[(Key_Arg ''kernel'', 0), (Key_Output ''image'', 1), (Key_Arg ''shell'', 1)]"] exI [of _ "[2]"])
      (simp add: arg_of_def output_of_def upt_rec)
  from packer_writes_image [OF this, of "\<lambda>_. True" "[''kernel'' \<mapsto> [9], ''shell'' \<mapsto> [7]]"] show ?thesis by simp
qed

end
