(* ===== verification/Spec2Isabelle.thy ===== *)
theory Spec2Isabelle
  imports Syscall_Laws Module_Image Bmfs_Image Philosophers Shell_Laws Terminal_Laws Producer_Consumer User_Laws Int_List Boot Kernel_Runs Font_Rows Packer
begin

text \<open>
  Verification of a teaching kernel for x86-64 on the x64BareBones layout: the kernel (\<open>src/Kernel\<close>), the tool that packs the kernel
  image (\<open>src/Toolchain/ModulePacker\<close>), the disk utility (\<open>src/Bootloader/BMFS\<close>) and the user programs
  (\<open>src/Userland\<close>).

  The parts and how they interact.
  A process enters the kernel by a system call (\<open>systemCalls.c\<close>, \<open>handlers.c\<close>; theory \<open>System_Calls\<close>), which calls the
  process table (\<open>process.c\<close>; \<open>Process_Table\<close>), the scheduler (\<open>processManager.c\<close>; \<open>Scheduler\<close>), the page allocator
  (\<open>memoryAllocator.c\<close>; \<open>Sync_Core\<close>, \<open>Page_Allocator\<close>), the mutexes (\<open>kernelMutex.c\<close>; \<open>Sync_Core\<close>, \<open>Kernel_Mutex\<close>), the condition
  variables (\<open>condVariable.c\<close>; \<open>Cond_Variable\<close>), the FIFOs (\<open>fifo.c\<close>; \<open>Circular_Buffer\<close>, \<open>Fifo\<close>) and the drivers (\<open>keyboardDriver.c\<close>,
  \<open>videoDriver.c\<close>, \<open>font.c\<close>, \<open>timer.c\<close>; \<open>Keyboard_Driver\<close>, \<open>Video_Driver\<close>, \<open>Font\<close>, \<open>Timer\<close>).
  Page allocator, queue and mutex call each other: a mutex queues processes, a queue takes its nodes from the page allocator, and the
  allocator takes a mutex. Theory \<open>Sync_Core\<close> holds this knot with a bound on the nesting; the other theories are layers.
  The keyboard and timer interrupts wake processes that wait (\<open>irqDispatcher\<close>).
  On top of the system calls stand the terminal library (\<open>stdio.c\<close>; \<open>Terminal\<close>), the C library (\<open>lib.c\<close>, \<open>strings.c\<close>, \<open>ctype.c\<close>,
  \<open>random.c\<close>; \<open>C_Library\<close>), the shell with its commands (\<open>shell.c\<close>, \<open>commands.c\<close>, \<open>executer.c\<close>, \<open>process_info.c\<close>, \<open>ipc_info.c\<close>,
  \<open>time.c\<close>; \<open>Shell\<close>), the philosophers (\<open>philo.c\<close>; \<open>Philosophers\<close>) and the producer and the consumer (\<open>producerConsumer.c\<close>;
  \<open>Producer_Consumer\<close>). The list of integers (\<open>intLinkedlistADT.c\<close>; \<open>Int_List\<close>) takes its nodes from the page allocator.
  The sample user program has a library and a shell of its own (\<open>SampleCodeModule\<close>; \<open>User_Shell\<close>).
  Boot: the packer writes an image (\<open>ModulePacker/main.c\<close>; \<open>Packer\<close>, \<open>Module_Image\<close>) that the loader of the kernel takes apart (\<open>moduleLoader.c\<close>,
  \<open>kernel.c\<close>, \<open>naiveConsole.c\<close>, \<open>idtLoader.c\<close>; \<open>Module_Image\<close>); then \<open>main\<close> sets the kernel up and leaves for the first process, \<open>init\<close>,
  which starts the shell (\<open>kernel.c\<close>, \<open>init.c\<close>; \<open>Boot\<close>); the disk image is made by \<open>bmfs.c\<close> (\<open>Bmfs\<close>,
  \<open>Bmfs_Files\<close>, \<open>Bmfs_Image\<close>).

  State.
  \<open>Kernel_State.kstate\<close> is the memory that the routines of the kernel share: the global variables of the C files by their names, one heap per type
  of structure (a map from addresses), and the memory of bytes. A pointer is a 64-bit word and \<open>NULL\<close> is 0. A routine takes the state and gives
  \<open>Ret\<close> with a value and the new state, \<open>Yld\<close> where it waits for another process, or \<open>Fault\<close> where the C code is undefined, halts or
  goes on for ever. Machine integers are words or, where C computes in \<open>int\<close>, integers with their range checked
  (\<open>to_int\<close>, \<open>int_ok\<close>). The disk utility and the packer have states of their own.

  Interleaving.
  A routine that blocks ends in \<open>Yld\<close> with the rest of the routine as a continuation, and any number of other steps can come in between.
  \<open>Kernel_Mutex\<close> (schedules of locks, unlocks and kills) and \<open>Philosophers\<close> (steps between the locks) state invariants over all
  interleavings by rule induction.

  Fuel.
  The first number of a routine bounds the nesting of page allocator, queue and mutex, and the search of the scheduler has a bound of its own; \<open>Suc n\<close> is
  enough for every theorem about a mutex that is free, \<open>Suc (Suc n)\<close> for a reader, and the length of the ring for the scheduler. Loops over text have the
  length of the text. A theorem about a result states that the result is there: no theorem says only what happens when a routine returns.

  Lemmas.
  \<open>Queue_ADT\<close>, \<open>Circular_Buffer\<close>, \<open>Ring_Buffer\<close> and \<open>Keyboard_Driver\<close>: the buffers refine queues of values (the locale \<open>stream_buffer\<close> of
  \<open>Ring_Buffer\<close> is interpreted on the operations of the code, and so is \<open>page_pool\<close> of \<open>Page_Allocator\<close> on both allocators). \<open>Page_Allocator\<close> and \<open>Process_Table\<close>: no page and no stack is handed out twice,
  and a process gives back exactly what it owned. \<open>Scheduler\<close>: the ring is served in turn, and a process that can run gets its turn.
  \<open>Kernel_Mutex\<close>, \<open>Cond_Variable\<close>, \<open>Timer\<close>, \<open>Fifo\<close>: exclusion, hand-over and wake-up. \<open>C_Library\<close>, \<open>Terminal_Laws\<close> and \<open>Shell_Laws\<close>: from a typed line
  to the arguments of a process. \<open>User_Laws\<close>: the line that the user program reads and the text it prints.
  \<open>Producer_Consumer\<close> and \<open>Int_List\<close>: a bounded buffer and a list. \<open>Bmfs_Files\<close>, \<open>Module_Image\<close> and \<open>Packer\<close>: what was written is
  read back. \<open>Font_Rows\<close>: a glyph is drawn as the source draws it. \<open>Boot\<close>: from power on the kernel arrives in a state that satisfies the
  invariants that the other theories assume, with \<open>init\<close> and the shell in the table and in the ring. \<open>Kernel_Runs\<close> puts the process table, the
  scheduler, the allocators and the system calls together: an invariant of the whole kernel (\<open>kernel_ok\<close>) that holds after the start and that every
  step of the running kernel keeps, so that no page and no stack ever has two owners or is lost. The fuel \<open>MAX_PROCESSES\<close> of the search for the next process
  is enough because the ring has a node for each entry of the table at most.

  Not modelled.
  The assembly (interrupt entries, context switch, ports, the entries of the user program to the kernel) and the second stage boot loader Pure64, which
  is assembly as well. The library \<open>argp\<close> of the host, whose calls to the packer are a parameter. \<open>writer.c\<close> of the data module, a program of the
  host that writes a table of floating-point constants to a file. Interrupts arrive between the steps of a routine only where the text of a theory says so.
  Time is the number of timer interrupts; the clock chip is an argument (\<open>rtc\<close>).
\<close>

end
